(* ===== verification/Prelude.thy ===== *)
theory Prelude
  imports Main "HOL-Library.Word"
begin

text \<open>
  Shared vocabulary of the development: 128-bit blocks and their two reserved bits
  (\<^verbatim>\<open>LSB\<close>, \<^verbatim>\<open>LSB1\<close> of \<^verbatim>\<open>backend/helper.h\<close>), the bit-to-mask table
  \<^verbatim>\<open>select_mask\<close> as the code uses it, the error values that stand for the calls of
  \<^verbatim>\<open>error(..)\<close> (which abort the process), and the algebra of exclusive or
  that every protocol proof rests on.
\<close>

unbundle bit_operations_syntax

named_theorems xor_algebra \<open>normalisation of exclusive-or expressions over blocks and bytes\<close>

type_synonym block = "128 word"
type_synonym byte = "8 word"
type_synonym wire = nat

section \<open>Errors\<close>

text \<open>
  The calls of \<^verbatim>\<open>error(msg)\<close> in the code end the process. Each becomes a value of
  this type, in the order in which the headers raise them. The last three are not raised by the
  code: \<open>Out_Of_Bounds\<close> marks an array access with an index the code does not check,
  \<open>Null_Deref\<close> the use of a null pointer, \<open>Desynchronised\<close> two parties that do not make
  the same call, which would wait for each other.
\<close>

datatype ag2pc_error =
    Recorder_Id_Overflow
  | Operand_Never_Allocated
  | Invalid_Program
  | Not_Canonical
  | Duplicate_Constant
  | Wire_Bundle_Length
  | Label0_Length
  | Eval_Label_Length
  | Owners_Size_Mismatch
  | Owner_Not_Party
  | Share_Mac_Mismatch
  | Decode_Mac_Mismatch
  | Feq_Commit_Mismatch
  | Feq_Failed
  | Gamma_Check_Failed
  | Program_Input_Width
  | Materialize_Width
  | No_Carried_State
  | Keep_Stale
  | Stale_Operand
  | Arg_Unflushed
  | Recipient_Invalid
  | Value_Foreign
  | Keep_Foreign
  | Arg_Foreign
  | Arg_Width
  | Output_Width
  | Batch_Add_After_Finish
  | Batch_Finish_Twice
  | Input_Owner
  | Batch_Owner
  | Desynchronised
  | Out_Of_Bounds
  | Null_Deref

type_synonym 'a result = "ag2pc_error + 'a"

definition bind_result :: "'a result \<Rightarrow> ('a \<Rightarrow> 'b result) \<Rightarrow> 'b result" where
  "bind_result r f = (case r of Inl e \<Rightarrow> Inl e | Inr x \<Rightarrow> f x)"

lemma bind_result_simps [simp]:
  "bind_result (Inl e) f = Inl e"
  "bind_result (Inr x) f = f x"
  by (simp_all add: bind_result_def)

lemma bind_result_Inr:
  "bind_result r f = Inr y \<longleftrightarrow> (\<exists>x. r = Inr x \<and> f x = Inr y)"
  by (cases r) auto

text \<open>A fallible function over a list, stopping at the first error.\<close>

primrec map_result :: "('a \<Rightarrow> 'b result) \<Rightarrow> 'a list \<Rightarrow> 'b list result" where
  "map_result f [] = Inr []"
| "map_result f (x # xs) =
     bind_result (f x) (\<lambda>y. bind_result (map_result f xs) (\<lambda>ys. Inr (y # ys)))"

lemma map_result_Inr:
  "map_result f xs = Inr ys \<longleftrightarrow> list_all2 (\<lambda>x y. f x = Inr y) xs ys"
proof (induction xs arbitrary: ys)
  case (Cons x xs)
  then show ?case by (cases ys) (auto simp: bind_result_Inr)
qed auto

lemma map_result_ok: "(\<And>x. x \<in> set xs \<Longrightarrow> f x = Inr (g x)) \<Longrightarrow> map_result f xs = Inr (map g xs)"
  by (induction xs) simp_all

lemma map_result_Inl: "x \<in> set xs \<Longrightarrow> f x = Inl e \<Longrightarrow> \<exists>e'. map_result f xs = Inl e'"
  by (induction xs) (auto simp: bind_result_def split: sum.splits)

section \<open>Blocks, reserved bits, masks\<close>

text \<open>
  Bit 0 of a block carries a share bit; bit 1 carries the half-gate parity
  (\<^verbatim>\<open>bit0_mask\<close>, \<^verbatim>\<open>bit1_mask\<close>, \<^verbatim>\<open>LSB\<close>, \<^verbatim>\<open>LSB1\<close>).
\<close>

definition bit0_mask :: block where "bit0_mask = 1"
definition bit1_mask :: block where "bit1_mask = 2"

definition LSB :: "block \<Rightarrow> bool" where "LSB b = bit b 0"
definition LSB1 :: "block \<Rightarrow> bool" where "LSB1 b = bit b 1"

text \<open>
  \<open>sel b x\<close> is \<^verbatim>\<open>select_mask[b] & x\<close> for an index the code computes as a
  truth value: \<open>x\<close> if \<open>b\<close>, the zero block otherwise. \<open>select_mask_at\<close> is the table
  access itself, for an index taken from a received byte; the table has two entries.
\<close>

definition sel :: "bool \<Rightarrow> block \<Rightarrow> block" where
  "sel b x = (if b then x else 0)"

definition select_mask_at :: "byte \<Rightarrow> block result" where
  "select_mask_at i = (if i = 0 then Inr 0 else if i = 1 then Inr (- 1) else Inl Out_Of_Bounds)"

text \<open>A truth value stored in a byte (\<^verbatim>\<open>unsigned char\<close>), and read back as \<^verbatim>\<open>bool\<close>.\<close>

definition bbyte :: "bool \<Rightarrow> byte" where "bbyte b = (if b then 1 else 0)"
definition nz :: "byte \<Rightarrow> bool" where "nz x \<longleftrightarrow> x \<noteq> 0"

lemma nz_bbyte [simp]: "nz (bbyte b) = b"
  by (simp add: nz_def bbyte_def)

lemma bbyte_xor [simp]: "bbyte a XOR bbyte b = bbyte (a \<noteq> b)"
  by (simp add: bbyte_def)

lemma bbyte_xor_1 [simp]: "bbyte a XOR 1 = bbyte (\<not> a)"
  by (simp add: bbyte_def)

lemma bbyte_and_1 [simp]: "bbyte a AND 1 = bbyte a"
  by (simp add: bbyte_def)

lemma bbyte_inject [simp]: "bbyte a = bbyte b \<longleftrightarrow> a = b"
  by (simp add: bbyte_def)

lemma select_mask_bbyte [simp]: "select_mask_at (bbyte b) = Inr (sel b (- 1))"
  by (simp add: select_mask_at_def bbyte_def sel_def)

section \<open>Exclusive-or algebra\<close>

lemma xor_cancel_left [simp]: "x XOR (x XOR y) = y" for x y :: block
  by (simp add: xor.assoc [symmetric])

lemma xor_eq_swap: "x XOR y = z \<longleftrightarrow> x = z XOR y" for x y z :: block
  by (auto simp: xor.assoc)

lemma xor_eq_left: "x XOR y = z \<Longrightarrow> y = x XOR z" for x y z :: block
  by auto

lemma xor_cancel_iff [simp]:
  "x XOR y = x XOR z \<longleftrightarrow> y = z" for x y z :: block
proof
  assume "x XOR y = x XOR z"
  then have "x XOR (x XOR y) = x XOR (x XOR z)" by (rule arg_cong)
  then show "y = z" by (simp only: xor_cancel_left)
qed simp

lemma sel_simps [simp]: "sel True x = x" "sel False x = 0" "sel b 0 = 0"
  by (simp_all add: sel_def)

lemma sel_all_ones [simp]: "sel b (- 1) AND x = sel b x"
  by (simp add: sel_def)

lemma sel_neq [xor_algebra]: "sel (a \<noteq> b) x = sel a x XOR sel b x"
  by (simp add: sel_def)

lemma sel_eq [xor_algebra]: "sel (a = b) x = sel a x XOR sel b x XOR x"
  by (simp add: sel_def xor.commute)

lemma sel_not [xor_algebra]: "sel (\<not> a) x = sel a x XOR x"
  by (simp add: sel_def)

lemma sel_conj [xor_algebra]: "sel (a \<and> b) x = sel a (sel b x)"
  by (simp add: sel_def)

lemma sel_xor [xor_algebra]: "sel a (x XOR y) = sel a x XOR sel a y"
  by (simp add: sel_def)

lemma LSB_xor [simp]: "LSB (x XOR y) = (LSB x \<noteq> LSB y)"
  by (simp add: LSB_def bit_xor_iff)

lemma LSB1_xor [simp]: "LSB1 (x XOR y) = (LSB1 x \<noteq> LSB1 y)"
  by (simp add: LSB1_def bit_xor_iff)

lemma LSB_0 [simp]: "\<not> LSB 0"
  by (simp add: LSB_def)

lemma LSB1_0 [simp]: "\<not> LSB1 0"
  by (simp add: LSB1_def)

lemma LSB_sel [simp]: "LSB (sel b x) = (b \<and> LSB x)"
  by (simp add: sel_def)

lemma LSB1_sel [simp]: "LSB1 (sel b x) = (b \<and> LSB1 x)"
  by (simp add: sel_def)

lemma LSB_bit0_mask [simp]: "LSB bit0_mask"
  by (simp add: LSB_def bit0_mask_def)

lemma LSB1_bit0_mask [simp]: "\<not> LSB1 bit0_mask"
  by (simp add: LSB1_def bit0_mask_def)

lemmas xor_ac_block [xor_algebra] = xor.assoc [where 'a = "128 word"] xor.commute [where 'a = "128 word"]
  xor.left_commute [where 'a = "128 word"]

end
