(* ===== verification/Circuit.thy ===== *)
theory Circuit
  imports Prelude
begin

text \<open>
  Circuits as the backend consumes them: the stored \<^verbatim>\<open>BooleanProgram\<close>, the
  precondition \<^verbatim>\<open>ag2pc_require_record_canonical\<close> of \<^verbatim>\<open>backend/canonical.h\<close>,
  a live body as the tree of context operations it issues, the stream of gates such a source
  produces, and the interface every protocol pass offers to a source (locale \<open>lockstep\<close>):
  a pass is determined by what it does at each fresh gate, so all passes see one stream.
\<close>

section \<open>Stored programs\<close>

datatype op = Op_And | Op_Xor | Op_Not | Op_Const0 | Op_Const1

record gate =
  g_in0 :: wire
  g_in1 :: wire
  g_out :: wire
  g_op :: op

record program =
  p_gates :: "gate list"
  p_num_inputs :: nat
  p_num_wires :: nat
  p_outputs :: "wire list"

abbreviation mk_gate :: "wire \<Rightarrow> wire \<Rightarrow> wire \<Rightarrow> op \<Rightarrow> gate" where
  "mk_gate a b c f \<equiv> \<lparr>g_in0 = a, g_in1 = b, g_out = c, g_op = f\<rparr>"

definition is_const :: "gate \<Rightarrow> bool" where
  "is_const g \<longleftrightarrow> g_op g = Op_Const0 \<or> g_op g = Op_Const1"

definition is_not :: "gate \<Rightarrow> bool" where
  "is_not g \<longleftrightarrow> g_op g = Op_Not"

text \<open>The operands a gate reads, in order (\<^verbatim>\<open>in0\<close>, then \<^verbatim>\<open>in1\<close> unless NOT).\<close>

definition gate_operands :: "gate \<Rightarrow> wire list" where
  "gate_operands g = (if is_const g then [] else if is_not g then [g_in0 g] else [g_in0 g, g_in1 g])"

text \<open>
  The loop of \<^verbatim>\<open>ag2pc_require_record_canonical\<close>: every gate's output id is
  \<^verbatim>\<open>num_inputs + i\<close>, and each constant gate occurs at most once. The check
  \<^verbatim>\<open>validate_program\<close> of emp-tool runs first and is a parameter.
\<close>

fun canonical_loop :: "nat \<Rightarrow> nat \<Rightarrow> gate list \<Rightarrow> nat \<Rightarrow> nat \<Rightarrow> unit result" where
  "canonical_loop n i [] n_c0 n_c1 =
     (if n_c0 > 1 \<or> n_c1 > 1 then Inl Duplicate_Constant else Inr ())"
| "canonical_loop n i (g # gs) n_c0 n_c1 =
     (if g_out g \<noteq> n + i then Inl Not_Canonical
      else canonical_loop n (Suc i) gs
             (if g_op g = Op_Const0 then Suc n_c0 else n_c0)
             (if g_op g = Op_Const1 then Suc n_c1 else n_c1))"

definition require_record_canonical :: "(program \<Rightarrow> bool) \<Rightarrow> program \<Rightarrow> unit result" where
  "require_record_canonical validate p =
     (if \<not> validate p then Inl Invalid_Program
      else canonical_loop (p_num_inputs p) 0 (p_gates p) 0 0)"

definition record_canonical :: "program \<Rightarrow> bool" where
  "record_canonical p \<longleftrightarrow>
     (\<forall>i < length (p_gates p). g_out (p_gates p ! i) = p_num_inputs p + i) \<and>
     count_list (map g_op (p_gates p)) Op_Const0 \<le> 1 \<and>
     count_list (map g_op (p_gates p)) Op_Const1 \<le> 1"

lemma canonical_loop_ok:
  "canonical_loop n i gs c0 c1 = Inr () \<longleftrightarrow>
     (\<forall>j < length gs. g_out (gs ! j) = n + i + j) \<and>
     c0 + count_list (map g_op gs) Op_Const0 \<le> 1 \<and>
     c1 + count_list (map g_op gs) Op_Const1 \<le> 1"
proof (induction gs arbitrary: i c0 c1)
  case Nil
  then show ?case by auto
next
  case (Cons g gs)
  have "(\<forall>j < length (g # gs). g_out ((g # gs) ! j) = n + i + j) \<longleftrightarrow>
        g_out g = n + i \<and> (\<forall>j < length gs. g_out (gs ! j) = n + Suc i + j)"
    by (auto simp: less_Suc_eq_0_disj)
  then show ?case using Cons.IH by auto
qed

lemma require_record_canonical_ok:
  "require_record_canonical validate p = Inr () \<longleftrightarrow> validate p \<and> record_canonical p"
  by (simp add: require_record_canonical_def record_canonical_def canonical_loop_ok)

text \<open>
  What \<^verbatim>\<open>validate_program\<close> is documented to establish, for the part the engine
  relies on: operands are defined before they are read, and outputs are defined wires.
\<close>

definition topological :: "program \<Rightarrow> bool" where
  "topological p \<longleftrightarrow>
     (\<forall>i < length (p_gates p). \<forall>w \<in> set (gate_operands (p_gates p ! i)). w < p_num_inputs p + i) \<and>
     (\<forall>w \<in> set (p_outputs p). w < p_num_inputs p + length (p_gates p))"

section \<open>Sources: a circuit body as the context operations it issues\<close>

text \<open>
  The engine is generic in its source: a callable that issues gate operations on whatever pass
  it is given and returns the output wire ids. Such a callable is a tree of operations, each
  continued with the wire id the pass returned.
\<close>

datatype body =
    Ret "wire list"
  | PubG bool "wire \<Rightarrow> body"
  | AndG wire wire "wire \<Rightarrow> body"
  | XorG wire wire "wire \<Rightarrow> body"
  | NotG wire "wire \<Rightarrow> body"

record 'p ctx_ops =
  op_public_bit :: "bool \<Rightarrow> 'p \<Rightarrow> wire \<times> 'p"
  op_and_gate :: "wire \<Rightarrow> wire \<Rightarrow> 'p \<Rightarrow> wire \<times> 'p"
  op_xor_gate :: "wire \<Rightarrow> wire \<Rightarrow> 'p \<Rightarrow> wire \<times> 'p"
  op_not_gate :: "wire \<Rightarrow> 'p \<Rightarrow> wire \<times> 'p"

primrec drive :: "'p ctx_ops \<Rightarrow> body \<Rightarrow> 'p \<Rightarrow> wire list \<times> 'p" where
  "drive c (Ret ws) p = (ws, p)"
| "drive c (PubG v k) p = (case op_public_bit c v p of (w, p') \<Rightarrow> drive c (k w) p')"
| "drive c (AndG a b k) p = (case op_and_gate c a b p of (w, p') \<Rightarrow> drive c (k w) p')"
| "drive c (XorG a b k) p = (case op_xor_gate c a b p of (w, p') \<Rightarrow> drive c (k w) p')"
| "drive c (NotG a k) p = (case op_not_gate c a p of (w, p') \<Rightarrow> drive c (k w) p')"

section \<open>The gate stream of a source\<close>

text \<open>
  The events of the stream are the gates that allocate a fresh wire; a repeated public constant
  returns the cached wire and produces none. \<open>gate_stream n c0 c1 b\<close> is the returned output ids
  and the events, when ids are numbered from \<open>n\<close> and the caches \<^verbatim>\<open>c0_\<close>,
  \<^verbatim>\<open>c1_\<close> hold \<open>c0\<close>, \<open>c1\<close> (\<open>-1\<close>: no constant yet).
\<close>

datatype ev = EConst bool | EAnd wire wire | EXor wire wire | ENot wire

primrec gate_stream :: "body \<Rightarrow> nat \<Rightarrow> int \<Rightarrow> int \<Rightarrow> wire list \<times> ev list" where
  "gate_stream (Ret ws) n c0 c1 = (ws, [])"
| "gate_stream (PubG v k) n c0 c1 =
     (let c = (if v then c1 else c0) in
      if c < 0 then
        (case gate_stream (k n) (Suc n) (if v then c0 else int n) (if v then int n else c1) of
           (ws, es) \<Rightarrow> (ws, EConst v # es))
      else gate_stream (k (nat c)) n c0 c1)"
| "gate_stream (AndG a b k) n c0 c1 =
     (case gate_stream (k n) (Suc n) c0 c1 of (ws, es) \<Rightarrow> (ws, EAnd a b # es))"
| "gate_stream (XorG a b k) n c0 c1 =
     (case gate_stream (k n) (Suc n) c0 c1 of (ws, es) \<Rightarrow> (ws, EXor a b # es))"
| "gate_stream (NotG a k) n c0 c1 =
     (case gate_stream (k n) (Suc n) c0 c1 of (ws, es) \<Rightarrow> (ws, ENot a # es))"

abbreviation stream_of :: "nat \<Rightarrow> body \<Rightarrow> wire list \<times> ev list" where
  "stream_of n b \<equiv> gate_stream b n (- 1) (- 1)"

fun ev_reads :: "ev \<Rightarrow> wire list" where
  "ev_reads (EConst v) = []"
| "ev_reads (EAnd a b) = [a, b]"
| "ev_reads (EXor a b) = [a, b]"
| "ev_reads (ENot a) = [a]"

fun ev_is_gate :: "ev \<Rightarrow> bool" where
  "ev_is_gate (EConst v) = False"
| "ev_is_gate e = True"

fun ev_is_and :: "ev \<Rightarrow> bool" where
  "ev_is_and (EAnd a b) = True"
| "ev_is_and e = False"

definition num_gates :: "ev list \<Rightarrow> nat" where "num_gates es = length (filter ev_is_gate es)"
definition num_and_evs :: "ev list \<Rightarrow> nat" where "num_and_evs es = length (filter ev_is_and es)"

lemma num_gates_simps [simp]:
  "num_gates [] = 0"
  "num_gates (es @ [e]) = num_gates es + (if ev_is_gate e then 1 else 0)"
  by (simp_all add: num_gates_def)

lemma num_and_evs_simps [simp]:
  "num_and_evs [] = 0"
  "num_and_evs (es @ [e]) = num_and_evs es + (if ev_is_and e then 1 else 0)"
  by (simp_all add: num_and_evs_def)

text \<open>A stream is well formed when every operand is an input or an earlier output.\<close>

definition wf_stream :: "nat \<Rightarrow> ev list \<Rightarrow> bool" where
  "wf_stream n es \<longleftrightarrow> (\<forall>k < length es. \<forall>w \<in> set (ev_reads (es ! k)). w < n + k)"

lemma wf_stream_Nil [simp]: "wf_stream n []"
  by (simp add: wf_stream_def)

lemma wf_stream_snoc:
  "wf_stream n (es @ [e]) \<longleftrightarrow> wf_stream n es \<and> (\<forall>w \<in> set (ev_reads e). w < n + length es)"
  by (auto simp: wf_stream_def nth_append less_Suc_eq)

lemma wf_stream_nth:
  "wf_stream n es \<Longrightarrow> k < length es \<Longrightarrow> w \<in> set (ev_reads (es ! k)) \<Longrightarrow> w < n + k"
  by (simp add: wf_stream_def)

section \<open>The interface between a pass and a source\<close>

text \<open>
  Every pass context numbers fresh wires with a counter \<^verbatim>\<open>wid\<close>, caches the two public
  constants and otherwise acts on its own state: that is the contract. Whatever the source, driving
  the pass is then the same as applying its per-gate action to the gate stream in order.
\<close>

locale lockstep =
  fixes ops :: "'p ctx_ops"
    and wid :: "'p \<Rightarrow> nat"
    and const0 :: "'p \<Rightarrow> int"
    and const1 :: "'p \<Rightarrow> int"
    and emit :: "ev \<Rightarrow> 'p \<Rightarrow> 'p"
  assumes public_bit_cached:
      "(if v then const1 p else const0 p) \<ge> 0 \<Longrightarrow>
       op_public_bit ops v p = (nat (if v then const1 p else const0 p), p)"
    and public_bit_fresh:
      "(if v then const1 p else const0 p) < 0 \<Longrightarrow>
       op_public_bit ops v p = (wid p, emit (EConst v) p)"
    and and_gate: "op_and_gate ops a b p = (wid p, emit (EAnd a b) p)"
    and xor_gate: "op_xor_gate ops a b p = (wid p, emit (EXor a b) p)"
    and not_gate: "op_not_gate ops a p = (wid p, emit (ENot a) p)"
    and wid_emit: "wid (emit e p) = Suc (wid p)"
    and const0_emit: "const0 (emit e p) = (if e = EConst False then int (wid p) else const0 p)"
    and const1_emit: "const1 (emit e p) = (if e = EConst True then int (wid p) else const1 p)"
begin

lemma drive_stream:
  "drive ops b p =
     (fst (gate_stream b (wid p) (const0 p) (const1 p)),
      fold emit (snd (gate_stream b (wid p) (const0 p) (const1 p))) p)"
proof (induction b arbitrary: p)
  case (Ret ws)
  then show ?case by simp
next
  case (PubG v k)
  show ?case
  proof (cases "(if v then const1 p else const0 p) < 0")
    case True
    then show ?thesis using PubG.IH
      by (simp add: public_bit_fresh Let_def wid_emit const0_emit const1_emit split: prod.splits)
  next
    case False
    then show ?thesis using PubG.IH
      by (simp add: public_bit_cached Let_def split: prod.splits)
  qed
qed (simp_all add: and_gate xor_gate not_gate wid_emit const0_emit const1_emit split: prod.splits)

lemma wid_fold: "wid (fold emit es p) = wid p + length es"
  by (induction es arbitrary: p) (simp_all add: wid_emit)

end

section \<open>Cleartext semantics\<close>

text \<open>
  The cleartext value of every wire of a stream: inputs first, then one value per event. This is
  the oracle (\<^verbatim>\<open>ClearCtx\<close>) the tests compare against.
\<close>

fun clear_val :: "bool list \<Rightarrow> ev \<Rightarrow> bool" where
  "clear_val vs (EConst v) = v"
| "clear_val vs (EAnd a b) = (vs ! a \<and> vs ! b)"
| "clear_val vs (EXor a b) = (vs ! a \<noteq> vs ! b)"
| "clear_val vs (ENot a) = (\<not> vs ! a)"

definition clear_step :: "ev \<Rightarrow> bool list \<Rightarrow> bool list" where
  "clear_step e vs = vs @ [clear_val vs e]"

definition clear_run :: "bool list \<Rightarrow> ev list \<Rightarrow> bool list" where
  "clear_run ins es = fold clear_step es ins"

lemma clear_run_Nil [simp]: "clear_run ins [] = ins"
  by (simp add: clear_run_def)

lemma clear_run_snoc [simp]:
  "clear_run ins (es @ [e]) = clear_run ins es @ [clear_val (clear_run ins es) e]"
  by (simp add: clear_run_def clear_step_def)

lemma length_clear_run [simp]: "length (clear_run ins es) = length ins + length es"
  by (induction es rule: rev_induct) auto

text \<open>Values of earlier wires are not changed by later events.\<close>

lemma clear_run_take:
  "k \<le> length es \<Longrightarrow> w < length ins + k \<Longrightarrow> clear_run ins es ! w = clear_run ins (take k es) ! w"
proof (induction es rule: rev_induct)
  case (snoc e es)
  show ?case
  proof (cases "k \<le> length es")
    case True
    with snoc show ?thesis by (simp add: nth_append)
  next
    case False
    with snoc.prems have "k = Suc (length es)" by simp
    then show ?thesis by simp
  qed
qed simp

text \<open>In a well-formed stream each wire's value is the value of its event over the final store.\<close>

lemma clear_val_cong:
  "(\<And>w. w \<in> set (ev_reads e) \<Longrightarrow> us ! w = vs ! w) \<Longrightarrow> clear_val us e = clear_val vs e"
  by (cases e) auto

lemma clear_run_nth_snoc: "clear_run ins (es @ [e]) ! (length ins + length es) =
    clear_val (clear_run ins es) e"
  by (simp add: nth_append)

lemma clear_run_input: "w < length ins \<Longrightarrow> clear_run ins es ! w = ins ! w"
  using clear_run_take [of 0 es w ins] by simp

lemma clear_run_event:
  assumes "wf_stream (length ins) es" and "k < length es"
  shows "clear_run ins es ! (length ins + k) = clear_val (clear_run ins es) (es ! k)"
proof -
  have "clear_run ins es ! (length ins + k) = clear_run ins (take (Suc k) es) ! (length ins + k)"
    using assms(2) by (intro clear_run_take) auto
  also have "\<dots> = clear_val (clear_run ins (take k es)) (es ! k)"
    using clear_run_nth_snoc [of ins "take k es" "es ! k"] assms(2)
    by (simp add: take_Suc_conv_app_nth)
  also have "\<dots> = clear_val (clear_run ins es) (es ! k)"
    using assms by (intro clear_val_cong clear_run_take [symmetric]) (auto dest: wf_stream_nth)
  finally show ?thesis .
qed

section \<open>Replaying a stored program\<close>

text \<open>
  The source \<^verbatim>\<open>run_program\<close> builds hands a stored program to
  \<^verbatim>\<open>execute_program\<close> of emp-tool. Its documented behaviour, issue each gate in program
  order on the context, binding the gate's output to the wire returned, is \<open>replay\<close>;
  it is used as the instance of that parameter.
\<close>

primrec replay_gates :: "gate list \<Rightarrow> (wire \<Rightarrow> wire) \<Rightarrow> wire list \<Rightarrow> body" where
  "replay_gates [] ws outs = Ret (map ws outs)"
| "replay_gates (g # gs) ws outs =
     (let k = (\<lambda>w. replay_gates gs (ws(g_out g := w)) outs) in
      case g_op g of
        Op_And \<Rightarrow> AndG (ws (g_in0 g)) (ws (g_in1 g)) k
      | Op_Xor \<Rightarrow> XorG (ws (g_in0 g)) (ws (g_in1 g)) k
      | Op_Not \<Rightarrow> NotG (ws (g_in0 g)) k
      | Op_Const0 \<Rightarrow> PubG False k
      | Op_Const1 \<Rightarrow> PubG True k)"

definition replay :: "program \<Rightarrow> wire list \<Rightarrow> body" where
  "replay p ins =
     replay_gates (p_gates p) (\<lambda>w. if w < length ins then ins ! w else 0) (p_outputs p)"

definition gate_ev :: "gate \<Rightarrow> ev" where
  "gate_ev g = (case g_op g of
      Op_And \<Rightarrow> EAnd (g_in0 g) (g_in1 g)
    | Op_Xor \<Rightarrow> EXor (g_in0 g) (g_in1 g)
    | Op_Not \<Rightarrow> ENot (g_in0 g)
    | Op_Const0 \<Rightarrow> EConst False
    | Op_Const1 \<Rightarrow> EConst True)"

lemma ev_reads_gate_ev [simp]: "ev_reads (gate_ev g) = gate_operands g"
  by (cases "g_op g") (simp_all add: gate_ev_def gate_operands_def is_const_def is_not_def)

end
