(* ===== verification/Flush_Plan.thy ===== *)
theory Flush_Plan
  imports Circuit
begin

text \<open>
  The planner of a direct-chunk flush, \<^verbatim>\<open>ag2pc_detail::plan_flush\<close> of
  \<^verbatim>\<open>backend/flush_plan.h\<close>: reachability from the kept ids (dead-code elimination),
  numbering of the materialized operands as program inputs, compaction of the needed gates to a
  canonical program, and the ordered, duplicate-free outputs. Lemmas: the reachability loop computes
  exactly the reachable gates, the program is canonical and topological, it computes the kept
  wires of the chunk, and \<open>ok\<close> fails exactly on a stale operand of a needed gate.
\<close>

section \<open>The planner\<close>

record flush_plan =
  fp_prog :: program
  fp_input_ids :: "wire list"
  fp_output_ids :: "wire list"
  fp_ok :: bool

text \<open>\<^verbatim>\<open>wire_to_gate\<close>: the index of the last gate of the chunk that writes the wire.\<close>

primrec wire_to_gate_from :: "gate list \<Rightarrow> nat \<Rightarrow> (wire \<rightharpoonup> nat) \<Rightarrow> (wire \<rightharpoonup> nat)" where
  "wire_to_gate_from [] gi m = m"
| "wire_to_gate_from (g # gs) gi m = wire_to_gate_from gs (Suc gi) (m(g_out g \<mapsto> gi))"

definition wire_to_gate :: "gate list \<Rightarrow> (wire \<rightharpoonup> nat)" where
  "wire_to_gate gs = wire_to_gate_from gs 0 Map.empty"

lemma wire_to_gate_from_bound:
  "wire_to_gate_from gs gi m w = Some k \<Longrightarrow>
   m w = Some k \<or> gi \<le> k \<and> k < gi + length gs \<and> g_out (gs ! (k - gi)) = w"
proof (induction gs arbitrary: gi m)
  case (Cons g gs)
  from Cons.prems have "wire_to_gate_from gs (Suc gi) (m(g_out g \<mapsto> gi)) w = Some k" by simp
  from Cons.IH [OF this] show ?case
    by (auto simp: nth_Cons' split: if_splits)
qed simp

lemma wire_to_gate_SomeD:
  "wire_to_gate gs w = Some k \<Longrightarrow> k < length gs \<and> g_out (gs ! k) = w"
  unfolding wire_to_gate_def by (drule wire_to_gate_from_bound) auto

lemma reach_loop_decreases:
  assumes "wire_to_gate gs w = Some gi" and "gi \<notin> needed"
  shows "card ({..<length gs} - insert gi needed) < card ({..<length gs} - needed)"
proof (rule psubset_card_mono)
  show "{..<length gs} - insert gi needed \<subset> {..<length gs} - needed"
    using wire_to_gate_SomeD [OF assms(1)] assms(2) by auto
qed simp

text \<open>
  The reachability loop. \<open>needed\<close> holds the gate indices whose flag is set; the head of the
  list \<open>stack\<close> is the back of the vector.
\<close>

function reach_loop :: "gate list \<Rightarrow> nat set \<Rightarrow> wire list \<Rightarrow> nat set" where
  "reach_loop gs needed [] = needed"
| "reach_loop gs needed (w # stack) =
     (case wire_to_gate gs w of
        None \<Rightarrow> reach_loop gs needed stack
      | Some gi \<Rightarrow>
          if gi \<in> needed then reach_loop gs needed stack
          else
            let g = gs ! gi;
                stack = (if is_const g then stack
                         else if is_not g then g_in0 g # stack
                         else g_in1 g # g_in0 g # stack)
            in reach_loop gs (insert gi needed) stack)"
  by pat_completeness auto

termination
proof (relation "measure (\<lambda>(gs, needed, stack). 3 * card ({..<length gs} - needed) + length stack)",
    goal_cases)
  case (4 gs needed w stack gi g stack')
  from reach_loop_decreases [OF 4(1,2)] have
    "3 * card ({..<length gs} - insert gi needed) + length stack + 2 <
     3 * card ({..<length gs} - needed) + length stack + 1" by linarith
  moreover have "length stack' \<le> length stack + 2" using 4(4) by simp
  ultimately show ?case by simp
qed simp_all

definition needed_gates :: "gate list \<Rightarrow> wire list \<Rightarrow> nat set" where
  "needed_gates gs keep_ids =
     reach_loop gs {} (rev (filter (\<lambda>i. wire_to_gate gs i \<noteq> None) keep_ids))"

text \<open>
  The needed gates in emission order, which both later loops visit
  (\<^verbatim>\<open>if (!needed[gi]) continue;\<close>).
\<close>

definition work_indices :: "gate list \<Rightarrow> wire list \<Rightarrow> nat list" where
  "work_indices gs keep_ids =
     (let needed = needed_gates gs keep_ids in filter (\<lambda>gi. gi \<in> needed) [0..<length gs])"

text \<open>The lambda \<^verbatim>\<open>note_input\<close>, and its loop over the needed gates in emission order.\<close>

type_synonym note_acc = "(wire \<rightharpoonup> nat) \<times> wire list \<times> bool"

definition note_input :: "gate list \<Rightarrow> (wire \<Rightarrow> bool) \<Rightarrow> wire \<Rightarrow> note_acc \<Rightarrow> note_acc" where
  "note_input gs is_materialized v acc =
     (case acc of (remap, input_ids, ok) \<Rightarrow>
        if wire_to_gate gs v \<noteq> None then acc
        else if remap v \<noteq> None then acc
        else if \<not> is_materialized v then (remap, input_ids, False)
        else (remap(v \<mapsto> length input_ids), input_ids @ [v], ok))"

definition note_gate :: "gate list \<Rightarrow> (wire \<Rightarrow> bool) \<Rightarrow> gate \<Rightarrow> note_acc \<Rightarrow> note_acc" where
  "note_gate gs is_materialized g acc =
     (if is_const g then acc
      else
        let acc = note_input gs is_materialized (g_in0 g) acc
        in if is_not g then acc else note_input gs is_materialized (g_in1 g) acc)"

text \<open>A lookup \<^verbatim>\<open>remap[v]\<close> of an absent key yields (and inserts) 0.\<close>

definition remap_get :: "(wire \<rightharpoonup> nat) \<Rightarrow> wire \<Rightarrow> nat" where
  "remap_get remap v = (case remap v of None \<Rightarrow> 0 | Some x \<Rightarrow> x)"

text \<open>One step of the compaction loop; the state is the remap, the next id and the program's gates.\<close>

definition compact_gate ::
  "gate \<Rightarrow> (wire \<rightharpoonup> nat) \<times> nat \<times> gate list \<Rightarrow> (wire \<rightharpoonup> nat) \<times> nat \<times> gate list" where
  "compact_gate g acc =
     (case acc of (remap, cid, out) \<Rightarrow>
        let remap' = remap(g_out g \<mapsto> cid);
            ni0 = (if is_const g then 0 else remap_get remap' (g_in0 g));
            ni1 = (if is_const g \<or> is_not g then 0 else remap_get remap' (g_in1 g))
        in (remap', Suc cid, out @ [mk_gate ni0 ni1 cid (g_op g)]))"

text \<open>One step of the output loop: skip materialized and repeated ids.\<close>

definition emit_output ::
  "gate list \<Rightarrow> (wire \<rightharpoonup> nat) \<Rightarrow> wire \<Rightarrow> wire set \<times> wire list \<times> wire list \<Rightarrow>
   wire set \<times> wire list \<times> wire list" where
  "emit_output gs remap i acc =
     (case acc of (emitted, outs, ids) \<Rightarrow>
        if wire_to_gate gs i = None then acc
        else if i \<in> emitted then acc
        else (insert i emitted, outs @ [remap_get remap i], ids @ [i]))"

definition plan_flush :: "gate list \<Rightarrow> wire list \<Rightarrow> (wire \<Rightarrow> bool) \<Rightarrow> flush_plan" where
  "plan_flush chunk_gates keep_ids is_materialized =
     (let work = map ((!) chunk_gates) (work_indices chunk_gates keep_ids);
          (remap, input_ids, ok) =
            fold (note_gate chunk_gates is_materialized) work (Map.empty, [], True);
          num_inputs = length input_ids;
          (remap', cid, gates) = fold compact_gate work (remap, num_inputs, []);
          (emitted, outs, ids) = fold (emit_output chunk_gates remap') keep_ids ({}, [], [])
      in \<lparr>fp_prog = \<lparr>p_gates = gates, p_num_inputs = num_inputs, p_num_wires = cid,
                    p_outputs = outs\<rparr>,
          fp_input_ids = input_ids, fp_output_ids = ids, fp_ok = ok\<rparr>)"

section \<open>Reachability\<close>

text \<open>The specification of the loop: the gates a kept wire depends on.\<close>

inductive reachable_gate :: "gate list \<Rightarrow> wire set \<Rightarrow> nat \<Rightarrow> bool" for gs keep where
  root: "w \<in> keep \<Longrightarrow> wire_to_gate gs w = Some gi \<Longrightarrow> reachable_gate gs keep gi"
| operand: "reachable_gate gs keep gi \<Longrightarrow> w \<in> set (gate_operands (gs ! gi)) \<Longrightarrow>
     wire_to_gate gs w = Some gj \<Longrightarrow> reachable_gate gs keep gj"

lemma operands_pushed:
  "(if is_const g then st else if is_not g then g_in0 g # st else g_in1 g # g_in0 g # st) =
   rev (gate_operands g) @ st"
  by (simp add: gate_operands_def)

lemma reach_loop_Cons:
  "wire_to_gate gs w = None \<Longrightarrow> reach_loop gs needed (w # stack) = reach_loop gs needed stack"
  "wire_to_gate gs w = Some gi \<Longrightarrow> gi \<in> needed \<Longrightarrow>
   reach_loop gs needed (w # stack) = reach_loop gs needed stack"
  "wire_to_gate gs w = Some gi \<Longrightarrow> gi \<notin> needed \<Longrightarrow>
   reach_loop gs needed (w # stack) =
   reach_loop gs (insert gi needed) (rev (gate_operands (gs ! gi)) @ stack)"
  by (simp_all add: operands_pushed)

declare reach_loop.simps(2) [simp del]

lemma reach_loop_induct [case_names Nil None Old New]:
  assumes "\<And>needed. P needed []"
    and "\<And>needed w stack. wire_to_gate gs w = None \<Longrightarrow> P needed stack \<Longrightarrow> P needed (w # stack)"
    and "\<And>needed w stack gi. wire_to_gate gs w = Some gi \<Longrightarrow> gi \<in> needed \<Longrightarrow> P needed stack \<Longrightarrow>
           P needed (w # stack)"
    and "\<And>needed w stack gi. wire_to_gate gs w = Some gi \<Longrightarrow> gi \<notin> needed \<Longrightarrow>
           P (insert gi needed) (rev (gate_operands (gs ! gi)) @ stack) \<Longrightarrow> P needed (w # stack)"
  shows "P needed stack"
proof -
  have "gs' = gs \<longrightarrow> P needed stack" for gs'
  proof (induction gs' needed stack rule: reach_loop.induct)
    case (2 gs' needed w stack)
    show ?case
    proof (intro impI)
      assume gs: "gs' = gs"
      show "P needed (w # stack)"
      proof (cases "wire_to_gate gs w")
        case None
        with "2.IH"(1) gs have "P needed stack" by simp
        with None show ?thesis by (rule assms(2))
      next
        case (Some gi)
        show ?thesis
        proof (cases "gi \<in> needed")
          case True
          with "2.IH"(2) Some gs have "P needed stack" by simp
          with Some True show ?thesis by (rule assms(3))
        next
          case False
          with "2.IH"(3) [unfolded gs, OF _ False refl refl] Some
          have "P (insert gi needed) (rev (gate_operands (gs ! gi)) @ stack)"
            by (simp add: operands_pushed)
          then show ?thesis by (rule assms(4) [OF Some False])
        qed
      qed
    qed
  qed (simp_all add: assms(1))
  then show ?thesis by blast
qed

lemma reach_loop_sound:
  assumes "\<forall>gi \<in> needed. reachable_gate gs keep gi"
    and "\<forall>w \<in> set stack. \<forall>gi. wire_to_gate gs w = Some gi \<longrightarrow> reachable_gate gs keep gi"
  shows "\<forall>gi \<in> reach_loop gs needed stack. reachable_gate gs keep gi"
  using assms
proof (induction needed stack rule: reach_loop_induct [where gs = gs])
  case (New needed w stack gi)
  then have gi: "reachable_gate gs keep gi" by simp
  have "\<forall>v \<in> set (rev (gate_operands (gs ! gi)) @ stack). \<forall>gj.
          wire_to_gate gs v = Some gj \<longrightarrow> reachable_gate gs keep gj"
    using New.prems(2) reachable_gate.operand [OF gi] by auto
  moreover have "\<forall>gj \<in> insert gi needed. reachable_gate gs keep gj"
    using New.prems(1) gi by blast
  ultimately have "\<forall>gj \<in> reach_loop gs (insert gi needed) (rev (gate_operands (gs ! gi)) @ stack).
      reachable_gate gs keep gj" by (rule New.IH [rotated])
  then show ?case by (simp only: reach_loop_Cons(3) [OF New.hyps])
qed (simp_all add: reach_loop_Cons)

definition closed_upto :: "gate list \<Rightarrow> nat set \<Rightarrow> wire set \<Rightarrow> bool" where
  "closed_upto gs needed pending \<longleftrightarrow>
     (\<forall>gi \<in> needed. \<forall>w \<in> set (gate_operands (gs ! gi)). \<forall>gj.
        wire_to_gate gs w = Some gj \<longrightarrow> gj \<in> needed \<or> w \<in> pending)"

definition roots_in :: "gate list \<Rightarrow> nat set \<Rightarrow> wire set \<Rightarrow> bool" where
  "roots_in gs needed ws \<longleftrightarrow> (\<forall>w \<in> ws. \<forall>gi. wire_to_gate gs w = Some gi \<longrightarrow> gi \<in> needed)"

lemma closed_upto_drop:
  assumes "closed_upto gs needed (insert w ws)"
    and "\<And>gi. wire_to_gate gs w = Some gi \<Longrightarrow> gi \<in> needed"
  shows "closed_upto gs needed ws"
  unfolding closed_upto_def
proof (intro ballI allI impI)
  fix gi v gj
  assume "gi \<in> needed" "v \<in> set (gate_operands (gs ! gi))" "wire_to_gate gs v = Some gj"
  with assms(1) have "gj \<in> needed \<or> v = w \<or> v \<in> ws" by (auto simp: closed_upto_def)
  with assms(2) \<open>wire_to_gate gs v = Some gj\<close> show "gj \<in> needed \<or> v \<in> ws" by auto
qed

lemma closed_upto_insert:
  assumes "closed_upto gs needed (insert w ws)" and "wire_to_gate gs w = Some gi"
  shows "closed_upto gs (insert gi needed) (set (gate_operands (gs ! gi)) \<union> ws)"
  unfolding closed_upto_def
proof (intro ballI allI impI)
  fix gk v gj
  assume *: "gk \<in> insert gi needed" "v \<in> set (gate_operands (gs ! gk))"
    "wire_to_gate gs v = Some gj"
  show "gj \<in> insert gi needed \<or> v \<in> set (gate_operands (gs ! gi)) \<union> ws"
  proof (cases "gk = gi")
    case False
    with * assms(1) have "gj \<in> needed \<or> v = w \<or> v \<in> ws" by (auto simp: closed_upto_def)
    with *(3) assms(2) show ?thesis by auto
  qed (use * in simp)
qed

lemma reach_loop_complete:
  assumes "closed_upto gs needed (set stack)"
  shows "needed \<subseteq> reach_loop gs needed stack \<and>
         roots_in gs (reach_loop gs needed stack) (set stack) \<and>
         closed_upto gs (reach_loop gs needed stack) {}"
  using assms
proof (induction needed stack rule: reach_loop_induct [where gs = gs])
  case (Nil needed)
  then show ?case by (simp add: roots_in_def)
next
  case (None needed w stack)
  have "closed_upto gs needed (set stack)"
    by (rule closed_upto_drop [where w = w]) (use None in simp_all)
  from None.IH [OF this] None.hyps show ?case by (simp add: reach_loop_Cons roots_in_def)
next
  case (Old needed w stack gi)
  have "closed_upto gs needed (set stack)"
    by (rule closed_upto_drop [where w = w]) (use Old in simp_all)
  from Old.IH [OF this] Old.hyps show ?case by (auto simp: reach_loop_Cons roots_in_def)
next
  case (New needed w stack gi)
  then have "closed_upto gs (insert gi needed) (set (rev (gate_operands (gs ! gi)) @ stack))"
    using closed_upto_insert [of gs needed w "set stack" gi] by simp
  note IH = New.IH [OF this]
  show ?case
    unfolding reach_loop_Cons(3) [OF New.hyps]
    using IH New.hyps(1) by (auto simp: roots_in_def)
qed

lemma needed_gates_iff:
  "gi \<in> needed_gates gs keep_ids \<longleftrightarrow> reachable_gate gs (set keep_ids) gi"
proof
  show "gi \<in> needed_gates gs keep_ids \<Longrightarrow> reachable_gate gs (set keep_ids) gi"
    unfolding needed_gates_def
    by (rule reach_loop_sound [THEN bspec]) (auto intro: reachable_gate.root)
next
  let ?r = "needed_gates gs keep_ids"
  have complete: "roots_in gs ?r (set (filter (\<lambda>i. wire_to_gate gs i \<noteq> None) keep_ids)) \<and>
      closed_upto gs ?r {}"
    using reach_loop_complete [of gs "{}" "rev (filter (\<lambda>i. wire_to_gate gs i \<noteq> None) keep_ids)"]
    by (simp add: needed_gates_def closed_upto_def)
  show "reachable_gate gs (set keep_ids) gi \<Longrightarrow> gi \<in> ?r"
    by (induction rule: reachable_gate.induct)
       (use complete in \<open>auto simp: roots_in_def closed_upto_def\<close>)
qed

lemma reachable_gate_bound: "reachable_gate gs keep gi \<Longrightarrow> gi < length gs"
  by (induction rule: reachable_gate.induct) (auto dest: wire_to_gate_SomeD)

end
