(* ===== verification/Flush_Correct.thy ===== *)
theory Flush_Correct
  imports Flush_Plan
begin

text \<open>
  What the flush planner promises to the session: for a chunk as the recorder builds it, the
  planned program is canonical and topological, reads only materialized wires, computes exactly
  the kept pending wires of the chunk, and contains no dead gate; \<open>ok\<close> is false exactly when a
  needed gate has a stale operand.
\<close>

section \<open>Chunks and their meaning\<close>

text \<open>
  A chunk as \<^verbatim>\<open>AG2PCCtx\<close> records it: each gate writes its own id, an operand written
  in the chunk is written earlier, and each constant occurs at most once.
\<close>

definition wf_chunk :: "gate list \<Rightarrow> bool" where
  "wf_chunk gs \<longleftrightarrow> distinct (map g_out gs) \<and>
     (\<forall>i < length gs. \<forall>w \<in> set (gate_operands (gs ! i)).
        case wire_to_gate gs w of None \<Rightarrow> True | Some j \<Rightarrow> j < i) \<and>
     count_list (map g_op gs) Op_Const0 \<le> 1 \<and> count_list (map g_op gs) Op_Const1 \<le> 1"

text \<open>The cleartext meaning of a chunk over the values of the wires that existed before it.\<close>

fun op_val :: "op \<Rightarrow> bool \<Rightarrow> bool \<Rightarrow> bool" where
  "op_val Op_And a b = (a \<and> b)"
| "op_val Op_Xor a b = (a \<noteq> b)"
| "op_val Op_Not a b = (\<not> a)"
| "op_val Op_Const0 a b = False"
| "op_val Op_Const1 a b = True"

definition gate_val :: "(wire \<Rightarrow> bool) \<Rightarrow> gate \<Rightarrow> bool" where
  "gate_val s g = op_val (g_op g) (s (g_in0 g)) (s (g_in1 g))"

definition chunk_eval :: "gate list \<Rightarrow> (wire \<Rightarrow> bool) \<Rightarrow> wire \<Rightarrow> bool" where
  "chunk_eval gs s = fold (\<lambda>g s. s(g_out g := gate_val s g)) gs s"

lemma gate_val_cong:
  "(\<And>w. w \<in> set (gate_operands g) \<Longrightarrow> s w = t w) \<Longrightarrow> gate_val s g = gate_val t g"
  by (cases "g_op g") (auto simp: gate_val_def gate_operands_def is_const_def is_not_def)

lemma clear_val_gate_ev:
  "clear_val us (gate_ev g) = op_val (g_op g) (us ! g_in0 g) (us ! g_in1 g)"
  by (cases "g_op g") (simp_all add: gate_ev_def)

lemma chunk_eval_snoc [simp]:
  "chunk_eval (gs @ [g]) s = (chunk_eval gs s)(g_out g := gate_val (chunk_eval gs s) g)"
  by (simp add: chunk_eval_def)

lemma chunk_eval_other: "w \<notin> g_out ` set gs \<Longrightarrow> chunk_eval gs s w = s w"
  by (induction gs rule: rev_induct) (auto simp: chunk_eval_def)

lemma chunk_eval_take:
  assumes "\<And>j. j < length gs \<Longrightarrow> i \<le> j \<Longrightarrow> g_out (gs ! j) \<noteq> w"
  shows "chunk_eval gs s w = chunk_eval (take i gs) s w"
  using assms
proof (induction gs rule: rev_induct)
  case (snoc g gs)
  show ?case
  proof (cases "i \<le> length gs")
    case True
    with snoc.prems [of "length gs"] have "g_out g \<noteq> w" by simp
    moreover have "chunk_eval gs s w = chunk_eval (take i gs) s w"
    proof (rule snoc.IH)
      fix j assume "j < length gs" "i \<le> j"
      with snoc.prems [of j] show "g_out (gs ! j) \<noteq> w" by (simp add: nth_append)
    qed
    ultimately show ?thesis using True by simp
  qed simp
qed simp

section \<open>Lookups in the chunk\<close>

lemma wire_to_gate_from_notin:
  "w \<notin> g_out ` set gs \<Longrightarrow> wire_to_gate_from gs gi m w = m w"
  by (induction gs arbitrary: gi m) auto

lemma wire_to_gate_from_nth:
  "distinct (map g_out gs) \<Longrightarrow> k < length gs \<Longrightarrow>
   wire_to_gate_from gs gi m (g_out (gs ! k)) = Some (gi + k)"
proof (induction gs arbitrary: gi m k)
  case (Cons g gs)
  show ?case
  proof (cases k)
    case 0
    with Cons.prems show ?thesis by (simp add: wire_to_gate_from_notin)
  next
    case (Suc k')
    with Cons show ?thesis by simp
  qed
qed simp

lemma wire_to_gate_nth:
  "distinct (map g_out gs) \<Longrightarrow> k < length gs \<Longrightarrow> wire_to_gate gs (g_out (gs ! k)) = Some k"
  by (simp add: wire_to_gate_def wire_to_gate_from_nth)

lemma wire_to_gate_None:
  "wire_to_gate gs w = None \<longleftrightarrow> w \<notin> g_out ` set gs"
proof
  assume *: "wire_to_gate gs w = None"
  have "m w = None \<and> w \<notin> g_out ` set gs" if "wire_to_gate_from gs gi m w = None" for gi m
    using that
  proof (induction gs arbitrary: gi m)
    case (Cons g gs)
    from Cons.prems have "wire_to_gate_from gs (Suc gi) (m(g_out g \<mapsto> gi)) w = None" by simp
    then have "(m(g_out g \<mapsto> gi)) w = None \<and> w \<notin> g_out ` set gs" by (rule Cons.IH)
    then show ?case by (auto split: if_splits)
  qed simp
  with * show "w \<notin> g_out ` set gs" by (simp add: wire_to_gate_def)
qed (simp add: wire_to_gate_def wire_to_gate_from_notin)

lemma wf_chunk_distinct: "wf_chunk gs \<Longrightarrow> distinct (map g_out gs)"
  by (simp add: wf_chunk_def)

lemma wf_chunk_operand:
  "wf_chunk gs \<Longrightarrow> i < length gs \<Longrightarrow> w \<in> set (gate_operands (gs ! i)) \<Longrightarrow>
   wire_to_gate gs w = Some j \<Longrightarrow> j < i"
  by (fastforce simp: wf_chunk_def)

text \<open>The chunk's meaning satisfies its own equations: outputs are never overwritten.\<close>

lemma chunk_eval_gate:
  assumes "wf_chunk gs" and "i < length gs"
  shows "chunk_eval gs s (g_out (gs ! i)) = gate_val (chunk_eval gs s) (gs ! i)"
proof -
  have out_ne: "g_out (gs ! j) \<noteq> g_out (gs ! i)" if "j < length gs" "Suc i \<le> j" for j
    using wf_chunk_distinct [OF assms(1)] that assms(2)
    by (metis Suc_n_not_le_n length_map nth_eq_iff_index_eq nth_map)
  have "chunk_eval gs s (g_out (gs ! i)) = chunk_eval (take (Suc i) gs) s (g_out (gs ! i))"
    by (rule chunk_eval_take) (rule out_ne)
  also have "\<dots> = gate_val (chunk_eval (take i gs) s) (gs ! i)"
    using assms(2) by (simp add: take_Suc_conv_app_nth)
  also have "\<dots> = gate_val (chunk_eval gs s) (gs ! i)"
  proof (rule gate_val_cong, rule chunk_eval_take [symmetric])
    fix w j assume w: "w \<in> set (gate_operands (gs ! i))" and j: "j < length gs" "i \<le> j"
    show "g_out (gs ! j) \<noteq> w"
    proof
      assume "g_out (gs ! j) = w"
      then have "wire_to_gate gs w = Some j"
        using wire_to_gate_nth [OF wf_chunk_distinct [OF assms(1)] j(1)] by simp
      from wf_chunk_operand [OF assms w this] j(2) show False by simp
    qed
  qed
  finally show ?thesis .
qed

section \<open>The input-numbering loop\<close>

definition note_inv :: "gate list \<Rightarrow> (wire \<Rightarrow> bool) \<Rightarrow> wire list \<Rightarrow> note_acc \<Rightarrow> bool" where
  "note_inv gs mat vs acc = (case acc of (remap, ids, ok) \<Rightarrow>
     distinct ids \<and>
     (\<forall>v k. remap v = Some k \<longleftrightarrow> k < length ids \<and> ids ! k = v) \<and>
     set ids = {v \<in> set vs. wire_to_gate gs v = None \<and> mat v} \<and>
     ok = (\<forall>v \<in> set vs. wire_to_gate gs v \<noteq> None \<or> mat v))"

lemma note_inv_remap_None:
  "note_inv gs mat vs (remap, ids, ok) \<Longrightarrow> remap v = None \<longleftrightarrow> v \<notin> set ids"
proof -
  assume "note_inv gs mat vs (remap, ids, ok)"
  then have "\<And>k. remap v = Some k \<longleftrightarrow> k < length ids \<and> ids ! k = v" by (simp add: note_inv_def)
  moreover have "remap v = None \<longleftrightarrow> (\<forall>k. remap v \<noteq> Some k)" by (cases "remap v") auto
  ultimately show ?thesis by (auto simp: in_set_conv_nth)
qed

lemma note_inv_Nil: "note_inv gs mat [] (Map.empty, [], True)"
  by (simp add: note_inv_def)

lemma note_inv_step:
  assumes "note_inv gs mat vs acc"
  shows "note_inv gs mat (vs @ [v]) (note_input gs mat v acc)"
proof -
  obtain remap ids ok where acc: "acc = (remap, ids, ok)" by (cases acc)
  note inv = assms [unfolded acc]
  show ?thesis
  proof (cases "wire_to_gate gs v = None \<and> remap v = None \<and> mat v")
    case True
    then have v: "v \<notin> set ids" using note_inv_remap_None [OF inv] by simp
    have lookup: "(remap(v \<mapsto> length ids)) u = Some k \<longleftrightarrow>
        k < length (ids @ [v]) \<and> (ids @ [v]) ! k = u" for u k
      using inv v True
      by (cases "k < length ids") (auto simp: note_inv_def nth_append less_Suc_eq)
    show ?thesis
      using inv v True lookup by (auto simp: note_inv_def note_input_def acc)
  next
    case False
    then show ?thesis
      using inv note_inv_remap_None [OF inv, of v]
      by (auto simp: note_inv_def note_input_def acc)
  qed
qed

lemma note_gate_fold: "note_gate gs mat g = fold (note_input gs mat) (gate_operands g)"
  by (rule ext) (simp add: note_gate_def gate_operands_def Let_def)

lemma note_inv_fold:
  "note_inv gs mat vs acc \<Longrightarrow> note_inv gs mat (vs @ us) (fold (note_input gs mat) us acc)"
proof (induction us arbitrary: vs acc)
  case (Cons u us)
  from Cons.IH [OF note_inv_step [OF Cons.prems]] show ?case by simp
qed simp

section \<open>The compaction loop\<close>

text \<open>A gate list whose operands, where it writes them at all, are written earlier.\<close>

definition ordered_gates :: "gate list \<Rightarrow> bool" where
  "ordered_gates ws \<longleftrightarrow> distinct (map g_out ws) \<and>
     (\<forall>k < length ws. \<forall>w \<in> set (gate_operands (ws ! k)). \<forall>j < length ws.
        g_out (ws ! j) = w \<longrightarrow> j < k)"

lemma ordered_gates_snocD:
  assumes "ordered_gates (ws @ [g])"
  shows "ordered_gates ws" "g_out g \<notin> g_out ` set ws"
    "\<And>k. k < length ws \<Longrightarrow> g_out g \<notin> set (gate_operands (ws ! k))"
    "g_out g \<notin> set (gate_operands g)"
proof -
  have operand: "j < k" if "k < length (ws @ [g])" "w \<in> set (gate_operands ((ws @ [g]) ! k))"
      "j < length (ws @ [g])" "g_out ((ws @ [g]) ! j) = w" for k w j
    using assms that unfolding ordered_gates_def by blast
  have "j < k" if "k < length ws" "w \<in> set (gate_operands (ws ! k))" "j < length ws"
      "g_out (ws ! j) = w" for k w j
    using operand [of k w j] that by (simp add: nth_append)
  moreover have "distinct (map g_out (ws @ [g]))" using assms by (simp add: ordered_gates_def)
  ultimately show "ordered_gates ws" "g_out g \<notin> g_out ` set ws"
    by (auto simp: ordered_gates_def)
  show "g_out g \<notin> set (gate_operands (ws ! k))" if "k < length ws" for k
    using operand [of k "g_out g" "length ws"] that by (auto simp: nth_append)
  show "g_out g \<notin> set (gate_operands g)"
    using operand [of "length ws" "g_out g" "length ws"] by auto
qed

definition compacted ::
  "nat \<Rightarrow> (wire \<rightharpoonup> nat) \<Rightarrow> gate list \<Rightarrow> (wire \<rightharpoonup> nat) \<times> nat \<times> gate list \<Rightarrow> bool" where
  "compacted n R0 ws acc = (case acc of (R, cid, out) \<Rightarrow>
     cid = n + length ws \<and> length out = length ws \<and>
     (\<forall>v. v \<notin> g_out ` set ws \<longrightarrow> R v = R0 v) \<and>
     (\<forall>k < length ws. R (g_out (ws ! k)) = Some (n + k)) \<and>
     (\<forall>k < length ws. g_out (out ! k) = n + k \<and> g_op (out ! k) = g_op (ws ! k) \<and>
        gate_operands (out ! k) = map (remap_get R) (gate_operands (ws ! k))))"

lemma compact_gate_eq:
  "compact_gate g (R, cid, out) =
     (R(g_out g \<mapsto> cid), Suc cid,
      out @ [mk_gate (if is_const g then 0 else remap_get (R(g_out g \<mapsto> cid)) (g_in0 g))
                     (if is_const g \<or> is_not g then 0 else remap_get (R(g_out g \<mapsto> cid)) (g_in1 g))
                     cid (g_op g)])"
  by (simp add: compact_gate_def Let_def)

lemma compact_gate_operands:
  "gate_operands (mk_gate (if is_const g then 0 else remap_get R (g_in0 g))
     (if is_const g \<or> is_not g then 0 else remap_get R (g_in1 g)) cid (g_op g)) =
   map (remap_get R) (gate_operands g)"
  by (cases "g_op g") (simp_all add: gate_operands_def is_const_def is_not_def)

lemma remap_get_upd:
  "w \<notin> set vs \<Longrightarrow> map (remap_get (R(w \<mapsto> c))) vs = map (remap_get R) vs"
  by (auto simp: remap_get_def)

lemma compacted_fold:
  assumes "ordered_gates ws"
  shows "compacted n R0 ws (fold compact_gate ws (R0, n, []))"
  using assms
proof (induction ws rule: rev_induct)
  case Nil
  then show ?case by (simp add: compacted_def)
next
  case (snoc g ws)
  note ord = ordered_gates_snocD [OF snoc.prems]
  obtain R cid out where acc: "fold compact_gate ws (R0, n, []) = (R, cid, out)"
    by (metis prod_cases3)
  let ?R = "R(g_out g \<mapsto> cid)"
  from snoc.IH [OF ord(1)] have inv: "compacted n R0 ws (R, cid, out)" by (simp add: acc)
  obtain h where h: "compact_gate g (R, cid, out) = (?R, Suc cid, out @ [h])"
      "g_out h = cid" "g_op h = g_op g" "gate_operands h = map (remap_get ?R) (gate_operands g)"
    using compact_gate_operands [of g ?R cid] by (simp add: compact_gate_eq)
  have old: "g_out (ws ! k) \<noteq> g_out g" if "k < length ws" for k
    using ord(2) that by (metis image_eqI nth_mem)
  have "compacted n R0 (ws @ [g]) (?R, Suc cid, out @ [h])"
    unfolding compacted_def prod.case
  proof (intro conjI allI impI)
    show "Suc cid = n + length (ws @ [g])" "length (out @ [h]) = length (ws @ [g])"
      using inv by (simp_all add: compacted_def)
    show "?R v = R0 v" if "v \<notin> g_out ` set (ws @ [g])" for v
      using inv that by (simp add: compacted_def)
  next
    fix k assume k: "k < length (ws @ [g])"
    show "?R (g_out ((ws @ [g]) ! k)) = Some (n + k)"
      using inv k old by (cases "k < length ws") (simp_all add: compacted_def nth_append less_Suc_eq)
    show "g_out ((out @ [h]) ! k) = n + k" "g_op ((out @ [h]) ! k) = g_op ((ws @ [g]) ! k)"
      using inv k h(2,3)
      by (cases "k < length ws"; simp add: compacted_def nth_append less_Suc_eq)+
    show "gate_operands ((out @ [h]) ! k) = map (remap_get ?R) (gate_operands ((ws @ [g]) ! k))"
      using inv k h(4) ord(3)
      by (cases "k < length ws")
         (simp_all add: compacted_def nth_append less_Suc_eq remap_get_upd)
  qed
  then show ?case by (simp add: acc h(1))
qed

section \<open>The output loop\<close>

text \<open>First occurrences of the pending ids, in keep order.\<close>

definition pending_in_order :: "gate list \<Rightarrow> wire list \<Rightarrow> wire list" where
  "pending_in_order gs vs = rev (remdups (rev (filter (\<lambda>v. wire_to_gate gs v \<noteq> None) vs)))"

lemma pending_in_order_snoc:
  "pending_in_order gs (vs @ [v]) =
     (if wire_to_gate gs v = None \<or> v \<in> set (pending_in_order gs vs)
      then pending_in_order gs vs else pending_in_order gs vs @ [v])"
  by (auto simp: pending_in_order_def)

lemma pending_in_order_props:
  "distinct (pending_in_order gs vs)"
  "set (pending_in_order gs vs) = {v \<in> set vs. wire_to_gate gs v \<noteq> None}"
  by (auto simp: pending_in_order_def)

lemma emit_output_fold:
  "fold (emit_output gs R) vs ({}, [], []) =
     (set (pending_in_order gs vs), map (remap_get R) (pending_in_order gs vs),
      pending_in_order gs vs)"
proof (induction vs rule: rev_induct)
  case (snoc v vs)
  then show ?case
    by (auto simp: emit_output_def pending_in_order_snoc pending_in_order_props)
qed (simp add: pending_in_order_def)

section \<open>The visited gates\<close>

abbreviation work_gates :: "gate list \<Rightarrow> wire list \<Rightarrow> gate list" where
  "work_gates gs keep \<equiv> map ((!) gs) (work_indices gs keep)"

lemma work_indices_props:
  "sorted_wrt (<) (work_indices gs keep)"
  "set (work_indices gs keep) = {gi. reachable_gate gs (set keep) gi}"
  by (auto simp: work_indices_def Let_def needed_gates_iff sorted_wrt_filter
      dest: reachable_gate_bound)

lemma work_indices_bound: "k < length (work_indices gs keep) \<Longrightarrow> work_indices gs keep ! k < length gs"
  using work_indices_props(2) [of gs keep] reachable_gate_bound nth_mem by blast

lemma sorted_nth_less_iff:
  "sorted_wrt (<) xs \<Longrightarrow> j < length xs \<Longrightarrow> k < length xs \<Longrightarrow> xs ! j < xs ! k \<longleftrightarrow> j < k"
  for xs :: "nat list"
  by (metis linorder_neqE_nat order_less_imp_not_less sorted_wrt_iff_nth_less less_irrefl)

text \<open>An operand of a visited gate is a chunk input or the output of an earlier visited gate.\<close>

lemma work_operand:
  assumes "wf_chunk gs" and "k < length (work_indices gs keep)"
    and "w \<in> set (gate_operands (work_gates gs keep ! k))"
  shows "wire_to_gate gs w = None \<or>
    (\<exists>j < k. w = g_out (work_gates gs keep ! j))"
proof (cases "wire_to_gate gs w")
  case (Some gj)
  let ?I = "work_indices gs keep"
  have "reachable_gate gs (set keep) (?I ! k)"
    using work_indices_props(2) [of gs keep] nth_mem [OF assms(2)] by auto
  then have "reachable_gate gs (set keep) gj"
    by (rule reachable_gate.operand) (use assms(2,3) Some in simp_all)
  then obtain j where j: "j < length ?I" "?I ! j = gj"
    using work_indices_props(2) [of gs keep] by (metis in_set_conv_nth mem_Collect_eq)
  have "gj < ?I ! k"
    using wf_chunk_operand [OF assms(1) work_indices_bound [OF assms(2)] _ Some] assms(2,3) by simp
  then have "j < k"
    using sorted_nth_less_iff [OF work_indices_props(1) j(1) assms(2)] j(2) by simp
  moreover have "w = g_out (work_gates gs keep ! j)"
    using wire_to_gate_SomeD [OF Some] j by simp
  ultimately show ?thesis by blast
qed simp

lemma work_out_inj:
  assumes "wf_chunk gs" "j < length (work_indices gs keep)" "k < length (work_indices gs keep)"
    and "g_out (work_gates gs keep ! j) = g_out (work_gates gs keep ! k)"
  shows "j = k"
proof -
  let ?I = "work_indices gs keep"
  have "?I ! j = ?I ! k"
    using assms(4) nth_eq_iff_index_eq [OF wf_chunk_distinct [OF assms(1)], of "?I ! j" "?I ! k"]
      work_indices_bound [OF assms(2)] work_indices_bound [OF assms(3)] assms(2,3) by simp
  then have "\<not> j < k" "\<not> k < j"
    using sorted_nth_less_iff [OF work_indices_props(1)] assms(2,3) by (metis less_irrefl)+
  then show ?thesis by simp
qed

lemma work_ordered: "wf_chunk gs \<Longrightarrow> ordered_gates (work_gates gs keep)"
  unfolding ordered_gates_def
proof (intro conjI allI ballI impI)
  assume wf: "wf_chunk gs"
  show "distinct (map g_out (work_gates gs keep))"
    unfolding distinct_conv_nth using work_out_inj [OF wf] by (auto simp: nth_map)
  fix k w j
  assume k: "k < length (work_gates gs keep)"
    and w: "w \<in> set (gate_operands (work_gates gs keep ! k))"
    and j: "j < length (work_gates gs keep)" "g_out (work_gates gs keep ! j) = w"
  have "wire_to_gate gs w \<noteq> None"
    using j work_indices_bound [of j gs keep] by (auto simp: wire_to_gate_None)
  then obtain i where "i < k" "w = g_out (work_gates gs keep ! i)"
    using work_operand [OF wf _ w] k by auto
  then show "j < k" using work_out_inj [OF wf, of i keep j] j k by simp
qed

section \<open>The plan\<close>

lemma plan_flush_obtain:
  assumes "wf_chunk gs"
  obtains R0 R where
    "note_inv gs mat (concat (map gate_operands (work_gates gs keep)))
       (R0, fp_input_ids (plan_flush gs keep mat), fp_ok (plan_flush gs keep mat))"
    "compacted (length (fp_input_ids (plan_flush gs keep mat))) R0 (work_gates gs keep)
       (R, p_num_wires (fp_prog (plan_flush gs keep mat)), p_gates (fp_prog (plan_flush gs keep mat)))"
    "p_num_inputs (fp_prog (plan_flush gs keep mat)) = length (fp_input_ids (plan_flush gs keep mat))"
    "p_outputs (fp_prog (plan_flush gs keep mat)) =
       map (remap_get R) (fp_output_ids (plan_flush gs keep mat))"
    "fp_output_ids (plan_flush gs keep mat) = pending_in_order gs keep"
proof -
  let ?w = "work_gates gs keep"
  obtain R0 ids ok where n: "fold (note_gate gs mat) ?w (Map.empty, [], True) = (R0, ids, ok)"
    by (metis prod_cases3)
  obtain R cid gates where c: "fold compact_gate ?w (R0, length ids, []) = (R, cid, gates)"
    by (metis prod_cases3)
  have "fold (note_gate gs mat) ws acc = fold (note_input gs mat) (concat (map gate_operands ws)) acc"
    for ws acc by (induction ws arbitrary: acc) (simp_all add: note_gate_fold)
  then have inv: "note_inv gs mat (concat (map gate_operands ?w)) (R0, ids, ok)"
    using note_inv_fold [OF note_inv_Nil, of gs mat "concat (map gate_operands ?w)"] n by simp
  have comp: "compacted (length ids) R0 ?w (R, cid, gates)"
    using compacted_fold [OF work_ordered [OF assms], of "length ids" R0 keep] c by simp
  have plan: "plan_flush gs keep mat =
      \<lparr>fp_prog = \<lparr>p_gates = gates, p_num_inputs = length ids, p_num_wires = cid,
         p_outputs = map (remap_get R) (pending_in_order gs keep)\<rparr>,
       fp_input_ids = ids, fp_output_ids = pending_in_order gs keep, fp_ok = ok\<rparr>"
    by (simp add: plan_flush_def n c emit_output_fold)
  show ?thesis
    by (rule that [of R0 R]) (use inv comp in \<open>simp_all add: plan\<close>)
qed

lemma plan_flush_ok_iff:
  assumes "wf_chunk gs"
  shows "fp_ok (plan_flush gs keep mat) \<longleftrightarrow>
    (\<forall>gi w. reachable_gate gs (set keep) gi \<longrightarrow> w \<in> set (gate_operands (gs ! gi)) \<longrightarrow>
       wire_to_gate gs w \<noteq> None \<or> mat w)"
proof -
  obtain R0 R where "note_inv gs mat (concat (map gate_operands (work_gates gs keep)))
       (R0, fp_input_ids (plan_flush gs keep mat), fp_ok (plan_flush gs keep mat))"
    by (rule plan_flush_obtain [OF assms])
  then have "fp_ok (plan_flush gs keep mat) \<longleftrightarrow>
      (\<forall>v \<in> set (concat (map gate_operands (work_gates gs keep))). wire_to_gate gs v \<noteq> None \<or> mat v)"
    by (simp add: note_inv_def)
  then show ?thesis using work_indices_props(2) [of gs keep] by auto
qed

lemma count_list_filter_le: "count_list (map f (filter P xs)) c \<le> count_list (map f xs) c"
  by (induction xs) auto

lemma count_work_le: "count_list (map g_op (work_gates gs keep)) c \<le> count_list (map g_op gs) c"
proof -
  have "map (\<lambda>i. g_op (gs ! i)) [0..<length gs] = map g_op gs"
    by (rule nth_equalityI) simp_all
  then show ?thesis
    using count_list_filter_le [of "\<lambda>i. g_op (gs ! i)" "\<lambda>gi. gi \<in> needed_gates gs keep"
        "[0..<length gs]" c]
    by (simp add: work_indices_def Let_def comp_def)
qed

text \<open>
  The bridge from recorder ids to program ids: inputs by position, visited gates by position
  after the inputs.
\<close>

lemma compacted_lookup:
  assumes noted: "note_inv gs mat vs (R0, ids, ok)" and comp: "compacted (length ids) R0 ws (R, cid, out)"
    and chunk: "\<And>k. k < length ws \<Longrightarrow> wire_to_gate gs (g_out (ws ! k)) \<noteq> None"
  shows "j < length ids \<Longrightarrow> remap_get R (ids ! j) = j"
    and "k < length ws \<Longrightarrow> remap_get R (g_out (ws ! k)) = length ids + k"
proof -
  assume j: "j < length ids"
  have "ids ! j \<notin> g_out ` set ws"
  proof
    assume "ids ! j \<in> g_out ` set ws"
    then obtain k where "k < length ws" "ids ! j = g_out (ws ! k)"
      by (auto simp: in_set_conv_nth)
    moreover have "ids ! j \<in> set ids" using j by simp
    ultimately show False using chunk [of k] noted by (auto simp: note_inv_def)
  qed
  then have "R (ids ! j) = R0 (ids ! j)" using comp by (simp add: compacted_def)
  also have "\<dots> = Some j" using noted j by (simp add: note_inv_def)
  finally show "remap_get R (ids ! j) = j" by (simp add: remap_get_def)
next
  assume "k < length ws"
  then show "remap_get R (g_out (ws ! k)) = length ids + k"
    using comp by (simp add: compacted_def remap_get_def)
qed

lemma plan_flush_gates:
  assumes "wf_chunk gs"
  obtains R where
    "length (p_gates (fp_prog (plan_flush gs keep mat))) = length (work_indices gs keep)"
    "p_num_wires (fp_prog (plan_flush gs keep mat)) =
       length (fp_input_ids (plan_flush gs keep mat)) + length (work_indices gs keep)"
    "\<And>k. k < length (work_indices gs keep) \<Longrightarrow>
       g_out (p_gates (fp_prog (plan_flush gs keep mat)) ! k) =
         length (fp_input_ids (plan_flush gs keep mat)) + k \<and>
       g_op (p_gates (fp_prog (plan_flush gs keep mat)) ! k) = g_op (work_gates gs keep ! k) \<and>
       gate_operands (p_gates (fp_prog (plan_flush gs keep mat)) ! k) =
         map (remap_get R) (gate_operands (work_gates gs keep ! k))"
    "p_outputs (fp_prog (plan_flush gs keep mat)) =
       map (remap_get R) (fp_output_ids (plan_flush gs keep mat))"
    "\<And>j. j < length (fp_input_ids (plan_flush gs keep mat)) \<Longrightarrow>
       remap_get R (fp_input_ids (plan_flush gs keep mat) ! j) = j"
    "\<And>k. k < length (work_indices gs keep) \<Longrightarrow>
       remap_get R (g_out (work_gates gs keep ! k)) =
         length (fp_input_ids (plan_flush gs keep mat)) + k"
proof -
  let ?p = "plan_flush gs keep mat"
  obtain R0 R where
    n: "note_inv gs mat (concat (map gate_operands (work_gates gs keep)))
          (R0, fp_input_ids ?p, fp_ok ?p)" and
    c: "compacted (length (fp_input_ids ?p)) R0 (work_gates gs keep)
          (R, p_num_wires (fp_prog ?p), p_gates (fp_prog ?p))" and
    o: "p_outputs (fp_prog ?p) = map (remap_get R) (fp_output_ids ?p)"
    by (rule plan_flush_obtain [OF assms])
  have "wire_to_gate gs (g_out (work_gates gs keep ! k)) \<noteq> None"
    if "k < length (work_gates gs keep)" for k
    using that work_indices_bound [of k gs keep] by (auto simp: wire_to_gate_None)
  note look = compacted_lookup [OF n c this]
  show ?thesis
    by (rule that [of R]) (use c o look in \<open>simp_all add: compacted_def\<close>)
qed

lemma gate_val_op: "gate_val s g = op_val (g_op g) (s (g_in0 g)) (s (g_in1 g))"
  by (simp add: gate_val_def)

text \<open>The value of a gate depends on its operation and its operands' values only.\<close>

lemma clear_val_operands:
  assumes "g_op g = g_op h" and "length (gate_operands g) = length (gate_operands h)"
    and "\<And>i. i < length (gate_operands h) \<Longrightarrow> us ! (gate_operands g ! i) = s (gate_operands h ! i)"
  shows "clear_val us (gate_ev g) = gate_val s h"
proof (cases "g_op h")
  case Op_And
  with assms(1,3) have "us ! g_in0 g = s (g_in0 h)" "us ! g_in1 g = s (g_in1 h)"
    using assms(3) [of 0] assms(3) [of 1] by (simp_all add: gate_operands_def is_const_def is_not_def)
  then show ?thesis using assms(1) by (simp add: clear_val_gate_ev gate_val_def)
next
  case Op_Xor
  with assms(1,3) have "us ! g_in0 g = s (g_in0 h)" "us ! g_in1 g = s (g_in1 h)"
    using assms(3) [of 0] assms(3) [of 1] by (simp_all add: gate_operands_def is_const_def is_not_def)
  then show ?thesis using assms(1) by (simp add: clear_val_gate_ev gate_val_def)
next
  case Op_Not
  with assms(1) have "us ! g_in0 g = s (g_in0 h)"
    using assms(3) [of 0] by (simp add: gate_operands_def is_const_def is_not_def)
  with Op_Not show ?thesis using assms(1) by (simp add: clear_val_gate_ev gate_val_def)
qed (use assms(1) in \<open>simp_all add: clear_val_gate_ev gate_val_def\<close>)

text \<open>
  An operand of the k-th planned gate that is not stale is a program input holding the operand's
  recorder id, or the output of an earlier planned gate.
\<close>

lemma plan_operand:
  assumes "wf_chunk gs" and ok: "fp_ok (plan_flush gs keep mat)"
    and "k < length (work_indices gs keep)" and "w \<in> set (gate_operands (work_gates gs keep ! k))"
  shows "(wire_to_gate gs w = None \<and> w \<in> set (fp_input_ids (plan_flush gs keep mat))) \<or>
         (\<exists>j < k. w = g_out (work_gates gs keep ! j))"
proof (cases "wire_to_gate gs w")
  case None
  let ?p = "plan_flush gs keep mat"
  obtain R0 R where n: "note_inv gs mat (concat (map gate_operands (work_gates gs keep)))
      (R0, fp_input_ids ?p, fp_ok ?p)"
    by (rule plan_flush_obtain [OF assms(1)])
  have "w \<in> set (concat (map gate_operands (work_gates gs keep)))"
    using nth_mem [OF assms(3)] assms(3,4) by auto
  moreover from n ok have "\<forall>v \<in> set (concat (map gate_operands (work_gates gs keep))).
      wire_to_gate gs v \<noteq> None \<or> mat v" unfolding note_inv_def prod.case by blast
  ultimately have "mat w" using None by blast
  with n \<open>w \<in> set (concat _)\<close> have "w \<in> set (fp_input_ids ?p)"
    unfolding note_inv_def prod.case using None by blast
  with None show ?thesis by simp
qed (use work_operand [OF assms(1,3,4)] in auto)

lemma plan_flush_topological:
  assumes wf: "wf_chunk gs" and ok: "fp_ok (plan_flush gs keep mat)"
  shows "topological (fp_prog (plan_flush gs keep mat))"
proof -
  let ?p = "plan_flush gs keep mat" and ?w = "work_gates gs keep" and ?I = "work_indices gs keep"
  let ?n = "length (fp_input_ids ?p)"
  obtain R where g: "length (p_gates (fp_prog ?p)) = length ?I"
    "\<And>k. k < length ?I \<Longrightarrow> g_out (p_gates (fp_prog ?p) ! k) = ?n + k \<and>
       g_op (p_gates (fp_prog ?p) ! k) = g_op (?w ! k) \<and>
       gate_operands (p_gates (fp_prog ?p) ! k) = map (remap_get R) (gate_operands (?w ! k))"
    "p_outputs (fp_prog ?p) = map (remap_get R) (fp_output_ids ?p)"
    "\<And>j. j < ?n \<Longrightarrow> remap_get R (fp_input_ids ?p ! j) = j"
    "\<And>k. k < length ?I \<Longrightarrow> remap_get R (g_out (?w ! k)) = ?n + k"
    by (rule plan_flush_gates [OF wf, of keep mat]) blast
  have n: "p_num_inputs (fp_prog ?p) = ?n" and outs: "fp_output_ids ?p = pending_in_order gs keep"
    by (rule plan_flush_obtain [OF wf, of mat keep], assumption)+
  have "remap_get R w < ?n + k" if k: "k < length ?I" and w: "w \<in> set (gate_operands (?w ! k))" for k w
    using plan_operand [OF wf ok k w]
  proof (elim disjE exE conjE)
    assume "w \<in> set (fp_input_ids ?p)"
    then show ?thesis using g(4) by (auto simp: in_set_conv_nth)
  next
    fix j assume "j < k" "w = g_out (?w ! j)"
    then show ?thesis using g(5) [of j] k by simp
  qed
  moreover have "remap_get R w < ?n + length ?I" if "w \<in> set (fp_output_ids ?p)" for w
  proof -
    from that have "w \<in> set keep" "wire_to_gate gs w \<noteq> None"
      by (simp_all add: outs pending_in_order_props)
    then obtain gi where gi: "wire_to_gate gs w = Some gi" "reachable_gate gs (set keep) gi"
      by (auto intro: reachable_gate.root)
    then obtain k where k: "k < length ?I" "?I ! k = gi"
      using work_indices_props(2) [of gs keep] by (metis in_set_conv_nth mem_Collect_eq)
    then have "w = g_out (?w ! k)" using wire_to_gate_SomeD [OF gi(1)] by simp
    then show ?thesis using g(5) k(1) by simp
  qed
  ultimately show ?thesis
    unfolding topological_def using g(1,2,3) n by auto
qed

lemma plan_flush_canonical:
  assumes "wf_chunk gs"
  shows "record_canonical (fp_prog (plan_flush gs keep mat))"
proof -
  let ?p = "plan_flush gs keep mat" and ?w = "work_gates gs keep" and ?I = "work_indices gs keep"
  have n: "p_num_inputs (fp_prog ?p) = length (fp_input_ids ?p)"
    by (rule plan_flush_obtain [OF assms, of mat keep], assumption)
  have len: "length (p_gates (fp_prog ?p)) = length ?I"
    and g: "\<And>k. k < length ?I \<Longrightarrow> g_out (p_gates (fp_prog ?p) ! k) = length (fp_input_ids ?p) + k \<and>
       g_op (p_gates (fp_prog ?p) ! k) = g_op (?w ! k)"
    by (rule plan_flush_gates [OF assms, of keep mat], simp)+
  have "map g_op (p_gates (fp_prog ?p)) = map g_op ?w"
    by (rule nth_equalityI) (use len g in auto)
  then show ?thesis
    using assms count_work_le [of gs keep] g len n
    by (auto simp: record_canonical_def wf_chunk_def intro: order_trans)
qed

lemma plan_flush_value:
  assumes wf: "wf_chunk gs" and ok: "fp_ok (plan_flush gs keep mat)"
    and k: "k < length (work_indices gs keep)"
  shows "clear_run (map s (fp_input_ids (plan_flush gs keep mat)))
           (map gate_ev (p_gates (fp_prog (plan_flush gs keep mat))))
           ! (length (fp_input_ids (plan_flush gs keep mat)) + k) =
         chunk_eval gs s (g_out (work_gates gs keep ! k))"
  using k
proof (induction k rule: less_induct)
  case (less k)
  let ?p = "plan_flush gs keep mat" and ?w = "work_gates gs keep" and ?I = "work_indices gs keep"
  let ?ids = "fp_input_ids ?p" and ?gates = "p_gates (fp_prog ?p)"
  let ?n = "length ?ids" and ?U = "clear_run (map s ?ids) (map gate_ev ?gates)"
  obtain R where g: "length ?gates = length ?I"
    "\<And>k. k < length ?I \<Longrightarrow> g_op (?gates ! k) = g_op (?w ! k) \<and>
       gate_operands (?gates ! k) = map (remap_get R) (gate_operands (?w ! k))"
    "\<And>j. j < ?n \<Longrightarrow> remap_get R (?ids ! j) = j"
    "\<And>k. k < length ?I \<Longrightarrow> remap_get R (g_out (?w ! k)) = ?n + k"
    by (rule plan_flush_gates [OF wf, of keep mat]) blast
  have n: "p_num_inputs (fp_prog ?p) = ?n"
    by (rule plan_flush_obtain [OF wf, of mat keep], assumption)
  have stream: "wf_stream (length (map s ?ids)) (map gate_ev ?gates)"
    using plan_flush_topological [OF wf ok] n by (simp add: topological_def wf_stream_def)
  have oper: "?U ! remap_get R w = chunk_eval gs s w" if w: "w \<in> set (gate_operands (?w ! k))" for w
    using plan_operand [OF wf ok less.prems w]
  proof (elim disjE exE conjE)
    assume "wire_to_gate gs w = None" "w \<in> set ?ids"
    then obtain j where "j < ?n" "?ids ! j = w" by (auto simp: in_set_conv_nth)
    with \<open>wire_to_gate gs w = None\<close> show ?thesis
      using g(3) by (auto simp: clear_run_input chunk_eval_other wire_to_gate_None)
  next
    fix j assume "j < k" "w = g_out (?w ! j)"
    then show ?thesis using less.IH [of j] less.prems g(4) [of j] by simp
  qed
  have "?U ! (?n + k) = clear_val ?U (gate_ev (?gates ! k))"
    using clear_run_event [OF stream, of k] less.prems g(1) by simp
  also have "\<dots> = gate_val (chunk_eval gs s) (?w ! k)"
    by (rule clear_val_operands) (use g(2) [OF less.prems] oper in simp_all)
  also have "\<dots> = chunk_eval gs s (g_out (?w ! k))"
    using chunk_eval_gate [OF wf work_indices_bound [OF less.prems]] less.prems by simp
  finally show ?case .
qed

lemma plan_flush_computes:
  assumes wf: "wf_chunk gs" and ok: "fp_ok (plan_flush gs keep mat)"
  shows "map ((!) (clear_run (map s (fp_input_ids (plan_flush gs keep mat)))
                     (map gate_ev (p_gates (fp_prog (plan_flush gs keep mat))))))
           (p_outputs (fp_prog (plan_flush gs keep mat))) =
         map (chunk_eval gs s) (fp_output_ids (plan_flush gs keep mat))"
proof -
  let ?p = "plan_flush gs keep mat" and ?w = "work_gates gs keep" and ?I = "work_indices gs keep"
  obtain R where
    o: "p_outputs (fp_prog ?p) = map (remap_get R) (fp_output_ids ?p)" and
    r: "\<And>k. k < length ?I \<Longrightarrow> remap_get R (g_out (?w ! k)) = length (fp_input_ids ?p) + k"
    by (rule plan_flush_gates [OF wf, of keep mat]) blast
  have outs: "fp_output_ids ?p = pending_in_order gs keep"
    by (rule plan_flush_obtain [OF wf, of mat keep], assumption)
  have "\<exists>k < length ?I. w = g_out (?w ! k)" if w: "w \<in> set (fp_output_ids ?p)" for w
  proof -
    from w have "w \<in> set keep" "wire_to_gate gs w \<noteq> None"
      by (simp_all add: outs pending_in_order_props)
    then obtain gi where gi: "wire_to_gate gs w = Some gi" "reachable_gate gs (set keep) gi"
      by (auto intro: reachable_gate.root)
    then obtain k where k: "k < length ?I" "?I ! k = gi"
      using work_indices_props(2) [of gs keep] by (metis in_set_conv_nth mem_Collect_eq)
    then show ?thesis using wire_to_gate_SomeD [OF gi(1)] by auto
  qed
  then show ?thesis
    using plan_flush_value [OF wf ok, of _ s] r by (fastforce simp: o)
qed

lemma plan_flush_outputs: "wf_chunk gs \<Longrightarrow>
    fp_output_ids (plan_flush gs keep mat) = pending_in_order gs keep"
  by (rule plan_flush_obtain)

lemma plan_flush_inputs:
  assumes "wf_chunk gs"
  shows "distinct (fp_input_ids (plan_flush gs keep mat))"
    and "v \<in> set (fp_input_ids (plan_flush gs keep mat)) \<longleftrightarrow>
      wire_to_gate gs v = None \<and> mat v \<and>
      (\<exists>gi. reachable_gate gs (set keep) gi \<and> v \<in> set (gate_operands (gs ! gi)))"
proof -
  let ?p = "plan_flush gs keep mat"
  obtain R0 R where n: "note_inv gs mat (concat (map gate_operands (work_gates gs keep)))
      (R0, fp_input_ids ?p, fp_ok ?p)"
    by (rule plan_flush_obtain [OF assms])
  then show "distinct (fp_input_ids ?p)" by (simp add: note_inv_def)
  from n have "set (fp_input_ids ?p) = {v \<in> set (concat (map gate_operands (work_gates gs keep))).
      wire_to_gate gs v = None \<and> mat v}" by (simp add: note_inv_def)
  then show "v \<in> set (fp_input_ids ?p) \<longleftrightarrow> wire_to_gate gs v = None \<and> mat v \<and>
      (\<exists>gi. reachable_gate gs (set keep) gi \<and> v \<in> set (gate_operands (gs ! gi)))"
    using work_indices_props(2) [of gs keep] by auto
qed

section \<open>Properties\<close>

text \<open>
  C37: a flush plans no more than it must: its program has exactly the gates the kept wires depend
  on, in recording order, with their operations; its inputs are, each once, the wires from outside
  the chunk those gates read; its outputs are, each once, the kept pending wires; and it is refused
  exactly when one of those gates reads a wire that is neither pending nor materialized.
\<close>

theorem flush_plan_minimal:
  fixes keep :: "wire list" and mat :: "wire \<Rightarrow> bool"
  assumes "wf_chunk gs"
  defines "p \<equiv> plan_flush gs keep mat" and "needed \<equiv> {gi. reachable_gate gs (set keep) gi}"
  shows "map g_op (p_gates (fp_prog p)) = map (\<lambda>gi. g_op (gs ! gi)) (sorted_list_of_set needed) \<and>
    distinct (fp_input_ids p) \<and>
    set (fp_input_ids p) = {v. wire_to_gate gs v = None \<and> mat v \<and> (\<exists>gi \<in> needed. v \<in> set (gate_operands (gs ! gi)))} \<and>
    distinct (fp_output_ids p) \<and> set (fp_output_ids p) = {w \<in> set keep. wire_to_gate gs w \<noteq> None} \<and>
    (fp_ok p \<longleftrightarrow> (\<forall>gi \<in> needed. \<forall>w \<in> set (gate_operands (gs ! gi)). wire_to_gate gs w \<noteq> None \<or> mat w))"
proof -
  let ?I = "work_indices gs keep"
  have set_I: "set ?I = needed" by (simp add: needed_def work_indices_props(2))
  have "sorted_list_of_set needed = ?I"
    using work_indices_props(1) [of gs keep] set_I
    by (metis sorted_list_of_set.idem_if_sorted_distinct strict_sorted_iff)
  moreover have "map g_op (p_gates (fp_prog p)) = map (\<lambda>gi. g_op (gs ! gi)) ?I"
  proof -
    obtain R where "length (p_gates (fp_prog p)) = length ?I"
      "\<And>k. k < length ?I \<Longrightarrow> g_op (p_gates (fp_prog p) ! k) = g_op (work_gates gs keep ! k)"
      unfolding p_def by (rule plan_flush_gates [OF assms(1), of keep mat]) blast
    then show ?thesis by (intro nth_equalityI) simp_all
  qed
  ultimately show ?thesis
    using plan_flush_inputs [OF assms(1), where keep = keep and mat = mat] plan_flush_outputs [OF assms(1), of keep mat]
      pending_in_order_props [of gs keep] plan_flush_ok_iff [OF assms(1), of keep mat]
    by (auto simp: p_def needed_def)
qed

theorem flush_plan_minimal_witness:
  "map g_op (p_gates (fp_prog (plan_flush [mk_gate 0 1 2 Op_And, mk_gate 0 2 3 Op_Xor] [2] (\<lambda>w. w < 2)))) = [Op_And]"
proof -
  let ?gs = "[mk_gate 0 1 2 Op_And, mk_gate 0 2 3 Op_Xor]"
  have "wf_chunk ?gs" by code_simp
  moreover have "work_indices ?gs [2] = [0]" by code_simp
  then have "{gi. reachable_gate ?gs (set [2]) gi} = {0}" using work_indices_props(2) [of ?gs "[2]"] by simp
  ultimately show ?thesis using flush_plan_minimal [of ?gs "[2]" "\<lambda>w. w < 2"] by simp
qed

end
