(* ===== verification/Recorder.thy ===== *)
theory Recorder
  imports Flush_Correct
begin

text \<open>
  The gate recorder \<^verbatim>\<open>AG2PCCtx\<close> of \<^verbatim>\<open>session/ag2pc_ctx.h\<close>: it allocates wire ids
  from a counter that is never reset and records gates into the current chunk. Lemmas: every chunk
  a reachable recorder holds is one the flush planner accepts (\<open>wf_chunk\<close>), ids are never handed
  out twice, and recording a gate extends the chunk's meaning by exactly that gate.
\<close>

section \<open>State and operations\<close>

definition UINT32_MAX :: nat where "UINT32_MAX = 2 ^ 32 - 1"

record recorder =
  next_id :: nat
  chunk_gates :: "gate list"
  pending :: "wire set"
  const_wire0 :: int
  const_wire1 :: int

definition init_recorder :: recorder where
  "init_recorder = \<lparr>next_id = 0, chunk_gates = [], pending = {}, const_wire0 = - 1, const_wire1 = - 1\<rparr>"

definition alloc_id :: "recorder \<Rightarrow> (wire \<times> recorder) result" where
  "alloc_id r = (if next_id r = UINT32_MAX then Inl Recorder_Id_Overflow
                 else Inr (next_id r, r\<lparr>next_id := Suc (next_id r)\<rparr>))"

definition require_allocated :: "wire \<Rightarrow> recorder \<Rightarrow> unit result" where
  "require_allocated a r = (if a \<ge> next_id r then Inl Operand_Never_Allocated else Inr ())"

definition record_gate :: "wire \<Rightarrow> wire \<Rightarrow> op \<Rightarrow> recorder \<Rightarrow> (wire \<times> recorder) result" where
  "record_gate a b f r = bind_result (alloc_id r) (\<lambda>(i, r).
     Inr (i, r\<lparr>chunk_gates := chunk_gates r @ [mk_gate a b i f], pending := insert i (pending r)\<rparr>))"

definition const_wire :: "bool \<Rightarrow> recorder \<Rightarrow> int" where
  "const_wire v r = (if v then const_wire1 r else const_wire0 r)"

definition set_const_wire :: "bool \<Rightarrow> int \<Rightarrow> recorder \<Rightarrow> recorder" where
  "set_const_wire v c r = (if v then r\<lparr>const_wire1 := c\<rparr> else r\<lparr>const_wire0 := c\<rparr>)"

definition rec_public_bit :: "bool \<Rightarrow> recorder \<Rightarrow> (wire \<times> recorder) result" where
  "rec_public_bit v r =
     (if const_wire v r < 0 then
        bind_result (record_gate 0 0 (if v then Op_Const1 else Op_Const0) r) (\<lambda>(i, r).
          Inr (i, set_const_wire v (int i) r))
      else Inr (nat (const_wire v r), r))"

definition rec_and_gate :: "wire \<Rightarrow> wire \<Rightarrow> recorder \<Rightarrow> (wire \<times> recorder) result" where
  "rec_and_gate a b r = bind_result (require_allocated a r) (\<lambda>_.
     bind_result (require_allocated b r) (\<lambda>_. record_gate a b Op_And r))"

definition rec_xor_gate :: "wire \<Rightarrow> wire \<Rightarrow> recorder \<Rightarrow> (wire \<times> recorder) result" where
  "rec_xor_gate a b r = bind_result (require_allocated a r) (\<lambda>_.
     bind_result (require_allocated b r) (\<lambda>_. record_gate a b Op_Xor r))"

definition rec_not_gate :: "wire \<Rightarrow> recorder \<Rightarrow> (wire \<times> recorder) result" where
  "rec_not_gate a r = bind_result (require_allocated a r) (\<lambda>_. record_gate a 0 Op_Not r)"

primrec reserve_ids :: "nat \<Rightarrow> recorder \<Rightarrow> (wire list \<times> recorder) result" where
  "reserve_ids 0 r = Inr ([], r)"
| "reserve_ids (Suc n) r = bind_result (alloc_id r) (\<lambda>(i, r).
     bind_result (reserve_ids n r) (\<lambda>(is, r). Inr (i # is, r)))"

definition is_pending :: "recorder \<Rightarrow> wire \<Rightarrow> bool" where
  "is_pending r i \<longleftrightarrow> i \<in> pending r"

definition drop_chunk :: "recorder \<Rightarrow> recorder" where
  "drop_chunk r = r\<lparr>chunk_gates := [], pending := {}, const_wire0 := - 1, const_wire1 := - 1\<rparr>"

section \<open>Invariant\<close>

definition const_op :: "bool \<Rightarrow> op" where
  "const_op v = (if v then Op_Const1 else Op_Const0)"

text \<open>The cache of a constant: empty, or the id of the chunk's one gate for it.\<close>

definition const_inv :: "bool \<Rightarrow> gate list \<Rightarrow> int \<Rightarrow> bool" where
  "const_inv v gs c \<longleftrightarrow>
     count_list (map g_op gs) (const_op v) = (if c < 0 then 0 else 1) \<and>
     (c \<ge> 0 \<longrightarrow> (\<exists>g \<in> set gs. int (g_out g) = c \<and> g_op g = const_op v))"

lemma const_inv_other:
  "g_op g \<noteq> const_op v \<Longrightarrow> const_inv v gs c \<Longrightarrow> const_inv v (gs @ [g]) c"
  by (auto simp: const_inv_def)

lemma const_inv_same:
  "g_op g = const_op v \<Longrightarrow> c < 0 \<Longrightarrow> const_inv v gs c \<Longrightarrow> const_inv v (gs @ [g]) (int (g_out g))"
  by (auto simp: const_inv_def)

definition rec_inv :: "recorder \<Rightarrow> bool" where
  "rec_inv r \<longleftrightarrow>
     next_id r \<le> UINT32_MAX \<and>
     sorted_wrt (<) (map g_out (chunk_gates r)) \<and>
     (\<forall>g \<in> set (chunk_gates r). g_out g < next_id r \<and> (\<forall>w \<in> set (gate_operands g). w < g_out g)) \<and>
     pending r = g_out ` set (chunk_gates r) \<and>
     const_inv False (chunk_gates r) (const_wire0 r) \<and>
     const_inv True (chunk_gates r) (const_wire1 r)"

lemma rec_inv_init: "rec_inv init_recorder"
  by (simp add: rec_inv_def init_recorder_def const_inv_def UINT32_MAX_def)

lemma rec_inv_drop: "rec_inv r \<Longrightarrow> rec_inv (drop_chunk r)"
  by (simp add: rec_inv_def drop_chunk_def const_inv_def)

lemma alloc_id_Inr:
  "alloc_id r = Inr (i, r') \<longleftrightarrow> next_id r \<noteq> UINT32_MAX \<and> i = next_id r \<and> r' = r\<lparr>next_id := Suc (next_id r)\<rparr>"
  by (auto simp: alloc_id_def)

lemma record_gate_Inr:
  "record_gate a b f r = Inr (i, r') \<longleftrightarrow>
     next_id r \<noteq> UINT32_MAX \<and> i = next_id r \<and>
     r' = r\<lparr>next_id := Suc i, chunk_gates := chunk_gates r @ [mk_gate a b i f],
            pending := insert i (pending r)\<rparr>"
  by (auto simp: record_gate_def alloc_id_def)

text \<open>A recorded gate whose operands are allocated and which is not a constant keeps the invariant.\<close>

lemma rec_inv_record:
  assumes "rec_inv r" and "record_gate a b f r = Inr (i, r')"
    and "\<forall>w \<in> set (gate_operands (mk_gate a b i f)). w < next_id r"
    and "f \<noteq> Op_Const0" and "f \<noteq> Op_Const1"
  shows "rec_inv r'"
  using assms
  by (auto simp: rec_inv_def record_gate_Inr sorted_wrt_append const_op_def less_Suc_eq
      intro!: const_inv_other)

lemma rec_inv_const:
  assumes "rec_inv r" and "const_wire v r < 0"
    and "record_gate 0 0 (const_op v) r = Inr (i, r')"
  shows "rec_inv (set_const_wire v (int i) r')"
proof -
  have r': "next_id r \<noteq> UINT32_MAX" "i = next_id r"
    "r' = r\<lparr>next_id := Suc i, chunk_gates := chunk_gates r @ [mk_gate 0 0 i (const_op v)],
           pending := insert i (pending r)\<rparr>"
    using assms(3) by (auto simp: record_gate_Inr)
  let ?gs = "chunk_gates r @ [mk_gate 0 0 i (const_op v)]"
  have "const_inv v ?gs (int i)"
    using const_inv_same [of "mk_gate 0 0 i (const_op v)" v "const_wire v r" "chunk_gates r"] assms(1,2)
    by (cases v) (simp_all add: rec_inv_def const_wire_def)
  moreover have "const_inv (\<not> v) ?gs (const_wire (\<not> v) r)"
    using assms(1)
    by (cases v) (auto simp: rec_inv_def const_wire_def const_op_def intro!: const_inv_other)
  moreover have "gate_operands (mk_gate 0 0 i (const_op v)) = []"
    by (simp add: gate_operands_def is_const_def const_op_def)
  ultimately show ?thesis
    using assms(1) r'
    by (cases v)
       (auto simp: rec_inv_def sorted_wrt_append set_const_wire_def const_wire_def less_Suc_eq)
qed

lemma rec_inv_reserve: "rec_inv r \<Longrightarrow> reserve_ids n r = Inr (is, r') \<Longrightarrow> rec_inv r'"
proof (induction n arbitrary: r "is" r')
  case (Suc n)
  from Suc.prems(2) obtain js where
    step: "next_id r \<noteq> UINT32_MAX" "reserve_ids n (r\<lparr>next_id := Suc (next_id r)\<rparr>) = Inr (js, r')"
    by (auto simp: bind_result_Inr alloc_id_Inr)
  have "rec_inv (r\<lparr>next_id := Suc (next_id r)\<rparr>)"
    using Suc.prems(1) step(1) by (auto simp: rec_inv_def less_Suc_eq)
  from Suc.IH [OF this step(2)] show ?case .
qed simp

section \<open>Reachable recorders\<close>

text \<open>One call on the recorder that returns (an error ends the process).\<close>

inductive rec_step :: "recorder \<Rightarrow> wire list \<Rightarrow> recorder \<Rightarrow> bool" where
  public_bit: "rec_public_bit v r = Inr (w, r') \<Longrightarrow> rec_step r [w] r'"
| and_gate: "rec_and_gate a b r = Inr (w, r') \<Longrightarrow> rec_step r [w] r'"
| xor_gate: "rec_xor_gate a b r = Inr (w, r') \<Longrightarrow> rec_step r [w] r'"
| not_gate: "rec_not_gate a r = Inr (w, r') \<Longrightarrow> rec_step r [w] r'"
| reserve: "reserve_ids n r = Inr (ws, r') \<Longrightarrow> rec_step r ws r'"
| drop: "rec_step r [] (drop_chunk r)"

inductive rec_reachable :: "recorder \<Rightarrow> bool" where
  start: "rec_reachable init_recorder"
| step: "rec_reachable r \<Longrightarrow> rec_step r ws r' \<Longrightarrow> rec_reachable r'"

inductive_cases rec_stepE: "rec_step r ws r'"

lemma rec_step_inv:
  assumes "rec_inv r" and "rec_step r ws r'"
  shows "rec_inv r'"
  using assms(2)
proof cases
  case (public_bit v w)
  show ?thesis
  proof (cases "const_wire v r < 0")
    case True
    then obtain r1 where "record_gate 0 0 (const_op v) r = Inr (w, r1)" "r' = set_const_wire v (int w) r1"
      using public_bit by (auto simp: rec_public_bit_def bind_result_Inr const_op_def)
    then show ?thesis using rec_inv_const [OF assms(1) True] by simp
  next
    case False
    then show ?thesis using public_bit assms(1) by (simp add: rec_public_bit_def)
  qed
next
  case (and_gate a b w)
  then have "record_gate a b Op_And r = Inr (w, r')" "a < next_id r" "b < next_id r"
    by (auto simp: rec_and_gate_def require_allocated_def bind_result_Inr split: if_splits)
  then show ?thesis
    by (intro rec_inv_record [OF assms(1)])
       (auto simp: gate_operands_def is_const_def is_not_def record_gate_Inr)
next
  case (xor_gate a b w)
  then have "record_gate a b Op_Xor r = Inr (w, r')" "a < next_id r" "b < next_id r"
    by (auto simp: rec_xor_gate_def require_allocated_def bind_result_Inr split: if_splits)
  then show ?thesis
    by (intro rec_inv_record [OF assms(1)])
       (auto simp: gate_operands_def is_const_def is_not_def record_gate_Inr)
next
  case (not_gate a w)
  then have "record_gate a 0 Op_Not r = Inr (w, r')" "a < next_id r"
    by (auto simp: rec_not_gate_def require_allocated_def bind_result_Inr split: if_splits)
  then show ?thesis
    by (intro rec_inv_record [OF assms(1)])
       (auto simp: gate_operands_def is_const_def is_not_def record_gate_Inr)
next
  case (reserve n)
  then show ?thesis using rec_inv_reserve [OF assms(1)] by blast
next
  case drop
  then show ?thesis using rec_inv_drop [OF assms(1)] by simp
qed

lemma rec_reachable_inv: "rec_reachable r \<Longrightarrow> rec_inv r"
  by (induction rule: rec_reachable.induct) (auto intro: rec_inv_init rec_step_inv)

text \<open>The contract with the flush planner.\<close>

lemma rec_inv_wf_chunk:
  assumes "rec_inv r"
  shows "wf_chunk (chunk_gates r)"
proof -
  let ?gs = "chunk_gates r"
  have sorted: "sorted_wrt (<) (map g_out ?gs)" using assms by (simp add: rec_inv_def)
  have "j < i" if i: "i < length ?gs" and w: "w \<in> set (gate_operands (?gs ! i))"
      and j: "wire_to_gate ?gs w = Some j" for i w j
  proof -
    have j: "j < length ?gs" "g_out (?gs ! j) = w" using wire_to_gate_SomeD [OF j] by simp_all
    have "w < g_out (?gs ! i)" using assms i w by (auto simp: rec_inv_def)
    then show ?thesis
      using sorted_nth_less_iff [OF sorted, of j i] i j by simp
  qed
  then have "\<forall>i < length ?gs. \<forall>w \<in> set (gate_operands (?gs ! i)).
      case wire_to_gate ?gs w of None \<Rightarrow> True | Some j \<Rightarrow> j < i" by (auto split: option.split)
  moreover have "distinct (map g_out ?gs)" using sorted by (simp add: strict_sorted_iff)
  moreover have "count_list (map g_op ?gs) Op_Const0 \<le> 1" "count_list (map g_op ?gs) Op_Const1 \<le> 1"
    using assms by (auto simp: rec_inv_def const_inv_def const_op_def split: if_splits)
  ultimately show ?thesis by (simp add: wf_chunk_def)
qed

lemma rec_inv_pending: "rec_inv r \<Longrightarrow> is_pending r w \<longleftrightarrow> wire_to_gate (chunk_gates r) w \<noteq> None"
  by (simp add: rec_inv_def is_pending_def wire_to_gate_None)

section \<open>Properties\<close>

text \<open>
  C5: whatever calls built the current chunk of a recorder, a flush plan that is \<open>ok\<close> is a
  canonical, topological program which, run on the values of its input ids, computes exactly the
  values of the kept pending wires of the chunk, for every valuation \<open>s\<close> of the earlier wires.
\<close>

theorem recorded_chunk_flush_correct:
  assumes "rec_reachable r" and "fp_ok (plan_flush (chunk_gates r) keep mat)"
  defines "pl \<equiv> plan_flush (chunk_gates r) keep mat"
  shows "map ((!) (clear_run (map s (fp_input_ids pl)) (map gate_ev (p_gates (fp_prog pl)))))
           (p_outputs (fp_prog pl)) = map (chunk_eval (chunk_gates r) s) (fp_output_ids pl) \<and>
         set (fp_output_ids pl) = {w \<in> set keep. is_pending r w} \<and> distinct (fp_output_ids pl) \<and>
         topological (fp_prog pl) \<and> record_canonical (fp_prog pl)"
proof -
  have inv: "rec_inv r" by (rule rec_reachable_inv [OF assms(1)])
  note wf = rec_inv_wf_chunk [OF inv]
  show ?thesis
    using plan_flush_computes [OF wf assms(2)] plan_flush_topological [OF wf assms(2)]
      plan_flush_canonical [OF wf] plan_flush_outputs [OF wf, of keep mat] rec_inv_pending [OF inv]
    by (auto simp: pl_def pending_in_order_props)
qed

text \<open>A recorder with two reserved input ids and one AND gate.\<close>

definition sample_recorder :: recorder where
  "sample_recorder = \<lparr>next_id = 3, chunk_gates = [mk_gate 0 1 2 Op_And], pending = {2},
     const_wire0 = - 1, const_wire1 = - 1\<rparr>"

lemma sample_recorder_reachable: "rec_reachable sample_recorder"
proof -
  have "reserve_ids (Suc (Suc 0)) init_recorder = Inr ([0, 1], init_recorder\<lparr>next_id := 2\<rparr>)"
    by (simp add: alloc_id_def init_recorder_def UINT32_MAX_def)
  then have "rec_reachable (init_recorder\<lparr>next_id := 2\<rparr>)"
    by (intro rec_reachable.step [OF rec_reachable.start] rec_step.reserve)
  moreover have "rec_and_gate 0 1 (init_recorder\<lparr>next_id := 2\<rparr>) = Inr (2, sample_recorder)"
    by (simp add: rec_and_gate_def require_allocated_def record_gate_Inr init_recorder_def
        UINT32_MAX_def sample_recorder_def)
  ultimately show ?thesis by (blast intro: rec_reachable.step rec_step.and_gate)
qed

theorem recorded_chunk_flush_correct_witness:
  "set (fp_output_ids (plan_flush (chunk_gates sample_recorder) [2] (\<lambda>w. w < 2))) = {2}"
proof -
  have ok: "fp_ok (plan_flush (chunk_gates sample_recorder) [2] (\<lambda>w. w < 2))"
    by code_simp
  have "{w \<in> set [2]. is_pending sample_recorder w} = {2}"
    by (auto simp: is_pending_def sample_recorder_def)
  then show ?thesis
    using recorded_chunk_flush_correct [OF sample_recorder_reachable ok, of "\<lambda>w. True"] by simp
qed

lemma reserve_ids_eq:
  "reserve_ids n r = Inr (ids, r') \<Longrightarrow> ids = [next_id r..<next_id r + n] \<and> r' = r\<lparr>next_id := next_id r + n\<rparr>"
proof (induction n arbitrary: r ids r')
  case (Suc n)
  then obtain js where a: "next_id r \<noteq> UINT32_MAX" "ids = next_id r # js"
      "reserve_ids n (r\<lparr>next_id := Suc (next_id r)\<rparr>) = Inr (js, r')"
    by (auto simp: bind_result_Inr alloc_id_Inr)
  from Suc.IH [OF a(3)] show ?case by (simp add: a(2) upt_rec)
qed simp

text \<open>What recording a gate does to the values of the wires.\<close>

lemma record_gate_eval:
  assumes "record_gate a b f r = Inr (w, r')"
  shows "w = next_id r" and "chunk_eval (chunk_gates r') s w = gate_val (chunk_eval (chunk_gates r) s) (mk_gate a b w f)"
    and "x < next_id r \<Longrightarrow> chunk_eval (chunk_gates r') s x = chunk_eval (chunk_gates r) s x"
  using assms by (auto simp: record_gate_Inr)

lemma cached_const_eval:
  assumes "rec_inv r" and "\<not> const_wire v r < 0"
  shows "chunk_eval (chunk_gates r) s (nat (const_wire v r)) = v"
proof -
  let ?gs = "chunk_gates r"
  have "const_inv v ?gs (const_wire v r)" using assms(1) by (cases v) (simp_all add: rec_inv_def const_wire_def)
  then obtain g where "g \<in> set ?gs" "int (g_out g) = const_wire v r" "g_op g = const_op v"
    using assms(2) by (auto simp: const_inv_def)
  then obtain i where i: "i < length ?gs" "int (g_out (?gs ! i)) = const_wire v r" "g_op (?gs ! i) = const_op v"
    by (metis in_set_conv_nth)
  have "nat (const_wire v r) = g_out (?gs ! i)" using i(2) by simp
  then show ?thesis
    using chunk_eval_gate [OF rec_inv_wf_chunk [OF assms(1)] i(1), of s] i(3)
    by (simp add: gate_val_def const_op_def is_const_def split: if_splits)
qed

lemma public_bit_eval:
  assumes inv: "rec_inv r" and c: "rec_public_bit v r = Inr (w, r')"
  shows "chunk_eval (chunk_gates r') s w = v"
proof (cases "const_wire v r < 0")
  case True
  then obtain r1 where "record_gate 0 0 (const_op v) r = Inr (w, r1)" "chunk_gates r' = chunk_gates r1"
    using c by (auto simp: rec_public_bit_def bind_result_Inr const_op_def set_const_wire_def split: if_splits)
  then show ?thesis
    using record_gate_eval(2) [of 0 0 "const_op v" r w r1 s] by (simp add: gate_val_def const_op_def is_const_def)
next
  case False
  then have "r' = r" "w = nat (const_wire v r)" using c by (auto simp: rec_public_bit_def)
  then show ?thesis using cached_const_eval [OF inv False, of s] by (simp only:)
qed

lemma rec_step_frame:
  assumes "rec_step r [w] r'" and "x < next_id r"
  shows "chunk_eval (chunk_gates r') s x = chunk_eval (chunk_gates r) s x"
  using assms(1)
proof cases
  case (public_bit v)
  then show ?thesis
    using record_gate_eval(3) [OF _ assms(2)]
    by (auto simp: rec_public_bit_def bind_result_Inr set_const_wire_def split: if_splits)
next
  case (reserve n)
  then show ?thesis using reserve_ids_eq [OF reserve] by simp
qed (use record_gate_eval(3) [OF _ assms(2)] in
    \<open>auto simp: rec_and_gate_def rec_xor_gate_def rec_not_gate_def bind_result_Inr\<close>)



end
