(* ===== verification/Shares.thy ===== *)
theory Shares
  imports Prelude
begin

text \<open>
  Authenticated shares and the per-wire bundles of \<^verbatim>\<open>backend/secure_wires.h\<close>, with the
  boundary check of \<^verbatim>\<open>backend/protocol.h\<close> and \<^verbatim>\<open>append_bundle\<close> of
  \<^verbatim>\<open>backend/engine.h\<close>. The MAC relation between the two parties' halves of a share is
  closed under exclusive or; that is what makes XOR and NOT gates free.
\<close>

section \<open>Authenticated shares\<close>

record ashare =
  sh_mac :: block
  sh_key :: block

definition zero_share :: ashare where "zero_share = \<lparr>sh_mac = 0, sh_key = 0\<rparr>"

definition sh_xor :: "ashare \<Rightarrow> ashare \<Rightarrow> ashare" where
  "sh_xor a b = \<lparr>sh_mac = sh_mac a XOR sh_mac b, sh_key = sh_key a XOR sh_key b\<rparr>"

lemma sh_xor_sel [simp]:
  "sh_mac (sh_xor a b) = sh_mac a XOR sh_mac b" "sh_key (sh_xor a b) = sh_key a XOR sh_key b"
  by (simp_all add: sh_xor_def)

lemma zero_share_sel [simp]: "sh_mac zero_share = 0" "sh_key zero_share = 0"
  by (simp_all add: zero_share_def)

text \<open>
  \<open>mac_ok D M K\<close>: \<open>M\<close> is the holder's MAC under the peer's key \<open>K\<close> and the peer's
  global difference \<open>D\<close>, with the share bit in bit 0 of \<open>M\<close> and bit 0 of \<open>K\<close> clear.
\<close>

definition mac_ok :: "block \<Rightarrow> block \<Rightarrow> block \<Rightarrow> bool" where
  "mac_ok D M K \<longleftrightarrow> M = K XOR sel (LSB M) D \<and> \<not> LSB K"

text \<open>The two halves of one share: party 1 holds \<open>s\<close>, party 2 holds \<open>t\<close>.\<close>

definition shares_ok :: "block \<Rightarrow> block \<Rightarrow> ashare \<Rightarrow> ashare \<Rightarrow> bool" where
  "shares_ok D1 D2 s t \<longleftrightarrow> mac_ok D2 (sh_mac s) (sh_key t) \<and> mac_ok D1 (sh_mac t) (sh_key s)"

definition share_bit :: "ashare \<Rightarrow> ashare \<Rightarrow> bool" where
  "share_bit s t \<longleftrightarrow> LSB (sh_mac s) \<noteq> LSB (sh_mac t)"

text \<open>The pinned bits of the two global differences (\<^verbatim>\<open>TriplePool::init_abit_\<close>).\<close>

definition deltas_ok :: "block \<Rightarrow> block \<Rightarrow> bool" where
  "deltas_ok D1 D2 \<longleftrightarrow> LSB D1 \<and> LSB D2 \<and> LSB1 D1 \<and> \<not> LSB1 D2"

lemma mac_okI:
  "M = K XOR sel b D \<Longrightarrow> \<not> LSB K \<Longrightarrow> LSB D \<Longrightarrow> mac_ok D M K"
  by (cases b) (auto simp: mac_ok_def)

lemma mac_ok_key: "mac_ok D M K \<Longrightarrow> K = M XOR sel (LSB M) D"
  unfolding mac_ok_def by (metis xor.assoc xor.right_neutral xor_self_eq)

lemma mac_ok_zero [simp]: "mac_ok D 0 0"
  by (simp add: mac_ok_def)

lemma mac_ok_xor:
  assumes "mac_ok D M K" and "mac_ok D M' K'"
  shows "mac_ok D (M XOR M') (K XOR K')"
proof -
  have "M XOR M' = (K XOR sel (LSB M) D) XOR (K' XOR sel (LSB M') D)"
    using assms by (simp add: mac_ok_def)
  also have "\<dots> = (K XOR K') XOR sel (LSB M \<noteq> LSB M') D"
    by (simp add: xor_algebra)
  finally have "M XOR M' = (K XOR K') XOR sel (LSB M \<noteq> LSB M') D" .
  moreover have "\<not> LSB K" "\<not> LSB K'" using assms by (simp_all add: mac_ok_def)
  ultimately show ?thesis
    unfolding mac_ok_def LSB_xor [of M M'] LSB_xor [of K K'] by blast
qed

lemma mac_ok_sel: "mac_ok D M K \<Longrightarrow> mac_ok D (sel b M) (sel b K)"
  by (cases b) simp_all

lemma shares_ok_zero [simp]: "shares_ok D1 D2 zero_share zero_share"
  by (simp add: shares_ok_def)

lemma shares_ok_xor:
  "shares_ok D1 D2 s t \<Longrightarrow> shares_ok D1 D2 s' t' \<Longrightarrow> shares_ok D1 D2 (sh_xor s s') (sh_xor t t')"
  by (simp add: shares_ok_def mac_ok_xor)

lemma share_bit_xor [simp]:
  "share_bit (sh_xor s s') (sh_xor t t') = (share_bit s t \<noteq> share_bit s' t')"
  by (auto simp: share_bit_def)

lemma share_bit_zero [simp]: "\<not> share_bit zero_share zero_share"
  by (simp add: share_bit_def)

lemma list_all2_nthD':
  "list_all2 P xs ys \<Longrightarrow> i < length xs \<Longrightarrow> P (xs ! i) (ys ! i)"
  by (simp add: list_all2_conv_all_nth)

section \<open>Bundles of wires\<close>

record secure_wires =
  sw_Lambda :: "byte list"
  sw_bundle :: "ashare list"
  sw_label0 :: "block list"
  sw_eval_label :: "block list"

definition empty_wires :: secure_wires where
  "empty_wires = \<lparr>sw_Lambda = [], sw_bundle = [], sw_label0 = [], sw_eval_label = []\<rparr>"

definition sw_size :: "secure_wires \<Rightarrow> nat" where "sw_size w = length (sw_Lambda w)"

text \<open>\<^verbatim>\<open>[lo, hi)\<close> of a vector.\<close>

definition range_of :: "nat \<Rightarrow> nat \<Rightarrow> 'a list \<Rightarrow> 'a list" where
  "range_of lo hi xs = take (hi - lo) (drop lo xs)"

definition sw_slice :: "nat \<Rightarrow> nat \<Rightarrow> secure_wires \<Rightarrow> secure_wires" where
  "sw_slice lo hi w =
     \<lparr>sw_Lambda = range_of lo hi (sw_Lambda w),
      sw_bundle = (if sw_bundle w = [] then [] else range_of lo hi (sw_bundle w)),
      sw_label0 = (if sw_label0 w = [] then [] else range_of lo hi (sw_label0 w)),
      sw_eval_label = (if sw_eval_label w = [] then [] else range_of lo hi (sw_eval_label w))\<rparr>"

definition append_bundle :: "secure_wires \<Rightarrow> secure_wires \<Rightarrow> secure_wires" where
  "append_bundle d s =
     \<lparr>sw_Lambda = sw_Lambda d @ sw_Lambda s,
      sw_bundle = sw_bundle d @ sw_bundle s,
      sw_label0 = (if sw_label0 s = [] then sw_label0 d else sw_label0 d @ sw_label0 s),
      sw_eval_label = (if sw_eval_label s = [] then sw_eval_label d else sw_eval_label d @ sw_eval_label s)\<rparr>"

definition check_secure_wires :: "secure_wires \<Rightarrow> nat \<Rightarrow> unit result" where
  "check_secure_wires w party =
     (let n = length (sw_Lambda w) in
      if length (sw_bundle w) \<noteq> n then Inl Wire_Bundle_Length
      else if party = 1 then
        (if length (sw_label0 w) \<noteq> n then Inl Label0_Length else Inr ())
      else
        (if length (sw_eval_label w) \<noteq> n then Inl Eval_Label_Length else Inr ()))"

text \<open>The layout invariant of a bundle: exactly the local party's label array is populated.\<close>

definition sw_layout :: "nat \<Rightarrow> secure_wires \<Rightarrow> bool" where
  "sw_layout party w \<longleftrightarrow> length (sw_bundle w) = sw_size w \<and>
     (if party = 1 then length (sw_label0 w) = sw_size w \<and> sw_eval_label w = []
      else length (sw_eval_label w) = sw_size w \<and> sw_label0 w = [])"

lemma sw_layout_check: "sw_layout party w \<Longrightarrow> check_secure_wires w party = Inr ()"
  by (auto simp: sw_layout_def check_secure_wires_def sw_size_def Let_def split: if_splits)

lemma sw_layout_empty [simp]: "sw_layout party empty_wires"
  by (simp add: sw_layout_def empty_wires_def sw_size_def)

lemma length_range_of [simp]: "length (range_of lo hi xs) = min (hi - lo) (length xs - lo)"
  by (simp add: range_of_def)

lemma range_of_nth: "lo + i < hi \<Longrightarrow> lo + i < length xs \<Longrightarrow> range_of lo hi xs ! i = xs ! (lo + i)"
  by (simp add: range_of_def)

lemma sw_layout_slice:
  "sw_layout party w \<Longrightarrow> lo \<le> hi \<Longrightarrow> hi \<le> sw_size w \<Longrightarrow>
   sw_layout party (sw_slice lo hi w) \<and> sw_size (sw_slice lo hi w) = hi - lo"
  by (auto simp: sw_layout_def sw_slice_def sw_size_def split: if_splits)

lemma sw_layout_append:
  "sw_layout party d \<Longrightarrow> sw_layout party s \<Longrightarrow>
   sw_layout party (append_bundle d s) \<and> sw_size (append_bundle d s) = sw_size d + sw_size s"
  by (auto simp: sw_layout_def append_bundle_def sw_size_def split: if_splits)

text \<open>
  Two parties' bundles represent the cleartext bits \<open>vs\<close>: every wire is authenticated both
  ways, the opened mask is the value masked by the shared bit, the evaluator holds the garbler's
  label for that mask. The garbler's copy of the mask is related separately.
\<close>

definition eval_rel :: "block \<Rightarrow> block \<Rightarrow> secure_wires \<Rightarrow> secure_wires \<Rightarrow> bool list \<Rightarrow> bool" where
  "eval_rel D1 D2 g e vs \<longleftrightarrow>
     sw_layout 1 g \<and> sw_layout 2 e \<and> sw_size g = length vs \<and> sw_size e = length vs \<and>
     (\<forall>i < length vs.
        shares_ok D1 D2 (sw_bundle g ! i) (sw_bundle e ! i) \<and>
        sw_Lambda e ! i = bbyte (vs ! i \<noteq> share_bit (sw_bundle g ! i) (sw_bundle e ! i)) \<and>
        sw_eval_label e ! i = sw_label0 g ! i XOR sel (nz (sw_Lambda e ! i)) D1)"

definition wires_rel :: "block \<Rightarrow> block \<Rightarrow> secure_wires \<Rightarrow> secure_wires \<Rightarrow> bool list \<Rightarrow> bool" where
  "wires_rel D1 D2 g e vs \<longleftrightarrow> eval_rel D1 D2 g e vs \<and> sw_Lambda g = sw_Lambda e"

end
