(* ===== verification/Cot_Pool.thy ===== *)
theory Cot_Pool
  imports Shares Complex_Main
begin

text \<open>
  The state of \<^verbatim>\<open>TriplePool\<close> (\<^verbatim>\<open>backend/triple_pool.h\<close>) and its source of
  authenticated shares: the two long-lived correlated-OT sessions, the deferred consistency check
  and its dirty flag, \<^verbatim>\<open>draw\<close>, and the bucket size. The sessions themselves belong to
  emp-ot: each is the stream of blocks it hands out, and the relation between the two parties'
  streams (\<open>cot_ok\<close>) is its contract.
\<close>

section \<open>State\<close>

record pool =
  tp_party :: nat
  tp_ssp :: nat
  tp_Delta :: block
  tp_key_stream :: "nat \<Rightarrow> block"   \<comment> \<open>what \<^verbatim>\<open>abit1->next_n\<close> hands out\<close>
  tp_mac_stream :: "nat \<Rightarrow> block"   \<comment> \<open>what \<^verbatim>\<open>abit2->next_n\<close> hands out\<close>
  tp_pos :: nat
  tp_cots_minted :: bool
  tp_checks :: nat   \<comment> \<open>consistency checks run so far\<close>

text \<open>The pinned bits of the difference a party draws in \<^verbatim>\<open>init_abit_\<close>.\<close>

definition delta_bits :: "nat \<Rightarrow> bool list \<Rightarrow> bool list" where
  "delta_bits party tmp = tmp[0 := True, 1 := (party = 1)]"

definition init_pool ::
  "(bool list \<Rightarrow> block) \<Rightarrow> nat \<Rightarrow> nat \<Rightarrow> bool list \<Rightarrow> (nat \<Rightarrow> block) \<Rightarrow> (nat \<Rightarrow> block) \<Rightarrow> pool" where
  "init_pool set_delta party ssp tmp key_stream mac_stream =
     \<lparr>tp_party = party, tp_ssp = ssp, tp_Delta = set_delta (delta_bits party tmp),
      tp_key_stream = key_stream, tp_mac_stream = mac_stream, tp_pos = 0,
      tp_cots_minted = False, tp_checks = 0\<rparr>"

lemma init_pool_deltas_ok:
  assumes "\<And>bs i. length bs = 128 \<Longrightarrow> i < 128 \<Longrightarrow> bit (set_delta bs) i = bs ! i"
    and "length tmp1 = 128" and "length tmp2 = 128"
  shows "deltas_ok (tp_Delta (init_pool set_delta 1 ssp tmp1 k1 m1))
                   (tp_Delta (init_pool set_delta 2 ssp tmp2 k2 m2))"
  using assms(2,3)
  by (simp add: init_pool_def deltas_ok_def LSB_def LSB1_def assms(1) delta_bits_def)

section \<open>Share generation\<close>

definition gen_cot_shares :: "nat \<Rightarrow> pool \<Rightarrow> (block list \<times> block list) \<times> pool" where
  "gen_cot_shares count p =
     ((map (tp_mac_stream p) [tp_pos p..<tp_pos p + count],
       map (tp_key_stream p) [tp_pos p..<tp_pos p + count]),
      p\<lparr>tp_pos := tp_pos p + count, tp_cots_minted := True\<rparr>)"

definition draw :: "nat \<Rightarrow> pool \<Rightarrow> ashare list \<times> pool" where
  "draw n p = (case gen_cot_shares n p of ((tmac, tkey), p') \<Rightarrow>
     (map (\<lambda>i. \<lparr>sh_mac = tmac ! i, sh_key = tkey ! i\<rparr>) [0..<n], p'))"

definition flush_cot_check :: "pool \<Rightarrow> pool" where
  "flush_cot_check p = p\<lparr>tp_cots_minted := False, tp_checks := Suc (tp_checks p)\<rparr>"

definition maybe_flush_cot_check :: "pool \<Rightarrow> pool" where
  "maybe_flush_cot_check p = (if tp_cots_minted p then flush_cot_check p else p)"

text \<open>The \<open>i\<close>-th share a pool hands out.\<close>

definition stream_share :: "pool \<Rightarrow> nat \<Rightarrow> ashare" where
  "stream_share p i = \<lparr>sh_mac = tp_mac_stream p i, sh_key = tp_key_stream p i\<rparr>"

lemma draw_eq:
  "draw n p = (map (stream_share p) [tp_pos p..<tp_pos p + n],
               p\<lparr>tp_pos := tp_pos p + n, tp_cots_minted := True\<rparr>)"
  by (simp add: draw_def gen_cot_shares_def stream_share_def list_eq_iff_nth_eq)

text \<open>The contract of the correlated-OT sessions: corresponding outputs form valid shares.\<close>

definition cot_ok :: "pool \<Rightarrow> pool \<Rightarrow> bool" where
  "cot_ok p q \<longleftrightarrow> (\<forall>i. shares_ok (tp_Delta p) (tp_Delta q) (stream_share p i) (stream_share q i))"

text \<open>Two pools of one session: in step, correlated, with pinned differences.\<close>

definition pools_ok :: "pool \<Rightarrow> pool \<Rightarrow> bool" where
  "pools_ok p q \<longleftrightarrow> tp_party p = 1 \<and> tp_party q = 2 \<and> tp_ssp p = tp_ssp q \<and>
     deltas_ok (tp_Delta p) (tp_Delta q) \<and> tp_pos p = tp_pos q \<and>
     tp_cots_minted p = tp_cots_minted q \<and> cot_ok p q"

text \<open>Everything of a pool that no operation changes.\<close>

definition same_session :: "pool \<Rightarrow> pool \<Rightarrow> bool" where
  "same_session p q \<longleftrightarrow> tp_party p = tp_party q \<and> tp_ssp p = tp_ssp q \<and> tp_Delta p = tp_Delta q \<and>
     tp_key_stream p = tp_key_stream q \<and> tp_mac_stream p = tp_mac_stream q"

lemma same_session_refl [simp]: "same_session p p"
  by (simp add: same_session_def)

lemma same_session_trans: "same_session p q \<Longrightarrow> same_session q r \<Longrightarrow> same_session p r"
  by (simp add: same_session_def)

lemma same_session_ops [simp]:
  "same_session p (p\<lparr>tp_pos := n, tp_cots_minted := b\<rparr>)"
  "same_session p (flush_cot_check p)"
  "same_session p (maybe_flush_cot_check p)"
  by (simp_all add: same_session_def flush_cot_check_def maybe_flush_cot_check_def)

lemma stream_share_session: "same_session p q \<Longrightarrow> stream_share q = stream_share p"
  by (rule ext) (simp add: same_session_def stream_share_def)

lemma pools_ok_step:
  assumes "pools_ok p q" and "same_session p p'" and "same_session q q'"
    and "tp_pos p' = tp_pos q'" and "tp_cots_minted p' = tp_cots_minted q'"
  shows "pools_ok p' q'"
  using assms stream_share_session [OF assms(2)] stream_share_session [OF assms(3)]
  by (simp add: pools_ok_def same_session_def cot_ok_def)

section \<open>Bucket size\<close>

lemma log2_ge_1: "L \<ge> 2 \<Longrightarrow> log 2 (real L) \<ge> 1"
  by (simp add: le_log_iff)

lemma bucket_loop_bound:
  assumes "L \<ge> 2" and "log 2 (real L) * real (B - 1) \<le> real ssp"
  shows "B \<le> ssp + 1"
proof -
  have "1 * real (B - 1) \<le> log 2 (real L) * real (B - 1)"
    using log2_ge_1 [OF assms(1)] by (rule mult_right_mono) simp
  with assms(2) have "real (B - 1) \<le> real ssp" by simp
  then show ?thesis by simp
qed

text \<open>
  \<^verbatim>\<open>get_bucket_size\<close>: the loop \<^verbatim>\<open>B = 2; while (log2_L * (B-1) <= ssp) ++B;\<close>
  over the real logarithm; the result of \<^verbatim>\<open>std::log2\<close> is taken as exact. The recursion
  is on the number of iterations left, which \<open>ssp + 1\<close> bounds.
\<close>

function bucket_loop :: "nat \<Rightarrow> nat \<Rightarrow> nat \<Rightarrow> nat" where
  "bucket_loop L ssp B =
     (if L \<ge> 2 \<and> log 2 (real L) * real (B - 1) \<le> real ssp then bucket_loop L ssp (Suc B) else B)"
  by pat_completeness auto

termination
proof (relation "measure (\<lambda>(L, ssp, B). ssp + 2 - B)", goal_cases)
  case (2 L ssp B)
  with bucket_loop_bound [of L B ssp] have "B \<le> ssp + 1" by blast
  then show ?case by simp
qed simp

declare bucket_loop.simps [simp del]

definition get_bucket_size :: "nat \<Rightarrow> nat \<Rightarrow> nat" where
  "get_bucket_size ssp n = bucket_loop (max n 1024) ssp 2"

lemma bucket_loop_spec:
  assumes "L \<ge> 2"
  shows "B \<le> bucket_loop L ssp B \<and>
    real ssp < log 2 (real L) * real (bucket_loop L ssp B - 1) \<and>
    (\<forall>B'. B \<le> B' \<longrightarrow> B' < bucket_loop L ssp B \<longrightarrow> log 2 (real L) * real (B' - 1) \<le> real ssp)"
  using assms
proof (induction L ssp B rule: bucket_loop.induct)
  case (1 L ssp B)
  show ?case
  proof (cases "log 2 (real L) * real (B - 1) \<le> real ssp")
    case True
    let ?P = "\<lambda>B'. log 2 (real L) * real (B' - 1) \<le> real ssp"
    have eq: "bucket_loop L ssp B = bucket_loop L ssp (Suc B)"
      using True 1(2) by (simp add: bucket_loop.simps [of L ssp B])
    from True 1 have IH: "Suc B \<le> bucket_loop L ssp (Suc B)"
      "real ssp < log 2 (real L) * real (bucket_loop L ssp (Suc B) - 1)"
      "\<forall>B'. Suc B \<le> B' \<longrightarrow> B' < bucket_loop L ssp (Suc B) \<longrightarrow> ?P B'"
      by blast+
    have "?P B'" if "B \<le> B'" "B' < bucket_loop L ssp (Suc B)" for B'
      using IH(3) that True by (cases "B' = B") (blast, metis Suc_leI le_neq_implies_less)
    with IH(1,2) show ?thesis unfolding eq by (meson Suc_leD)
  next
    case False
    then have "bucket_loop L ssp B = B"
      unfolding bucket_loop.simps [of L ssp B] by (simp only: simp_thms if_False)
    with False show ?thesis by (metis le_refl linorder_not_le)
  qed
qed

text \<open>The loop's test in integers, which evaluates.\<close>

lemma log_test:
  assumes "L \<ge> 1"
  shows "log 2 (real L) * real k \<le> real n \<longleftrightarrow> L ^ k \<le> 2 ^ n"
proof -
  have "log 2 (real L) * real k = log 2 (real L ^ k)"
    using assms by (simp add: log_nat_power mult.commute)
  also have "\<dots> \<le> real n \<longleftrightarrow> real L ^ k \<le> 2 powr real n"
    using assms by (simp add: log_le_iff)
  also have "\<dots> \<longleftrightarrow> real (L ^ k) \<le> real (2 ^ n)"
    by (simp add: powr_realpow)
  finally show ?thesis by (simp only: of_nat_le_iff)
qed

lemma bucket_loop_int:
  "L \<ge> 2 \<Longrightarrow> bucket_loop L ssp B = (if L ^ (B - 1) \<le> 2 ^ ssp then bucket_loop L ssp (Suc B) else B)"
  by (subst bucket_loop.simps) (simp add: log_test)

section \<open>Properties\<close>

text \<open>
  C38: the bucket size is the least \<open>B \<ge> 2\<close> for which a cheating party survives the random
  bucketing of \<open>L = max(n, 1024)\<close> candidates with probability below \<open>2^-ssp\<close>, that is
  \<open>L^(B-1) > 2^ssp\<close>; in particular the loop ends.
\<close>

theorem bucket_size_least:
  "2 \<le> get_bucket_size ssp n \<and> 2 ^ ssp < max n 1024 ^ (get_bucket_size ssp n - 1) \<and>
   (\<forall>B. 2 \<le> B \<and> B < get_bucket_size ssp n \<longrightarrow> max n 1024 ^ (B - 1) \<le> 2 ^ ssp)"
proof -
  have L: "max n 1024 \<ge> 2" "max n 1024 \<ge> 1" by simp_all
  note spec = bucket_loop_spec [OF L(1), of 2 ssp] and test = log_test [OF L(2)]
  show ?thesis
    unfolding get_bucket_size_def using spec test by (metis linorder_not_le)
qed

text \<open>At the default security parameter, up to \<open>1024\<close> gates use buckets of five.\<close>

theorem bucket_size_least_witness: "\<not> get_bucket_size 40 1000 \<le> 4"
proof
  assume "get_bucket_size 40 1000 \<le> 4"
  then have "(1024::nat) ^ (get_bucket_size 40 1000 - 1) \<le> 1024 ^ 3"
    by (intro power_increasing) simp_all
  then show False using bucket_size_least [of 40 1000] by simp
qed

end
