(* ===== verification/Leaky_And.thy ===== *)
theory Leaky_And
  imports Cot_Pool
begin

text \<open>
  The AND-share layer primitives of \<^verbatim>\<open>backend/triple_pool.h\<close>: the half-gate leaky AND
  over a layer of candidate triples and the cyclic-shift bucketing of two layers. A layer is the
  pair of arrays \<open>mac\<close>, \<open>key\<close> of length \<open>3 L\<close>, region-major: \<open>a\<close> in \<open>[0, L)\<close>, \<open>b\<close> in
  \<open>[L, 2 L)\<close>, \<open>r\<close> and then \<open>c\<close> in \<open>[2 L, 3 L)\<close>. Each party is garbler of one direction and
  evaluator of the other. For honest parties the region \<open>c\<close> becomes an authenticated share of the
  product and both parties hash the same vector into the equality check.
\<close>

section \<open>External primitives\<close>

text \<open>
  The hash functions belong to emp-tool and are parameters: the tweakable hash \<^verbatim>\<open>MITCCRH\<close>
  with its key schedule (\<open>pr_setS\<close> seeds it, \<open>pr_hash m j x\<close> hashes a block under the \<open>j\<close>-th of
  the keys a call consumes, \<open>pr_hash_cir\<close> is the one-key variant of the half gates,
  \<open>pr_adv m k\<close> is the state after \<open>k\<close> keys), and the digests of \<^verbatim>\<open>Hash\<close>.
\<close>

record ('m, 'd) prims =
  pr_setS :: "block \<Rightarrow> 'm"
  pr_hash :: "'m \<Rightarrow> nat \<Rightarrow> block \<Rightarrow> block"
  pr_hash_cir :: "'m \<Rightarrow> block \<Rightarrow> block"
  pr_adv :: "'m \<Rightarrow> nat \<Rightarrow> 'm"
  pr_digest :: "block list \<Rightarrow> 'd"
  pr_commit :: "'d \<Rightarrow> block \<Rightarrow> 'd"

text \<open>\<^verbatim>\<open>hash<8,2>\<close>: sixteen blocks, two under each of eight keys.\<close>

definition hash_8_2 :: "('m, 'd) prims \<Rightarrow> 'm \<Rightarrow> block list \<Rightarrow> block list" where
  "hash_8_2 P m pad = map (\<lambda>i. pr_hash P m (i div 2) (pad ! i)) [0..<16]"

lemma hash_8_2_nth:
  "j < 8 \<Longrightarrow> hash_8_2 P m pad ! (2 * j) = pr_hash P m j (pad ! (2 * j))"
  "j < 8 \<Longrightarrow> hash_8_2 P m pad ! (2 * j + 1) = pr_hash P m j (pad ! (2 * j + 1))"
  by (simp_all add: hash_8_2_def)

text \<open>Sixteen blocks, interleaved: \<open>pad[2 j] = f j\<close>, \<open>pad[2 j + 1] = g j\<close>.\<close>

definition pad_of :: "(nat \<Rightarrow> block) \<Rightarrow> (nat \<Rightarrow> block) \<Rightarrow> block list" where
  "pad_of f g = map (\<lambda>i. if even i then f (i div 2) else g (i div 2)) [0..<16]"

lemma pad_of_nth:
  "j < 8 \<Longrightarrow> pad_of f g ! (2 * j) = f j" "j < 8 \<Longrightarrow> pad_of f g ! (2 * j + 1) = g j"
  by (simp_all add: pad_of_def)

section \<open>The half-gate join\<close>

text \<open>The local \<open>C\<close> value of candidate \<open>k\<close>: \<open>y * Delta + K[y] + M[y]\<close> of the \<open>b\<close> region.\<close>

definition la_C :: "block \<Rightarrow> nat \<Rightarrow> block list \<Rightarrow> block list \<Rightarrow> nat \<Rightarrow> block" where
  "la_C D L mac key k = sel (LSB (mac ! (L + k))) D XOR key ! (L + k) XOR mac ! (L + k)"

text \<open>The garbler task: ciphertexts in batches of eight, short batches padded with zero blocks.\<close>

function la_garble ::
  "('m, 'd) prims \<Rightarrow> block \<Rightarrow> nat \<Rightarrow> block list \<Rightarrow> block list \<Rightarrow> nat \<Rightarrow> 'm \<Rightarrow> block list \<times> 'm" where
  "la_garble P D L mac key k0 m =
     (if k0 < L then
        let batch = min 8 (L - k0);
            kk = (\<lambda>j. if j < batch then key ! (k0 + j) else 0);
            pad = hash_8_2 P m (pad_of kk (\<lambda>j. kk j XOR D));
            g8 = map (\<lambda>j. pad ! (2 * j) XOR pad ! (2 * j + 1) XOR la_C D L mac key (k0 + j)) [0..<batch];
            (rest, m') = la_garble P D L mac key (k0 + 8) (pr_adv P m 8)
        in (g8 @ rest, m')
      else ([], m))"
  by pat_completeness auto
termination
  by (relation "measure (\<lambda>(P, D, L, mac, key, k0, m). L - k0)") auto

text \<open>The evaluator task, reading the received ciphertexts \<open>w\<close>.\<close>

function la_eval ::
  "('m, 'd) prims \<Rightarrow> block \<Rightarrow> nat \<Rightarrow> block list \<Rightarrow> block list \<Rightarrow> block list \<Rightarrow> nat \<Rightarrow> 'm \<Rightarrow>
   block list \<times> 'm" where
  "la_eval P D L mac key w k0 m =
     (if k0 < L then
        let batch = min 8 (L - k0);
            pad = hash_8_2 P m (pad_of (\<lambda>j. if j < batch then mac ! (k0 + j) else 0)
                                       (\<lambda>j. if j < batch then key ! (k0 + j) else 0));
            s8 = map (\<lambda>j.
                   let k = k0 + j; HM = pad ! (2 * j); HK = pad ! (2 * j + 1);
                       E = HM XOR sel (LSB (mac ! k)) (w ! k);
                       C = la_C D L mac key k
                   in HK XOR E XOR key ! (2 * L + k) XOR mac ! (2 * L + k)
                      XOR sel (LSB (mac ! k)) C XOR sel (LSB (mac ! (2 * L + k))) D) [0..<batch];
            (rest, m') = la_eval P D L mac key w (k0 + 8) (pr_adv P m 8)
        in (s8 @ rest, m')
      else ([], m))"
  by pat_completeness auto
termination
  by (relation "measure (\<lambda>(P, D, L, mac, key, w, k0, m). L - k0)") auto

declare la_garble.simps [simp del] la_eval.simps [simp del]

text \<open>Candidate \<open>k\<close> is hashed under the same key by both tasks of both parties.\<close>

definition batch_state :: "('m, 'd) prims \<Rightarrow> nat \<Rightarrow> 'm \<Rightarrow> 'm" where
  "batch_state P i m = ((\<lambda>m. pr_adv P m 8) ^^ i) m"

definition tweak_hash :: "('m, 'd) prims \<Rightarrow> 'm \<Rightarrow> nat \<Rightarrow> block \<Rightarrow> block" where
  "tweak_hash P m k = pr_hash P (batch_state P (k div 8) m) (k mod 8)"

lemma batch_state_Suc: "batch_state P (Suc i) m = batch_state P i (pr_adv P m 8)"
  by (simp only: batch_state_def funpow_Suc_right o_apply)

lemma tweak_hash_small: "k < 8 \<Longrightarrow> tweak_hash P m k = pr_hash P m k"
  by (simp add: tweak_hash_def batch_state_def)

lemma tweak_hash_shift: "8 \<le> k \<Longrightarrow> tweak_hash P (pr_adv P m 8) (k - 8) = tweak_hash P m k"
proof -
  assume "8 \<le> k"
  then have "k div 8 = Suc ((k - 8) div 8)" "(k - 8) mod 8 = k mod 8"
    by (simp_all add: le_div_geq le_mod_geq)
  then show ?thesis by (simp only: tweak_hash_def batch_state_Suc)
qed

text \<open>One round of a batch loop: the first batch, then the rest shifted by eight.\<close>

lemma batch_split:
  "map f [0..<n] = map f [0..<min 8 n] @ map (\<lambda>t. f (t + 8)) [0..<n - 8]"
proof (cases "8 \<le> n")
  case True
  then have "[0..<n] = [0..<8] @ map (\<lambda>t. t + 8) [0..<n - 8]"
    using upt_add_eq_append [of 0 8 "n - 8"] map_add_upt [of 8 "n - 8"] by simp
  then show ?thesis using True by (simp add: min_def comp_def)
qed (simp add: min_def)

lemma batch_rounds:
  assumes "0 < n"
  shows "batch_state P ((n + 7) div 8) m = batch_state P ((n - 8 + 7) div 8) (pr_adv P m 8)"
proof -
  have "(n + 7) div 8 = Suc ((n - 8 + 7) div 8)"
    using assms by (cases "8 \<le> n") (auto simp: div_if)
  then show ?thesis by (simp only: batch_state_Suc)
qed

definition la_G :: "('m, 'd) prims \<Rightarrow> 'm \<Rightarrow> block \<Rightarrow> nat \<Rightarrow> block list \<Rightarrow> block list \<Rightarrow> nat \<Rightarrow> nat \<Rightarrow> block" where
  "la_G P m D L mac key t k =
     tweak_hash P m t (key ! k) XOR tweak_hash P m t (key ! k XOR D) XOR la_C D L mac key k"

definition la_S ::
  "('m, 'd) prims \<Rightarrow> 'm \<Rightarrow> block \<Rightarrow> nat \<Rightarrow> block list \<Rightarrow> block list \<Rightarrow> block list \<Rightarrow> nat \<Rightarrow> nat \<Rightarrow> block" where
  "la_S P m D L mac key w t k =
     tweak_hash P m t (key ! k) XOR (tweak_hash P m t (mac ! k) XOR sel (LSB (mac ! k)) (w ! k))
     XOR key ! (2 * L + k) XOR mac ! (2 * L + k)
     XOR sel (LSB (mac ! k)) (la_C D L mac key k) XOR sel (LSB (mac ! (2 * L + k))) D"

lemma la_garble_eq:
  "la_garble P D L mac key k0 m =
     (map (\<lambda>t. la_G P m D L mac key t (k0 + t)) [0..<L - k0],
      batch_state P ((L - k0 + 7) div 8) m)"
proof (induction P D L mac key k0 m rule: la_garble.induct)
  case (1 P D L mac key k0 m)
  show ?case
  proof (cases "k0 < L")
    case False
    then show ?thesis by (simp add: la_garble.simps batch_state_def)
  next
    case True
    let ?b = "min 8 (L - k0)" and ?kk = "\<lambda>j. if j < min 8 (L - k0) then key ! (k0 + j) else 0"
    let ?pad = "hash_8_2 P m (pad_of ?kk (\<lambda>j. ?kk j XOR D))"
    have first: "map (\<lambda>j. ?pad ! (2 * j) XOR ?pad ! (2 * j + 1) XOR la_C D L mac key (k0 + j)) [0..<?b] =
        map (\<lambda>t. la_G P m D L mac key t (k0 + t)) [0..<?b]"
      by (rule map_cong) (simp_all add: hash_8_2_nth pad_of_nth la_G_def tweak_hash_small del: One_nat_def)
    have rest: "la_garble P D L mac key (k0 + 8) (pr_adv P m 8) =
        (map (\<lambda>t. la_G P m D L mac key (t + 8) (k0 + (t + 8))) [0..<L - k0 - 8],
         batch_state P ((L - k0 + 7) div 8) m)"
      using "1.IH" [OF True refl refl refl refl] tweak_hash_shift [of "_ + 8" P m] True
        batch_rounds [of "L - k0" P m]
      by (simp add: la_G_def ac_simps)
    have "la_garble P D L mac key k0 m =
        (map (\<lambda>t. la_G P m D L mac key t (k0 + t)) [0..<?b] @
           fst (la_garble P D L mac key (k0 + 8) (pr_adv P m 8)),
         snd (la_garble P D L mac key (k0 + 8) (pr_adv P m 8)))"
      by (subst la_garble.simps) (simp only: True if_True Let_def first case_prod_beta)
    then show ?thesis
      by (simp only: rest fst_conv snd_conv batch_split [of _ "L - k0"])
  qed
qed

lemma la_eval_eq:
  "la_eval P D L mac key w k0 m =
     (map (\<lambda>t. la_S P m D L mac key w t (k0 + t)) [0..<L - k0],
      batch_state P ((L - k0 + 7) div 8) m)"
proof (induction P D L mac key w k0 m rule: la_eval.induct)
  case (1 P D L mac key w k0 m)
  show ?case
  proof (cases "k0 < L")
    case False
    then show ?thesis by (simp add: la_eval.simps batch_state_def)
  next
    case True
    let ?b = "min 8 (L - k0)"
    let ?pad = "hash_8_2 P m (pad_of (\<lambda>j. if j < ?b then mac ! (k0 + j) else 0)
                                    (\<lambda>j. if j < ?b then key ! (k0 + j) else 0))"
    have first: "map (\<lambda>j. ?pad ! (2 * j + 1) XOR
          (?pad ! (2 * j) XOR sel (LSB (mac ! (k0 + j))) (w ! (k0 + j)))
          XOR key ! (2 * L + (k0 + j)) XOR mac ! (2 * L + (k0 + j))
          XOR sel (LSB (mac ! (k0 + j))) (la_C D L mac key (k0 + j))
          XOR sel (LSB (mac ! (2 * L + (k0 + j)))) D) [0..<?b] =
        map (\<lambda>t. la_S P m D L mac key w t (k0 + t)) [0..<?b]"
      by (rule map_cong) (simp_all add: hash_8_2_nth pad_of_nth la_S_def tweak_hash_small del: One_nat_def)
    have rest: "la_eval P D L mac key w (k0 + 8) (pr_adv P m 8) =
        (map (\<lambda>t. la_S P m D L mac key w (t + 8) (k0 + (t + 8))) [0..<L - k0 - 8],
         batch_state P ((L - k0 + 7) div 8) m)"
      using "1.IH" [OF True refl refl refl] tweak_hash_shift [of "_ + 8" P m] True
        batch_rounds [of "L - k0" P m]
      by (simp add: la_S_def ac_simps)
    have "la_eval P D L mac key w k0 m =
        (map (\<lambda>t. la_S P m D L mac key w t (k0 + t)) [0..<?b] @
           fst (la_eval P D L mac key w (k0 + 8) (pr_adv P m 8)),
         snd (la_eval P D L mac key w (k0 + 8) (pr_adv P m 8)))"
      by (subst la_eval.simps) (simp only: True if_True Let_def first case_prod_beta)
    then show ?thesis
      by (simp only: rest fst_conv snd_conv batch_split [of _ "L - k0"])
  qed
qed

section \<open>Opening and folding the parity\<close>

definition la_open :: "block list \<Rightarrow> bool list" where
  "la_open Sout = map LSB1 Sout"

text \<open>
  The combine loop: party 1 flips the share bit in the MAC, the peer moves its key by
  \<open>Delta + e0\<close> so that bit 0 of the key stays clear; both fold the parity into \<open>Sout\<close>.
\<close>

definition la_combine ::
  "nat \<Rightarrow> block \<Rightarrow> nat \<Rightarrow> bool list \<Rightarrow> bool list \<Rightarrow> block list \<Rightarrow> block list \<Rightarrow> block list \<Rightarrow>
   block list \<times> block list \<times> block list" where
  "la_combine party D L s_me s_peer mac key Sout =
     (let d = (\<lambda>k. s_me ! k \<noteq> s_peer ! k) in
      (map (\<lambda>i. if party = 1 \<and> 2 * L \<le> i \<and> i < 3 * L
                 then mac ! i XOR sel (d (i - 2 * L)) bit0_mask else mac ! i) [0..<length mac],
       map (\<lambda>i. if party \<noteq> 1 \<and> 2 * L \<le> i \<and> i < 3 * L
                 then key ! i XOR sel (d (i - 2 * L)) (D XOR bit0_mask) else key ! i) [0..<length key],
       map (\<lambda>k. Sout ! k XOR sel (d k) D) [0..<L]))"

section \<open>Bucketing\<close>

text \<open>The cyclic reindexing by \<open>r\<close>, split at the one wrap-around.\<close>

definition bk_src :: "nat \<Rightarrow> nat \<Rightarrow> nat \<Rightarrow> nat" where
  "bk_src L r i = (let cut = L - r in if i < cut then i + r else i + r - L)"

text \<open>First loop: fold regions \<open>a\<close> and \<open>c\<close> of the layer in, and open the \<open>b\<close> difference.\<close>

definition bk_first ::
  "nat \<Rightarrow> nat \<Rightarrow> block list \<Rightarrow> block list \<Rightarrow> block list \<Rightarrow> block list \<Rightarrow>
   block list \<times> block list \<times> bool list" where
  "bk_first L r am ak lm lk =
     (let f = (\<lambda>acc layer. map (\<lambda>i. if i < L then acc ! i XOR layer ! bk_src L r i
                 else if 2 * L \<le> i \<and> i < 3 * L
                   then acc ! i XOR layer ! (2 * L + bk_src L r (i - 2 * L))
                 else acc ! i) [0..<length acc])
      in (f am lm, f ak lk,
          map (\<lambda>i. LSB (am ! (L + i)) \<noteq> LSB (lm ! (L + bk_src L r i))) [0..<L]))"

text \<open>Second loop: \<open>c += layer.a * d\<close>.\<close>

definition bk_second ::
  "nat \<Rightarrow> nat \<Rightarrow> bool list \<Rightarrow> bool list \<Rightarrow> block list \<Rightarrow> block list \<Rightarrow> block list \<Rightarrow> block list \<Rightarrow>
   block list \<times> block list" where
  "bk_second L r d_me d_peer am ak lm lk =
     (let f = (\<lambda>acc layer. map (\<lambda>i. if 2 * L \<le> i \<and> i < 3 * L
                 then acc ! i XOR sel (d_me ! (i - 2 * L) \<noteq> d_peer ! (i - 2 * L))
                                      (layer ! bk_src L r (i - 2 * L))
                 else acc ! i) [0..<length acc])
      in (f am lm, f ak lk))"

section \<open>Valid layers and triples\<close>

text \<open>The share of position \<open>i\<close> of a layer; the shared bit of two parties' layers.\<close>

definition at_share :: "block list \<Rightarrow> block list \<Rightarrow> nat \<Rightarrow> ashare" where
  "at_share mac key i = \<lparr>sh_mac = mac ! i, sh_key = key ! i\<rparr>"

lemma at_share_sel [simp]: "sh_mac (at_share m k i) = m ! i" "sh_key (at_share m k i) = k ! i"
  by (simp_all add: at_share_def)

type_synonym layer = "block list \<times> block list"

definition layer_ok :: "block \<Rightarrow> block \<Rightarrow> nat \<Rightarrow> layer \<Rightarrow> layer \<Rightarrow> bool" where
  "layer_ok D1 D2 L x y \<longleftrightarrow>
     length (fst x) = 3 * L \<and> length (snd x) = 3 * L \<and> length (fst y) = 3 * L \<and> length (snd y) = 3 * L \<and>
     (\<forall>i < 3 * L. shares_ok D1 D2 (at_share (fst x) (snd x) i) (at_share (fst y) (snd y) i))"

definition layer_bit :: "layer \<Rightarrow> layer \<Rightarrow> nat \<Rightarrow> bool" where
  "layer_bit x y i \<longleftrightarrow> LSB (fst x ! i) \<noteq> LSB (fst y ! i)"

definition triples_ok :: "block \<Rightarrow> block \<Rightarrow> nat \<Rightarrow> layer \<Rightarrow> layer \<Rightarrow> bool" where
  "triples_ok D1 D2 L x y \<longleftrightarrow> layer_ok D1 D2 L x y \<and>
     (\<forall>i < L. layer_bit x y (2 * L + i) = (layer_bit x y i \<and> layer_bit x y (L + i)))"

lemma layer_okD:
  assumes "layer_ok D1 D2 L x y" and "i < 3 * L"
  shows "fst x ! i = snd y ! i XOR sel (LSB (fst x ! i)) D2" "\<not> LSB (snd y ! i)"
    "fst y ! i = snd x ! i XOR sel (LSB (fst y ! i)) D1" "\<not> LSB (snd x ! i)"
  using assms by (auto simp: layer_ok_def shares_ok_def mac_ok_def)

section \<open>The algebra of the leaky AND\<close>

lemma leaky_identity:
  fixes H :: "block \<Rightarrow> block"
  assumes C1: "C1 = sel y1 D1 XOR K1y XOR (K2y XOR sel y1 D2)"
    and C2: "C2 = sel y2 D2 XOR K2y XOR (K1y XOR sel y2 D1)"
    and G1: "G1 = H K1x XOR H (K1x XOR D1) XOR C1"
    and G2: "G2 = H K2x XOR H (K2x XOR D2) XOR C2"
    and S1: "S1 = H K1x XOR (H (K2x XOR sel x1 D2) XOR sel x1 G2) XOR K1r XOR (K2r XOR sel r1 D2)
                  XOR sel x1 C1 XOR sel r1 D1"
    and S2: "S2 = H K2x XOR (H (K1x XOR sel x2 D1) XOR sel x2 G1) XOR K2r XOR (K1r XOR sel r2 D1)
                  XOR sel x2 C2 XOR sel r2 D2"
  shows "S1 XOR S2 = sel (((x1 \<noteq> x2) \<and> (y1 \<noteq> y2)) \<noteq> (r1 \<noteq> r2)) (D1 XOR D2)"
proof -
  have "C1 XOR C2 = sel (y1 \<noteq> y2) (D1 XOR D2)"
    by (simp add: C1 C2 xor_algebra)
  then have "C2 = C1 XOR sel (y1 \<noteq> y2) (D1 XOR D2)"
    by (rule xor_eq_left)
  then show ?thesis
    by (cases x1; cases x2; cases r1; cases r2) (simp_all add: S1 S2 G1 G2 xor_algebra)
qed

section \<open>One layer, both parties\<close>

text \<open>
  What a party keeps across the layers of one bucket: its role and difference, the two hash
  states (\<^verbatim>\<open>gmitc\<close>, \<^verbatim>\<open>emitc\<close>) and the blocks absorbed by the running equality hash.
\<close>

record 'm la_ctx =
  lc_party :: nat
  lc_Delta :: block
  lc_gmitc :: 'm
  lc_emitc :: 'm
  lc_feq :: "block list"

text \<open>The local end of \<^verbatim>\<open>leaky_and_halfgate\<close>: combine and absorb, given both openings.\<close>

definition la_finish ::
  "nat \<Rightarrow> layer \<Rightarrow> block list \<Rightarrow> bool list \<Rightarrow> 'm \<Rightarrow> 'm \<Rightarrow> 'm la_ctx \<Rightarrow> layer \<times> 'm la_ctx" where
  "la_finish L x Sout s_peer gm em c =
     (case la_combine (lc_party c) (lc_Delta c) L (la_open Sout) s_peer (fst x) (snd x) Sout of
        (mac, key, Lvec) \<Rightarrow>
          ((mac, key), c\<lparr>lc_gmitc := gm, lc_emitc := em, lc_feq := lc_feq c @ Lvec\<rparr>))"

text \<open>
  \<^verbatim>\<open>leaky_and_halfgate\<close> run by both parties: the ciphertexts cross, each evaluates, the
  openings cross, each combines.
\<close>

definition leaky_and_halfgate ::
  "('m, 'd) prims \<Rightarrow> nat \<Rightarrow> layer \<Rightarrow> layer \<Rightarrow> 'm la_ctx \<Rightarrow> 'm la_ctx \<Rightarrow>
   (layer \<times> 'm la_ctx) \<times> (layer \<times> 'm la_ctx)" where
  "leaky_and_halfgate P L x y a b =
     (let (G1, g1) = la_garble P (lc_Delta a) L (fst x) (snd x) 0 (lc_gmitc a);
          (G2, g2) = la_garble P (lc_Delta b) L (fst y) (snd y) 0 (lc_gmitc b);
          (S1, e1) = la_eval P (lc_Delta a) L (fst x) (snd x) G2 0 (lc_emitc a);
          (S2, e2) = la_eval P (lc_Delta b) L (fst y) (snd y) G1 0 (lc_emitc b)
      in (la_finish L x S1 (la_open S2) g1 e1 a, la_finish L y S2 (la_open S1) g2 e2 b))"

text \<open>The two parties' contexts are in step.\<close>

definition ctx_ok :: "'m la_ctx \<Rightarrow> 'm la_ctx \<Rightarrow> bool" where
  "ctx_ok a b \<longleftrightarrow> lc_party a = 1 \<and> lc_party b = 2 \<and> deltas_ok (lc_Delta a) (lc_Delta b) \<and>
     lc_gmitc a = lc_gmitc b \<and> lc_emitc a = lc_emitc b \<and> lc_gmitc a = lc_emitc a \<and>
     lc_feq a = lc_feq b"

text \<open>The sum of the two parties' outputs is the product plus \<open>r\<close>, times both differences.\<close>

lemma la_S_sum:
  assumes "layer_ok D1 D2 L x y" and "k < L"
    and "G1 ! k = la_G P m D1 L (fst x) (snd x) k k" and "G2 ! k = la_G P m D2 L (fst y) (snd y) k k"
  shows "la_S P m D1 L (fst x) (snd x) G2 k k XOR la_S P m D2 L (fst y) (snd y) G1 k k =
    sel ((layer_bit x y k \<and> layer_bit x y (L + k)) \<noteq> layer_bit x y (2 * L + k)) (D1 XOR D2)"
proof -
  have i: "k < 3 * L" "L + k < 3 * L" "2 * L + k < 3 * L" using assms(2) by simp_all
  note a = layer_okD(1,3) [OF assms(1) i(1)] and b = layer_okD(1,3) [OF assms(1) i(2)]
    and r = layer_okD(1,3) [OF assms(1) i(3)]
  show ?thesis
    unfolding layer_bit_def
  proof (rule leaky_identity [where H = "tweak_hash P m k" and ?K1x = "snd x ! k" and ?K2x = "snd y ! k"
        and ?K1y = "snd x ! (L + k)" and ?K2y = "snd y ! (L + k)"
        and ?K1r = "snd x ! (2 * L + k)" and ?K2r = "snd y ! (2 * L + k)"])
    show "la_C D1 L (fst x) (snd x) k = sel (LSB (fst x ! (L + k))) D1 XOR snd x ! (L + k) XOR
        (snd y ! (L + k) XOR sel (LSB (fst x ! (L + k))) D2)"
      unfolding la_C_def b(1) [symmetric] ..
    show "la_C D2 L (fst y) (snd y) k = sel (LSB (fst y ! (L + k))) D2 XOR snd y ! (L + k) XOR
        (snd x ! (L + k) XOR sel (LSB (fst y ! (L + k))) D1)"
      unfolding la_C_def b(2) [symmetric] ..
    show "G1 ! k = tweak_hash P m k (snd x ! k) XOR tweak_hash P m k (snd x ! k XOR D1) XOR
        la_C D1 L (fst x) (snd x) k"
      by (simp only: assms(3) la_G_def)
    show "G2 ! k = tweak_hash P m k (snd y ! k) XOR tweak_hash P m k (snd y ! k XOR D2) XOR
        la_C D2 L (fst y) (snd y) k"
      by (simp only: assms(4) la_G_def)
    show "la_S P m D1 L (fst x) (snd x) G2 k k = tweak_hash P m k (snd x ! k) XOR
        (tweak_hash P m k (snd y ! k XOR sel (LSB (fst x ! k)) D2) XOR sel (LSB (fst x ! k)) (G2 ! k))
        XOR snd x ! (2 * L + k) XOR (snd y ! (2 * L + k) XOR sel (LSB (fst x ! (2 * L + k))) D2)
        XOR sel (LSB (fst x ! k)) (la_C D1 L (fst x) (snd x) k) XOR sel (LSB (fst x ! (2 * L + k))) D1"
      unfolding la_S_def a(1) [symmetric] r(1) [symmetric] ..
    show "la_S P m D2 L (fst y) (snd y) G1 k k = tweak_hash P m k (snd y ! k) XOR
        (tweak_hash P m k (snd x ! k XOR sel (LSB (fst y ! k)) D1) XOR sel (LSB (fst y ! k)) (G1 ! k))
        XOR snd y ! (2 * L + k) XOR (snd x ! (2 * L + k) XOR sel (LSB (fst y ! (2 * L + k))) D1)
        XOR sel (LSB (fst y ! k)) (la_C D2 L (fst y) (snd y) k) XOR sel (LSB (fst y ! (2 * L + k))) D2"
      unfolding la_S_def a(2) [symmetric] r(2) [symmetric] ..
  qed
qed

text \<open>Folding the parity in turns a share of \<open>r\<close> into a share of \<open>r + d\<close>.\<close>

lemma shares_ok_flip:
  assumes "shares_ok D1 D2 s t" and "LSB D2"
  shows "shares_ok D1 D2 (s\<lparr>sh_mac := sh_mac s XOR sel d bit0_mask\<rparr>)
           (t\<lparr>sh_key := sh_key t XOR sel d (D2 XOR bit0_mask)\<rparr>)"
proof -
  have eq: "sh_mac s = sh_key t XOR sel (LSB (sh_mac s)) D2" and key: "\<not> LSB (sh_key t)"
    using assms(1) by (auto simp: shares_ok_def mac_ok_def)
  have "sh_mac s XOR sel d bit0_mask =
      (sh_key t XOR sel (LSB (sh_mac s)) D2) XOR sel d bit0_mask"
    using arg_cong [OF eq, of "\<lambda>z. z XOR sel d bit0_mask"] .
  also have "\<dots> = (sh_key t XOR sel d (D2 XOR bit0_mask)) XOR sel (LSB (sh_mac s) \<noteq> d) D2"
    by (simp add: xor_algebra)
  finally have "mac_ok D2 (sh_mac s XOR sel d bit0_mask) (sh_key t XOR sel d (D2 XOR bit0_mask))"
    using key assms(2) by (intro mac_okI) auto
  then show ?thesis using assms(1) by (simp add: shares_ok_def)
qed

lemma map_nth_id: "map (\<lambda>i. xs ! i) [0..<length xs] = xs"
  by (rule map_nth)

lemma la_combine_1:
  "la_combine 1 D L s_me s_peer mac key Sout =
     (map (\<lambda>i. if 2 * L \<le> i \<and> i < 3 * L
            then mac ! i XOR sel (s_me ! (i - 2 * L) \<noteq> s_peer ! (i - 2 * L)) bit0_mask else mac ! i)
        [0..<length mac],
      key, map (\<lambda>k. Sout ! k XOR sel (s_me ! k \<noteq> s_peer ! k) D) [0..<L])"
  by (simp add: la_combine_def Let_def map_nth)

lemma la_combine_2:
  "la_combine 2 D L s_me s_peer mac key Sout =
     (mac, map (\<lambda>i. if 2 * L \<le> i \<and> i < 3 * L
            then key ! i XOR sel (s_me ! (i - 2 * L) \<noteq> s_peer ! (i - 2 * L)) (D XOR bit0_mask) else key ! i)
        [0..<length key],
      map (\<lambda>k. Sout ! k XOR sel (s_me ! k \<noteq> s_peer ! k) D) [0..<L])"
  by (simp add: la_combine_def Let_def map_nth)

text \<open>
  The layer after the combine, with the parity \<open>d\<close> of the product and \<open>r\<close> folded in.
\<close>

definition flip_mac :: "nat \<Rightarrow> (nat \<Rightarrow> bool) \<Rightarrow> layer \<Rightarrow> layer" where
  "flip_mac L d x = (map (\<lambda>i. if 2 * L \<le> i \<and> i < 3 * L then fst x ! i XOR sel (d (i - 2 * L)) bit0_mask
                            else fst x ! i) [0..<length (fst x)], snd x)"

definition flip_key :: "nat \<Rightarrow> (nat \<Rightarrow> bool) \<Rightarrow> block \<Rightarrow> layer \<Rightarrow> layer" where
  "flip_key L d D y = (fst y, map (\<lambda>i. if 2 * L \<le> i \<and> i < 3 * L
                            then snd y ! i XOR sel (d (i - 2 * L)) (D XOR bit0_mask)
                            else snd y ! i) [0..<length (snd y)])"

lemma layer_ok_flip:
  assumes "layer_ok D1 D2 L x y" and "LSB D2"
  shows "layer_ok D1 D2 L (flip_mac L d x) (flip_key L d D2 y)"
    and "i < 2 * L \<Longrightarrow> layer_bit (flip_mac L d x) (flip_key L d D2 y) i = layer_bit x y i"
    and "k < L \<Longrightarrow> layer_bit (flip_mac L d x) (flip_key L d D2 y) (2 * L + k) =
           (layer_bit x y (2 * L + k) \<noteq> d k)"
proof -
  have len: "length (fst x) = 3 * L" "length (snd x) = 3 * L" "length (fst y) = 3 * L" "length (snd y) = 3 * L"
    using assms(1) by (simp_all add: layer_ok_def)
  have "shares_ok D1 D2 (at_share (fst (flip_mac L d x)) (snd (flip_mac L d x)) i)
      (at_share (fst (flip_key L d D2 y)) (snd (flip_key L d D2 y)) i)" if i: "i < 3 * L" for i
  proof -
    have ok: "shares_ok D1 D2 (at_share (fst x) (snd x) i) (at_share (fst y) (snd y) i)"
      using assms(1) i by (simp add: layer_ok_def)
    show ?thesis
      using ok shares_ok_flip [OF ok assms(2), of "d (i - 2 * L)"] i
      by (cases "2 * L \<le> i") (simp_all add: flip_mac_def flip_key_def len at_share_def)
  qed
  then show "layer_ok D1 D2 L (flip_mac L d x) (flip_key L d D2 y)"
    by (simp add: layer_ok_def flip_mac_def flip_key_def len)
  show "i < 2 * L \<Longrightarrow> layer_bit (flip_mac L d x) (flip_key L d D2 y) i = layer_bit x y i"
    by (simp add: layer_bit_def flip_mac_def flip_key_def len)
  show "k < L \<Longrightarrow> layer_bit (flip_mac L d x) (flip_key L d D2 y) (2 * L + k) =
           (layer_bit x y (2 * L + k) \<noteq> d k)"
    by (auto simp: layer_bit_def flip_mac_def flip_key_def len)
qed

lemma leaky_and_halfgate_eq:
  assumes "layer_ok (lc_Delta a) (lc_Delta b) L x y" and "ctx_ok a b"
  obtains d gm em Lvec where
    "leaky_and_halfgate P L x y a b =
      ((flip_mac L d x, a\<lparr>lc_gmitc := gm, lc_emitc := em, lc_feq := lc_feq a @ Lvec\<rparr>),
       (flip_key L d (lc_Delta b) y, b\<lparr>lc_gmitc := gm, lc_emitc := em, lc_feq := lc_feq b @ Lvec\<rparr>))"
    "gm = em"
    "\<And>k. k < L \<Longrightarrow> d k = ((layer_bit x y k \<and> layer_bit x y (L + k)) \<noteq> layer_bit x y (2 * L + k))"
proof -
  let ?D1 = "lc_Delta a" and ?D2 = "lc_Delta b" and ?m = "lc_gmitc a"
  have ctx: "lc_party a = 1" "lc_party b = 2" "lc_gmitc b = ?m" "lc_emitc a = ?m" "lc_emitc b = ?m"
    "LSB1 ?D1" "\<not> LSB1 ?D2"
    using assms(2) unfolding ctx_ok_def deltas_ok_def by metis+
  define G1 where "G1 = map (\<lambda>t. la_G P ?m ?D1 L (fst x) (snd x) t t) [0..<L]"
  define G2 where "G2 = map (\<lambda>t. la_G P ?m ?D2 L (fst y) (snd y) t t) [0..<L]"
  define S1 where "S1 = map (\<lambda>t. la_S P ?m ?D1 L (fst x) (snd x) G2 t t) [0..<L]"
  define S2 where "S2 = map (\<lambda>t. la_S P ?m ?D2 L (fst y) (snd y) G1 t t) [0..<L]"
  define em where "em = batch_state P ((L + 7) div 8) ?m"
  define d where "d = (\<lambda>k. la_open S1 ! k \<noteq> la_open S2 ! k)"
  have sum: "S1 ! k XOR S2 ! k = sel ((layer_bit x y k \<and> layer_bit x y (L + k)) \<noteq> layer_bit x y (2 * L + k))
      (?D1 XOR ?D2)" if "k < L" for k
    using la_S_sum [OF assms(1) that, of G1 P ?m G2] that by (simp add: S1_def S2_def G1_def G2_def)
  have d: "d k = ((layer_bit x y k \<and> layer_bit x y (L + k)) \<noteq> layer_bit x y (2 * L + k))" if "k < L" for k
  proof -
    have "d k = LSB1 (S1 ! k XOR S2 ! k)"
      using that by (simp add: d_def la_open_def S1_def S2_def)
    then show ?thesis using sum [OF that] ctx by simp
  qed
  define Lvec where "Lvec = map (\<lambda>k. S1 ! k XOR sel (d k) ?D1) [0..<L]"
  have L2: "map (\<lambda>k. S2 ! k XOR sel (d k) ?D2) [0..<L] = Lvec"
  proof -
    have "S2 ! k XOR sel (d k) ?D2 = S1 ! k XOR sel (d k) ?D1" if "k < L" for k
    proof -
      have "S2 ! k = S1 ! k XOR sel (d k) (?D1 XOR ?D2)"
        unfolding d [OF that] by (rule xor_eq_left [OF sum [OF that]])
      then show ?thesis by (simp add: xor_algebra)
    qed
    then show ?thesis by (simp add: Lvec_def)
  qed
  have swap: "(\<lambda>k. la_open S2 ! k \<noteq> la_open S1 ! k) = d" by (auto simp: d_def)
  have "leaky_and_halfgate P L x y a b =
      ((flip_mac L d x, a\<lparr>lc_gmitc := em, lc_emitc := em, lc_feq := lc_feq a @ Lvec\<rparr>),
       (flip_key L d ?D2 y, b\<lparr>lc_gmitc := em, lc_emitc := em, lc_feq := lc_feq b @ Lvec\<rparr>))"
    unfolding leaky_and_halfgate_def Let_def la_garble_eq la_eval_eq case_prod_conv diff_zero add_0
      ctx G1_def [symmetric] G2_def [symmetric] S1_def [symmetric] S2_def [symmetric] em_def [symmetric]
      la_finish_def la_combine_1 la_combine_2 fun_cong [OF swap] flip_mac_def flip_key_def
    using fun_cong [OF d_def] L2 by (simp add: Lvec_def)
  then show ?thesis by (rule that) (simp_all add: d)
qed

lemma leaky_and_halfgate_correct:
  assumes "layer_ok (lc_Delta a) (lc_Delta b) L x y" and "ctx_ok a b"
    and "leaky_and_halfgate P L x y a b = ((x', a'), (y', b'))"
  shows "triples_ok (lc_Delta a) (lc_Delta b) L x' y'" and "ctx_ok a' b'"
    and "lc_Delta a' = lc_Delta a" and "lc_Delta b' = lc_Delta b"
    and "\<And>i. i < 2 * L \<Longrightarrow> layer_bit x' y' i = layer_bit x y i"
    and "\<And>i. i < 2 * L \<Longrightarrow> fst x' ! i = fst x ! i \<and> fst y' ! i = fst y ! i"
proof -
  obtain d gm em Lvec where run: "leaky_and_halfgate P L x y a b =
      ((flip_mac L d x, a\<lparr>lc_gmitc := gm, lc_emitc := em, lc_feq := lc_feq a @ Lvec\<rparr>),
       (flip_key L d (lc_Delta b) y, b\<lparr>lc_gmitc := gm, lc_emitc := em, lc_feq := lc_feq b @ Lvec\<rparr>))"
    "gm = em"
    and d: "\<And>k. k < L \<Longrightarrow> d k = ((layer_bit x y k \<and> layer_bit x y (L + k)) \<noteq> layer_bit x y (2 * L + k))"
    by (rule leaky_and_halfgate_eq [OF assms(1,2), where P = P]) blast
  then have eq: "x' = flip_mac L d x" "y' = flip_key L d (lc_Delta b) y"
    "a' = a\<lparr>lc_gmitc := gm, lc_emitc := em, lc_feq := lc_feq a @ Lvec\<rparr>"
    "b' = b\<lparr>lc_gmitc := gm, lc_emitc := em, lc_feq := lc_feq b @ Lvec\<rparr>" "gm = em"
    using assms(3) by simp_all
  have D2: "LSB (lc_Delta b)" using assms(2) by (simp add: ctx_ok_def deltas_ok_def)
  note flip = layer_ok_flip [OF assms(1) D2, where d = d]
  show "triples_ok (lc_Delta a) (lc_Delta b) L x' y'"
    using flip d by (auto simp: triples_ok_def eq)
  show "ctx_ok a' b'" using assms(2) by (simp add: ctx_ok_def eq)
  show "lc_Delta a' = lc_Delta a" "lc_Delta b' = lc_Delta b" by (simp_all add: eq)
  show "i < 2 * L \<Longrightarrow> layer_bit x' y' i = layer_bit x y i" for i using flip(2) by (simp add: eq)
  show "i < 2 * L \<Longrightarrow> fst x' ! i = fst x ! i \<and> fst y' ! i = fst y ! i" for i
    using assms(1) by (simp add: eq flip_mac_def flip_key_def layer_ok_def)
qed

section \<open>One bucketing step, both parties\<close>

definition bucket_one_layer ::
  "nat \<Rightarrow> nat \<Rightarrow> layer \<Rightarrow> layer \<Rightarrow> layer \<Rightarrow> layer \<Rightarrow> layer \<times> layer" where
  "bucket_one_layer L r x y sx sy =
     (let (am1, ak1, d1) = bk_first L r (fst x) (snd x) (fst sx) (snd sx);
          (am2, ak2, d2) = bk_first L r (fst y) (snd y) (fst sy) (snd sy)
      in (bk_second L r d1 d2 am1 ak1 (fst sx) (snd sx), bk_second L r d2 d1 am2 ak2 (fst sy) (snd sy)))"

lemma bk_src_mod: "r < L \<Longrightarrow> i < L \<Longrightarrow> bk_src L r i = (i + r) mod L"
  by (auto simp: bk_src_def Let_def mod_if)

lemma bk_src_less: "r < L \<Longrightarrow> i < L \<Longrightarrow> bk_src L r i < L"
  by (simp add: bk_src_mod)

text \<open>What a party's arrays hold after the step, given the opened bits \<open>d\<close>.\<close>

definition bk_acc :: "nat \<Rightarrow> nat \<Rightarrow> (nat \<Rightarrow> bool) \<Rightarrow> block list \<Rightarrow> block list \<Rightarrow> block list" where
  "bk_acc L r d acc l = map (\<lambda>i. if i < L then acc ! i XOR l ! bk_src L r i
     else if 2 * L \<le> i \<and> i < 3 * L then
       acc ! i XOR l ! (2 * L + bk_src L r (i - 2 * L)) XOR sel (d (i - 2 * L)) (l ! bk_src L r (i - 2 * L))
     else acc ! i) [0..<length acc]"

lemma bucket_one_layer_eq:
  assumes "d = (\<lambda>i. layer_bit x y (L + i) \<noteq> layer_bit sx sy (L + bk_src L r i))"
  shows "bucket_one_layer L r x y sx sy =
    ((bk_acc L r d (fst x) (fst sx), bk_acc L r d (snd x) (snd sx)),
     (bk_acc L r d (fst y) (fst sy), bk_acc L r d (snd y) (snd sy)))"
  unfolding bucket_one_layer_def bk_first_def bk_second_def bk_acc_def Let_def prod.case
  by (auto simp: assms layer_bit_def xor_algebra intro!: map_cong)

lemma bk_acc_nth:
  assumes "length acc = 3 * L"
  shows "i < L \<Longrightarrow> bk_acc L r d acc l ! i = acc ! i XOR l ! bk_src L r i"
    and "i < L \<Longrightarrow> bk_acc L r d acc l ! (L + i) = acc ! (L + i)"
    and "i < L \<Longrightarrow> bk_acc L r d acc l ! (2 * L + i) =
      acc ! (2 * L + i) XOR l ! (2 * L + bk_src L r i) XOR sel (d i) (l ! bk_src L r i)"
    and "length (bk_acc L r d acc l) = 3 * L"
  using assms by (simp_all add: bk_acc_def)

lemma index_region:
  assumes "i < 3 * (L::nat)"
  obtains "i < L" | j where "j < L" "i = L + j" | j where "j < L" "i = 2 * L + j"
proof -
  consider "i < L" | "L \<le> i" "i < 2 * L" | "2 * L \<le> i" by linarith
  then show ?thesis
  proof cases
    case 2
    then show ?thesis using that(2) [of "i - L"] by simp
  next
    case 3
    then show ?thesis using that(3) [of "i - 2 * L"] assms by simp
  qed (rule that(1))
qed

lemma bucket_one_layer_correct:
  assumes acc: "triples_ok D1 D2 L x y" and sac: "triples_ok D1 D2 L sx sy" and r: "r < L"
    and run: "bucket_one_layer L r x y sx sy = (x', y')"
  shows "triples_ok D1 D2 L x' y'"
    and "\<And>i. i < L \<Longrightarrow> fst x' ! (L + i) = fst x ! (L + i) \<and> fst y' ! (L + i) = fst y ! (L + i)"
proof -
  define d where "d = (\<lambda>i. layer_bit x y (L + i) \<noteq> layer_bit sx sy (L + bk_src L r i))"
  have x': "x' = (bk_acc L r d (fst x) (fst sx), bk_acc L r d (snd x) (snd sx))"
    and y': "y' = (bk_acc L r d (fst y) (fst sy), bk_acc L r d (snd y) (snd sy))"
    using run by (simp_all add: bucket_one_layer_eq [OF d_def])
  have ok: "shares_ok D1 D2 (at_share (fst x) (snd x) i) (at_share (fst y) (snd y) i)"
      "shares_ok D1 D2 (at_share (fst sx) (snd sx) i) (at_share (fst sy) (snd sy) i)" if "i < 3 * L" for i
    using acc sac that by (simp_all add: triples_ok_def layer_ok_def)
  have len: "length (fst x) = 3 * L" "length (snd x) = 3 * L" "length (fst y) = 3 * L" "length (snd y) = 3 * L"
    using acc by (simp_all add: triples_ok_def layer_ok_def)
  note nth = bk_acc_nth [OF len(1)] bk_acc_nth [OF len(2)] bk_acc_nth [OF len(3)] bk_acc_nth [OF len(4)]
  have "shares_ok D1 D2 (at_share (fst x') (snd x') i) (at_share (fst y') (snd y') i)" if i: "i < 3 * L" for i
    using i
  proof (cases rule: index_region)
    case 1
    then show ?thesis
      using ok(1) [OF i] ok(2) [of "bk_src L r i"] bk_src_less [OF r 1]
      by (simp add: x' y' nth shares_ok_def mac_ok_xor)
  next
    case (2 j)
    then show ?thesis using ok(1) [OF i] by (simp add: x' y' nth shares_ok_def)
  next
    case (3 j)
    let ?s = "bk_src L r j"
    have "?s < 3 * L" "2 * L + ?s < 3 * L" using bk_src_less [OF r 3(1)] by simp_all
    then show ?thesis
      using ok(1) [OF i] ok(2) [of ?s] ok(2) [of "2 * L + ?s"] 3
      by (simp add: x' y' nth shares_ok_def mac_ok_xor mac_ok_sel)
  qed
  then have "layer_ok D1 D2 L x' y'"
    by (simp add: layer_ok_def x' y' nth)
  moreover have "layer_bit x' y' (2 * L + i) = (layer_bit x' y' i \<and> layer_bit x' y' (L + i))" if i: "i < L" for i
  proof -
    let ?s = "bk_src L r i"
    have s: "?s < L" by (rule bk_src_less [OF r i])
    have t: "layer_bit x y (2 * L + i) = (layer_bit x y i \<and> layer_bit x y (L + i))"
        "layer_bit sx sy (2 * L + ?s) = (layer_bit sx sy ?s \<and> layer_bit sx sy (L + ?s))"
      using acc sac i s by (simp_all add: triples_ok_def)
    have "layer_bit x' y' i = (layer_bit x y i \<noteq> layer_bit sx sy ?s)"
      "layer_bit x' y' (L + i) = layer_bit x y (L + i)"
      "layer_bit x' y' (2 * L + i) = ((layer_bit x y (2 * L + i) \<noteq> layer_bit sx sy (2 * L + ?s)) \<noteq>
         (d i \<and> layer_bit sx sy ?s))"
      using i by (auto simp: layer_bit_def x' y' nth)
    then show ?thesis using t by (auto simp: d_def)
  qed
  ultimately show "triples_ok D1 D2 L x' y'" by (simp add: triples_ok_def)
  show "i < L \<Longrightarrow> fst x' ! (L + i) = fst x ! (L + i) \<and> fst y' ! (L + i) = fst y ! (L + i)" for i
    by (simp add: x' y' nth)
qed

section \<open>Properties\<close>

text \<open>
  C17: one batch of leaky ANDs, both parties: the third region becomes the authenticated product of
  the first two, whose bits and MACs are left as they were, and the parties' transcripts for the
  equality check stay equal.
\<close>

theorem leaky_triples_correct:
  fixes P :: "('m, 'd) prims"
  assumes "layer_ok (lc_Delta a) (lc_Delta b) L x y" and "ctx_ok a b"
    and "leaky_and_halfgate P L x y a b = ((x', a'), (y', b'))"
  shows "triples_ok (lc_Delta a) (lc_Delta b) L x' y' \<and>
    (\<forall>i < 2 * L. layer_bit x' y' i = layer_bit x y i \<and> fst x' ! i = fst x ! i \<and> fst y' ! i = fst y ! i) \<and>
    lc_feq a' = lc_feq b' \<and> ctx_ok a' b'"
  using leaky_and_halfgate_correct [OF assms] by (auto simp: ctx_ok_def)

theorem leaky_triples_correct_witness:
  "\<exists>x' a' y' b'. leaky_and_halfgate
       \<lparr>pr_setS = (\<lambda>b. b), pr_hash = (\<lambda>m j x. m XOR x), pr_hash_cir = (\<lambda>m x. x), pr_adv = (\<lambda>m k. m),
         pr_digest = (\<lambda>bs. bs), pr_commit = (\<lambda>d r. r # d)\<rparr> 1 ([9, 9, 0], [0, 0, 0]) ([0, 0, 0], [4, 4, 0])
       \<lparr>lc_party = 1, lc_Delta = 7, lc_gmitc = 5, lc_emitc = 5, lc_feq = []\<rparr>
       \<lparr>lc_party = 2, lc_Delta = 13, lc_gmitc = 5, lc_emitc = 5, lc_feq = []\<rparr> = ((x', a'), (y', b')) \<and>
     layer_bit x' y' 2"
proof -
  let ?P = "\<lparr>pr_setS = (\<lambda>b. b), pr_hash = (\<lambda>m j x. m XOR x), pr_hash_cir = (\<lambda>m x. x), pr_adv = (\<lambda>m k. m),
         pr_digest = (\<lambda>bs. bs), pr_commit = (\<lambda>d r. r # d)\<rparr> :: (block, block list) prims"
  let ?x = "([9, 9, 0], [0, 0, 0])" and ?y = "([0, 0, 0], [4, 4, 0])"
  let ?a = "\<lparr>lc_party = 1, lc_Delta = 7, lc_gmitc = 5, lc_emitc = 5, lc_feq = []\<rparr> :: block la_ctx"
  let ?b = "\<lparr>lc_party = 2, lc_Delta = 13, lc_gmitc = 5, lc_emitc = 5, lc_feq = []\<rparr> :: block la_ctx"
  have l: "layer_ok (lc_Delta ?a) (lc_Delta ?b) 1 ?x ?y"
    by (simp add: layer_ok_def shares_ok_def mac_ok_def at_share_def LSB_def sel_def numeral_3_eq_3 All_less_Suc)
  have c: "ctx_ok ?a ?b" by (simp add: ctx_ok_def deltas_ok_def LSB_def LSB1_def)
  obtain x' a' y' b' where r: "leaky_and_halfgate ?P 1 ?x ?y ?a ?b = ((x', a'), (y', b'))" by (metis prod.exhaust)
  have t: "triples_ok 7 13 1 x' y'" "\<forall>i < 2. layer_bit x' y' i = layer_bit ?x ?y i"
    using leaky_triples_correct [OF l c r] by simp_all
  have "layer_bit x' y' (2 * 1 + 0) = (layer_bit x' y' 0 \<and> layer_bit x' y' (1 + 0))"
    using t(1) unfolding triples_ok_def by blast
  moreover have "layer_bit ?x ?y 0" "layer_bit ?x ?y 1" by (simp_all add: layer_bit_def LSB_def)
  ultimately have "layer_bit x' y' 2" using t(2) by simp
  then show ?thesis using r by blast
qed

end
