(* ===== verification/Triple_Pool.thy ===== *)
theory Triple_Pool
  imports Leaky_And
begin

text \<open>
  The equality check \<^verbatim>\<open>feq_check\<close> of \<^verbatim>\<open>backend/helper.h\<close> and the function-dependent
  AND-share generation of \<^verbatim>\<open>backend/triple_pool.h\<close>: layered bucketing into an accumulator
  (\<^verbatim>\<open>layered_bucket_into_acc\<close>) and \<^verbatim>\<open>compute_inplace\<close>. For honest parties the
  check passes and every returned share is an authenticated share of the product of the gate's two
  wire masks.
\<close>

section \<open>The equality check\<close>

text \<open>
  Party 1 commits to its digest, party 2 replies with its own, party 1 opens. The verdicts are the
  two comparisons each side makes.
\<close>

definition feq_verdict1 :: "'d \<Rightarrow> 'd \<Rightarrow> unit result" where
  "feq_verdict1 Dme Dpeer = (if Dme \<noteq> Dpeer then Inl Feq_Failed else Inr ())"

definition feq_verdict2 :: "('m, 'd) prims \<Rightarrow> 'd \<Rightarrow> 'd \<Rightarrow> 'd \<Rightarrow> block \<Rightarrow> unit result" where
  "feq_verdict2 P Dme com Dpeer r =
     (if pr_commit P Dpeer r \<noteq> com then Inl Feq_Commit_Mismatch
      else if Dme \<noteq> Dpeer then Inl Feq_Failed else Inr ())"

definition feq_check :: "('m, 'd) prims \<Rightarrow> 'd \<Rightarrow> 'd \<Rightarrow> block \<Rightarrow> unit result \<times> unit result" where
  "feq_check P D1 D2 r =
     (let com = pr_commit P D1 r in (feq_verdict1 D1 D2, feq_verdict2 P D2 com D1 r))"

lemma feq_check_eq: "feq_check P D D r = (Inr (), Inr ())"
  by (simp add: feq_check_def feq_verdict1_def feq_verdict2_def)

lemma feq_check_neq: "D1 \<noteq> D2 \<Longrightarrow> feq_check P D1 D2 r = (Inl Feq_Failed, Inl Feq_Failed)"
  by (auto simp: feq_check_def feq_verdict1_def feq_verdict2_def)

section \<open>Layered bucketing\<close>

text \<open>
  One iteration per sacrifice layer: mint \<open>3 L\<close> shares, run the leaky AND, derive the shift from
  the layer's public coin, fold the layer in. The coin \<^verbatim>\<open>raw\<close> is drawn from the
  Fiat-Shamir transcript, which both ends share; the list holds one coin per layer.
\<close>

fun layered_bucket_into_acc ::
  "('m, 'd) prims \<Rightarrow> nat \<Rightarrow> 32 word list \<Rightarrow> layer \<Rightarrow> layer \<Rightarrow> 'm la_ctx \<Rightarrow> 'm la_ctx \<Rightarrow>
   pool \<Rightarrow> pool \<Rightarrow> (layer \<times> 'm la_ctx \<times> pool) \<times> (layer \<times> 'm la_ctx \<times> pool)" where
  "layered_bucket_into_acc P L [] x y a b p q = ((x, a, p), (y, b, q))"
| "layered_bucket_into_acc P L (raw # raws) x y a b p q =
     (let (sx, p') = gen_cot_shares (3 * L) p;
          (sy, q') = gen_cot_shares (3 * L) q;
          ((sx', a'), (sy', b')) = leaky_and_halfgate P L sx sy a b;
          r_k = unat raw mod L;
          (x', y') = bucket_one_layer L r_k x y sx' sy'
      in layered_bucket_into_acc P L raws x' y' a' b' p' q')"

section \<open>In-place AND shares\<close>

definition pair_seed :: "nat \<Rightarrow> block" where
  "pair_seed party = push_bit 64 (of_nat (min party (3 - party))) OR of_nat (max party (3 - party))"

text \<open>Layer 0: the wire masks in regions \<open>a\<close> and \<open>b\<close>, fresh shares in region \<open>r\<close>.\<close>

definition rep_layer :: "ashare list \<Rightarrow> ashare list \<Rightarrow> layer \<Rightarrow> layer" where
  "rep_layer rep_a rep_b r =
     (map sh_mac rep_a @ map sh_mac rep_b @ fst r, map sh_key rep_a @ map sh_key rep_b @ snd r)"

definition start_ctx :: "('m, 'd) prims \<Rightarrow> pool \<Rightarrow> 'm la_ctx" where
  "start_ctx P p = \<lparr>lc_party = tp_party p, lc_Delta = tp_Delta p,
     lc_gmitc = pr_setS P (pair_seed (tp_party p)), lc_emitc = pr_setS P (pair_seed (tp_party p)),
     lc_feq = []\<rparr>"

text \<open>The bits a party opens for the reconciliation.\<close>

definition xb_bits :: "nat \<Rightarrow> ashare list \<Rightarrow> layer \<Rightarrow> bool list" where
  "xb_bits L rep_a x = map (\<lambda>i. LSB (sh_mac (rep_a ! i)) \<noteq> LSB (fst x ! i)) [0..<L]"

definition yb_bits :: "nat \<Rightarrow> ashare list \<Rightarrow> layer \<Rightarrow> bool list" where
  "yb_bits L rep_b x = map (\<lambda>i. LSB (sh_mac (rep_b ! i)) \<noteq> LSB (fst x ! (L + i))) [0..<L]"

definition out_sigma ::
  "nat \<Rightarrow> block \<Rightarrow> nat \<Rightarrow> bool list \<Rightarrow> bool list \<Rightarrow> bool list \<Rightarrow> bool list \<Rightarrow> layer \<Rightarrow> ashare list" where
  "out_sigma party D L xb_me yb_me xb_pe yb_pe x =
     map (\<lambda>i.
       let xb = (xb_me ! i \<noteq> xb_pe ! i); yb = (yb_me ! i \<noteq> yb_pe ! i);
           mac = fst x ! (2 * L + i) XOR sel xb (fst x ! (L + i)) XOR sel yb (fst x ! i);
           key = snd x ! (2 * L + i) XOR sel xb (snd x ! (L + i)) XOR sel yb (snd x ! i);
           both = (xb \<and> yb)
       in if party \<noteq> 1 then \<lparr>sh_mac = mac, sh_key = key XOR sel both (D XOR bit0_mask)\<rparr>
          else \<lparr>sh_mac = mac XOR sel both bit0_mask, sh_key = key\<rparr>) [0..<L]"

text \<open>
  \<^verbatim>\<open>compute_inplace\<close> run by both parties; \<open>coin k\<close> is the public coin of sacrifice layer
  \<open>k\<close> and \<open>nonce\<close> party 1's commitment randomness.
\<close>

definition compute_inplace ::
  "('m, 'd) prims \<Rightarrow> (nat \<Rightarrow> 32 word) \<Rightarrow> block \<Rightarrow> nat \<Rightarrow>
   ashare list \<Rightarrow> ashare list \<Rightarrow> ashare list \<Rightarrow> ashare list \<Rightarrow> pool \<Rightarrow> pool \<Rightarrow>
   ((ashare list \<times> pool) \<times> (ashare list \<times> pool)) result" where
  "compute_inplace P coin nonce num_ands rep_a1 rep_b1 rep_a2 rep_b2 p q =
     (if num_ands = 0 then Inr (([], p), ([], q))
      else
        let B = get_bucket_size (tp_ssp p) num_ands;
            L = num_ands;
            (r1, p0) = gen_cot_shares L p;
            (r2, q0) = gen_cot_shares L q;
            ((x0, a0), (y0, b0)) =
              leaky_and_halfgate P L (rep_layer rep_a1 rep_b1 r1) (rep_layer rep_a2 rep_b2 r2)
                (start_ctx P p) (start_ctx P q);
            ((x, a, p'), (y, b, q')) =
              layered_bucket_into_acc P L (map coin [0..<B - 1]) x0 y0 a0 b0 p0 q0;
            (v1, v2) = feq_check P (pr_digest P (lc_feq a)) (pr_digest P (lc_feq b)) nonce;
            xb1 = xb_bits L rep_a1 x; yb1 = yb_bits L rep_b1 x;
            xb2 = xb_bits L rep_a2 y; yb2 = yb_bits L rep_b2 y
        in bind_result v1 (\<lambda>_. bind_result v2 (\<lambda>_.
             Inr ((out_sigma 1 (tp_Delta p) L xb1 yb1 xb2 yb2 x, p'),
                  (out_sigma 2 (tp_Delta q) L xb2 yb2 xb1 yb1 y, q')))))"

section \<open>Correctness for honest parties\<close>

lemma gen_cot_layer:
  assumes "pools_ok p q" and "gen_cot_shares n p = (x, p')" and "gen_cot_shares n q = (y, q')"
  shows "length (fst x) = n" "length (snd x) = n" "length (fst y) = n" "length (snd y) = n"
    and "i < n \<Longrightarrow> shares_ok (tp_Delta p) (tp_Delta q) (at_share (fst x) (snd x) i) (at_share (fst y) (snd y) i)"
    and "pools_ok p' q'" "same_session p p'" "same_session q q'"
proof -
  have eq: "x = (map (tp_mac_stream p) [tp_pos p..<tp_pos p + n], map (tp_key_stream p) [tp_pos p..<tp_pos p + n])"
    "y = (map (tp_mac_stream q) [tp_pos q..<tp_pos q + n], map (tp_key_stream q) [tp_pos q..<tp_pos q + n])"
    and upd: "p' = p\<lparr>tp_pos := tp_pos p + n, tp_cots_minted := True\<rparr>"
    "q' = q\<lparr>tp_pos := tp_pos q + n, tp_cots_minted := True\<rparr>"
    using assms(2,3) by (auto simp: gen_cot_shares_def)
  show "length (fst x) = n" "length (snd x) = n" "length (fst y) = n" "length (snd y) = n"
    by (simp_all add: eq)
  show "i < n \<Longrightarrow> shares_ok (tp_Delta p) (tp_Delta q) (at_share (fst x) (snd x) i) (at_share (fst y) (snd y) i)"
    using assms(1) by (simp add: eq pools_ok_def cot_ok_def stream_share_def at_share_def)
  show ss: "same_session p p'" "same_session q q'" by (simp_all add: upd)
  show "pools_ok p' q'"
    by (rule pools_ok_step [OF assms(1) ss]) (use assms(1) in \<open>simp_all add: upd pools_ok_def\<close>)
qed

lemma layered_bucket_correct:
  assumes "triples_ok (tp_Delta p) (tp_Delta q) L x y" and "ctx_ok a b" and "pools_ok p q" and "0 < L"
    and "lc_Delta a = tp_Delta p" and "lc_Delta b = tp_Delta q"
    and "layered_bucket_into_acc P L raws x y a b p q = ((x', a', p'), (y', b', q'))"
  shows "triples_ok (tp_Delta p) (tp_Delta q) L x' y' \<and> ctx_ok a' b' \<and> pools_ok p' q' \<and>
    same_session p p' \<and> same_session q q' \<and>
    (\<forall>i < L. fst x' ! (L + i) = fst x ! (L + i) \<and> fst y' ! (L + i) = fst y ! (L + i))"
  using assms
proof (induction raws arbitrary: x y a b p q)
  case Nil
  then show ?case by simp
next
  case (Cons raw raws)
  obtain sx p1 where gx: "gen_cot_shares (3 * L) p = (sx, p1)" by (metis surj_pair)
  obtain sy q1 where gy: "gen_cot_shares (3 * L) q = (sy, q1)" by (metis surj_pair)
  note g = gen_cot_layer [OF Cons.prems(3) gx gy]
  obtain sx' a1 sy' b1 where la: "leaky_and_halfgate P L sx sy a b = ((sx', a1), (sy', b1))"
    by (metis surj_pair)
  have "layer_ok (lc_Delta a) (lc_Delta b) L sx sy"
    using g(1-5) Cons.prems(5,6) by (simp add: layer_ok_def)
  note la' = leaky_and_halfgate_correct [OF this Cons.prems(2) la]
  obtain x1 y1 where bk: "bucket_one_layer L (unat raw mod L) x y sx' sy' = (x1, y1)"
    by (metis surj_pair)
  note bk' = bucket_one_layer_correct [OF Cons.prems(1) _ _ bk]
  have D: "tp_Delta p1 = tp_Delta p" "tp_Delta q1 = tp_Delta q"
    using g(7,8) by (simp_all add: same_session_def)
  have sac: "triples_ok (tp_Delta p) (tp_Delta q) L sx' sy'"
    using la'(1) Cons.prems(5,6) by simp
  have "triples_ok (tp_Delta p1) (tp_Delta q1) L x' y' \<and> ctx_ok a' b' \<and> pools_ok p' q' \<and>
    same_session p1 p' \<and> same_session q1 q' \<and>
    (\<forall>i < L. fst x' ! (L + i) = fst x1 ! (L + i) \<and> fst y' ! (L + i) = fst y1 ! (L + i))"
  proof (rule Cons.IH)
    show "triples_ok (tp_Delta p1) (tp_Delta q1) L x1 y1"
      using bk'(1) [OF sac] Cons.prems(4) by (simp add: D)
    show "layered_bucket_into_acc P L raws x1 y1 a1 b1 p1 q1 = ((x', a', p'), (y', b', q'))"
      using Cons.prems(7) by (simp add: gx gy la bk)
  qed (use la' g(6) Cons.prems(4,5,6) D in simp_all)
  moreover have "\<forall>i < L. fst x1 ! (L + i) = fst x ! (L + i) \<and> fst y1 ! (L + i) = fst y ! (L + i)"
    using bk'(2) [OF sac] Cons.prems(4) by simp
  ultimately show ?case
    using same_session_trans [OF g(7)] same_session_trans [OF g(8)] by (simp add: D)
qed

text \<open>The layer the representative starts from.\<close>

lemma rep_layer_ok:
  assumes "length rep_a1 = L" "length rep_b1 = L" "length rep_a2 = L" "length rep_b2 = L"
    and "\<And>i. i < L \<Longrightarrow> shares_ok D1 D2 (rep_a1 ! i) (rep_a2 ! i)"
    and "\<And>i. i < L \<Longrightarrow> shares_ok D1 D2 (rep_b1 ! i) (rep_b2 ! i)"
    and "length (fst r) = L" "length (snd r) = L" "length (fst r') = L" "length (snd r') = L"
    and "\<And>i. i < L \<Longrightarrow> shares_ok D1 D2 (at_share (fst r) (snd r) i) (at_share (fst r') (snd r') i)"
  shows "layer_ok D1 D2 L (rep_layer rep_a1 rep_b1 r) (rep_layer rep_a2 rep_b2 r')"
  unfolding layer_ok_def
proof (intro conjI allI impI)
  fix i assume "i < 3 * L"
  then show "shares_ok D1 D2 (at_share (fst (rep_layer rep_a1 rep_b1 r)) (snd (rep_layer rep_a1 rep_b1 r)) i)
     (at_share (fst (rep_layer rep_a2 rep_b2 r')) (snd (rep_layer rep_a2 rep_b2 r')) i)"
    by (cases rule: index_region)
       (use assms in \<open>simp_all add: rep_layer_def nth_append shares_ok_def\<close>)
qed (simp_all add: rep_layer_def assms)

text \<open>The reconciliation: \<open>a = X + xb\<close>, \<open>b = Y + yb\<close>, \<open>Z = X Y\<close>, hence \<open>a b\<close>.\<close>

lemma out_sigma_correct:
  assumes t: "triples_ok D1 D2 L x y" and "deltas_ok D1 D2" and i: "i < L"
    and a: "share_bit a a' = (layer_bit x y i \<noteq> (xb1 ! i \<noteq> xb2 ! i))"
    and b: "share_bit b b' = (layer_bit x y (L + i) \<noteq> (yb1 ! i \<noteq> yb2 ! i))"
  defines "s \<equiv> out_sigma 1 D1 L xb1 yb1 xb2 yb2 x ! i"
    and "s' \<equiv> out_sigma 2 D2 L xb2 yb2 xb1 yb1 y ! i"
  shows "shares_ok D1 D2 s s'" and "share_bit s s' = (share_bit a a' \<and> share_bit b b')"
proof -
  let ?xb = "xb1 ! i \<noteq> xb2 ! i" and ?yb = "yb1 ! i \<noteq> yb2 ! i"
  let ?z = "\<lambda>l. l ! (2 * L + i) XOR sel ?xb (l ! (L + i)) XOR sel ?yb (l ! i)"
  define u where "u = \<lparr>sh_mac = ?z (fst x), sh_key = ?z (snd x)\<rparr>"
  define v where "v = \<lparr>sh_mac = ?z (fst y), sh_key = ?z (snd y)\<rparr>"
  have s: "s = u\<lparr>sh_mac := sh_mac u XOR sel (?xb \<and> ?yb) bit0_mask\<rparr>"
    using i by (simp add: s_def out_sigma_def u_def Let_def)
  have s': "s' = v\<lparr>sh_key := sh_key v XOR sel (?xb \<and> ?yb) (D2 XOR bit0_mask)\<rparr>"
    using i by (cases "xb1 ! i"; cases "xb2 ! i"; cases "yb1 ! i"; cases "yb2 ! i")
      (simp_all add: s'_def out_sigma_def v_def Let_def)
  have ok: "shares_ok D1 D2 (at_share (fst x) (snd x) j) (at_share (fst y) (snd y) j)" if "j < 3 * L" for j
    using t that by (simp add: triples_ok_def layer_ok_def)
  have uv: "shares_ok D1 D2 u v"
    using ok [of i] ok [of "L + i"] ok [of "2 * L + i"] i
    by (simp add: u_def v_def shares_ok_def mac_ok_xor mac_ok_sel)
  show "shares_ok D1 D2 s s'"
    unfolding s s' using assms(2) by (intro shares_ok_flip uv) (simp add: deltas_ok_def)
  have z: "layer_bit x y (2 * L + i) = (layer_bit x y i \<and> layer_bit x y (L + i))"
    using t i by (simp add: triples_ok_def)
  have "share_bit s s' = ((layer_bit x y (2 * L + i) \<noteq> (?xb \<and> layer_bit x y (L + i))) \<noteq>
      ((?yb \<and> layer_bit x y i) \<noteq> (?xb \<and> ?yb)))"
    by (auto simp: share_bit_def s s' u_def v_def layer_bit_def)
  then show "share_bit s s' = (share_bit a a' \<and> share_bit b b')"
    unfolding a b z by blast
qed

lemma compute_inplace_correct:
  assumes pq: "pools_ok p q"
    and len: "length rep_a1 = n" "length rep_b1 = n" "length rep_a2 = n" "length rep_b2 = n"
    and ok: "\<forall>i < n. shares_ok (tp_Delta p) (tp_Delta q) (rep_a1 ! i) (rep_a2 ! i) \<and>
                 shares_ok (tp_Delta p) (tp_Delta q) (rep_b1 ! i) (rep_b2 ! i)"
  shows "\<exists>s1 p' s2 q'.
    compute_inplace P coin nonce n rep_a1 rep_b1 rep_a2 rep_b2 p q = Inr ((s1, p'), (s2, q')) \<and>
    length s1 = n \<and> length s2 = n \<and>
    (\<forall>i < n. shares_ok (tp_Delta p) (tp_Delta q) (s1 ! i) (s2 ! i) \<and>
      share_bit (s1 ! i) (s2 ! i) =
        (share_bit (rep_a1 ! i) (rep_a2 ! i) \<and> share_bit (rep_b1 ! i) (rep_b2 ! i))) \<and>
    pools_ok p' q' \<and> same_session p p' \<and> same_session q q'"
proof (cases "n = 0")
  case True
  then show ?thesis using pq by (simp add: compute_inplace_def)
next
  case False
  obtain r1 p0 where g1: "gen_cot_shares n p = (r1, p0)" by (metis surj_pair)
  obtain r2 q0 where g2: "gen_cot_shares n q = (r2, q0)" by (metis surj_pair)
  note g = gen_cot_layer [OF pq g1 g2]
  let ?x = "rep_layer rep_a1 rep_b1 r1" and ?y = "rep_layer rep_a2 rep_b2 r2"
  obtain x0 a0 y0 b0 where la: "leaky_and_halfgate P n ?x ?y (start_ctx P p) (start_ctx P q) =
      ((x0, a0), (y0, b0))" by (metis surj_pair)
  have D: "deltas_ok (tp_Delta p) (tp_Delta q)" using pq by (simp add: pools_ok_def)
  have ctx: "ctx_ok (start_ctx P p) (start_ctx P q)"
    using pq by (simp add: ctx_ok_def start_ctx_def pools_ok_def pair_seed_def)
  have "layer_ok (lc_Delta (start_ctx P p)) (lc_Delta (start_ctx P q)) n ?x ?y"
    unfolding start_ctx_def la_ctx.simps by (rule rep_layer_ok) (use len ok g in simp_all)
  note la' = leaky_and_halfgate_correct [OF this ctx la]
  have Dc: "lc_Delta (start_ctx P p) = tp_Delta p" "lc_Delta (start_ctx P q) = tp_Delta q"
    by (simp_all add: start_ctx_def)
  have D0: "tp_Delta p0 = tp_Delta p" "tp_Delta q0 = tp_Delta q"
    using g(7,8) by (simp_all add: same_session_def)
  define B where "B = get_bucket_size (tp_ssp p) n"
  obtain x a p' y b q' where lb:
    "layered_bucket_into_acc P n (map coin [0..<B - 1]) x0 y0 a0 b0 p0 q0 = ((x, a, p'), (y, b, q'))"
    by (metis surj_pair)
  have lbc: "triples_ok (tp_Delta p0) (tp_Delta q0) n x y \<and> ctx_ok a b \<and> pools_ok p' q' \<and>
      same_session p0 p' \<and> same_session q0 q' \<and>
      (\<forall>i < n. fst x ! (n + i) = fst x0 ! (n + i) \<and> fst y ! (n + i) = fst y0 ! (n + i))"
    by (rule layered_bucket_correct [OF _ _ g(6) _ _ _ lb]) (use la' Dc D0 False in simp_all)
  let ?xb1 = "xb_bits n rep_a1 x" and ?yb1 = "yb_bits n rep_b1 x"
  let ?xb2 = "xb_bits n rep_a2 y" and ?yb2 = "yb_bits n rep_b2 y"
  let ?s1 = "out_sigma 1 (tp_Delta p) n ?xb1 ?yb1 ?xb2 ?yb2 x"
  let ?s2 = "out_sigma 2 (tp_Delta q) n ?xb2 ?yb2 ?xb1 ?yb1 y"
  have feq: "lc_feq a = lc_feq b" using lbc by (simp add: ctx_ok_def)
  have sig: "shares_ok (tp_Delta p) (tp_Delta q) (?s1 ! i) (?s2 ! i)"
    "share_bit (?s1 ! i) (?s2 ! i) =
        (share_bit (rep_a1 ! i) (rep_a2 ! i) \<and> share_bit (rep_b1 ! i) (rep_b2 ! i))" if "i < n" for i
    using out_sigma_correct [of "tp_Delta p" "tp_Delta q" n x y i "rep_a1 ! i" "rep_a2 ! i" ?xb1 ?xb2
        "rep_b1 ! i" "rep_b2 ! i" ?yb1 ?yb2] lbc D that
    by (auto simp: D0 xb_bits_def yb_bits_def share_bit_def layer_bit_def)
  show ?thesis
  proof (intro exI conjI)
    show "compute_inplace P coin nonce n rep_a1 rep_b1 rep_a2 rep_b2 p q = Inr ((?s1, p'), (?s2, q'))"
      using False lb la by (simp add: compute_inplace_def g1 g2 B_def feq feq_check_eq Let_def)
    show "length ?s1 = n" "length ?s2 = n" by (simp_all add: out_sigma_def)
    show "pools_ok p' q'" using lbc by blast
    show "same_session p p'" "same_session q q'"
      using lbc same_session_trans [OF g(7)] same_session_trans [OF g(8)] by blast+
  qed (use sig in auto)
qed

text \<open>Soundness of the check: party 2 accepts only the digest the received commitment binds.\<close>

lemma feq_verdict2_binding:
  assumes "\<And>d r d' r'. pr_commit P d r = pr_commit P d' r' \<Longrightarrow> d = d'"
    and "feq_verdict2 P D com Dp r = Inr ()" and "feq_verdict2 P D' com Dp' r' = Inr ()"
  shows "D = D'"
proof -
  have "pr_commit P Dp r = com" "D = Dp" "pr_commit P Dp' r' = com" "D' = Dp'"
    using assms(2,3) by (simp_all add: feq_verdict2_def split: if_splits)
  then show ?thesis using assms(1) [of Dp r Dp' r'] by simp
qed

section \<open>Properties\<close>

text \<open>
  C16: for honest parties with correlated pools, \<open>compute_inplace\<close> returns, the equality check
  passes, and for every AND gate the result is an authenticated share, with the low bit of the key
  clear, of the product of the two wire masks it was given. The pools stay correlated.
\<close>

theorem inplace_and_shares_correct:
  assumes "pools_ok p q"
    and "length rep_a1 = n" "length rep_b1 = n" "length rep_a2 = n" "length rep_b2 = n"
    and "\<forall>i < n. shares_ok (tp_Delta p) (tp_Delta q) (rep_a1 ! i) (rep_a2 ! i) \<and>
                 shares_ok (tp_Delta p) (tp_Delta q) (rep_b1 ! i) (rep_b2 ! i)"
  shows "\<exists>s1 p' s2 q'.
    compute_inplace P coin nonce n rep_a1 rep_b1 rep_a2 rep_b2 p q = Inr ((s1, p'), (s2, q')) \<and>
    length s1 = n \<and> length s2 = n \<and> pools_ok p' q' \<and>
    (\<forall>i < n. shares_ok (tp_Delta p) (tp_Delta q) (s1 ! i) (s2 ! i) \<and>
      share_bit (s1 ! i) (s2 ! i) =
        (share_bit (rep_a1 ! i) (rep_a2 ! i) \<and> share_bit (rep_b1 ! i) (rep_b2 ! i)))"
  using compute_inplace_correct [OF assms, of P coin nonce] by blast

text \<open>Concrete data: a toy hash, two correlated pools, a share of the bit 1.\<close>

definition toy_prims :: "(block, block list) prims" where
  "toy_prims = \<lparr>pr_setS = (\<lambda>b. b), pr_hash = (\<lambda>m j x. m XOR x XOR of_nat j),
     pr_hash_cir = (\<lambda>m x. m XOR x), pr_adv = (\<lambda>m k. m + of_nat k), pr_digest = (\<lambda>bs. bs),
     pr_commit = (\<lambda>d r. r # d)\<rparr>"

definition toy_pool :: "nat \<Rightarrow> pool" where
  "toy_pool party = \<lparr>tp_party = party, tp_ssp = 40, tp_Delta = (if party = 1 then 7 else 13),
     tp_key_stream = (\<lambda>i. 4 * of_nat i),
     tp_mac_stream = (\<lambda>i. 4 * of_nat i XOR sel (odd i) (if party = 1 then 13 else 7)),
     tp_pos = 0, tp_cots_minted = False, tp_checks = 0\<rparr>"

definition one_share :: "nat \<Rightarrow> ashare" where
  "one_share party = \<lparr>sh_mac = (if party = 1 then 13 else 0), sh_key = 0\<rparr>"

lemma toy_pools_ok: "pools_ok (toy_pool 1) (toy_pool 2)"
proof -
  have D: "LSB (7 :: block)" "LSB (13 :: block)" "LSB1 (7 :: block)" "\<not> LSB1 (13 :: block)"
    by (simp_all add: LSB_def LSB1_def bit_iff_odd)
  have even_key: "\<not> LSB (4 * of_nat i :: block)" for i
    by (simp add: LSB_def bit_0)
  have "mac_ok D (4 * of_nat i XOR sel b D) (4 * of_nat i)" if "LSB D" for D :: block and i b
    using that even_key by (intro mac_okI) auto
  then show ?thesis
    using D by (simp add: pools_ok_def toy_pool_def deltas_ok_def cot_ok_def shares_ok_def stream_share_def)
qed

lemma one_share_ok: "shares_ok 7 13 (one_share 1) (one_share 2)" "share_bit (one_share 1) (one_share 2)"
  by (simp_all add: one_share_def shares_ok_def mac_ok_def share_bit_def LSB_def bit_0)

theorem inplace_and_shares_correct_witness:
  "\<exists>s1 p' s2 q'. compute_inplace toy_prims (\<lambda>_. 0) 5 1 [one_share 1] [one_share 1]
     [one_share 2] [one_share 2] (toy_pool 1) (toy_pool 2) = Inr ((s1, p'), (s2, q')) \<and>
     share_bit (s1 ! 0) (s2 ! 0)"
  using inplace_and_shares_correct [OF toy_pools_ok, of "[one_share 1]" 1 "[one_share 1]"
      "[one_share 2]" "[one_share 2]" toy_prims "\<lambda>_. 0" 5] one_share_ok
  by (auto simp: toy_pool_def)



end
