(* ===== verification/Half_Gate.thy ===== *)
theory Half_Gate
  imports Leaky_And
begin

text \<open>
  One AND gate of the authenticated garbling: the garbler's row, the evaluator's row with its
  share of the check value, and the garbler's check value, as straight-line functions of what
  \<^verbatim>\<open>and_gate\<close> of the three passes in \<^verbatim>\<open>backend/pass_ctx.h\<close> reads. The lemmas
  are the algebra of the half gates: the evaluated label encodes the masked product, and the two
  check values agree exactly when the evaluator's masked output is right.
\<close>

section \<open>The rows\<close>

definition garble_row ::
  "('m, 'd) prims \<Rightarrow> 'm \<Rightarrow> block \<Rightarrow> ashare \<times> block \<Rightarrow> ashare \<times> block \<Rightarrow> ashare \<Rightarrow> ashare \<Rightarrow>
   block \<times> block \<times> block" where
  "garble_row P m D in0 in1 wb_out sb =
     (let (wb_in0, ml_a0) = in0; (wb_in1, ml_b0) = in1;
          H = pr_hash_cir P m;
          H_a0 = H ml_a0; H_a1 = H (ml_a0 XOR D); H_b0 = H ml_b0; H_b1 = H (ml_b0 XOR D);
          la_dot = sel (LSB (sh_mac wb_in0)) D; lb_dot = sel (LSB (sh_mac wb_in1)) D;
          lab_dot = sel (LSB (sh_mac sb)) D; lg_dot = sel (LSB (sh_mac wb_out)) D;
          G0 = H_a0 XOR H_a1 XOR sh_key wb_in1 XOR lb_dot;
          G1 = H_b0 XOR H_b1 XOR ml_a0 XOR sh_key wb_in0 XOR la_dot;
          ml_g0 = H_a0 XOR H_b0 XOR sh_key sb XOR lab_dot XOR sh_key wb_out XOR lg_dot
      in (G0, G1, ml_g0))"

definition eval_label_row ::
  "('m, 'd) prims \<Rightarrow> 'm \<Rightarrow> ashare \<times> block \<times> bool \<Rightarrow> ashare \<times> block \<times> bool \<Rightarrow> ashare \<Rightarrow> ashare \<Rightarrow>
   block \<Rightarrow> block \<Rightarrow> block" where
  "eval_label_row P m in0 in1 wb_out sb G0 G1 =
     (let (wb_in0, e0, La) = in0; (wb_in1, e1, Lb) = in1;
          Mr = sh_mac sb XOR sh_mac wb_out XOR sel La (sh_mac wb_in1) XOR sel Lb (sh_mac wb_in0);
          t = pr_hash_cir P m e0 XOR pr_hash_cir P m e1
      in t XOR sel La G0 XOR sel Lb (G1 XOR e0) XOR Mr)"

definition eval_check_row ::
  "block \<Rightarrow> ashare \<times> bool \<Rightarrow> ashare \<times> bool \<Rightarrow> ashare \<Rightarrow> ashare \<Rightarrow> bool \<Rightarrow> block" where
  "eval_check_row D in0 in1 wb_out sb Lg =
     (let (wb_in0, La) = in0; (wb_in1, Lb) = in1;
          v_in0 = LSB (sh_mac wb_in0); v_in1 = LSB (sh_mac wb_in1);
          v_out = LSB (sh_mac wb_out); v_sig = LSB (sh_mac sb);
          t1 = (((((La \<and> Lb) \<noteq> Lg) \<noteq> (La \<and> v_in1)) \<noteq> (Lb \<and> v_in0)) \<noteq> v_sig) \<noteq> v_out;
          m = sel t1 D XOR sel La (sh_key wb_in1) XOR sel Lb (sh_key wb_in0)
      in m XOR sh_key sb XOR sh_key wb_out)"

definition garbler_check_row ::
  "ashare \<times> bool \<Rightarrow> ashare \<times> bool \<Rightarrow> ashare \<Rightarrow> ashare \<Rightarrow> block" where
  "garbler_check_row in0 in1 wb_out sb =
     (let (wb_in0, La) = in0; (wb_in1, Lb) = in1
      in sh_mac sb XOR sh_mac wb_out XOR sel La (sh_mac wb_in1) XOR sel Lb (sh_mac wb_in0))"

section \<open>Correctness of the rows\<close>

text \<open>The evaluated label, for any masks \<open>La\<close>, \<open>Lb\<close> the operand labels encode.\<close>

lemma shares_ok_mac2:
  "shares_ok D1 D2 s t \<Longrightarrow> sh_mac t = sh_key s XOR sel (LSB (sh_mac t)) D1"
  by (auto simp: shares_ok_def mac_ok_def)

lemma shares_ok_mac1:
  "shares_ok D1 D2 s t \<Longrightarrow> sh_mac s = sh_key t XOR sel (LSB (sh_mac s)) D2"
  by (auto simp: shares_ok_def mac_ok_def)

lemma eval_label_algebra:
  fixes H :: "block \<Rightarrow> block"
  assumes a: "Ma = Ka XOR sel a2 D" and b: "Mb = Kb XOR sel b2 D"
    and s: "Ms = Ks XOR sel s2 D" and g: "Mg = Kg XOR sel g2 D"
    and e: "e0 = la XOR sel La D" "e1 = lb XOR sel Lb D"
    and G: "G0 = H la XOR H (la XOR D) XOR Kb XOR sel b1 D"
      "G1 = H lb XOR H (lb XOR D) XOR la XOR Ka XOR sel a1 D"
    and l: "lg = H la XOR H lb XOR Ks XOR sel s1 D XOR Kg XOR sel g1 D"
  shows "H e0 XOR H e1 XOR sel La G0 XOR sel Lb (G1 XOR e0) XOR
      (Ms XOR Mg XOR sel La Mb XOR sel Lb Ma) =
    lg XOR sel (((La \<and> Lb) \<noteq> (La \<and> (b1 \<noteq> b2))) \<noteq> ((Lb \<and> (a1 \<noteq> a2)) \<noteq> ((s1 \<noteq> s2) \<noteq> (g1 \<noteq> g2)))) D"
  by (cases La; cases Lb) (simp_all add: a b s g e G l xor_algebra)

lemma masked_product:
  "(((La \<and> Lb) \<noteq> (La \<and> b)) \<noteq> ((Lb \<and> a) \<noteq> ((a \<and> b) \<noteq> g))) = (((La \<noteq> a) \<and> (Lb \<noteq> b)) \<noteq> g)"
  by blast

lemma eval_label_row_correct:
  assumes "shares_ok D1 D2 sa ta" "shares_ok D1 D2 sb tb" "shares_ok D1 D2 sg tg" "shares_ok D1 D2 ss ts"
    and sig: "share_bit ss ts = (share_bit sa ta \<and> share_bit sb tb)"
    and e: "e0 = la XOR sel La D1" "e1 = lb XOR sel Lb D1"
    and run: "garble_row P m D1 (sa, la) (sb, lb) sg ss = (G0, G1, lg)"
  shows "eval_label_row P m (ta, e0, La) (tb, e1, Lb) tg ts G0 G1 =
    lg XOR sel (((La \<noteq> share_bit sa ta) \<and> (Lb \<noteq> share_bit sb tb)) \<noteq> share_bit sg tg) D1"
proof -
  let ?H = "pr_hash_cir P m"
  have G: "G0 = ?H la XOR ?H (la XOR D1) XOR sh_key sb XOR sel (LSB (sh_mac sb)) D1"
    "G1 = ?H lb XOR ?H (lb XOR D1) XOR la XOR sh_key sa XOR sel (LSB (sh_mac sa)) D1"
    "lg = ?H la XOR ?H lb XOR sh_key ss XOR sel (LSB (sh_mac ss)) D1 XOR sh_key sg XOR sel (LSB (sh_mac sg)) D1"
    using run by (auto simp: garble_row_def Let_def)
  have "eval_label_row P m (ta, e0, La) (tb, e1, Lb) tg ts G0 G1 =
      ?H e0 XOR ?H e1 XOR sel La G0 XOR sel Lb (G1 XOR e0) XOR
        (sh_mac ts XOR sh_mac tg XOR sel La (sh_mac tb) XOR sel Lb (sh_mac ta))"
    by (simp add: eval_label_row_def Let_def xor.assoc)
  also have "\<dots> = lg XOR sel (((La \<and> Lb) \<noteq> (La \<and> share_bit sb tb)) \<noteq>
      ((Lb \<and> share_bit sa ta) \<noteq> (share_bit ss ts \<noteq> share_bit sg tg))) D1"
    unfolding share_bit_def
    by (rule eval_label_algebra [where H = ?H, OF shares_ok_mac2 [OF assms(1)] shares_ok_mac2 [OF assms(2)]
        shares_ok_mac2 [OF assms(4)] shares_ok_mac2 [OF assms(3)] e G])
  finally show ?thesis unfolding sig masked_product .
qed

text \<open>The two check values differ by the evaluator's error times the evaluator's difference.\<close>

lemma check_algebra:
  assumes a: "Ma = Ka XOR sel a1 D" and b: "Mb = Kb XOR sel b1 D"
    and s: "Ms = Ks XOR sel s1 D" and g: "Mg = Kg XOR sel g1 D"
  shows "(Ms XOR Mg XOR sel La Mb XOR sel Lb Ma) XOR
      (sel ((((((La \<and> Lb) \<noteq> Lg) \<noteq> (La \<and> b2)) \<noteq> (Lb \<and> a2)) \<noteq> s2) \<noteq> g2) D XOR
       sel La Kb XOR sel Lb Ka XOR Ks XOR Kg) =
    sel (Lg \<noteq> (((La \<and> Lb) \<noteq> (La \<and> (b1 \<noteq> b2))) \<noteq> ((Lb \<and> (a1 \<noteq> a2)) \<noteq> ((s1 \<noteq> s2) \<noteq> (g1 \<noteq> g2))))) D"
  by (cases La; cases Lb) (simp_all add: a b s g xor_algebra)

lemma check_rows_differ:
  assumes "shares_ok D1 D2 sa ta" "shares_ok D1 D2 sb tb" "shares_ok D1 D2 sg tg" "shares_ok D1 D2 ss ts"
    and sig: "share_bit ss ts = (share_bit sa ta \<and> share_bit sb tb)"
  shows "garbler_check_row (sa, La) (sb, Lb) sg ss XOR eval_check_row D2 (ta, La) (tb, Lb) tg ts Lg =
    sel (Lg \<noteq> (((La \<noteq> share_bit sa ta) \<and> (Lb \<noteq> share_bit sb tb)) \<noteq> share_bit sg tg)) D2"
proof -
  have "garbler_check_row (sa, La) (sb, Lb) sg ss XOR eval_check_row D2 (ta, La) (tb, Lb) tg ts Lg =
      sel (Lg \<noteq> (((La \<and> Lb) \<noteq> (La \<and> share_bit sb tb)) \<noteq>
        ((Lb \<and> share_bit sa ta) \<noteq> (share_bit ss ts \<noteq> share_bit sg tg)))) D2"
    unfolding garbler_check_row_def eval_check_row_def Let_def prod.case share_bit_def
    using check_algebra [OF shares_ok_mac1 [OF assms(1)] shares_ok_mac1 [OF assms(2)]
        shares_ok_mac1 [OF assms(4)] shares_ok_mac1 [OF assms(3)], of La Lb Lg]
    by (simp only: xor.assoc)
  then show ?thesis unfolding sig masked_product .
qed

lemma check_rows_agree_iff:
  assumes "shares_ok D1 D2 sa ta" "shares_ok D1 D2 sb tb" "shares_ok D1 D2 sg tg" "shares_ok D1 D2 ss ts"
    and "share_bit ss ts = (share_bit sa ta \<and> share_bit sb tb)" and D2: "LSB D2"
  shows "garbler_check_row (sa, La) (sb, Lb) sg ss = eval_check_row D2 (ta, La) (tb, Lb) tg ts Lg \<longleftrightarrow>
    Lg = (((La \<noteq> share_bit sa ta) \<and> (Lb \<noteq> share_bit sb tb)) \<noteq> share_bit sg tg)"
proof -
  have "D2 \<noteq> 0" using D2 by auto
  let ?x = "garbler_check_row (sa, La) (sb, Lb) sg ss" and ?y = "eval_check_row D2 (ta, La) (tb, Lb) tg ts Lg"
  have "?x = ?y \<longleftrightarrow> ?x XOR ?y = 0" by (metis xor_self_eq xor_cancel_iff)
  then show ?thesis
    unfolding check_rows_differ [OF assms(1-5)] using \<open>D2 \<noteq> 0\<close>
    by (cases "Lg = (((La \<noteq> share_bit sa ta) \<and> (Lb \<noteq> share_bit sb tb)) \<noteq> share_bit sg tg)") auto
qed

section \<open>Properties\<close>

text \<open>
  C18: one AND gate of the garbling. With authenticated shares of the masks and of their product, the
  label the evaluator computes from the garbler's row and the operand labels for any opened masks is
  the garbler's label for the masked product of those; and the two parties' check values agree for
  exactly one opened output mask, that one.
\<close>

theorem half_gate_correct:
  fixes La Lb :: bool
  assumes "shares_ok D1 D2 sa ta" "shares_ok D1 D2 sb tb" "shares_ok D1 D2 sg tg" "shares_ok D1 D2 ss ts"
    and "share_bit ss ts = (share_bit sa ta \<and> share_bit sb tb)" and "LSB D2"
    and "garble_row P m D1 (sa, la) (sb, lb) sg ss = (G0, G1, lg)"
  defines "x \<equiv> ((La \<noteq> share_bit sa ta) \<and> (Lb \<noteq> share_bit sb tb)) \<noteq> share_bit sg tg"
  shows "eval_label_row P m (ta, la XOR sel La D1, La) (tb, lb XOR sel Lb D1, Lb) tg ts G0 G1 = lg XOR sel x D1 \<and>
    (garbler_check_row (sa, La) (sb, Lb) sg ss = eval_check_row D2 (ta, La) (tb, Lb) tg ts Lg \<longleftrightarrow> Lg = x)"
  unfolding x_def
  using eval_label_row_correct [OF assms(1-5) refl refl assms(7), of La Lb]
    check_rows_agree_iff [OF assms(1-6), of La Lb Lg] by blast

theorem half_gate_correct_witness:
  "let P = \<lparr>pr_setS = (\<lambda>b. b), pr_hash = (\<lambda>m j x. x), pr_hash_cir = (\<lambda>m x. m XOR x), pr_adv = (\<lambda>m k. m),
         pr_digest = (\<lambda>bs. bs), pr_commit = (\<lambda>d r. r # d)\<rparr>;
       sa = \<lparr>sh_mac = 9, sh_key = 2\<rparr>; ta = \<lparr>sh_mac = 2, sh_key = 4\<rparr>;
       (G0, G1, lg) = garble_row P 3 7 (sa, 100) (sa, 200) sa sa
   in eval_label_row P 3 (ta, 100, False) (ta, 200, False) ta ta G0 G1 = lg"
proof -
  let ?P = "\<lparr>pr_setS = (\<lambda>b. b), pr_hash = (\<lambda>m j x. x), pr_hash_cir = (\<lambda>m x. m XOR x), pr_adv = (\<lambda>m k. m),
         pr_digest = (\<lambda>bs. bs), pr_commit = (\<lambda>d r. r # d)\<rparr> :: (block, block list) prims"
  let ?s = "\<lparr>sh_mac = 9, sh_key = 2\<rparr>" and ?t = "\<lparr>sh_mac = 2, sh_key = 4\<rparr>"
  have ok: "shares_ok 7 13 ?s ?t" "share_bit ?s ?t" "LSB (13 :: block)"
    by (simp_all add: shares_ok_def mac_ok_def share_bit_def LSB_def sel_def)
  obtain G0 G1 lg where r: "garble_row ?P 3 7 (?s, 100) (?s, 200) ?s ?s = (G0, G1, lg)" by (metis prod_cases3)
  show ?thesis
    using half_gate_correct [OF ok(1,1,1,1) _ ok(3) r, of False False False] ok(2) r by (simp add: Let_def)
qed

end
