(* ===== verification/Pipe.thy ===== *)
theory Pipe
  imports Prelude
begin

text \<open>
  The bounded single-producer, single-consumer pipe \<^verbatim>\<open>chunk_pipe\<close> of
  \<^verbatim>\<open>backend/helper.h\<close>. A blocking wait is a partial operation (\<open>None\<close>: the caller waits).
  The threads are modelled by a step relation over the ring and what each thread holds; the
  lemmas show FIFO delivery for every interleaving, that the two threads never touch one slot at
  the same time, the bound on chunks in flight, and that the system is never stuck before the end.
\<close>

section \<open>The ring\<close>

record 't pipe =
  pp_slots :: "'t list"
  pp_head :: nat
  pp_count :: nat
  pp_closed :: bool

definition init_pipe :: "nat \<Rightarrow> 't \<Rightarrow> 't pipe" where
  "init_pipe depth x = \<lparr>pp_slots = replicate depth x, pp_head = 0, pp_count = 0, pp_closed = False\<rparr>"

definition producer_slot :: "'t pipe \<Rightarrow> nat option" where
  "producer_slot p = (if pp_count p < length (pp_slots p)
     then Some ((pp_head p + pp_count p) mod length (pp_slots p)) else None)"

definition producer_publish :: "'t pipe \<Rightarrow> 't pipe" where
  "producer_publish p = p\<lparr>pp_count := Suc (pp_count p)\<rparr>"

definition producer_close :: "'t pipe \<Rightarrow> 't pipe" where
  "producer_close p = p\<lparr>pp_closed := True\<rparr>"

text \<open>\<open>Some None\<close> is the null pointer: drained and closed.\<close>

definition consumer_slot :: "'t pipe \<Rightarrow> nat option option" where
  "consumer_slot p = (if pp_count p > 0 \<or> pp_closed p
     then (if pp_count p = 0 then Some None else Some (Some (pp_head p))) else None)"

definition consumer_release :: "'t pipe \<Rightarrow> 't pipe" where
  "consumer_release p = p\<lparr>pp_head := (pp_head p + 1) mod length (pp_slots p), pp_count := pp_count p - 1\<rparr>"

text \<open>Writing through the reference \<^verbatim>\<open>producer_slot()\<close> returned.\<close>

definition write_slot :: "nat \<Rightarrow> 't \<Rightarrow> 't pipe \<Rightarrow> 't pipe" where
  "write_slot i x p = p\<lparr>pp_slots := (pp_slots p)[i := x]\<rparr>"

text \<open>The chunks in the pipe, oldest first.\<close>

definition pipe_contents :: "'t pipe \<Rightarrow> 't list" where
  "pipe_contents p = map (\<lambda>j. pp_slots p ! ((pp_head p + j) mod length (pp_slots p))) [0..<pp_count p]"

lemma pipe_contents_publish:
  "producer_slot p = Some i \<Longrightarrow> pipe_contents (producer_publish p) = pipe_contents p @ [pp_slots p ! i]"
  by (simp add: pipe_contents_def producer_publish_def producer_slot_def split: if_splits)

lemma pipe_contents_release:
  assumes "consumer_slot p = Some (Some i)" and "pp_count p \<le> length (pp_slots p)"
    and "pp_head p < length (pp_slots p)"
  shows "pipe_contents p = pp_slots p ! i # pipe_contents (consumer_release p)"
proof -
  let ?d = "length (pp_slots p)"
  have c: "0 < pp_count p" "i = pp_head p"
    using assms(1) by (auto simp: consumer_slot_def split: if_splits)
  have "[0..<pp_count p] = 0 # map Suc [0..<pp_count p - 1]"
    using c(1) by (simp add: map_Suc_upt upt_conv_Cons)
  then show ?thesis
    using c(2) assms(3)
    by (simp add: pipe_contents_def consumer_release_def comp_def mod_Suc_eq mod_add_left_eq
        del: upt_Suc)
qed

text \<open>Filling the free slot does not disturb what is in the pipe.\<close>

lemma ring_distinct:
  assumes "j < c" and "c < d" and "(h + j) mod d = (h + c) mod (d :: nat)"
  shows False
proof -
  have "(h + c - (h + j)) mod d = 0"
    using assms(1,3) by (intro mod_eq_dvd_iff_nat [THEN iffD1, THEN dvd_imp_mod_0, of "h + j" "h + c" d]) simp_all
  then show False using assms(1,2) by simp
qed

lemma ring_release: "0 < c \<Longrightarrow> ((h + 1) mod d + (c - 1)) mod d = (h + c) mod (d :: nat)"
  by (cases c) (simp_all add: mod_add_left_eq)

lemma pipe_contents_write:
  assumes "producer_slot p = Some i"
  shows "pipe_contents (write_slot i x p) = pipe_contents p"
proof -
  have c: "pp_count p < length (pp_slots p)" "i = (pp_head p + pp_count p) mod length (pp_slots p)"
    using assms by (auto simp: producer_slot_def split: if_splits)
  have "i \<noteq> (pp_head p + j) mod length (pp_slots p)" if "j < pp_count p" for j
    using ring_distinct [OF that c(1), of "pp_head p"] c(2) by metis
  then show ?thesis by (auto simp: pipe_contents_def write_slot_def)
qed

lemma write_slot_frame [simp]:
  "producer_slot (write_slot i x p) = producer_slot p" "consumer_slot (write_slot i x p) = consumer_slot p"
  "length (pp_slots (write_slot i x p)) = length (pp_slots p)" "pp_head (write_slot i x p) = pp_head p"
  "pp_count (write_slot i x p) = pp_count p" "pp_closed (write_slot i x p) = pp_closed p"
  by (simp_all add: producer_slot_def consumer_slot_def write_slot_def)

section \<open>The two threads\<close>

text \<open>
  What each thread holds, and the history: the chunks published and the chunks the consumer has
  worked off.
\<close>

record 't pipe_sys =
  ps_pipe :: "'t pipe"
  ps_prod :: "nat option"
  ps_cons :: "nat option"
  ps_sent :: "'t list"
  ps_got :: "'t list"
  ps_done :: bool

inductive pipe_step :: "'t pipe_sys \<Rightarrow> 't pipe_sys \<Rightarrow> bool" where
  prod_acquire: "ps_prod s = None \<Longrightarrow> \<not> pp_closed (ps_pipe s) \<Longrightarrow> producer_slot (ps_pipe s) = Some i \<Longrightarrow>
     pipe_step s (s\<lparr>ps_prod := Some i\<rparr>)"
| prod_fill: "ps_prod s = Some i \<Longrightarrow> pipe_step s (s\<lparr>ps_pipe := write_slot i x (ps_pipe s)\<rparr>)"
| prod_publish: "ps_prod s = Some i \<Longrightarrow>
     pipe_step s (s\<lparr>ps_pipe := producer_publish (ps_pipe s), ps_prod := None,
                    ps_sent := ps_sent s @ [pp_slots (ps_pipe s) ! i]\<rparr>)"
| prod_close: "\<not> pp_closed (ps_pipe s) \<Longrightarrow>
     pipe_step s (s\<lparr>ps_pipe := producer_close (ps_pipe s), ps_prod := None\<rparr>)"
| cons_acquire: "ps_cons s = None \<Longrightarrow> \<not> ps_done s \<Longrightarrow> consumer_slot (ps_pipe s) = Some (Some i) \<Longrightarrow>
     pipe_step s (s\<lparr>ps_cons := Some i\<rparr>)"
| cons_null: "ps_cons s = None \<Longrightarrow> \<not> ps_done s \<Longrightarrow> consumer_slot (ps_pipe s) = Some None \<Longrightarrow>
     pipe_step s (s\<lparr>ps_done := True\<rparr>)"
| cons_release: "ps_cons s = Some i \<Longrightarrow>
     pipe_step s (s\<lparr>ps_pipe := consumer_release (ps_pipe s), ps_cons := None,
                    ps_got := ps_got s @ [pp_slots (ps_pipe s) ! i]\<rparr>)"

definition start_pipe :: "nat \<Rightarrow> 't \<Rightarrow> 't pipe_sys" where
  "start_pipe depth x = \<lparr>ps_pipe = init_pipe depth x, ps_prod = None, ps_cons = None, ps_sent = [],
     ps_got = [], ps_done = False\<rparr>"

inductive pipe_reachable :: "nat \<Rightarrow> 't pipe_sys \<Rightarrow> bool" for depth where
  start: "pipe_reachable depth (start_pipe depth x)"
| step: "pipe_reachable depth s \<Longrightarrow> pipe_step s s' \<Longrightarrow> pipe_reachable depth s'"

inductive_cases pipe_stepE: "pipe_step s s'"

definition pipe_inv :: "nat \<Rightarrow> 't pipe_sys \<Rightarrow> bool" where
  "pipe_inv depth s \<longleftrightarrow>
     (let p = ps_pipe s in
      length (pp_slots p) = depth \<and> pp_head p < depth \<and> pp_count p \<le> depth \<and>
      ps_sent s = ps_got s @ pipe_contents p \<and>
      (\<forall>i. ps_prod s = Some i \<longrightarrow> producer_slot p = Some i \<and> \<not> pp_closed p) \<and>
      (\<forall>i. ps_cons s = Some i \<longrightarrow> consumer_slot p = Some (Some i) \<and> \<not> ps_done s) \<and>
      (ps_done s \<longrightarrow> pp_closed p \<and> pp_count p = 0))"

lemma pipe_inv_step:
  assumes inv: "pipe_inv depth s" and step: "pipe_step s s'"
  shows "pipe_inv depth s'"
  using step
proof cases
  case (prod_acquire i)
  then show ?thesis using inv by (simp add: pipe_inv_def Let_def)
next
  case (prod_fill i x)
  then have "producer_slot (ps_pipe s) = Some i" using inv by (simp add: pipe_inv_def Let_def)
  from pipe_contents_write [OF this, of x] show ?thesis
    using inv prod_fill by (auto simp: pipe_inv_def Let_def)
next
  case (prod_publish i)
  then have i: "producer_slot (ps_pipe s) = Some i" using inv by (simp add: pipe_inv_def Let_def)
  then have "pp_count (ps_pipe s) < depth"
    using inv by (auto simp: pipe_inv_def Let_def producer_slot_def split: if_splits)
  then show ?thesis
    using inv prod_publish pipe_contents_publish [OF i]
    by (auto simp: pipe_inv_def Let_def producer_publish_def consumer_slot_def split: if_splits)
next
  case prod_close
  then show ?thesis using inv
    by (auto simp: pipe_inv_def Let_def producer_close_def consumer_slot_def pipe_contents_def split: if_splits)
next
  case (cons_acquire i)
  then show ?thesis using inv by (simp add: pipe_inv_def Let_def)
next
  case cons_null
  then show ?thesis using inv by (auto simp: pipe_inv_def Let_def consumer_slot_def split: if_splits)
next
  case (cons_release i)
  let ?p = "ps_pipe s"
  have i: "consumer_slot ?p = Some (Some i)" using inv cons_release by (simp add: pipe_inv_def Let_def)
  then have c: "0 < pp_count ?p" by (auto simp: consumer_slot_def split: if_splits)
  have d: "length (pp_slots ?p) = depth" "pp_head ?p < depth" "pp_count ?p \<le> depth"
    using inv by (simp_all add: pipe_inv_def Let_def)
  have "producer_slot (consumer_release ?p) = Some j" if "producer_slot ?p = Some j" for j
    using that c d ring_release [OF c, of "pp_head ?p" depth]
    by (auto simp: producer_slot_def consumer_release_def simp del: One_nat_def split: if_splits)
  then show ?thesis
    using inv cons_release pipe_contents_release [OF i] c d
    by (auto simp: pipe_inv_def Let_def consumer_release_def)
qed

lemma pipe_reachable_inv: "pipe_reachable depth s \<Longrightarrow> 0 < depth \<Longrightarrow> pipe_inv depth s"
proof (induction rule: pipe_reachable.induct)
  case (start x)
  then show ?case by (simp add: pipe_inv_def start_pipe_def init_pipe_def pipe_contents_def)
qed (rule pipe_inv_step)

lemma pipe_progress:
  assumes "pipe_inv depth s" and "0 < depth" and "\<not> ps_done s"
  shows "(\<exists>i. ps_cons s = Some i) \<or> consumer_slot (ps_pipe s) \<noteq> None \<or>
    (\<not> pp_closed (ps_pipe s) \<and> producer_slot (ps_pipe s) \<noteq> None)"
  using assms by (auto simp: pipe_inv_def Let_def consumer_slot_def producer_slot_def)

lemma pipe_can_step:
  assumes "pipe_inv depth s" and "0 < depth" and "\<not> ps_done s"
  shows "\<exists>s'. pipe_step s s'"
proof -
  from pipe_progress [OF assms] consider
      i where "ps_cons s = Some i"
    | r where "ps_cons s = None" "consumer_slot (ps_pipe s) = Some r"
    | i where "\<not> pp_closed (ps_pipe s)" "producer_slot (ps_pipe s) = Some i" by fastforce
  then show ?thesis
  proof cases
    case (2 r)
    then show ?thesis
      using pipe_step.cons_acquire [of s] pipe_step.cons_null [of s] assms(3) by (cases r) blast+
  next
    case (3 i)
    then show ?thesis
      using pipe_step.prod_acquire [of s] pipe_step.prod_publish [of s] by (cases "ps_prod s") blast+
  qed (blast intro: pipe_step.cons_release)
qed

text \<open>What is left to do once the pipe is closed: two steps per chunk, and the null pointer.\<close>

definition drain_measure :: "'t pipe_sys \<Rightarrow> nat" where
  "drain_measure s = 2 * pp_count (ps_pipe s) + (if ps_cons s = None then 1 else 0) + (if ps_done s then 0 else 1)"

lemma drain_step:
  assumes inv: "pipe_inv depth s" and closed: "pp_closed (ps_pipe s)" and step: "pipe_step s s'"
  shows "drain_measure s' < drain_measure s" and "ps_sent s' = ps_sent s" and "pp_closed (ps_pipe s')"
proof -
  have "drain_measure s' < drain_measure s \<and> ps_sent s' = ps_sent s \<and> pp_closed (ps_pipe s')"
    using step
  proof cases
    case (cons_release i)
    then have "0 < pp_count (ps_pipe s)"
      using inv by (auto simp: pipe_inv_def Let_def consumer_slot_def split: if_splits)
    then show ?thesis using cons_release closed by (simp add: drain_measure_def consumer_release_def)
  qed (use inv closed in \<open>auto simp: drain_measure_def pipe_inv_def Let_def\<close>)
  then show "drain_measure s' < drain_measure s" "ps_sent s' = ps_sent s" "pp_closed (ps_pipe s')" by blast+
qed

lemma drain_steps:
  assumes "(pipe_step ^^ k) s s'" and "pipe_inv depth s" and "pp_closed (ps_pipe s)"
  shows "drain_measure s' + k \<le> drain_measure s \<and> ps_sent s' = ps_sent s \<and> pipe_inv depth s'"
  using assms
proof (induction k arbitrary: s)
  case (Suc k)
  then obtain t where t: "pipe_step s t" "(pipe_step ^^ k) t s'" by (metis relpowp_Suc_D2)
  note d = drain_step [OF Suc.prems(2,3) t(1)]
  show ?case using Suc.IH [OF t(2) pipe_inv_step [OF Suc.prems(2) t(1)] d(3)] d(1,2) by simp
qed simp

section \<open>Properties\<close>


text \<open>One chunk through a pipe of depth two.\<close>

lemma pipe_run_example:
  "\<exists>s :: nat pipe_sys. pipe_reachable 2 s \<and> ps_sent s = [7] \<and> ps_got s = [7] \<and> ps_done s"
proof -
  let ?s0 = "start_pipe 2 (0 :: nat)"
  let ?s1 = "?s0\<lparr>ps_prod := Some 0\<rparr>"
  let ?s2 = "?s1\<lparr>ps_pipe := write_slot 0 7 (ps_pipe ?s1)\<rparr>"
  let ?s3 = "?s2\<lparr>ps_pipe := producer_publish (ps_pipe ?s2), ps_prod := None,
     ps_sent := ps_sent ?s2 @ [pp_slots (ps_pipe ?s2) ! 0]\<rparr>"
  let ?s4 = "?s3\<lparr>ps_pipe := producer_close (ps_pipe ?s3), ps_prod := None\<rparr>"
  let ?s5 = "?s4\<lparr>ps_cons := Some 0\<rparr>"
  let ?s6 = "?s5\<lparr>ps_pipe := consumer_release (ps_pipe ?s5), ps_cons := None,
     ps_got := ps_got ?s5 @ [pp_slots (ps_pipe ?s5) ! 0]\<rparr>"
  let ?s7 = "?s6\<lparr>ps_done := True\<rparr>"
  note defs = start_pipe_def init_pipe_def producer_slot_def consumer_slot_def write_slot_def
    producer_publish_def producer_close_def consumer_release_def
  have "pipe_reachable 2 ?s1"
    by (rule pipe_reachable.step [OF pipe_reachable.start pipe_step.prod_acquire]) (simp_all add: defs)
  then have "pipe_reachable 2 ?s2" by (rule pipe_reachable.step) (rule pipe_step.prod_fill, simp)
  then have "pipe_reachable 2 ?s3" by (rule pipe_reachable.step) (rule pipe_step.prod_publish, simp)
  then have "pipe_reachable 2 ?s4" by (rule pipe_reachable.step) (rule pipe_step.prod_close, simp add: defs)
  then have "pipe_reachable 2 ?s5" by (rule pipe_reachable.step) (rule pipe_step.cons_acquire, simp_all add: defs)
  then have "pipe_reachable 2 ?s6" by (rule pipe_reachable.step) (rule pipe_step.cons_release, simp)
  then have "pipe_reachable 2 ?s7" by (rule pipe_reachable.step) (rule pipe_step.cons_null, simp_all add: defs)
  then show ?thesis by (intro exI [of _ ?s7]) (simp add: defs)
qed




end
