(* ===== verification/Chunk_Stream.thy ===== *)
theory Chunk_Stream
  imports Pipe
begin

text \<open>
  The ciphertext stream between garbler and evaluator: the staging chunk
  \<^verbatim>\<open>AG2PCStreamChunk\<close> of \<^verbatim>\<open>backend/run_state.h\<close>, the sender task of
  \<^verbatim>\<open>AG2PCGarblePass::begin\<close> as the bytes it writes, and the receiver task of
  \<^verbatim>\<open>AG2PCEvaluatePass::begin\<close> as it splits the byte stream again. The receiver recovers
  the gates' rows exactly, for any number of AND gates.
\<close>

section \<open>Blocks as bytes\<close>

text \<open>The sixteen bytes of a block, least significant first (the memory image).\<close>

primrec bytes_le :: "nat \<Rightarrow> block \<Rightarrow> byte list" where
  "bytes_le 0 b = []"
| "bytes_le (Suc n) b = ucast b # bytes_le n (drop_bit 8 b)"

definition block_bytes :: "block \<Rightarrow> byte list" where
  "block_bytes b = bytes_le 16 b"

primrec bytes_block :: "byte list \<Rightarrow> block" where
  "bytes_block [] = 0"
| "bytes_block (y # ys) = ucast y OR push_bit 8 (bytes_block ys)"

lemma length_bytes_le [simp]: "length (bytes_le n b) = n"
  by (induction n arbitrary: b) simp_all

lemma byte_split: "ucast (ucast b :: byte) OR push_bit 8 (take_bit m (drop_bit 8 b)) = take_bit (8 + m) b"
  for b :: block
proof (rule bit_eqI)
  fix i assume "possible_bit TYPE(block) i"
  then show "bit (ucast (ucast b :: byte) OR push_bit 8 (take_bit m (drop_bit 8 b)) :: block) i =
      bit (take_bit (8 + m) b) i"
    by (auto simp: bit_or_iff bit_push_bit_iff bit_take_bit_iff bit_drop_bit_eq bit_ucast_iff)
qed

lemma bytes_block_le: "bytes_block (bytes_le n b) = take_bit (8 * n) b"
proof (induction n arbitrary: b)
  case (Suc n)
  have "8 * Suc n = 8 + 8 * n" by simp
  then show ?case using byte_split [of b "8 * n"] by (simp only: bytes_le.simps bytes_block.simps Suc)
qed simp

lemma bytes_block_bytes [simp]: "bytes_block (block_bytes b) = b"
proof -
  have "take_bit 128 b = b" by (rule take_bit_word_eq_self) simp
  then show ?thesis using bytes_block_le [of 16 b] by (simp add: block_bytes_def)
qed

lemma length_block_bytes [simp]: "length (block_bytes b) = 16"
  by (simp add: block_bytes_def)

text \<open>
  \<^verbatim>\<open>recv_data\<close> of \<open>k\<close> blocks or bytes: what is read, and the rest of the stream. On a
  stream that has fewer bytes the call would wait; the model then reads zeros.
\<close>

primrec recv_blocks :: "nat \<Rightarrow> byte list \<Rightarrow> block list \<times> byte list" where
  "recv_blocks 0 io = ([], io)"
| "recv_blocks (Suc k) io =
     (case recv_blocks k (drop 16 io) of (bs, io') \<Rightarrow> (bytes_block (take 16 io) # bs, io'))"

definition recv_bytes :: "nat \<Rightarrow> byte list \<Rightarrow> byte list \<times> byte list" where
  "recv_bytes k io = (take k io @ replicate (k - length io) 0, drop k io)"

lemma recv_blocks_send:
  "recv_blocks (length bs) (concat (map block_bytes bs) @ io) = (bs, io)"
  by (induction bs) simp_all

section \<open>Staging chunks\<close>

type_synonym row = "block \<times> block \<times> byte"

record stream_chunk =
  ck_G :: "block list"
  ck_b :: "byte list"
  ck_n :: nat

definition kBatch :: nat where "kBatch = 2 ^ 16"

definition chunk_cap :: "nat \<Rightarrow> nat" where
  "chunk_cap num_ands = min kBatch (max 1 num_ands)"

definition init_chunk :: "nat \<Rightarrow> stream_chunk" where
  "init_chunk num_ands = \<lparr>ck_G = replicate (2 * chunk_cap num_ands) 0,
     ck_b = replicate (chunk_cap num_ands) 0, ck_n = 0\<rparr>"

lemma kBatch_pos: "0 < kBatch" and chunk_cap_pos: "0 < chunk_cap n" and chunk_cap_le: "chunk_cap n \<le> kBatch"
  by (simp_all add: kBatch_def chunk_cap_def)

definition chunk_ok :: "nat \<Rightarrow> stream_chunk \<Rightarrow> bool" where
  "chunk_ok cap c \<longleftrightarrow> length (ck_G c) = 2 * cap \<and> length (ck_b c) = cap \<and> ck_n c \<le> cap"

lemma init_chunk_ok: "chunk_ok (chunk_cap n) (init_chunk n)"
  by (simp add: chunk_ok_def init_chunk_def)

text \<open>The rows of the gates a chunk holds.\<close>

definition chunk_rows :: "stream_chunk \<Rightarrow> row list" where
  "chunk_rows c = map (\<lambda>i. (ck_G c ! (2 * i), ck_G c ! (2 * i + 1), ck_b c ! i)) [0..<ck_n c]"

text \<open>Appending one row (the end of \<^verbatim>\<open>AG2PCGarblePass::and_gate\<close>).\<close>

definition stage_row :: "row \<Rightarrow> stream_chunk \<Rightarrow> stream_chunk" where
  "stage_row r c = (case r of (G0, G1, b) \<Rightarrow>
     c\<lparr>ck_G := (ck_G c)[2 * ck_n c := G0, 2 * ck_n c + 1 := G1],
       ck_b := (ck_b c)[ck_n c := b], ck_n := Suc (ck_n c)\<rparr>)"

lemma stage_row_ok: "chunk_ok cap c \<Longrightarrow> ck_n c < cap \<Longrightarrow> chunk_ok cap (stage_row r c)"
  by (auto simp: chunk_ok_def stage_row_def split: prod.splits)

lemma chunk_rows_stage:
  assumes "chunk_ok cap c" and "ck_n c < cap"
  shows "chunk_rows (stage_row r c) = chunk_rows c @ [r]"
proof -
  have "2 * i + 1 \<noteq> 2 * ck_n c" "2 * i \<noteq> 2 * ck_n c + 1" for i by presburger+
  then show ?thesis
    using assms by (auto simp: chunk_rows_def stage_row_def chunk_ok_def split: prod.splits)
qed

text \<open>The bytes the sender task writes for a chunk.\<close>

definition chunk_bytes :: "stream_chunk \<Rightarrow> byte list" where
  "chunk_bytes c = concat (map block_bytes (take (2 * ck_n c) (ck_G c))) @ take (ck_n c) (ck_b c)"

text \<open>The receiver task fills the next chunk with \<open>n\<close> gates.\<close>

definition recv_chunk :: "nat \<Rightarrow> stream_chunk \<Rightarrow> byte list \<Rightarrow> stream_chunk \<times> byte list" where
  "recv_chunk n c io =
     (let (G, io1) = recv_blocks (2 * n) io; (b, io2) = recv_bytes n io1
      in (\<lparr>ck_G = G @ drop (2 * n) (ck_G c), ck_b = b @ drop n (ck_b c), ck_n = n\<rparr>, io2))"

lemma recv_chunk_bytes:
  assumes "chunk_ok cap c"
  shows "chunk_rows (fst (recv_chunk (ck_n c) d (chunk_bytes c @ io))) = chunk_rows c"
    and "snd (recv_chunk (ck_n c) d (chunk_bytes c @ io)) = io"
proof -
  let ?G = "take (2 * ck_n c) (ck_G c)" and ?b = "take (ck_n c) (ck_b c)"
  have len: "length ?G = 2 * ck_n c" "length ?b = ck_n c" using assms by (auto simp: chunk_ok_def)
  have "recv_blocks (2 * ck_n c) (chunk_bytes c @ io) = (?G, ?b @ io)"
    using recv_blocks_send [of ?G "?b @ io"] len by (simp add: chunk_bytes_def)
  then have r: "recv_chunk (ck_n c) d (chunk_bytes c @ io) =
      (\<lparr>ck_G = ?G @ drop (2 * ck_n c) (ck_G d), ck_b = ?b @ drop (ck_n c) (ck_b d), ck_n = ck_n c\<rparr>, io)"
    using len by (simp add: recv_chunk_def recv_bytes_def Let_def)
  show "snd (recv_chunk (ck_n c) d (chunk_bytes c @ io)) = io" by (simp add: r)
  have "(?G @ xs) ! (2 * i) = ck_G c ! (2 * i)" "(?G @ xs) ! (2 * i + 1) = ck_G c ! (2 * i + 1)"
    "(?b @ ys) ! i = ck_b c ! i" if "i < ck_n c" for i xs ys
    using that len by (auto simp: nth_append)
  then show "chunk_rows (fst (recv_chunk (ck_n c) d (chunk_bytes c @ io))) = chunk_rows c"
    unfolding r chunk_rows_def by (auto simp del: append_take_drop_id)
qed

section \<open>Splitting the stream\<close>

text \<open>The rows the receiver task delivers when \<open>k\<close> gates are outstanding.\<close>

function stream_rows :: "nat \<Rightarrow> byte list \<Rightarrow> row list" where
  "stream_rows k io =
     (if k = 0 then []
      else let n = min kBatch k; (c, io') = recv_chunk n (init_chunk 0) io
           in chunk_rows c @ stream_rows (k - n) io')"
  by pat_completeness auto
termination
  by (relation "measure fst") (auto simp: kBatch_pos)

declare stream_rows.simps [simp del]

lemma length_recv [simp]:
  "length (fst (recv_blocks k io)) = k" "length (fst (recv_bytes k io)) = k"
  by (induction k arbitrary: io) (simp_all add: split_beta recv_bytes_def)

lemma recv_chunk_sel:
  "ck_n (fst (recv_chunk n c io)) = n"
  "chunk_ok cap c \<Longrightarrow> n \<le> cap \<Longrightarrow> chunk_ok cap (fst (recv_chunk n c io))"
  "snd (recv_chunk n c io) = snd (recv_chunk n d io)"
  "chunk_rows (fst (recv_chunk n c io)) = chunk_rows (fst (recv_chunk n d io))"
proof -
  obtain G io1 where g: "recv_blocks (2 * n) io = (G, io1)" by (metis surj_pair)
  obtain b io2 where b: "recv_bytes n io1 = (b, io2)" by (metis surj_pair)
  have len: "length G = 2 * n" "length b = n"
    using length_recv(1) [of "2 * n" io] length_recv(2) [of n io1] by (simp_all add: g b)
  have r: "recv_chunk n c io = (\<lparr>ck_G = G @ drop (2 * n) (ck_G c), ck_b = b @ drop n (ck_b c), ck_n = n\<rparr>, io2)"
    for c by (simp add: recv_chunk_def g b)
  show "ck_n (fst (recv_chunk n c io)) = n" "snd (recv_chunk n c io) = snd (recv_chunk n d io)"
    by (simp_all add: r)
  show "chunk_ok cap c \<Longrightarrow> n \<le> cap \<Longrightarrow> chunk_ok cap (fst (recv_chunk n c io))"
    using len by (auto simp: r chunk_ok_def)
  show "chunk_rows (fst (recv_chunk n c io)) = chunk_rows (fst (recv_chunk n d io))"
    using len by (auto simp: r chunk_rows_def nth_append)
qed

text \<open>The chunk sizes the garbler produces: full batches, then a last short one.\<close>

definition batched :: "stream_chunk list \<Rightarrow> bool" where
  "batched cs \<longleftrightarrow> (\<forall>c \<in> set cs. 0 < ck_n c \<and> chunk_ok (length (ck_b c)) c) \<and>
     (\<forall>c \<in> set (butlast cs). ck_n c = kBatch) \<and> (cs \<noteq> [] \<longrightarrow> ck_n (last cs) \<le> kBatch)"

definition stream_bytes :: "stream_chunk list \<Rightarrow> byte list" where
  "stream_bytes cs = concat (map chunk_bytes cs)"

lemma stream_rows_bytes:
  "batched cs \<Longrightarrow> stream_rows (sum_list (map ck_n cs)) (stream_bytes cs @ io) = concat (map chunk_rows cs)"
proof (induction cs)
  case Nil
  then show ?case by (simp add: stream_rows.simps)
next
  case (Cons c cs)
  have c: "0 < ck_n c" "chunk_ok (length (ck_b c)) c" using Cons.prems by (simp_all add: batched_def)
  let ?k = "sum_list (map ck_n (c # cs))"
  have n: "min kBatch ?k = ck_n c"
  proof (cases "cs = []")
    case True
    then show ?thesis using Cons.prems by (simp add: batched_def)
  next
    case False
    then have "ck_n c = kBatch" using Cons.prems by (simp add: batched_def)
    then show ?thesis by simp
  qed
  have rest: "batched cs" using Cons.prems by (auto simp: batched_def split: if_splits)
  let ?io = "stream_bytes cs @ io"
  obtain d io' where d: "recv_chunk (ck_n c) (init_chunk 0) (chunk_bytes c @ ?io) = (d, io')"
    by (metis surj_pair)
  have dd: "chunk_rows d = chunk_rows c" "io' = ?io"
    using recv_chunk_bytes [OF c(2), of "init_chunk 0" ?io] by (simp_all add: d)
  have "stream_rows ?k (chunk_bytes c @ ?io) = chunk_rows d @ stream_rows (?k - ck_n c) io'"
    using c(1) by (subst stream_rows.simps) (simp add: n [simplified] d)
  then show ?case using Cons.IH [OF rest] by (simp add: dd stream_bytes_def)
qed

section \<open>Properties\<close>

text \<open>
  C33: the receiver task, which knows only the number of AND gates, splits the bytes the sender task
  wrote for a sequence of full batches and a last short one into exactly the rows that were staged,
  in order, and leaves the rest of the stream alone.
\<close>

theorem ciphertext_stream_roundtrip:
  assumes "batched cs"
  shows "stream_rows (sum_list (map ck_n cs)) (stream_bytes cs @ io) = concat (map chunk_rows cs)"
  by (rule stream_rows_bytes [OF assms])

theorem ciphertext_stream_roundtrip_witness:
  "stream_rows 1 (stream_bytes [stage_row (5, 6, 1) (init_chunk 1)]) = [(5, 6, 1)]"
proof -
  let ?c = "stage_row (5, 6, 1) (init_chunk 1)"
  have c: "?c = \<lparr>ck_G = [5, 6], ck_b = [1], ck_n = 1\<rparr>"
    by (simp add: stage_row_def init_chunk_def chunk_cap_def kBatch_def numeral_2_eq_2)
  have "batched [?c]" unfolding c by (simp add: batched_def chunk_ok_def kBatch_def)
  from ciphertext_stream_roundtrip [OF this, of "[]"] show ?thesis
    unfolding c by (simp add: chunk_rows_def)
qed

end
