(* ===== verification/Run_State.thy ===== *)
theory Run_State
  imports Leaky_And Circuit
begin

text \<open>
  The state the passes of one run share (\<^verbatim>\<open>AG2PCRunState\<close> of
  \<^verbatim>\<open>backend/run_state.h\<close>), the input load of \<^verbatim>\<open>AG2PCEngine::run_source\<close>, and
  the contract of a slot assignment (\<open>slot_safe\<close>): the passes keep per-wire data in physical slots
  that dead wires give back, and \<open>slot_safe\<close> is what makes that invisible. The locale
  \<open>slot_pass\<close> is the interface of such a pass; inside it the slot machine is shown to compute what
  an unbounded register machine, one register per wire, computes.
\<close>

section \<open>State\<close>

record 'm run_state =
  rs_party :: nat
  rs_Delta :: block
  rs_num_inputs :: nat
  rs_num_ands :: nat
  rs_num_wires :: nat
  rs_num_slots :: nat
  rs_phys :: "int list"
  rs_last_use :: "int list"
  rs_persist :: "bool list"
  rs_wire_slot :: "ashare list"
  rs_mask_input :: "byte list"
  rs_label_slot :: "block list"
  rs_eval_slot :: "block list"
  rs_rep_a :: "ashare list"
  rs_rep_b :: "ashare list"
  rs_sigma :: "ashare list"
  rs_M1_t :: "block list"
  rs_Lambda_AND :: "byte list"
  rs_mitc :: 'm

text \<open>\<^verbatim>\<open>phys[w]\<close> as an index, and the accessors through it.\<close>

definition slot_of :: "'m run_state \<Rightarrow> wire \<Rightarrow> nat" where
  "slot_of s w = nat (rs_phys s ! w)"

definition wslot :: "'m run_state \<Rightarrow> wire \<Rightarrow> ashare" where
  "wslot s w = rs_wire_slot s ! slot_of s w"

definition minp :: "'m run_state \<Rightarrow> wire \<Rightarrow> byte" where
  "minp s w = rs_mask_input s ! slot_of s w"

definition lbl :: "'m run_state \<Rightarrow> wire \<Rightarrow> block" where
  "lbl s w = rs_label_slot s ! slot_of s w"

definition evl :: "'m run_state \<Rightarrow> wire \<Rightarrow> block" where
  "evl s w = rs_eval_slot s ! slot_of s w"

definition set_wslot :: "wire \<Rightarrow> ashare \<Rightarrow> 'm run_state \<Rightarrow> 'm run_state" where
  "set_wslot w x s = s\<lparr>rs_wire_slot := (rs_wire_slot s)[slot_of s w := x]\<rparr>"

definition set_minp :: "wire \<Rightarrow> byte \<Rightarrow> 'm run_state \<Rightarrow> 'm run_state" where
  "set_minp w x s = s\<lparr>rs_mask_input := (rs_mask_input s)[slot_of s w := x]\<rparr>"

definition set_lbl :: "wire \<Rightarrow> block \<Rightarrow> 'm run_state \<Rightarrow> 'm run_state" where
  "set_lbl w x s = s\<lparr>rs_label_slot := (rs_label_slot s)[slot_of s w := x]\<rparr>"

definition set_evl :: "wire \<Rightarrow> block \<Rightarrow> 'm run_state \<Rightarrow> 'm run_state" where
  "set_evl w x s = s\<lparr>rs_eval_slot := (rs_eval_slot s)[slot_of s w := x]\<rparr>"

text \<open>The state \<^verbatim>\<open>run_source\<close> starts from, and the load of the inputs into slots \<open>[0, num_in)\<close>.\<close>

definition init_run_state :: "nat \<Rightarrow> block \<Rightarrow> nat \<Rightarrow> 'm \<Rightarrow> 'm run_state" where
  "init_run_state party D num_in mitc =
     \<lparr>rs_party = party, rs_Delta = D, rs_num_inputs = num_in, rs_num_ands = 0, rs_num_wires = 0,
      rs_num_slots = 0, rs_phys = [], rs_last_use = [], rs_persist = [], rs_wire_slot = [],
      rs_mask_input = [], rs_label_slot = [], rs_eval_slot = [], rs_rep_a = [], rs_rep_b = [],
      rs_sigma = [], rs_M1_t = [], rs_Lambda_AND = [], rs_mitc = mitc\<rparr>"

definition load_inputs :: "secure_wires \<Rightarrow> 'm run_state \<Rightarrow> 'm run_state" where
  "load_inputs w s =
     (let n = rs_num_inputs s in
      s\<lparr>rs_phys := map int [0..<n] @ replicate (rs_num_wires s - n) (- 1),
        rs_num_slots := n,
        rs_wire_slot := map (\<lambda>i. sw_bundle w ! i) [0..<n],
        rs_mask_input := map (\<lambda>i. sw_Lambda w ! i) [0..<n],
        rs_label_slot := (if rs_party s = 1 then map (\<lambda>i. sw_label0 w ! i) [0..<n] else []),
        rs_eval_slot := (if rs_party s = 1 then [] else map (\<lambda>i. sw_eval_label w ! i) [0..<n])\<rparr>)"

section \<open>Live wires and safe slot assignments\<close>

text \<open>
  Wire \<open>w\<close> of the stream \<open>es\<close> still matters at event \<open>k\<close>: it keeps its slot to the end,
  or event \<open>k\<close> or a later one reads it.
\<close>

definition live_at :: "(wire \<Rightarrow> bool) \<Rightarrow> ev list \<Rightarrow> nat \<Rightarrow> wire \<Rightarrow> bool" where
  "live_at per es k w \<longleftrightarrow> per w \<or> (\<exists>j. k \<le> j \<and> j < length es \<and> w \<in> set (ev_reads (es ! j)))"

lemma live_at_Suc: "live_at per es (Suc k) w \<Longrightarrow> live_at per es k w"
  unfolding live_at_def by (meson Suc_leD)

lemma live_at_read: "k < length es \<Longrightarrow> w \<in> set (ev_reads (es ! k)) \<Longrightarrow> live_at per es k w"
  unfolding live_at_def by blast

text \<open>
  Event \<open>k\<close> writes the slot of wire \<open>n + k\<close>: that is not the slot of an earlier wire that is live,
  and a wire that persists shares its slot with no other.
\<close>

definition slot_safe :: "nat \<Rightarrow> ev list \<Rightarrow> (wire \<Rightarrow> bool) \<Rightarrow> (wire \<Rightarrow> nat) \<Rightarrow> bool" where
  "slot_safe n es per slot \<longleftrightarrow>
     (\<forall>w < n. \<forall>w' < n. slot w = slot w' \<longrightarrow> w = w') \<and>
     (\<forall>k < length es. \<forall>w < n + k.
        per (n + k) \<or> live_at per es k w \<longrightarrow> slot (n + k) \<noteq> slot w)"

lemma slot_safe_write:
  "slot_safe n es per slot \<Longrightarrow> k < length es \<Longrightarrow> w < n + k \<Longrightarrow> live_at per es k w \<Longrightarrow>
   slot (n + k) \<noteq> slot w"
  by (simp add: slot_safe_def)

lemma slot_safe_persist:
  assumes "slot_safe n es per slot" and "k < length es" and "n + k < w" and "w < n + length es" and "per w"
  shows "slot w \<noteq> slot (n + k)"
proof -
  have "w - n < length es" "n + k < n + (w - n)" "n + (w - n) = w" using assms(3,4) by simp_all
  then show ?thesis using assms(1,5) unfolding slot_safe_def by metis
qed

section \<open>The interface of a pass over slots\<close>

text \<open>
  \<open>'p\<close> is the pass state, \<open>'c\<close> the per-slot data it maintains and \<open>'x\<close> the rest of what it reads
  and writes (counters, ciphertexts, witnesses). One event writes one slot, with a value computed
  from the slots of the operands (which are other slots), from the old content of the written slot when the event is an
  AND, and from \<open>'x\<close>. \<open>size_ok p m a\<close> says that the arrays have \<open>m\<close> slots and the buffers have
  room for \<open>a\<close> more AND gates.
\<close>

text \<open>The register machine: one register per wire, the same rule for new contents.\<close>

definition reg_step ::
  "(ev \<Rightarrow> 'x \<Rightarrow> (wire \<Rightarrow> 'c) \<Rightarrow> wire \<Rightarrow> 'c) \<Rightarrow> (ev \<Rightarrow> 'x \<Rightarrow> (wire \<Rightarrow> 'c) \<Rightarrow> wire \<Rightarrow> 'x) \<Rightarrow>
   ev \<Rightarrow> (wire \<Rightarrow> 'c) \<times> 'x \<times> nat \<Rightarrow> (wire \<Rightarrow> 'c) \<times> 'x \<times> nat" where
  "reg_step newcell newaux e r =
     (case r of (f, x, out) \<Rightarrow> (f(out := newcell e x f out), newaux e x f out, Suc out))"

definition reg_run ::
  "(ev \<Rightarrow> 'x \<Rightarrow> (wire \<Rightarrow> 'c) \<Rightarrow> wire \<Rightarrow> 'c) \<Rightarrow> (ev \<Rightarrow> 'x \<Rightarrow> (wire \<Rightarrow> 'c) \<Rightarrow> wire \<Rightarrow> 'x) \<Rightarrow>
   ev list \<Rightarrow> (wire \<Rightarrow> 'c) \<times> 'x \<times> nat \<Rightarrow> (wire \<Rightarrow> 'c) \<times> 'x \<times> nat" where
  "reg_run newcell newaux es = fold (reg_step newcell newaux) es"

lemma reg_run_Nil [simp]: "reg_run nc na [] r = r"
  by (simp add: reg_run_def)

lemma reg_run_snoc [simp]: "reg_run nc na (es @ [e]) r = reg_step nc na e (reg_run nc na es r)"
  by (simp add: reg_run_def)

lemma reg_step_sel [simp]:
  "fst (reg_step nc na e r) = (fst r)(snd (snd r) := nc e (fst (snd r)) (fst r) (snd (snd r)))"
  "fst (snd (reg_step nc na e r)) = na e (fst (snd r)) (fst r) (snd (snd r))"
  "snd (snd (reg_step nc na e r)) = Suc (snd (snd r))"
  by (simp_all add: reg_step_def split: prod.splits)

lemma reg_run_out [simp]: "snd (snd (reg_run nc na es r)) = snd (snd r) + length es"
  by (induction es rule: rev_induct) simp_all

definition ev_deps :: "ev \<Rightarrow> wire \<Rightarrow> wire set" where
  "ev_deps e out = set (ev_reads e) \<union> (if ev_is_and e then {out} else {})"

text \<open>
  The wires whose slots hold their registers before event \<open>k\<close>: the live ones, and the persistent
  ones not yet reached.
\<close>

definition held :: "nat \<Rightarrow> ev list \<Rightarrow> (wire \<Rightarrow> bool) \<Rightarrow> nat \<Rightarrow> wire \<Rightarrow> bool" where
  "held n es per k w \<longleftrightarrow> w < n + length es \<and> ((w < n + k \<and> live_at per es k w) \<or> (n + k \<le> w \<and> per w))"

lemma held_apart:
  assumes safe: "slot_safe n es per sl" and k: "k < length es" and w: "held n es per (Suc k) w" "w \<noteq> n + k"
  shows "sl w \<noteq> sl (n + k)" and "held n es per k w"
proof -
  show "held n es per k w" using w live_at_Suc unfolding held_def by auto
  show "sl w \<noteq> sl (n + k)"
  proof (cases "w < n + k")
    case True
    then have "live_at per es k w" using w(1) live_at_Suc unfolding held_def by auto
    then show ?thesis using slot_safe_write [OF safe k True] by simp
  next
    case False
    then show ?thesis using slot_safe_persist [OF safe k, of w] w unfolding held_def by auto
  qed
qed

lemma held_deps:
  assumes wf: "wf_stream n es" and k: "k < length es" and per: "ev_is_and (es ! k) \<longrightarrow> per (n + k)"
    and w: "w \<in> ev_deps (es ! k) (n + k)"
  shows "held n es per k w"
proof (cases "w = n + k")
  case True
  have "w \<notin> set (ev_reads (es ! k))" using wf_stream_nth [OF wf k, of w] True by auto
  then have "per w" using w per True by (auto simp: ev_deps_def split: if_splits)
  then show ?thesis using True k by (simp add: held_def)
next
  case False
  then have "w \<in> set (ev_reads (es ! k))" using w by (auto simp: ev_deps_def split: if_splits)
  then show ?thesis using wf_stream_nth [OF wf k, of w] live_at_read [OF k, of w] k by (simp add: held_def)
qed

locale slot_pass =
  fixes emit :: "ev \<Rightarrow> 'p \<Rightarrow> 'p"
    and wid :: "'p \<Rightarrow> nat"
    and slot :: "'p \<Rightarrow> wire \<Rightarrow> nat"
    and cell :: "'p \<Rightarrow> nat \<Rightarrow> 'c"
    and aux :: "'p \<Rightarrow> 'x"
    and size_ok :: "'p \<Rightarrow> nat \<Rightarrow> nat \<Rightarrow> bool"
    and newcell :: "ev \<Rightarrow> 'x \<Rightarrow> (wire \<Rightarrow> 'c) \<Rightarrow> wire \<Rightarrow> 'c"
    and newaux :: "ev \<Rightarrow> 'x \<Rightarrow> (wire \<Rightarrow> 'c) \<Rightarrow> wire \<Rightarrow> 'x"
  assumes wid_emit: "wid (emit e p) = Suc (wid p)"
    and slot_emit: "slot (emit e p) = slot p"
    and size_emit: "size_ok p m a \<Longrightarrow> slot p (wid p) < m \<Longrightarrow> (ev_is_and e \<Longrightarrow> 0 < a) \<Longrightarrow>
      size_ok (emit e p) m (if ev_is_and e then a - 1 else a)"
    and cell_emit: "size_ok p m a \<Longrightarrow> slot p (wid p) < m \<Longrightarrow> (ev_is_and e \<Longrightarrow> 0 < a) \<Longrightarrow>
      (\<And>w. w \<in> set (ev_reads e) \<Longrightarrow> slot p w \<noteq> slot p (wid p)) \<Longrightarrow> cell (emit e p) i =
      (if i = slot p (wid p) then newcell e (aux p) (\<lambda>w. cell p (slot p w)) (wid p) else cell p i)"
    and aux_emit: "size_ok p m a \<Longrightarrow> slot p (wid p) < m \<Longrightarrow> (ev_is_and e \<Longrightarrow> 0 < a) \<Longrightarrow>
      (\<And>w. w \<in> set (ev_reads e) \<Longrightarrow> slot p w \<noteq> slot p (wid p)) \<Longrightarrow>
      aux (emit e p) = newaux e (aux p) (\<lambda>w. cell p (slot p w)) (wid p)"
    and newcell_cong: "(\<And>w. w \<in> ev_deps e out \<Longrightarrow> f w = g w) \<Longrightarrow> newcell e x f out = newcell e x g out"
    and newaux_cong: "(\<And>w. w \<in> ev_deps e out \<Longrightarrow> f w = g w) \<Longrightarrow> newaux e x f out = newaux e x g out"
begin

lemma fold_wid: "wid (fold emit es p) = wid p + length es"
  by (induction es rule: rev_induct) (simp_all add: wid_emit)

lemma fold_slot: "slot (fold emit es p) = slot p"
  by (induction es rule: rev_induct) (simp_all add: slot_emit)

text \<open>One event: a pass whose slots hold registers does what the register machine does.\<close>

lemma slots_refine_step:
  assumes safe: "slot_safe n es per (slot p)" and wf: "wf_stream n es" and wid: "wid p = n + k" and k: "k < length es"
    and size: "size_ok p m a" and room: "ev_is_and (es ! k) \<longrightarrow> 0 < a" and m: "slot p (n + k) < m"
    and per: "ev_is_and (es ! k) \<longrightarrow> per (n + k)"
    and cells: "\<forall>w. held n es per k w \<longrightarrow> cell p (slot p w) = f w"
  defines "p' \<equiv> emit (es ! k) p"
  shows "size_ok p' m (if ev_is_and (es ! k) then a - 1 else a)" and "aux p' = newaux (es ! k) (aux p) f (n + k)"
    and "held n es per (Suc k) w \<Longrightarrow> cell p' (slot p w) = (f(n + k := newcell (es ! k) (aux p) f (n + k))) w"
proof -
  have slot_m: "slot p (wid p) < m" using m by (simp add: wid)
  have apart: "slot p w \<noteq> slot p (wid p)" if "w \<in> set (ev_reads (es ! k))" for w
    using slot_safe_write [OF safe k, of w] wf_stream_nth [OF wf k that] live_at_read [OF k that] by (simp add: wid)
  have new: "newcell (es ! k) (aux p) (\<lambda>w. cell p (slot p w)) (n + k) = newcell (es ! k) (aux p) f (n + k)"
    "newaux (es ! k) (aux p) (\<lambda>w. cell p (slot p w)) (n + k) = newaux (es ! k) (aux p) f (n + k)"
    by (rule newcell_cong newaux_cong, rule cells [rule_format], erule held_deps [where per = per, OF wf k per])+
  show "size_ok p' m (if ev_is_and (es ! k) then a - 1 else a)"
    unfolding p'_def by (rule size_emit [OF size slot_m]) (use room in simp)
  show "aux p' = newaux (es ! k) (aux p) f (n + k)"
    unfolding p'_def using aux_emit [OF size slot_m _ apart] room by (simp add: wid new)
  show "cell p' (slot p w) = (f(n + k := newcell (es ! k) (aux p) f (n + k))) w" if w: "held n es per (Suc k) w"
    unfolding p'_def using cell_emit [OF size slot_m _ apart, where i = "slot p w"] room held_apart [OF safe k w] cells
    by (cases "w = n + k") (simp_all add: wid new)
qed

text \<open>
  After any prefix, the slots of the live wires, and of the persistent wires not yet reached, hold
  what the registers hold, and the rest of the state is the same.
\<close>

theorem slots_refine_registers:
  assumes "slot_safe n es per (slot p)" and wf: "wf_stream n es" and "wid p = n" and "size_ok p m (num_and_evs es)"
    and range: "\<And>w. w < n + length es \<Longrightarrow> slot p w < m"
    and ands: "\<And>k. k < length es \<Longrightarrow> ev_is_and (es ! k) \<Longrightarrow> per (n + k)"
    and k: "k \<le> length es"
  defines "r \<equiv> \<lambda>k. reg_run newcell newaux (take k es) (\<lambda>w. cell p (slot p w), aux p, n)"
    and "q \<equiv> \<lambda>k. fold emit (take k es) p"
  shows "size_ok (q k) m (num_and_evs (drop k es)) \<and> aux (q k) = fst (snd (r k)) \<and>
    (\<forall>w < n + length es. (w < n + k \<and> live_at per es k w) \<or> (n + k \<le> w \<and> per w) \<longrightarrow>
       cell (q k) (slot p w) = fst (r k) w)"
  using k
proof (induction k)
  case 0
  then show ?case using assms(4) by (simp add: r_def q_def)
next
  case (Suc k)
  have k: "k < length es" using Suc.prems by simp
  then have IH: "aux (q k) = fst (snd (r k))" "size_ok (q k) m (num_and_evs (drop k es))"
    "\<forall>w. held n es per k w \<longrightarrow> cell (q k) (slot p w) = fst (r k) w"
    using Suc.IH by (simp, simp) (use Suc.IH k in \<open>auto simp: held_def\<close>)
  have qk: "wid (q k) = n + k" "slot (q k) = slot p" "q (Suc k) = emit (es ! k) (q k)"
    using k assms(3) by (simp_all add: q_def fold_wid fold_slot take_Suc_conv_app_nth)
  have drop: "num_and_evs (drop k es) = (if ev_is_and (es ! k) then 1 else 0) + num_and_evs (drop (Suc k) es)"
    using k by (simp add: Cons_nth_drop_Suc [symmetric] num_and_evs_def)
  have rk: "r (Suc k) = reg_step newcell newaux (es ! k) (r k)" "snd (snd (r k)) = n + k"
    using k by (simp_all add: r_def take_Suc_conv_app_nth)
  have room: "ev_is_and (es ! k) \<longrightarrow> 0 < num_and_evs (drop k es)" and per: "ev_is_and (es ! k) \<longrightarrow> per (n + k)"
    using drop ands [OF k] by simp_all
  have m: "slot (q k) (n + k) < m" using range k by (simp add: qk)
  note st = slots_refine_step [where p = "q k" and f = "fst (r k)", unfolded qk(2), OF assms(1) wf qk(1) k IH(2) room
      m [unfolded qk(2)] per IH(3), folded qk(3)]
  have "size_ok (q (Suc k)) m (num_and_evs (drop (Suc k) es))" using st(1) drop by (simp split: if_splits)
  moreover have "aux (q (Suc k)) = fst (snd (r (Suc k)))" using st(2) by (simp add: rk IH(1))
  moreover have "cell (q (Suc k)) (slot p w) = fst (r (Suc k)) w" if "held n es per (Suc k) w" for w
    using st(3) [OF that] by (simp add: rk IH(1))
  ultimately show ?case by (auto simp: held_def)
qed

end

end
