(* ===== verification/Liveness.thy ===== *)
theory Liveness
  imports Run_State
begin

text \<open>
  Pass 0 (\<^verbatim>\<open>AG2PCLivenessPass\<close> of \<^verbatim>\<open>backend/pass_ctx.h\<close>): the last gate that
  reads each wire, and the wires that keep their slot to the end. Gate indices count AND, XOR and
  NOT gates, not constants.
\<close>

section \<open>The pass\<close>

record live_pass =
  lp_wid :: nat
  lp_gi :: nat
  lp_ai :: nat
  lp_last_use :: "int list"
  lp_persist :: "bool list"
  lp_c0 :: int
  lp_c1 :: int

definition init_live :: "'m run_state \<Rightarrow> live_pass" where
  "init_live s = \<lparr>lp_wid = rs_num_inputs s, lp_gi = 0, lp_ai = 0,
     lp_last_use = replicate (rs_num_inputs s) (- 1), lp_persist = replicate (rs_num_inputs s) True,
     lp_c0 = - 1, lp_c1 = - 1\<rparr>"

definition lp_emit :: "bool \<Rightarrow> live_pass \<Rightarrow> wire \<times> live_pass" where
  "lp_emit is_persist p = (lp_wid p, p\<lparr>lp_wid := Suc (lp_wid p), lp_last_use := lp_last_use p @ [- 1],
     lp_persist := lp_persist p @ [is_persist]\<rparr>)"

definition lp_public_bit :: "bool \<Rightarrow> live_pass \<Rightarrow> wire \<times> live_pass" where
  "lp_public_bit v p =
     (let c = (if v then lp_c1 p else lp_c0 p) in
      if c < 0 then
        (case lp_emit False p of (w, p') \<Rightarrow>
           (w, if v then p'\<lparr>lp_c1 := int w\<rparr> else p'\<lparr>lp_c0 := int w\<rparr>))
      else (nat c, p))"

definition lp_and_gate :: "wire \<Rightarrow> wire \<Rightarrow> live_pass \<Rightarrow> wire \<times> live_pass" where
  "lp_and_gate i0 i1 p = (case lp_emit True p of (w, p') \<Rightarrow>
     (w, p'\<lparr>lp_last_use := (lp_last_use p')[i0 := int (lp_gi p'), i1 := int (lp_gi p')],
            lp_gi := Suc (lp_gi p'), lp_ai := Suc (lp_ai p')\<rparr>))"

definition lp_xor_gate :: "wire \<Rightarrow> wire \<Rightarrow> live_pass \<Rightarrow> wire \<times> live_pass" where
  "lp_xor_gate i0 i1 p = (case lp_emit False p of (w, p') \<Rightarrow>
     (w, p'\<lparr>lp_last_use := (lp_last_use p')[i0 := int (lp_gi p'), i1 := int (lp_gi p')],
            lp_gi := Suc (lp_gi p')\<rparr>))"

definition lp_not_gate :: "wire \<Rightarrow> live_pass \<Rightarrow> wire \<times> live_pass" where
  "lp_not_gate i p = (case lp_emit False p of (w, p') \<Rightarrow>
     (w, p'\<lparr>lp_last_use := (lp_last_use p')[i := int (lp_gi p')], lp_gi := Suc (lp_gi p')\<rparr>))"

definition live_ops :: "live_pass ctx_ops" where
  "live_ops = \<lparr>op_public_bit = lp_public_bit, op_and_gate = lp_and_gate,
     op_xor_gate = lp_xor_gate, op_not_gate = lp_not_gate\<rparr>"

text \<open>\<^verbatim>\<open>commit\<close>: the result goes to the run state, circuit outputs are pinned.\<close>

definition pin_outputs :: "wire list \<Rightarrow> nat \<Rightarrow> bool list \<Rightarrow> bool list" where
  "pin_outputs outs wid per = fold (\<lambda>w per. if w < wid then per[w := True] else per) outs per"

definition lp_commit :: "wire list \<Rightarrow> live_pass \<Rightarrow> 'm run_state \<Rightarrow> 'm run_state" where
  "lp_commit out_ids p s =
     s\<lparr>rs_num_wires := lp_wid p, rs_num_ands := lp_ai p, rs_last_use := lp_last_use p,
       rs_persist := pin_outputs out_ids (lp_wid p) (lp_persist p)\<rparr>"

section \<open>The pass as an action per event\<close>

definition lp_event :: "ev \<Rightarrow> live_pass \<Rightarrow> live_pass" where
  "lp_event e p = (case e of
      EConst v \<Rightarrow> (let p' = snd (lp_emit False p) in
        if v then p'\<lparr>lp_c1 := int (lp_wid p)\<rparr> else p'\<lparr>lp_c0 := int (lp_wid p)\<rparr>)
    | EAnd a b \<Rightarrow> snd (lp_and_gate a b p)
    | EXor a b \<Rightarrow> snd (lp_xor_gate a b p)
    | ENot a \<Rightarrow> snd (lp_not_gate a p))"

interpretation live: lockstep live_ops lp_wid lp_c0 lp_c1 lp_event
  by unfold_locales
    (auto simp: live_ops_def lp_event_def lp_public_bit_def lp_and_gate_def lp_xor_gate_def
      lp_not_gate_def lp_emit_def Let_def split: ev.splits)

lemma lp_event_sel:
  "lp_wid (lp_event e p) = Suc (lp_wid p)"
  "lp_gi (lp_event e p) = lp_gi p + (if ev_is_gate e then 1 else 0)"
  "lp_ai (lp_event e p) = lp_ai p + (if ev_is_and e then 1 else 0)"
  "lp_persist (lp_event e p) = lp_persist p @ [ev_is_and e]"
  "lp_last_use (lp_event e p) =
     fold (\<lambda>w l. l[w := int (lp_gi p)]) (ev_reads e) (lp_last_use p @ [- 1])"
  by (cases e; simp add: lp_event_def lp_emit_def lp_and_gate_def lp_xor_gate_def lp_not_gate_def
      Let_def)+

section \<open>What the pass computes\<close>

text \<open>The gate index of event \<open>k\<close>; whether event \<open>k\<close> reads \<open>w\<close>.\<close>

definition gate_index :: "ev list \<Rightarrow> nat \<Rightarrow> nat" where
  "gate_index es k = num_gates (take k es)"

lemma fold_mark_nth:
  "(\<forall>w \<in> set ws. w < length l) \<Longrightarrow> w < length l \<Longrightarrow>
   fold (\<lambda>w l. l[w := g]) ws l ! w = (if w \<in> set ws then g else l ! w)"
  by (induction ws arbitrary: l) (auto simp: nth_list_update)

lemma length_fold_mark [simp]: "length (fold (\<lambda>w l. l[w := g]) ws l) = length l"
  by (induction ws arbitrary: l) simp_all

lemma ev_reads_gate: "w \<in> set (ev_reads e) \<Longrightarrow> ev_is_gate e"
  by (cases e) simp_all

text \<open>
  \<open>lu\<close> is the last use of each wire: never below a reader's gate index, and either that of a
  reader or \<open>-1\<close>.
\<close>

definition last_use_ok :: "nat \<Rightarrow> ev list \<Rightarrow> int list \<Rightarrow> bool" where
  "last_use_ok n es lu \<longleftrightarrow> length lu = n + length es \<and>
     (\<forall>w < n + length es.
        (\<forall>k < length es. w \<in> set (ev_reads (es ! k)) \<longrightarrow> int (gate_index es k) \<le> lu ! w) \<and>
        (lu ! w = - 1 \<or> (\<exists>k < length es. w \<in> set (ev_reads (es ! k)) \<and> lu ! w = int (gate_index es k))))"

lemma gate_index_snoc: "k \<le> length es \<Longrightarrow> gate_index (es @ [e]) k = gate_index es k"
  by (simp add: gate_index_def)

lemma gate_index_mono: "j \<le> k \<Longrightarrow> gate_index es j \<le> gate_index es k"
  unfolding gate_index_def num_gates_def
  by (metis append_take_drop_id filter_append length_append le_add1 min.absorb1 take_take)

lemma gate_index_Suc: "k < length es \<Longrightarrow>
    gate_index es (Suc k) = gate_index es k + (if ev_is_gate (es ! k) then 1 else 0)"
  by (simp add: gate_index_def take_Suc_conv_app_nth)

lemma gate_index_strict:
  "j < k \<Longrightarrow> k \<le> length es \<Longrightarrow> ev_is_gate (es ! j) \<Longrightarrow> gate_index es j < gate_index es k"
  using gate_index_mono [of "Suc j" k es] gate_index_Suc [of j es] by simp

lemma last_use_ok_snoc:
  assumes ok: "last_use_ok n es lu" and wf: "wf_stream n (es @ [e])"
  shows "last_use_ok n (es @ [e])
    (fold (\<lambda>w l. l[w := int (num_gates es)]) (ev_reads e) (lu @ [- 1]))"
    (is "last_use_ok _ _ ?lu")
proof -
  have len: "length lu = n + length es" using ok by (simp add: last_use_ok_def)
  have rd: "\<forall>w \<in> set (ev_reads e). w < n + length es" using wf by (simp add: wf_stream_snoc)
  have nth: "?lu ! w = (if w \<in> set (ev_reads e) then int (num_gates es) else (lu @ [- 1]) ! w)"
    if "w \<le> n + length es" for w
    using rd that len by (intro fold_mark_nth) auto
  have gi: "gate_index (es @ [e]) (length es) = num_gates es" by (simp add: gate_index_def)
  have below: "gate_index es k \<le> num_gates es" if "k < length es" for k
    using gate_index_mono [of k "length es" es] that by (simp add: gate_index_def)
  have fresh: "w < n + length es" if "k < length es" "w \<in> set (ev_reads (es ! k))" for w k
    using wf_stream_nth [of n es k w] wf that by (auto simp: wf_stream_snoc)
  show ?thesis
    unfolding last_use_ok_def
  proof (intro conjI allI impI)
    fix w assume w: "w < n + length (es @ [e])"
    show "int (gate_index (es @ [e]) k) \<le> ?lu ! w"
      if "k < length (es @ [e])" "w \<in> set (ev_reads ((es @ [e]) ! k))" for k
    proof (cases "k < length es")
      case True
      then have "w < n + length es" using fresh [OF True, of w] that(2) by (simp add: nth_append)
      then show ?thesis
        using ok True that(2) nth [of w] below [OF True] len
        by (auto simp: last_use_ok_def nth_append gate_index_snoc)
    next
      case False
      then have "k = length es" using that(1) by simp
      then show ?thesis using that(2) nth [of w] w gi by simp
    qed
    show "?lu ! w = - 1 \<or> (\<exists>k < length (es @ [e]). w \<in> set (ev_reads ((es @ [e]) ! k)) \<and>
        ?lu ! w = int (gate_index (es @ [e]) k))"
    proof (cases "w \<in> set (ev_reads e)")
      case True
      then show ?thesis using nth [of w] w gi by (auto intro!: exI [of _ "length es"])
    next
      case F: False
      show ?thesis
      proof (cases "w < n + length es")
        case True
        then have same: "?lu ! w = lu ! w" using nth [of w] F len by (simp add: nth_append)
        consider "lu ! w = - 1" | k where "k < length es" "w \<in> set (ev_reads (es ! k))"
            "lu ! w = int (gate_index es k)"
          using ok True by (auto simp: last_use_ok_def)
        then show ?thesis
        proof cases
          case (2 k)
          then show ?thesis using same
            by (intro disjI2 exI [of _ k]) (simp add: nth_append gate_index_snoc)
        qed (simp add: same)
      next
        case False
        then have "w = n + length es" using w by simp
        then show ?thesis using nth [of w] F len by (simp add: nth_append)
      qed
    qed
  qed (simp add: len)
qed

lemma live_fold:
  assumes "wf_stream (rs_num_inputs s) es"
  defines "p \<equiv> fold lp_event es (init_live s)" and "n \<equiv> rs_num_inputs s"
  shows "lp_wid p = n + length es \<and> lp_gi p = num_gates es \<and> lp_ai p = num_and_evs es \<and>
    lp_persist p = replicate n True @ map ev_is_and es \<and> last_use_ok n es (lp_last_use p)"
  using assms(1) unfolding p_def n_def
proof (induction es rule: rev_induct)
  case Nil
  then show ?case by (simp add: init_live_def last_use_ok_def)
next
  case (snoc e es)
  then have "wf_stream (rs_num_inputs s) es" by (simp add: wf_stream_snoc)
  with snoc show ?case by (simp add: lp_event_sel last_use_ok_snoc)
qed

lemma pin_outputs_length [simp]: "length (pin_outputs outs wid per) = length per"
  by (induction outs arbitrary: per) (simp_all add: pin_outputs_def)

lemma pin_outputs_nth:
  "length per = wid \<Longrightarrow> w < wid \<Longrightarrow> pin_outputs outs wid per ! w = (per ! w \<or> w \<in> set outs)"
  by (induction outs arbitrary: per) (auto simp: pin_outputs_def nth_list_update)

text \<open>Which wires keep their slot: the inputs, the AND outputs and the circuit outputs.\<close>

definition persists :: "nat \<Rightarrow> ev list \<Rightarrow> wire list \<Rightarrow> wire \<Rightarrow> bool" where
  "persists n es outs w \<longleftrightarrow> w < n \<or> w \<in> set outs \<or> (w < n + length es \<and> ev_is_and (es ! (w - n)))"

text \<open>The liveness facts of the run state that the later passes rely on.\<close>

definition live_state_ok :: "ev list \<Rightarrow> wire list \<Rightarrow> 'm run_state \<Rightarrow> bool" where
  "live_state_ok es outs s \<longleftrightarrow>
     rs_num_wires s = rs_num_inputs s + length es \<and> rs_num_ands s = num_and_evs es \<and>
     length (rs_persist s) = rs_num_wires s \<and>
     (\<forall>w < rs_num_wires s. rs_persist s ! w = persists (rs_num_inputs s) es outs w) \<and>
     last_use_ok (rs_num_inputs s) es (rs_last_use s)"

theorem live_commit_ok:
  assumes "stream_of (rs_num_inputs s) src = (outs, es)" and wf: "wf_stream (rs_num_inputs s) es"
    and "drive live_ops src (init_live s) = (outs', p)"
  shows "outs' = outs" and "live_state_ok es outs (lp_commit outs p s)"
proof -
  have "drive live_ops src (init_live s) = (outs, fold lp_event es (init_live s))"
    using live.drive_stream [of src "init_live s"] assms(1) by (simp add: init_live_def)
  then have eq: "outs' = outs" "p = fold lp_event es (init_live s)" using assms(3) by simp_all
  show "outs' = outs" by (rule eq)
  let ?n = "rs_num_inputs s"
  have p: "lp_wid p = ?n + length es" "lp_ai p = num_and_evs es"
    "lp_persist p = replicate ?n True @ map ev_is_and es" "last_use_ok ?n es (lp_last_use p)"
    using live_fold [OF wf] by (simp_all add: eq)
  have "rs_persist (lp_commit outs p s) ! w = persists ?n es outs w" if "w < ?n + length es" for w
    using that by (auto simp: lp_commit_def p pin_outputs_nth persists_def nth_append)
  then show "live_state_ok es outs (lp_commit outs p s)"
    by (simp add: live_state_ok_def lp_commit_def p)
qed

text \<open>A wire with an operand read at event \<open>k\<close> whose last use is the current gate is dead afterwards.\<close>

lemma last_use_dead:
  assumes "last_use_ok n es lu" and "k < length es" and "w \<in> set (ev_reads (es ! k))" and "w < n + length es"
  shows "lu ! w = int (gate_index es k) \<longleftrightarrow>
    \<not> (\<exists>j. Suc k \<le> j \<and> j < length es \<and> w \<in> set (ev_reads (es ! j)))"
proof
  assume eq: "lu ! w = int (gate_index es k)"
  show "\<not> (\<exists>j. Suc k \<le> j \<and> j < length es \<and> w \<in> set (ev_reads (es ! j)))"
  proof
    assume "\<exists>j. Suc k \<le> j \<and> j < length es \<and> w \<in> set (ev_reads (es ! j))"
    then obtain j where j: "Suc k \<le> j" "j < length es" "w \<in> set (ev_reads (es ! j))" by blast
    then have "gate_index es k < gate_index es j"
      using gate_index_strict [of k j es] ev_reads_gate [OF assms(3)] by simp
    moreover have "int (gate_index es j) \<le> lu ! w" using assms(1,4) j by (simp add: last_use_ok_def)
    ultimately show False using eq by simp
  qed
next
  assume dead: "\<not> (\<exists>j. Suc k \<le> j \<and> j < length es \<and> w \<in> set (ev_reads (es ! j)))"
  have ge: "int (gate_index es k) \<le> lu ! w" using assms by (simp add: last_use_ok_def)
  then obtain j where j: "j < length es" "w \<in> set (ev_reads (es ! j))" "lu ! w = int (gate_index es j)"
    using assms(1,4) by (force simp: last_use_ok_def)
  then have "j \<le> k" using dead by (meson not_less_eq_eq)
  then have "gate_index es j \<le> gate_index es k" by (rule gate_index_mono)
  then show "lu ! w = int (gate_index es k)" using ge j(3) by simp
qed

section \<open>Properties\<close>

text \<open>
  C14: the liveness pass is exact. After its commit the number of AND gates and wires is that of the
  stream; a wire is pinned exactly if it is an input, an output of the source or the output of an
  AND gate; its recorded last use is the index of a gate that reads it exactly if no later gate
  does, and minus one exactly if none does.
\<close>

theorem last_use_exact:
  assumes "stream_of (rs_num_inputs s) src = (outs, es)" and "wf_stream (rs_num_inputs s) es"
    and "drive live_ops src (init_live s) = (outs', p)" and "w < rs_num_inputs s + length es"
  defines "s' \<equiv> lp_commit outs' p s" and "n \<equiv> rs_num_inputs s"
  shows "rs_num_wires s' = n + length es \<and> rs_num_ands s' = num_and_evs es \<and>
    (rs_persist s' ! w \<longleftrightarrow> w < n \<or> w \<in> set outs \<or> ev_is_and (es ! (w - n))) \<and>
    (\<forall>k < length es. w \<in> set (ev_reads (es ! k)) \<longrightarrow>
      (rs_last_use s' ! w = int (gate_index es k) \<longleftrightarrow> (\<forall>j < length es. k < j \<longrightarrow> w \<notin> set (ev_reads (es ! j))))) \<and>
    (rs_last_use s' ! w = - 1 \<longleftrightarrow> (\<forall>k < length es. w \<notin> set (ev_reads (es ! k))))"
proof -
  note L = live_commit_ok [OF assms(1-3)]
  have ok: "live_state_ok es outs s'" "rs_num_inputs s' = n"
    using L by (simp_all add: s'_def n_def lp_commit_def)
  then have lu: "last_use_ok n es (rs_last_use s')" and w: "w < rs_num_wires s'" "w < n + length es"
    using assms(4) by (simp_all add: live_state_ok_def n_def)
  have "rs_last_use s' ! w = int (gate_index es k) \<longleftrightarrow> (\<forall>j < length es. k < j \<longrightarrow> w \<notin> set (ev_reads (es ! j)))"
    if "k < length es" "w \<in> set (ev_reads (es ! k))" for k
    using last_use_dead [OF lu that w(2)] by (auto simp: Suc_le_eq)
  moreover have "rs_last_use s' ! w = - 1 \<longleftrightarrow> (\<forall>k < length es. w \<notin> set (ev_reads (es ! k)))"
    using lu w(2) unfolding last_use_ok_def by force
  moreover have "rs_persist s' ! w \<longleftrightarrow> w < n \<or> w \<in> set outs \<or> ev_is_and (es ! (w - n))"
    using ok w by (auto simp: live_state_ok_def persists_def)
  ultimately show ?thesis using ok by (simp add: live_state_ok_def)
qed

theorem last_use_exact_witness:
  "\<exists>s outs' p. rs_num_inputs (s :: nat run_state) = Suc (Suc 0) \<and>
     drive live_ops (AndG 0 1 (\<lambda>w. XorG w 0 (\<lambda>v. Ret [v]))) (init_live s) = (outs', p) \<and>
     rs_last_use (lp_commit outs' p s) ! 1 = 0 \<and> rs_persist (lp_commit outs' p s) ! 3"
proof -
  let ?b = "AndG 0 1 (\<lambda>w. XorG w 0 (\<lambda>v. Ret [v]))" and ?s = "init_run_state 1 7 (Suc (Suc 0)) (0 :: nat)"
  let ?es = "[EAnd 0 1, EXor 2 0]"
  have n: "rs_num_inputs ?s = Suc (Suc 0)" by (simp add: init_run_state_def)
  obtain outs' p where d: "drive live_ops ?b (init_live ?s) = (outs', p)" by (metis surj_pair)
  have src: "stream_of (rs_num_inputs ?s) ?b = ([3], ?es)" unfolding n by simp
  have wf: "wf_stream (rs_num_inputs ?s) ?es" unfolding n by (simp add: wf_stream_def nth_Cons split: nat.split)
  note E = last_use_exact [OF src wf d, unfolded n]
  have "rs_last_use (lp_commit outs' p ?s) ! 1 = int (gate_index ?es 0)"
    using E [of 1] by (auto simp: nth_Cons split: nat.splits)
  moreover have "rs_persist (lp_commit outs' p ?s) ! 3" using E [of 3] by simp
  ultimately show ?thesis using n d by (intro exI [of _ ?s]) (simp add: gate_index_def num_gates_def)
qed

end
