(* ===== verification/Slot_Mask.thy ===== *)
theory Slot_Mask
  imports Liveness
begin

text \<open>
  Pass 1 (\<^verbatim>\<open>AG2PCSlotMaskPass\<close> of \<^verbatim>\<open>backend/pass_ctx.h\<close>): physical slots for
  the wires, with the slots of dead XOR, NOT and constant wires recycled through a freelist, the
  wire shares, the operand shares of every AND (\<^verbatim>\<open>rep_a\<close>, \<^verbatim>\<open>rep_b\<close>) and the fresh
  output masks. The result: the slot assignment is safe (\<open>slot_safe\<close>), and the shares are those of
  a machine with one register per wire.
\<close>

section \<open>The pass\<close>

record 'm slot_mask =
  sm_s :: "'m run_state"
  sm_fpre :: pool
  sm_wid :: nat
  sm_ai :: nat
  sm_gi :: nat
  sm_freelist :: "int list"
  sm_lg_buf :: "ashare list"
  sm_lg_off :: nat
  sm_c0 :: int
  sm_c1 :: int

definition kLgBatch :: nat where "kLgBatch = 2 ^ 14"

definition init_slot_mask :: "'m run_state \<Rightarrow> pool \<Rightarrow> 'm slot_mask" where
  "init_slot_mask st f = \<lparr>sm_s = st\<lparr>rs_rep_a := [], rs_rep_b := []\<rparr>, sm_fpre = f,
     sm_wid = rs_num_inputs st, sm_ai = 0, sm_gi = 0, sm_freelist = [], sm_lg_buf = [],
     sm_lg_off = 0, sm_c0 = - 1, sm_c1 = - 1\<rparr>"

definition next_lambda_gamma :: "'m slot_mask \<Rightarrow> ashare \<times> 'm slot_mask" where
  "next_lambda_gamma p =
     (let p = (if sm_lg_off p \<ge> length (sm_lg_buf p) then
                 (case draw kLgBatch (sm_fpre p) of (buf, f) \<Rightarrow>
                    p\<lparr>sm_lg_buf := buf, sm_fpre := f, sm_lg_off := 0\<rparr>)
               else p)
      in (sm_lg_buf p ! sm_lg_off p, p\<lparr>sm_lg_off := Suc (sm_lg_off p)\<rparr>))"

definition alloc_slot :: "wire \<Rightarrow> 'm slot_mask \<Rightarrow> nat \<times> 'm slot_mask" where
  "alloc_slot w p =
     (let s = sm_s p in
      if \<not> rs_persist s ! w \<and> sm_freelist p \<noteq> [] then
        (let slot = last (sm_freelist p) in
         (nat slot, p\<lparr>sm_freelist := butlast (sm_freelist p),
                      sm_s := s\<lparr>rs_phys := (rs_phys s)[w := slot]\<rparr>\<rparr>))
      else
        (let slot = rs_num_slots s in
         (slot, p\<lparr>sm_s := s\<lparr>rs_num_slots := Suc slot, rs_wire_slot := rs_wire_slot s @ [zero_share],
                             rs_mask_input := rs_mask_input s @ [0],
                             rs_phys := (rs_phys s)[w := int slot]\<rparr>\<rparr>)))"

definition put_slot :: "nat \<Rightarrow> ashare \<Rightarrow> byte \<Rightarrow> 'm slot_mask \<Rightarrow> 'm slot_mask" where
  "put_slot slot sh m p = p\<lparr>sm_s := (sm_s p)\<lparr>rs_wire_slot := (rs_wire_slot (sm_s p))[slot := sh],
                                              rs_mask_input := (rs_mask_input (sm_s p))[slot := m]\<rparr>\<rparr>"

definition free_if_dead :: "wire \<Rightarrow> 'm slot_mask \<Rightarrow> 'm slot_mask" where
  "free_if_dead w p =
     (if \<not> rs_persist (sm_s p) ! w \<and> rs_last_use (sm_s p) ! w = int (sm_gi p)
      then p\<lparr>sm_freelist := sm_freelist p @ [rs_phys (sm_s p) ! w]\<rparr> else p)"

definition sm_fresh_const :: "bool \<Rightarrow> 'm slot_mask \<Rightarrow> wire \<times> 'm slot_mask" where
  "sm_fresh_const v p =
     (let w = sm_wid p;
          (slot, p) = alloc_slot w (p\<lparr>sm_wid := Suc w\<rparr>);
          p = put_slot slot zero_share (bbyte v) p
      in (w, if v then p\<lparr>sm_c1 := int w\<rparr> else p\<lparr>sm_c0 := int w\<rparr>))"

definition sm_public_bit :: "bool \<Rightarrow> 'm slot_mask \<Rightarrow> wire \<times> 'm slot_mask" where
  "sm_public_bit v p =
     (let c = (if v then sm_c1 p else sm_c0 p) in if c < 0 then sm_fresh_const v p else (nat c, p))"

definition sm_and_gate :: "wire \<Rightarrow> wire \<Rightarrow> 'm slot_mask \<Rightarrow> wire \<times> 'm slot_mask" where
  "sm_and_gate i0 i1 p =
     (let w = sm_wid p;
          s = sm_s p;
          p = p\<lparr>sm_wid := Suc w, sm_s := s\<lparr>rs_rep_a := rs_rep_a s @ [wslot s i0],
                                           rs_rep_b := rs_rep_b s @ [wslot s i1]\<rparr>\<rparr>;
          (lg, p) = next_lambda_gamma p;
          (slot, p) = alloc_slot w p;
          p = put_slot slot lg 0 p;
          p = free_if_dead i0 p;
          p = (if i1 \<noteq> i0 then free_if_dead i1 p else p)
      in (w, p\<lparr>sm_gi := Suc (sm_gi p), sm_ai := Suc (sm_ai p)\<rparr>))"

definition sm_xor_gate :: "wire \<Rightarrow> wire \<Rightarrow> 'm slot_mask \<Rightarrow> wire \<times> 'm slot_mask" where
  "sm_xor_gate i0 i1 p =
     (let w = sm_wid p;
          r_out = sh_xor (wslot (sm_s p) i0) (wslot (sm_s p) i1);
          (slot, p) = alloc_slot w (p\<lparr>sm_wid := Suc w\<rparr>);
          p = put_slot slot r_out 0 p;
          p = free_if_dead i0 p;
          p = (if i1 \<noteq> i0 then free_if_dead i1 p else p)
      in (w, p\<lparr>sm_gi := Suc (sm_gi p)\<rparr>))"

definition sm_not_gate :: "wire \<Rightarrow> 'm slot_mask \<Rightarrow> wire \<times> 'm slot_mask" where
  "sm_not_gate i p =
     (let w = sm_wid p;
          tmp = wslot (sm_s p) i;
          (slot, p) = alloc_slot w (p\<lparr>sm_wid := Suc w\<rparr>);
          p = put_slot slot tmp 0 p;
          p = free_if_dead i p
      in (w, p\<lparr>sm_gi := Suc (sm_gi p)\<rparr>))"

definition slot_mask_ops :: "'m slot_mask ctx_ops" where
  "slot_mask_ops = \<lparr>op_public_bit = sm_public_bit, op_and_gate = sm_and_gate,
     op_xor_gate = sm_xor_gate, op_not_gate = sm_not_gate\<rparr>"

text \<open>\<^verbatim>\<open>std::vector::resize\<close>.\<close>

definition resize :: "nat \<Rightarrow> 'a \<Rightarrow> 'a list \<Rightarrow> 'a list" where
  "resize n d xs = take n xs @ replicate (n - length xs) d"

definition commit_sizes :: "'m slot_mask \<Rightarrow> 'm slot_mask" where
  "commit_sizes p =
     (let s = (sm_s p)\<lparr>rs_num_ands := sm_ai p\<rparr>;
          s = s\<lparr>rs_sigma := resize (max 1 (rs_num_ands s)) zero_share (rs_sigma s)\<rparr>
      in p\<lparr>sm_s := (if rs_party s = 1
             then s\<lparr>rs_label_slot := resize (rs_num_slots s) 0 (rs_label_slot s)\<rparr>
             else s\<lparr>rs_eval_slot := resize (rs_num_slots s) 0 (rs_eval_slot s)\<rparr>)\<rparr>)"

section \<open>The pass as an action per event\<close>

definition sm_event :: "ev \<Rightarrow> 'm slot_mask \<Rightarrow> 'm slot_mask" where
  "sm_event e p = (case e of
      EConst v \<Rightarrow> snd (sm_fresh_const v p)
    | EAnd a b \<Rightarrow> snd (sm_and_gate a b p)
    | EXor a b \<Rightarrow> snd (sm_xor_gate a b p)
    | ENot a \<Rightarrow> snd (sm_not_gate a p))"

text \<open>What the helpers leave alone.\<close>

lemma next_lambda_gamma_frame [simp]:
  "sm_wid (snd (next_lambda_gamma p)) = sm_wid p" "sm_ai (snd (next_lambda_gamma p)) = sm_ai p"
  "sm_gi (snd (next_lambda_gamma p)) = sm_gi p" "sm_s (snd (next_lambda_gamma p)) = sm_s p"
  "sm_freelist (snd (next_lambda_gamma p)) = sm_freelist p"
  "sm_c0 (snd (next_lambda_gamma p)) = sm_c0 p" "sm_c1 (snd (next_lambda_gamma p)) = sm_c1 p"
  by (simp_all add: next_lambda_gamma_def Let_def split: prod.splits)

lemma alloc_slot_frame [simp]:
  "sm_wid (snd (alloc_slot w p)) = sm_wid p" "sm_ai (snd (alloc_slot w p)) = sm_ai p"
  "sm_gi (snd (alloc_slot w p)) = sm_gi p" "sm_fpre (snd (alloc_slot w p)) = sm_fpre p"
  "sm_lg_buf (snd (alloc_slot w p)) = sm_lg_buf p" "sm_lg_off (snd (alloc_slot w p)) = sm_lg_off p"
  "sm_c0 (snd (alloc_slot w p)) = sm_c0 p" "sm_c1 (snd (alloc_slot w p)) = sm_c1 p"
  by (simp_all add: alloc_slot_def Let_def)

lemma put_slot_frame [simp]:
  "sm_wid (put_slot i x m p) = sm_wid p" "sm_ai (put_slot i x m p) = sm_ai p"
  "sm_gi (put_slot i x m p) = sm_gi p" "sm_fpre (put_slot i x m p) = sm_fpre p"
  "sm_lg_buf (put_slot i x m p) = sm_lg_buf p" "sm_lg_off (put_slot i x m p) = sm_lg_off p"
  "sm_freelist (put_slot i x m p) = sm_freelist p"
  "sm_c0 (put_slot i x m p) = sm_c0 p" "sm_c1 (put_slot i x m p) = sm_c1 p"
  by (simp_all add: put_slot_def)

lemma free_if_dead_frame [simp]:
  "sm_wid (free_if_dead w p) = sm_wid p" "sm_ai (free_if_dead w p) = sm_ai p"
  "sm_gi (free_if_dead w p) = sm_gi p" "sm_fpre (free_if_dead w p) = sm_fpre p"
  "sm_lg_buf (free_if_dead w p) = sm_lg_buf p" "sm_lg_off (free_if_dead w p) = sm_lg_off p"
  "sm_s (free_if_dead w p) = sm_s p"
  "sm_c0 (free_if_dead w p) = sm_c0 p" "sm_c1 (free_if_dead w p) = sm_c1 p"
  by (simp_all add: free_if_dead_def)

interpretation slot_mask: lockstep slot_mask_ops sm_wid sm_c0 sm_c1 sm_event
  by unfold_locales
    (auto simp: slot_mask_ops_def sm_event_def sm_public_bit_def sm_fresh_const_def sm_and_gate_def
      sm_xor_gate_def sm_not_gate_def Let_def case_prod_beta split: ev.splits)

section \<open>The slot invariant\<close>

text \<open>
  \<open>L\<close> is the set of live wires among the first \<open>m\<close>; \<open>R\<close> and \<open>M\<close> are what their slots must hold.
  Live wires have distinct slots, none of which is on the freelist.
\<close>

definition slots_inv ::
  "(wire \<Rightarrow> bool) \<Rightarrow> nat \<Rightarrow> (wire \<Rightarrow> ashare) \<Rightarrow> (wire \<Rightarrow> byte) \<Rightarrow> 'm slot_mask \<Rightarrow> bool" where
  "slots_inv L m R M p \<longleftrightarrow>
     (let s = sm_s p in
      length (rs_wire_slot s) = rs_num_slots s \<and> length (rs_mask_input s) = rs_num_slots s \<and>
      m \<le> length (rs_phys s) \<and>
      (\<forall>w < m. 0 \<le> rs_phys s ! w \<and> rs_phys s ! w < int (rs_num_slots s)) \<and>
      distinct (sm_freelist p) \<and>
      (\<forall>x \<in> set (sm_freelist p). 0 \<le> x \<and> x < int (rs_num_slots s)) \<and>
      (\<forall>w < m. L w \<longrightarrow> rs_phys s ! w \<notin> set (sm_freelist p)) \<and>
      (\<forall>w < m. \<forall>w' < m. L w \<longrightarrow> L w' \<longrightarrow> w \<noteq> w' \<longrightarrow> rs_phys s ! w \<noteq> rs_phys s ! w') \<and>
      (\<forall>w < m. L w \<longrightarrow> rs_wire_slot s ! nat (rs_phys s ! w) = R w \<and>
                     rs_mask_input s ! nat (rs_phys s ! w) = M w))"

lemma slots_inv_mono:
  "slots_inv L m R M p \<Longrightarrow> (\<And>w. w < m \<Longrightarrow> L' w \<Longrightarrow> L w) \<Longrightarrow> slots_inv L' m R M p"
  unfolding slots_inv_def Let_def by simp

lemma slots_inv_cong:
  assumes "slots_inv L m R M p" and "sm_s p' = sm_s p" and "sm_freelist p' = sm_freelist p"
    and "\<And>w. w < m \<Longrightarrow> L w \<Longrightarrow> R' w = R w \<and> M' w = M w"
  shows "slots_inv L m R' M' p'"
  using assms(1,4) unfolding slots_inv_def assms(2,3) Let_def by simp

lemma slots_inv_reps:
  assumes "slots_inv L m R M p"
    and "sm_s p' = (sm_s p)\<lparr>rs_rep_a := ra, rs_rep_b := rb\<rparr>" and "sm_freelist p' = sm_freelist p"
  shows "slots_inv L m R M p'"
  using assms(1) unfolding slots_inv_def assms(2,3) by (simp add: Let_def)

lemma slots_inv_wslot: "slots_inv L m R M p \<Longrightarrow> w < m \<Longrightarrow> L w \<Longrightarrow> wslot (sm_s p) w = R w"
  by (simp add: slots_inv_def wslot_def slot_of_def Let_def)

lemma last_butlast:
  assumes "xs \<noteq> []" and "distinct xs"
  shows "last xs \<in> set xs" and "last xs \<notin> set (butlast xs)" and "distinct (butlast xs)"
    and "set (butlast xs) \<subseteq> set xs"
proof -
  have "xs = butlast xs @ [last xs]" using assms(1) by simp
  then have "distinct (butlast xs @ [last xs])" using assms(2) by metis
  then show "last xs \<notin> set (butlast xs)" "distinct (butlast xs)" by simp_all
qed (use assms(1) in \<open>auto dest: in_set_butlastD\<close>)

text \<open>
  The slot \<^verbatim>\<open>alloc_slot\<close> hands out: one from the freelist, or a new one for a
  persistent wire or an empty list. No live wire holds it; a persistent wire takes one no earlier wire
  ever held.
\<close>

lemma alloc_slot_fresh:
  assumes inv: "slots_inv L m R M p" and run: "alloc_slot m p = (slot, p')"
  obtains reuse where "reuse \<Longrightarrow> \<not> rs_persist (sm_s p) ! m"
    and "sm_s p' = (sm_s p)\<lparr>rs_phys := (rs_phys (sm_s p))[m := int slot],
        rs_wire_slot := (if reuse then rs_wire_slot (sm_s p) else rs_wire_slot (sm_s p) @ [zero_share]),
        rs_mask_input := (if reuse then rs_mask_input (sm_s p) else rs_mask_input (sm_s p) @ [0]),
        rs_num_slots := (if reuse then rs_num_slots (sm_s p) else Suc (rs_num_slots (sm_s p)))\<rparr>"
    and "set (sm_freelist p') \<subseteq> set (sm_freelist p)" "distinct (sm_freelist p')" "int slot \<notin> set (sm_freelist p')"
    and "slot < (if reuse then rs_num_slots (sm_s p) else Suc (rs_num_slots (sm_s p)))"
    and "\<And>w. w < m \<Longrightarrow> L w \<or> \<not> reuse \<Longrightarrow> int slot \<noteq> rs_phys (sm_s p) ! w"
proof (cases "\<not> rs_persist (sm_s p) ! m \<and> sm_freelist p \<noteq> []")
  case True
  note I = inv [unfolded slots_inv_def Let_def]
  let ?fl = "sm_freelist p"
  have fl: "?fl \<noteq> []" "distinct ?fl" using True I by blast+
  have "0 \<le> last ?fl" using I last_in_set [OF fl(1)] by blast
  then have sl: "int slot = last ?fl" "nat (last ?fl) = slot" using run True by (auto simp: alloc_slot_def Let_def)
  have p': "sm_freelist p' = butlast ?fl" "sm_s p' = (sm_s p)\<lparr>rs_phys := (rs_phys (sm_s p))[m := int slot]\<rparr>"
    using run True sl by (auto simp: alloc_slot_def Let_def)
  show ?thesis
  proof (rule that [of True])
    show "int slot \<notin> set (sm_freelist p')" "distinct (sm_freelist p')" "set (sm_freelist p') \<subseteq> set ?fl"
      unfolding p'(1) sl(1) using last_butlast(2-4) [OF fl] by blast+
    show "slot < (if True then rs_num_slots (sm_s p) else Suc (rs_num_slots (sm_s p)))"
      using I last_in_set [OF fl(1)] sl by (metis of_nat_less_iff)
    show "\<And>w. w < m \<Longrightarrow> L w \<or> \<not> True \<Longrightarrow> int slot \<noteq> rs_phys (sm_s p) ! w"
      using I last_in_set [OF fl(1)] sl(1) by metis
  qed (use True p'(2) in simp_all)
next
  case False
  note I = inv [unfolded slots_inv_def Let_def]
  have slot: "slot = rs_num_slots (sm_s p)" and fl: "sm_freelist p' = sm_freelist p"
    and s: "sm_s p' = (sm_s p)\<lparr>rs_num_slots := Suc slot, rs_wire_slot := rs_wire_slot (sm_s p) @ [zero_share],
        rs_mask_input := rs_mask_input (sm_s p) @ [0], rs_phys := (rs_phys (sm_s p))[m := int slot]\<rparr>"
    using run False by (auto simp: alloc_slot_def Let_def)
  show ?thesis
  proof (rule that [of False])
    show "int slot \<notin> set (sm_freelist p')" "distinct (sm_freelist p')"
      using I by (auto simp: slot fl)
    show "\<And>w. w < m \<Longrightarrow> L w \<or> \<not> False \<Longrightarrow> int slot \<noteq> rs_phys (sm_s p) ! w" using I by (auto simp: slot)
  qed (simp_all add: s slot fl)
qed

text \<open>A new wire \<open>m\<close> takes the slot and its share and mask.\<close>

lemma alloc_put_inv:
  fixes sh :: ashare and mb :: byte and p :: "'m slot_mask"
  assumes inv: "slots_inv L m R M p" and m: "m < length (rs_phys (sm_s p))"
    and run: "alloc_slot m p = (slot, p')"
  defines "s' \<equiv> sm_s (put_slot slot sh mb p')"
  shows "slots_inv (\<lambda>w. L w \<or> w = m) (Suc m) (R(m := sh)) (M(m := mb)) (put_slot slot sh mb p')"
    and "\<And>w. w < m \<Longrightarrow> L w \<or> rs_persist (sm_s p) ! m \<Longrightarrow> rs_phys s' ! m \<noteq> rs_phys s' ! w"
    and "\<And>w. w < m \<Longrightarrow> rs_phys s' ! w = rs_phys (sm_s p) ! w"
proof -
  note I = inv [unfolded slots_inv_def Let_def]
  let ?s = "sm_s p" and ?fl = "sm_freelist p"
  obtain reuse where per: "reuse \<Longrightarrow> \<not> rs_persist ?s ! m"
    and p': "sm_s p' = ?s\<lparr>rs_phys := (rs_phys ?s)[m := int slot],
        rs_wire_slot := (if reuse then rs_wire_slot ?s else rs_wire_slot ?s @ [zero_share]),
        rs_mask_input := (if reuse then rs_mask_input ?s else rs_mask_input ?s @ [0]),
        rs_num_slots := (if reuse then rs_num_slots ?s else Suc (rs_num_slots ?s))\<rparr>"
    and fl: "set (sm_freelist p') \<subseteq> set ?fl" "distinct (sm_freelist p')" "int slot \<notin> set (sm_freelist p')"
    and lt: "slot < (if reuse then rs_num_slots ?s else Suc (rs_num_slots ?s))"
    and fresh: "\<And>w. w < m \<Longrightarrow> L w \<or> \<not> reuse \<Longrightarrow> int slot \<noteq> rs_phys ?s ! w"
    by (rule alloc_slot_fresh [OF inv run]) blast
  have s': "rs_phys s' = (rs_phys ?s)[m := int slot]"
    "rs_wire_slot s' = (if reuse then rs_wire_slot ?s else rs_wire_slot ?s @ [zero_share])[slot := sh]"
    "rs_mask_input s' = (if reuse then rs_mask_input ?s else rs_mask_input ?s @ [0])[slot := mb]"
    "rs_num_slots s' = (if reuse then rs_num_slots ?s else Suc (rs_num_slots ?s))"
    by (simp_all add: s'_def put_slot_def p')
  have slot_lt: "slot < rs_num_slots s'" and le: "rs_num_slots ?s \<le> rs_num_slots s'" using lt by (simp_all add: s'(4))
  have range: "0 \<le> rs_phys ?s ! w \<and> rs_phys ?s ! w < int (rs_num_slots ?s)" if "w < m" for w using I that by blast
  have range_fl: "0 \<le> x \<and> x < int (rs_num_slots ?s)" if "x \<in> set ?fl" for x using I that by blast
  show old: "\<And>w. w < m \<Longrightarrow> rs_phys s' ! w = rs_phys ?s ! w" by (simp add: s'(1))
  have new: "rs_phys s' ! m = int slot" using m by (simp add: s'(1))
  show "\<And>w. w < m \<Longrightarrow> L w \<or> rs_persist ?s ! m \<Longrightarrow> rs_phys s' ! m \<noteq> rs_phys s' ! w"
    using fresh old new per by auto
  have keep: "rs_wire_slot s' ! nat (rs_phys ?s ! w) = R w \<and> rs_mask_input s' ! nat (rs_phys ?s ! w) = M w"
    if w: "w < m" "L w" for w
  proof -
    have "nat (rs_phys ?s ! w) < rs_num_slots ?s" "nat (rs_phys ?s ! w) \<noteq> slot"
      using I w fresh [of w] by auto
    then show ?thesis using I w by (simp add: s'(2,3) nth_append)
  qed
  have put: "rs_wire_slot s' ! slot = sh" "rs_mask_input s' ! slot = mb"
    "length (rs_wire_slot s') = rs_num_slots s'" "length (rs_mask_input s') = rs_num_slots s'"
    using slot_lt I by (auto simp: s'(2,3,4))
  show "slots_inv (\<lambda>w. L w \<or> w = m) (Suc m) (R(m := sh)) (M(m := mb)) (put_slot slot sh mb p')"
    unfolding slots_inv_def Let_def s'_def [symmetric] put_slot_frame
  proof (intro conjI allI impI ballI)
    show "Suc m \<le> length (rs_phys s')" using m by (simp add: s'(1))
    show "distinct (sm_freelist p')" by (rule fl)
    fix w
    show "w \<in> set (sm_freelist p') \<Longrightarrow> 0 \<le> w" "w \<in> set (sm_freelist p') \<Longrightarrow> w < int (rs_num_slots s')" for w
      using fl range_fl [of w] le by auto
    assume w: "w < Suc m"
    show "0 \<le> rs_phys s' ! w" "rs_phys s' ! w < int (rs_num_slots s')"
      using w old [of w] new slot_lt range [of w] le by (cases "w = m"; simp)+
    show "L w \<or> w = m \<Longrightarrow> rs_phys s' ! w \<notin> set (sm_freelist p')"
      using w old [of w] new fl I by (cases "w = m") auto
    show "L w \<or> w = m \<Longrightarrow> rs_wire_slot s' ! nat (rs_phys s' ! w) = (R(m := sh)) w"
      "L w \<or> w = m \<Longrightarrow> rs_mask_input s' ! nat (rs_phys s' ! w) = (M(m := mb)) w"
      using w old [of w] new keep [of w] put by (cases "w = m"; auto)+
    fix w' assume "w' < Suc m" "L w \<or> w = m" "L w' \<or> w' = m" "w \<noteq> w'"
    then show "rs_phys s' ! w \<noteq> rs_phys s' ! w'"
      using w old [of w] old [of w'] new fresh [of w] fresh [of w'] I
      by (cases "w = m"; cases "w' = m") auto
  qed (use put in simp_all)
qed

lemma free_inv:
  assumes inv: "slots_inv L m R M p" and w: "w < m" "L w"
    and dead: "\<not> rs_persist (sm_s p) ! w \<and> rs_last_use (sm_s p) ! w = int (sm_gi p) \<longrightarrow> D"
  shows "slots_inv (\<lambda>x. L x \<and> \<not> (x = w \<and> D)) m R M (free_if_dead w p)"
proof (cases "\<not> rs_persist (sm_s p) ! w \<and> rs_last_use (sm_s p) ! w = int (sm_gi p)")
  case False
  then have "free_if_dead w p = p" by (simp add: free_if_dead_def)
  then show ?thesis by (auto intro: slots_inv_mono [OF inv])
next
  case True
  with dead have D by blast
  have fl: "sm_freelist (free_if_dead w p) = sm_freelist p @ [rs_phys (sm_s p) ! w]"
    using True by (simp add: free_if_dead_def)
  note I = inv [unfolded slots_inv_def Let_def]
  have "rs_phys (sm_s p) ! w \<notin> set (sm_freelist p)" using I w by blast
  moreover have "rs_phys (sm_s p) ! x \<noteq> rs_phys (sm_s p) ! w" if "x < m" "L x" "x \<noteq> w" for x
    using I w that by metis
  ultimately show ?thesis
    using I w \<open>D\<close> unfolding slots_inv_def Let_def free_if_dead_frame fl by auto
qed

text \<open>The frees of one gate, as a fold over its distinct operands.\<close>

lemma fold_free_frame [simp]:
  "sm_s (fold free_if_dead ws p) = sm_s p" "sm_gi (fold free_if_dead ws p) = sm_gi p"
  "sm_fpre (fold free_if_dead ws p) = sm_fpre p" "sm_lg_buf (fold free_if_dead ws p) = sm_lg_buf p"
  "sm_lg_off (fold free_if_dead ws p) = sm_lg_off p" "sm_ai (fold free_if_dead ws p) = sm_ai p"
  "sm_wid (fold free_if_dead ws p) = sm_wid p"
  by (induction ws arbitrary: p) simp_all

lemma fold_free_inv:
  assumes "slots_inv L m R M p" and "distinct ws" and "\<And>w. w \<in> set ws \<Longrightarrow> w < m \<and> L w"
    and "\<And>w. w \<in> set ws \<Longrightarrow>
      \<not> rs_persist (sm_s p) ! w \<and> rs_last_use (sm_s p) ! w = int (sm_gi p) \<Longrightarrow> D w"
  shows "slots_inv (\<lambda>x. L x \<and> \<not> (x \<in> set ws \<and> D x)) m R M (fold free_if_dead ws p)"
  using assms
proof (induction ws arbitrary: p L)
  case Nil
  then show ?case by (auto intro: slots_inv_mono)
next
  case (Cons w ws)
  have "slots_inv (\<lambda>x. L x \<and> \<not> (x = w \<and> D w)) m R M (free_if_dead w p)"
    using Cons.prems by (intro free_inv) auto
  then have "slots_inv (\<lambda>x. (L x \<and> \<not> (x = w \<and> D w)) \<and> \<not> (x \<in> set ws \<and> D x)) m R M
      (fold free_if_dead ws (free_if_dead w p))"
    using Cons.prems by (intro Cons.IH) auto
  then show ?case by (auto intro: slots_inv_mono)
qed

section \<open>The registers of the pass\<close>

text \<open>
  The share a gate's output gets: \<open>lg i\<close> is the fresh mask of the \<open>i\<close>-th AND, \<open>f\<close> the shares so far.
\<close>

definition new_share :: "(nat \<Rightarrow> ashare) \<Rightarrow> ev \<Rightarrow> nat \<Rightarrow> (wire \<Rightarrow> ashare) \<Rightarrow> ashare" where
  "new_share lg e i f = (case e of
      EConst v \<Rightarrow> zero_share | EAnd a b \<Rightarrow> lg i | EXor a b \<Rightarrow> sh_xor (f a) (f b) | ENot a \<Rightarrow> f a)"

definition new_mask :: "ev \<Rightarrow> byte" where
  "new_mask e = (case e of EConst v \<Rightarrow> bbyte v | _ \<Rightarrow> 0)"

definition and_count :: "ev \<Rightarrow> nat \<Rightarrow> nat" where
  "and_count e i = (if ev_is_and e then Suc i else i)"

definition share_regs :: "(nat \<Rightarrow> ashare) \<Rightarrow> nat \<Rightarrow> (wire \<Rightarrow> ashare) \<Rightarrow> ev list \<Rightarrow> wire \<Rightarrow> ashare" where
  "share_regs lg n ins es =
     fst (reg_run (\<lambda>e i f out. new_share lg e i f) (\<lambda>e i f out. and_count e i) es (ins, 0, n))"

definition mask_regs :: "nat \<Rightarrow> (wire \<Rightarrow> byte) \<Rightarrow> ev list \<Rightarrow> wire \<Rightarrow> byte" where
  "mask_regs n ins es = fst (reg_run (\<lambda>e x f out. new_mask e) (\<lambda>e x f out. x) es (ins, (), n))"

lemma reg_run_and_count [simp]:
  "fst (snd (reg_run nc (\<lambda>e i f out. and_count e i) es (ins, i, n))) = i + num_and_evs es"
  by (induction es rule: rev_induct) (simp_all add: and_count_def)

lemma share_regs_Nil [simp]: "share_regs lg n ins [] = ins"
  by (simp add: share_regs_def)

lemma share_regs_snoc [simp]: "share_regs lg n ins (es @ [e]) =
    (share_regs lg n ins es)(n + length es := new_share lg e (num_and_evs es) (share_regs lg n ins es))"
  by (simp add: share_regs_def)

lemma mask_regs_Nil [simp]: "mask_regs n ins [] = ins"
  by (simp add: mask_regs_def)

lemma mask_regs_snoc [simp]: "mask_regs n ins (es @ [e]) = (mask_regs n ins es)(n + length es := new_mask e)"
  by (simp add: mask_regs_def)

text \<open>Registers are assigned once.\<close>

lemma share_regs_stable:
  "k \<le> length es \<Longrightarrow> w < n + k \<Longrightarrow> share_regs lg n ins (take k es) w = share_regs lg n ins es w"
proof (induction es rule: rev_induct)
  case (snoc e es)
  then show ?case by (cases "k = Suc (length es)") auto
qed simp

lemma share_regs_input: "w < n \<Longrightarrow> share_regs lg n ins es w = ins w"
  using share_regs_stable [of 0 es w n lg ins] by simp

text \<open>The operand pairs of the AND gates, in order.\<close>

fun and_pair :: "ev \<Rightarrow> (wire \<times> wire) list" where
  "and_pair (EAnd a b) = [(a, b)]"
| "and_pair e = []"

definition and_ops :: "ev list \<Rightarrow> (wire \<times> wire) list" where
  "and_ops es = concat (map and_pair es)"

lemma and_ops_simps [simp]: "and_ops [] = []" "and_ops (es @ [e]) = and_ops es @ and_pair e"
  by (simp_all add: and_ops_def)

lemma length_and_ops [simp]: "length (and_ops es) = num_and_evs es"
  by (induction es rule: rev_induct) (simp, case_tac x, simp_all)

lemma and_ops_bound:
  "wf_stream n es \<Longrightarrow> (a, b) \<in> set (and_ops es) \<Longrightarrow> a < n + length es \<and> b < n + length es"
proof (induction es rule: rev_induct)
  case (snoc e es)
  then show ?case by (cases e) (auto simp: wf_stream_snoc)
qed simp

section \<open>Fresh output masks\<close>

text \<open>Shares minted after \<open>a\<close> AND gates: masks are drawn in batches.\<close>

primrec lg_minted :: "nat \<Rightarrow> nat" where
  "lg_minted 0 = 0"
| "lg_minted (Suc a) = (if a < lg_minted a then lg_minted a else lg_minted a + kLgBatch)"

definition lg_inv :: "pool \<Rightarrow> nat \<Rightarrow> 'm slot_mask \<Rightarrow> bool" where
  "lg_inv f0 a p \<longleftrightarrow>
     sm_fpre p = f0\<lparr>tp_pos := tp_pos f0 + lg_minted a, tp_cots_minted := tp_cots_minted f0 \<or> 0 < a\<rparr> \<and>
     sm_lg_off p \<le> length (sm_lg_buf p) \<and> a + (length (sm_lg_buf p) - sm_lg_off p) = lg_minted a \<and>
     (\<forall>i < length (sm_lg_buf p) - sm_lg_off p.
        sm_lg_buf p ! (sm_lg_off p + i) = stream_share f0 (tp_pos f0 + a + i))"

lemma next_lambda_gamma_ok:
  assumes "lg_inv f0 a p" and "next_lambda_gamma p = (x, p')"
  shows "x = stream_share f0 (tp_pos f0 + a)" and "lg_inv f0 (Suc a) p'"
proof -
  have B: "0 < kLgBatch" by (simp add: kLgBatch_def)
  show "x = stream_share f0 (tp_pos f0 + a)"
  proof (cases "sm_lg_off p \<ge> length (sm_lg_buf p)")
    case True
    then show ?thesis
      using assms B by (auto simp: lg_inv_def next_lambda_gamma_def draw_eq stream_share_def)
  next
    case False
    then have "0 < length (sm_lg_buf p) - sm_lg_off p" by simp
    then have "sm_lg_buf p ! (sm_lg_off p + 0) = stream_share f0 (tp_pos f0 + a + 0)"
      using assms(1) unfolding lg_inv_def by blast
    then show ?thesis using False assms(2) by (simp add: next_lambda_gamma_def)
  qed
  show "lg_inv f0 (Suc a) p'"
  proof (cases "sm_lg_off p \<ge> length (sm_lg_buf p)")
    case True
    then have "lg_minted a = a" using assms(1) by (simp add: lg_inv_def)
    then show ?thesis
      using True assms B
      by (auto simp: lg_inv_def next_lambda_gamma_def draw_eq stream_share_def ac_simps)
  next
    case False
    then have "a < lg_minted a" using assms(1) by (auto simp: lg_inv_def)
    moreover from this have "0 < a" by (cases a) simp_all
    moreover have p': "p' = p\<lparr>sm_lg_off := Suc (sm_lg_off p)\<rparr>"
      using assms(2) False by (simp add: next_lambda_gamma_def)
    moreover have "sm_lg_buf p ! (Suc (sm_lg_off p) + i) = stream_share f0 (tp_pos f0 + Suc a + i)"
      if "i < length (sm_lg_buf p) - Suc (sm_lg_off p)" for i
    proof -
      have "Suc i < length (sm_lg_buf p) - sm_lg_off p" using that by simp
      then have "sm_lg_buf p ! (sm_lg_off p + Suc i) = stream_share f0 (tp_pos f0 + a + Suc i)"
        using assms(1) unfolding lg_inv_def by blast
      then show ?thesis by simp
    qed
    ultimately show ?thesis using assms(1) False by (auto simp: lg_inv_def)
  qed
qed

section \<open>The shape of one event\<close>

lemma alloc_slot_s:
  "alloc_slot w p = (slot, p') \<Longrightarrow>
   sm_s p' = (sm_s p)\<lparr>rs_num_slots := rs_num_slots (sm_s p'), rs_phys := rs_phys (sm_s p'),
     rs_wire_slot := rs_wire_slot (sm_s p'), rs_mask_input := rs_mask_input (sm_s p')\<rparr>"
  by (auto simp: alloc_slot_def Let_def split: if_splits)

lemma next_lambda_gamma_upd:
  "fst (next_lambda_gamma (p\<lparr>sm_wid := x, sm_s := y\<rparr>)) = fst (next_lambda_gamma p)"
  "sm_fpre (snd (next_lambda_gamma (p\<lparr>sm_wid := x, sm_s := y\<rparr>))) = sm_fpre (snd (next_lambda_gamma p))"
  "sm_lg_buf (snd (next_lambda_gamma (p\<lparr>sm_wid := x, sm_s := y\<rparr>))) = sm_lg_buf (snd (next_lambda_gamma p))"
  "sm_lg_off (snd (next_lambda_gamma (p\<lparr>sm_wid := x, sm_s := y\<rparr>))) = sm_lg_off (snd (next_lambda_gamma p))"
  by (simp_all add: next_lambda_gamma_def Let_def split: prod.splits)

text \<open>
  Every event prepares a state \<open>p1\<close> (an AND pushes its operand shares and draws its mask),
  allocates and writes a slot, and frees its dead operands.
\<close>

definition sm_pools :: "'m slot_mask \<Rightarrow> pool \<times> ashare list \<times> nat" where
  "sm_pools p = (sm_fpre p, sm_lg_buf p, sm_lg_off p)"

lemma sm_event_obtain:
  obtains p1 slot p2 where
    "alloc_slot (sm_wid p) p1 = (slot, p2)"
    "sm_s p1 = (sm_s p)\<lparr>rs_rep_a := rs_rep_a (sm_s p) @ map (\<lambda>(a, b). wslot (sm_s p) a) (and_pair e),
                        rs_rep_b := rs_rep_b (sm_s p) @ map (\<lambda>(a, b). wslot (sm_s p) b) (and_pair e)\<rparr>"
    "sm_freelist p1 = sm_freelist p" "sm_gi p1 = sm_gi p"
    "sm_pools (sm_event e p) = sm_pools (if ev_is_and e then snd (next_lambda_gamma p) else p)"
    "sm_s (sm_event e p) = sm_s (fold free_if_dead (remdups (ev_reads e))
       (put_slot slot (new_share (\<lambda>_. fst (next_lambda_gamma p)) e i (wslot (sm_s p))) (new_mask e) p2))"
    "sm_freelist (sm_event e p) = sm_freelist (fold free_if_dead (remdups (ev_reads e))
       (put_slot slot (new_share (\<lambda>_. fst (next_lambda_gamma p)) e i (wslot (sm_s p))) (new_mask e) p2))"
    "sm_wid (sm_event e p) = Suc (sm_wid p)"
    "sm_gi (sm_event e p) = sm_gi p + (if ev_is_gate e then 1 else 0)"
    "sm_ai (sm_event e p) = and_count e (sm_ai p)"
proof -
  let ?w = "sm_wid p"
  define p1 where "p1 = (case e of
      EAnd a b \<Rightarrow> snd (next_lambda_gamma (p\<lparr>sm_wid := Suc ?w,
        sm_s := (sm_s p)\<lparr>rs_rep_a := rs_rep_a (sm_s p) @ [wslot (sm_s p) a],
                         rs_rep_b := rs_rep_b (sm_s p) @ [wslot (sm_s p) b]\<rparr>\<rparr>))
    | _ \<Rightarrow> p\<lparr>sm_wid := Suc ?w\<rparr>)"
  obtain slot p2 where run: "alloc_slot ?w p1 = (slot, p2)" by (metis surj_pair)
  have p2: "p2 = snd (alloc_slot ?w p1)" "slot = fst (alloc_slot ?w p1)" by (simp_all add: run)
  show ?thesis
  proof (rule that [OF run])
  qed (cases e; simp add: p2 p1_def sm_event_def sm_and_gate_def sm_xor_gate_def sm_not_gate_def
      sm_fresh_const_def Let_def case_prod_beta new_share_def new_mask_def and_count_def sm_pools_def
      next_lambda_gamma_upd)+
qed

section \<open>The invariant of the pass\<close>

text \<open>The fields of the run state the pass does not touch.\<close>

definition sm_frame :: "'m run_state \<Rightarrow> 'm run_state \<Rightarrow> bool" where
  "sm_frame s s' \<longleftrightarrow> (\<exists>ns ph ws mi ra rb. s' = s\<lparr>rs_num_slots := ns, rs_phys := ph, rs_wire_slot := ws,
     rs_mask_input := mi, rs_rep_a := ra, rs_rep_b := rb\<rparr>)"

lemma sm_frame_sel:
  assumes "sm_frame s s'"
  shows "rs_party s' = rs_party s" "rs_Delta s' = rs_Delta s" "rs_num_inputs s' = rs_num_inputs s"
    "rs_num_wires s' = rs_num_wires s" "rs_last_use s' = rs_last_use s" "rs_persist s' = rs_persist s"
    "rs_label_slot s' = rs_label_slot s" "rs_eval_slot s' = rs_eval_slot s"
    "rs_M1_t s' = rs_M1_t s" "rs_Lambda_AND s' = rs_Lambda_AND s" "rs_mitc s' = rs_mitc s"
    "rs_sigma s' = rs_sigma s" "rs_num_ands s' = rs_num_ands s"
  using assms by (auto simp: sm_frame_def)

lemma sm_frame_refl [simp]: "sm_frame s s"
proof -
  have "s = s\<lparr>rs_num_slots := rs_num_slots s, rs_phys := rs_phys s, rs_wire_slot := rs_wire_slot s,
     rs_mask_input := rs_mask_input s, rs_rep_a := rs_rep_a s, rs_rep_b := rs_rep_b s\<rparr>" by simp
  then show ?thesis unfolding sm_frame_def by blast
qed

lemma sm_frame_upd:
  assumes "sm_frame s s'"
  shows "sm_frame s (s'\<lparr>rs_rep_a := ra, rs_rep_b := rb\<rparr>)"
    and "sm_frame s (s'\<lparr>rs_num_slots := ns, rs_phys := ph, rs_wire_slot := ws, rs_mask_input := mi\<rparr>)"
proof -
  obtain ns0 ph0 ws0 mi0 ra0 rb0 where s': "s' = s\<lparr>rs_num_slots := ns0, rs_phys := ph0, rs_wire_slot := ws0,
     rs_mask_input := mi0, rs_rep_a := ra0, rs_rep_b := rb0\<rparr>"
    using assms unfolding sm_frame_def by blast
  have "s'\<lparr>rs_rep_a := ra, rs_rep_b := rb\<rparr> = s\<lparr>rs_num_slots := ns0, rs_phys := ph0, rs_wire_slot := ws0,
     rs_mask_input := mi0, rs_rep_a := ra, rs_rep_b := rb\<rparr>"
    "s'\<lparr>rs_num_slots := ns, rs_phys := ph, rs_wire_slot := ws, rs_mask_input := mi\<rparr> =
     s\<lparr>rs_num_slots := ns, rs_phys := ph, rs_wire_slot := ws, rs_mask_input := mi,
       rs_rep_a := ra0, rs_rep_b := rb0\<rparr>" by (simp_all add: s')
  then show "sm_frame s (s'\<lparr>rs_rep_a := ra, rs_rep_b := rb\<rparr>)"
    "sm_frame s (s'\<lparr>rs_num_slots := ns, rs_phys := ph, rs_wire_slot := ws, rs_mask_input := mi\<rparr>)"
    unfolding sm_frame_def by blast+
qed

text \<open>Written slots satisfy the safety condition up to event \<open>k\<close>.\<close>

definition slots_safe_upto :: "nat \<Rightarrow> ev list \<Rightarrow> wire list \<Rightarrow> nat \<Rightarrow> int list \<Rightarrow> bool" where
  "slots_safe_upto n es outs k phys \<longleftrightarrow>
     (\<forall>w < n. phys ! w = int w) \<and>
     (\<forall>j < k. \<forall>w < n + j. persists n es outs (n + j) \<or> live_at (persists n es outs) es j w \<longrightarrow>
        phys ! (n + j) \<noteq> phys ! w)"

definition sm_inv ::
  "ev list \<Rightarrow> wire list \<Rightarrow> 'm run_state \<Rightarrow> pool \<Rightarrow> nat \<Rightarrow> 'm slot_mask \<Rightarrow> bool" where
  "sm_inv es outs s0 f0 k p \<longleftrightarrow>
     (let n = rs_num_inputs s0; L = live_at (persists n es outs) es k;
          R = share_regs (\<lambda>i. stream_share f0 (tp_pos f0 + i)) n (wslot s0) (take k es);
          M = mask_regs n (minp s0) (take k es); ops = and_ops (take k es)
      in sm_wid p = n + k \<and> sm_gi p = gate_index es k \<and> sm_ai p = length ops \<and>
         slots_inv L (n + k) R M p \<and> slots_safe_upto n es outs k (rs_phys (sm_s p)) \<and>
         length (rs_phys (sm_s p)) = rs_num_wires s0 \<and>
         rs_rep_a (sm_s p) = map (\<lambda>(a, b). R a) ops \<and> rs_rep_b (sm_s p) = map (\<lambda>(a, b). R b) ops \<and>
         lg_inv f0 (length ops) p \<and> sm_frame s0 (sm_s p))"

lemma lg_inv_pools: "sm_pools p' = sm_pools p \<Longrightarrow> lg_inv f0 a p' = lg_inv f0 a p"
  by (simp add: lg_inv_def sm_pools_def)

lemma new_share_lg:
  "(ev_is_and e \<Longrightarrow> x = lg i) \<Longrightarrow> (\<And>w. w \<in> set (ev_reads e) \<Longrightarrow> f w = g w) \<Longrightarrow>
   new_share (\<lambda>_. x) e j f = new_share lg e i g"
  by (cases e) (auto simp: new_share_def)

lemma map_and_pair_cong:
  "(\<And>w. w \<in> set (ev_reads e) \<Longrightarrow> f w = g w) \<Longrightarrow>
   map (\<lambda>(a, b). f a) (and_pair e) = map (\<lambda>(a, b). g a) (and_pair e) \<and>
   map (\<lambda>(a, b). f b) (and_pair e) = map (\<lambda>(a, b). g b) (and_pair e)"
  by (cases e) auto

lemma length_and_pair: "length (and_pair e) = (if ev_is_and e then 1 else 0)"
  by (cases e) simp_all

lemma map_fun_upd_ops:
  assumes "\<And>a b. (a, b) \<in> set ops \<Longrightarrow> a \<noteq> x \<and> b \<noteq> x"
  shows "map (\<lambda>(a, b). (f(x := y)) a) ops = map (\<lambda>(a, b). f a) ops"
    and "map (\<lambda>(a, b). (f(x := y)) b) ops = map (\<lambda>(a, b). f b) ops"
  using assms by auto

text \<open>The parts of one step: the frame of a put, the frees, safety, the operand shares.\<close>

lemma put_slot_keeps:
  fixes sh :: ashare and mb :: byte
  assumes "alloc_slot w p1 = (slot, p2)" and "sm_frame s0 (sm_s p1)"
  defines "p3 \<equiv> put_slot slot sh mb p2"
  shows "sm_frame s0 (sm_s p3)" and "length (rs_phys (sm_s p3)) = length (rs_phys (sm_s p1))"
    and "rs_rep_a (sm_s p3) = rs_rep_a (sm_s p1)" and "rs_rep_b (sm_s p3) = rs_rep_b (sm_s p1)"
proof -
  have "sm_frame s0 (sm_s p2)"
    using sm_frame_upd(2) [OF assms(2)] alloc_slot_s [OF assms(1)] by metis
  then have "sm_frame s0 ((sm_s p2)\<lparr>rs_num_slots := rs_num_slots (sm_s p2), rs_phys := rs_phys (sm_s p2),
      rs_wire_slot := (rs_wire_slot (sm_s p2))[slot := sh], rs_mask_input := (rs_mask_input (sm_s p2))[slot := mb]\<rparr>)"
    by (rule sm_frame_upd(2))
  then show "sm_frame s0 (sm_s p3)" by (simp add: p3_def put_slot_def)
  show "length (rs_phys (sm_s p3)) = length (rs_phys (sm_s p1))"
    "rs_rep_a (sm_s p3) = rs_rep_a (sm_s p1)" "rs_rep_b (sm_s p3) = rs_rep_b (sm_s p1)"
    using assms(1) by (auto simp: p3_def put_slot_def alloc_slot_def Let_def split: if_splits)
qed

lemma frees_live:
  fixes n :: nat and es :: "ev list" and outs :: "wire list"
  defines "L \<equiv> live_at (persists n es outs) es"
  assumes inv: "slots_inv (\<lambda>w. L k w \<or> w = n + k) (Suc (n + k)) R M p" and k: "k < length es"
    and rd: "\<And>w. w \<in> set (ev_reads (es ! k)) \<Longrightarrow> w < n + k \<and> L k w"
    and lu: "last_use_ok n es (rs_last_use (sm_s p))" and gi: "sm_gi p = gate_index es k"
    and per: "\<And>w. w < n + length es \<Longrightarrow> rs_persist (sm_s p) ! w = persists n es outs w"
  shows "slots_inv (L (Suc k)) (Suc (n + k)) R M (fold free_if_dead (remdups (ev_reads (es ! k))) p)"
proof -
  have "slots_inv (\<lambda>x. (L k x \<or> x = n + k) \<and> \<not> (x \<in> set (remdups (ev_reads (es ! k))) \<and> \<not> L (Suc k) x))
      (Suc (n + k)) R M (fold free_if_dead (remdups (ev_reads (es ! k))) p)"
  proof (rule fold_free_inv [OF inv])
    fix w assume w: "w \<in> set (remdups (ev_reads (es ! k)))"
    then show "w < Suc (n + k) \<and> (L k w \<or> w = n + k)" using rd [of w] by simp
    have wn: "w < n + length es" using rd [of w] w k by auto
    assume "\<not> rs_persist (sm_s p) ! w \<and> rs_last_use (sm_s p) ! w = int (sm_gi p)"
    then show "\<not> L (Suc k) w"
      using last_use_dead [OF lu k _ wn] per [OF wn] gi w by (simp add: L_def live_at_def)
  qed simp
  then show ?thesis by (rule slots_inv_mono) (auto simp: L_def dest: live_at_Suc)
qed

lemma slots_safe_upto_Suc:
  assumes "slots_safe_upto n es outs k ph" and same: "\<And>w. w < n + k \<Longrightarrow> ph' ! w = ph ! w"
    and new: "\<And>w. w < n + k \<Longrightarrow> persists n es outs (n + k) \<or> live_at (persists n es outs) es k w \<Longrightarrow>
      ph' ! (n + k) \<noteq> ph' ! w"
  shows "slots_safe_upto n es outs (Suc k) ph'"
  unfolding slots_safe_upto_def
proof (intro conjI allI impI)
  show "ph' ! w = int w" if "w < n" for w
    using assms(1) same [of w] that by (simp add: slots_safe_upto_def)
  fix j w assume j: "j < Suc k" and w: "w < n + j"
    and c: "persists n es outs (n + j) \<or> live_at (persists n es outs) es j w"
  show "ph' ! (n + j) \<noteq> ph' ! w"
  proof (cases "j = k")
    case False
    then have "ph ! (n + j) \<noteq> ph ! w" using assms(1) w c j by (auto simp: slots_safe_upto_def)
    then show ?thesis using same [of "n + j"] same [of w] w j False by simp
  qed (use new [of w] w c in simp)
qed

lemma operand_shares_snoc:
  assumes "\<And>a b. (a, b) \<in> set ops \<Longrightarrow> a \<noteq> x \<and> b \<noteq> x" and "\<And>w. w \<in> set (ev_reads e) \<Longrightarrow> w \<noteq> x \<and> f w = R w"
  shows "map (\<lambda>(a, b). R a) ops @ map (\<lambda>(a, b). f a) (and_pair e) = map (\<lambda>(a, b). (R(x := y)) a) (ops @ and_pair e)"
    and "map (\<lambda>(a, b). R b) ops @ map (\<lambda>(a, b). f b) (and_pair e) = map (\<lambda>(a, b). (R(x := y)) b) (ops @ and_pair e)"
  using map_fun_upd_ops [OF assms(1), of ops R y] map_and_pair_cong [of e f "R(x := y)"] assms(2) by simp_all

text \<open>What one more event changes in the registers, and what it reads.\<close>

lemma stream_step:
  fixes lg :: "nat \<Rightarrow> ashare" and n :: nat and S :: "wire \<Rightarrow> ashare"
  assumes k: "k < length es" and wf: "wf_stream n es"
  defines "R \<equiv> share_regs lg n S (take k es)"
  shows "share_regs lg n S (take (Suc k) es) = R(n + k := new_share lg (es ! k) (length (and_ops (take k es))) R)"
    and "mask_regs n m (take (Suc k) es) = (mask_regs n m (take k es))(n + k := new_mask (es ! k))"
    and "and_ops (take (Suc k) es) = and_ops (take k es) @ and_pair (es ! k)"
    and "(a, b) \<in> set (and_ops (take k es)) \<Longrightarrow> a \<noteq> n + k \<and> b \<noteq> n + k"
    and "w \<in> set (ev_reads (es ! k)) \<Longrightarrow> w < n + k \<and> live_at per es k w"
proof -
  have take': "take (Suc k) es = take k es @ [es ! k]" using k by (simp add: take_Suc_conv_app_nth)
  have len: "length (take k es) = k" using k by simp
  show "share_regs lg n S (take (Suc k) es) = R(n + k := new_share lg (es ! k) (length (and_ops (take k es))) R)"
    "mask_regs n m (take (Suc k) es) = (mask_regs n m (take k es))(n + k := new_mask (es ! k))"
    "and_ops (take (Suc k) es) = and_ops (take k es) @ and_pair (es ! k)"
    unfolding take' share_regs_snoc mask_regs_snoc and_ops_simps len by (simp_all add: R_def)
  show "a \<noteq> n + k \<and> b \<noteq> n + k" if "(a, b) \<in> set (and_ops (take k es))"
  proof -
    have "wf_stream n (take k es)" using wf k by (simp add: wf_stream_def)
    then show ?thesis using and_ops_bound [of n "take k es" a b] that len by simp
  qed
  show "w < n + k \<and> live_at per es k w" if "w \<in> set (ev_reads (es ! k))"
    using that wf_stream_nth [OF wf k] live_at_read [OF k] by simp
qed

lemma sm_inv_step:
  fixes p :: "'m slot_mask"
  assumes inv: "sm_inv es outs s0 f0 k p" and k: "k < length es"
    and live: "live_state_ok es outs s0" and wf: "wf_stream (rs_num_inputs s0) es"
  shows "sm_inv es outs s0 f0 (Suc k) (sm_event (es ! k) p)"
proof -
  define n where "n = rs_num_inputs s0"
  define e where "e = es ! k"
  define per where "per = persists n es outs"
  define lg where "lg = (\<lambda>i. stream_share f0 (tp_pos f0 + i))"
  define R where "R = share_regs lg n (wslot s0) (take k es)"
  define M where "M = mask_regs n (minp s0) (take k es)"
  define ops where "ops = and_ops (take k es)"
  note I = inv [unfolded sm_inv_def Let_def, folded n_def, folded lg_def per_def, folded R_def M_def ops_def]
  define R' where "R' = share_regs lg n (wslot s0) (take (Suc k) es)"
  define M' where "M' = mask_regs n (minp s0) (take (Suc k) es)"
  define ops' where "ops' = and_ops (take (Suc k) es)"
  note st = stream_step [OF k wf, folded n_def e_def]
  have R': "R' = R(n + k := new_share lg e (length ops) R)"
    and M': "M' = M(n + k := new_mask e)" and ops': "ops' = ops @ and_pair e"
    unfolding R_def M_def ops_def R'_def M'_def ops'_def by (rule st(1), rule st(2), rule st(3))
  have rd: "w < n + k \<and> live_at per es k w" if "w \<in> set (ev_reads e)" for w by (rule st(5) [OF that])
  have opsb: "a \<noteq> n + k \<and> b \<noteq> n + k" if "(a, b) \<in> set ops" for a b by (rule st(4) [OF that [unfolded ops_def]])
  have nw: "rs_num_wires s0 = n + length es" "length (rs_persist s0) = n + length es"
    "\<And>w. w < n + length es \<Longrightarrow> rs_persist s0 ! w = per w" "last_use_ok n es (rs_last_use s0)"
    using live by (simp_all add: live_state_ok_def n_def per_def)
  obtain p1 slot p2 where ev:
    "alloc_slot (sm_wid p) p1 = (slot, p2)"
    "sm_s p1 = (sm_s p)\<lparr>rs_rep_a := rs_rep_a (sm_s p) @ map (\<lambda>(a, b). wslot (sm_s p) a) (and_pair e),
                        rs_rep_b := rs_rep_b (sm_s p) @ map (\<lambda>(a, b). wslot (sm_s p) b) (and_pair e)\<rparr>"
    "sm_freelist p1 = sm_freelist p" "sm_gi p1 = sm_gi p"
    "sm_pools (sm_event e p) = sm_pools (if ev_is_and e then snd (next_lambda_gamma p) else p)"
    "sm_s (sm_event e p) = sm_s (fold free_if_dead (remdups (ev_reads e))
       (put_slot slot (new_share (\<lambda>_. fst (next_lambda_gamma p)) e 0 (wslot (sm_s p))) (new_mask e) p2))"
    "sm_freelist (sm_event e p) = sm_freelist (fold free_if_dead (remdups (ev_reads e))
       (put_slot slot (new_share (\<lambda>_. fst (next_lambda_gamma p)) e 0 (wslot (sm_s p))) (new_mask e) p2))"
    "sm_wid (sm_event e p) = Suc (sm_wid p)"
    "sm_gi (sm_event e p) = sm_gi p + (if ev_is_gate e then 1 else 0)"
    "sm_ai (sm_event e p) = and_count e (sm_ai p)"
    by (rule sm_event_obtain [where p = p and e = e and i = 0]) blast
  have rdR: "wslot (sm_s p) w = R w" if "w \<in> set (ev_reads e)" for w
    using slots_inv_wslot [of _ "n + k" R M p w] I rd [OF that] by blast
  note lgx = next_lambda_gamma_ok [of f0 "length ops" p, OF _ surjective_pairing]
  have sh: "new_share (\<lambda>_. fst (next_lambda_gamma p)) e 0 (wslot (sm_s p)) = new_share lg e (length ops) R"
    using lgx(1) I rdR by (intro new_share_lg) (auto simp: lg_def)
  have inv1: "slots_inv (live_at per es k) (n + k) R M p1"
    using I ev(2,3) by (auto intro: slots_inv_reps)
  have m1: "n + k < length (rs_phys (sm_s p1))" using I k nw by (simp add: ev(2))
  have frame1: "sm_frame s0 (sm_s p1)" using I by (simp add: ev(2) sm_frame_upd(1))
  have wid: "sm_wid p = n + k" using I by simp
  let ?p3 = "put_slot slot (new_share lg e (length ops) R) (new_mask e) p2"
  note alloc = alloc_put_inv [OF inv1 m1 ev(1) [unfolded wid],
      where sh = "new_share lg e (length ops) R" and mb = "new_mask e"]
  note keeps = put_slot_keeps [OF ev(1) frame1, of "new_share lg e (length ops) R" "new_mask e"]
  have gi3: "sm_gi ?p3 = gate_index es k"
    using alloc_slot_frame(3) [of "n + k" p1] ev(1,4) I wid by (metis snd_conv put_slot_frame(3))
  have inv4: "slots_inv (live_at per es (Suc k)) (Suc (n + k)) R' M' (fold free_if_dead (remdups (ev_reads e)) ?p3)"
    unfolding per_def e_def
    by (rule frees_live) (use alloc(1) k rd nw gi3 sm_frame_sel(5,6) [OF keeps(1)] in \<open>simp_all add: R' M' per_def e_def\<close>)
  have s4: "sm_s (sm_event e p) = sm_s ?p3"
    "sm_freelist (sm_event e p) = sm_freelist (fold free_if_dead (remdups (ev_reads e)) ?p3)"
    using ev(6,7) by (simp_all add: sh)
  have inv5: "slots_inv (live_at per es (Suc k)) (n + Suc k) R' M' (sm_event e p)"
    using slots_inv_cong [OF inv4, of "sm_event e p" R' M'] s4 by simp
  have "rs_persist (sm_s p1) ! (n + k) = per (n + k)"
    using nw(3) [of "n + k"] k by (simp add: sm_frame_sel [OF frame1])
  then have safe: "slots_safe_upto n es outs (Suc k) (rs_phys (sm_s ?p3))"
    using I alloc(2,3) by (intro slots_safe_upto_Suc [of n es outs k "rs_phys (sm_s p)"]) (auto simp: per_def ev(2))
  have len_phys: "length (rs_phys (sm_s ?p3)) = rs_num_wires s0" using I keeps(2) by (simp add: ev(2))
  have rdx: "w \<noteq> n + k \<and> wslot (sm_s p) w = R w" if "w \<in> set (ev_reads e)" for w
    using rd [OF that] rdR [OF that] by simp
  have "map (\<lambda>(a, b). R a) ops @ map (\<lambda>(a, b). wslot (sm_s p) a) (and_pair e) = map (\<lambda>(a, b). R' a) ops'"
    "map (\<lambda>(a, b). R b) ops @ map (\<lambda>(a, b). wslot (sm_s p) b) (and_pair e) = map (\<lambda>(a, b). R' b) ops'"
    unfolding R' ops' by (rule operand_shares_snoc; use opsb rdx in blast)+
  then have reps: "rs_rep_a (sm_s ?p3) = map (\<lambda>(a, b). R' a) ops'" "rs_rep_b (sm_s ?p3) = map (\<lambda>(a, b). R' b) ops'"
    using I keeps(3,4) by (simp_all add: ev(2))
  have lg': "lg_inv f0 (length ops') (sm_event e p)"
    using lgx(2) I lg_inv_pools [OF ev(5)] by (auto simp: ops' length_and_pair)
  have ai: "sm_ai (sm_event e p) = length ops'"
    using ev(10) I by (simp add: ops' length_and_pair and_count_def)
  have gi: "sm_gi (sm_event e p) = gate_index es (Suc k)"
    using ev(9) I k by (simp add: gate_index_Suc e_def)
  show ?thesis
    unfolding sm_inv_def Let_def e_def [symmetric] n_def [symmetric] lg_def [symmetric] per_def [symmetric]
      R'_def [symmetric] M'_def [symmetric] ops'_def [symmetric]
    using inv5 safe len_phys reps lg' ai gi keeps(1) ev(8) wid by (simp add: s4)
qed

section \<open>The run of the pass\<close>

lemma load_inputs_sel [simp]:
  "rs_party (load_inputs w s) = rs_party s" "rs_Delta (load_inputs w s) = rs_Delta s"
  "rs_num_inputs (load_inputs w s) = rs_num_inputs s" "rs_num_ands (load_inputs w s) = rs_num_ands s"
  "rs_num_wires (load_inputs w s) = rs_num_wires s" "rs_last_use (load_inputs w s) = rs_last_use s"
  "rs_persist (load_inputs w s) = rs_persist s" "rs_mitc (load_inputs w s) = rs_mitc s"
  "rs_sigma (load_inputs w s) = rs_sigma s" "rs_num_slots (load_inputs w s) = rs_num_inputs s"
  "rs_M1_t (load_inputs w s) = rs_M1_t s" "rs_Lambda_AND (load_inputs w s) = rs_Lambda_AND s"
  by (simp_all add: load_inputs_def Let_def)

lemma live_state_ok_load [simp]: "live_state_ok es outs (load_inputs w s) = live_state_ok es outs s"
  by (simp add: live_state_ok_def)

lemma load_inputs_acc:
  assumes "x < rs_num_inputs s"
  shows "slot_of (load_inputs w s) x = x" "wslot (load_inputs w s) x = sw_bundle w ! x"
    "minp (load_inputs w s) x = sw_Lambda w ! x"
    "rs_party s = 1 \<Longrightarrow> lbl (load_inputs w s) x = sw_label0 w ! x"
    "rs_party s \<noteq> 1 \<Longrightarrow> evl (load_inputs w s) x = sw_eval_label w ! x"
proof -
  show "slot_of (load_inputs w s) x = x"
    using assms by (simp add: slot_of_def load_inputs_def Let_def nth_append)
  then show "wslot (load_inputs w s) x = sw_bundle w ! x" "minp (load_inputs w s) x = sw_Lambda w ! x"
    "rs_party s = 1 \<Longrightarrow> lbl (load_inputs w s) x = sw_label0 w ! x"
    "rs_party s \<noteq> 1 \<Longrightarrow> evl (load_inputs w s) x = sw_eval_label w ! x"
    using assms by (simp_all add: wslot_def minp_def lbl_def evl_def load_inputs_def Let_def)
qed

lemma sm_inv_init:
  assumes "live_state_ok es outs s"
  shows "sm_inv es outs (load_inputs w s) f0 0 (init_slot_mask (load_inputs w s) f0)"
proof -
  let ?s = "load_inputs w s" and ?n = "rs_num_inputs s"
  have nw: "?n \<le> rs_num_wires s" using assms by (simp add: live_state_ok_def)
  have phys: "rs_phys ?s ! x = int x" if "x < ?n" for x
    using that by (simp add: load_inputs_def Let_def nth_append)
  have len: "length (rs_phys ?s) = rs_num_wires s" "length (rs_wire_slot ?s) = ?n"
    "length (rs_mask_input ?s) = ?n"
    using nw by (simp_all add: load_inputs_def Let_def)
  have "slots_inv L ?n (wslot ?s) (minp ?s) (init_slot_mask ?s f0)" for L
    using phys len nw by (simp add: slots_inv_def init_slot_mask_def Let_def wslot_def minp_def slot_of_def)
  then show ?thesis
    using phys len sm_frame_upd(1) [of ?s ?s "[]" "[]"]
    by (simp add: sm_inv_def Let_def slots_safe_upto_def gate_index_def init_slot_mask_def lg_inv_def)
qed

lemma sm_inv_run:
  assumes "live_state_ok es outs s" and "wf_stream (rs_num_inputs s) es" and "k \<le> length es"
  shows "sm_inv es outs (load_inputs w s) f0 k
    (fold sm_event (take k es) (init_slot_mask (load_inputs w s) f0))"
  using assms(3)
proof (induction k)
  case 0
  then show ?case using sm_inv_init [OF assms(1)] by simp
next
  case (Suc k)
  then show ?case
    using sm_inv_step [of es outs "load_inputs w s" f0 k] assms(1,2)
    by (simp add: take_Suc_conv_app_nth)
qed

text \<open>
  The run state after the pass: a safe slot assignment whose persistent slots hold the shares of
  the register machine, and the operand shares of the AND gates.
\<close>

definition slots_ready ::
  "ev list \<Rightarrow> wire list \<Rightarrow> secure_wires \<Rightarrow> (nat \<Rightarrow> ashare) \<Rightarrow> 'm run_state \<Rightarrow> bool" where
  "slots_ready es outs w lg s \<longleftrightarrow>
     (let n = rs_num_inputs s; R = share_regs lg n (\<lambda>x. sw_bundle w ! x) es;
          M = mask_regs n (\<lambda>x. sw_Lambda w ! x) es; per = persists n es outs
      in live_state_ok es outs s \<and> slot_safe n es per (slot_of s) \<and>
         (\<forall>x < rs_num_wires s. slot_of s x < rs_num_slots s) \<and>
         length (rs_wire_slot s) = rs_num_slots s \<and> length (rs_mask_input s) = rs_num_slots s \<and>
         (rs_party s = 1 \<longrightarrow> length (rs_label_slot s) = rs_num_slots s) \<and>
         (rs_party s \<noteq> 1 \<longrightarrow> length (rs_eval_slot s) = rs_num_slots s) \<and>
         (\<forall>x < rs_num_wires s. per x \<longrightarrow> wslot s x = R x \<and> minp s x = M x) \<and>
         (\<forall>x < n. (rs_party s = 1 \<longrightarrow> lbl s x = sw_label0 w ! x) \<and>
                  (rs_party s \<noteq> 1 \<longrightarrow> evl s x = sw_eval_label w ! x)) \<and>
         rs_rep_a s = map (\<lambda>(a, b). R a) (and_ops es) \<and> rs_rep_b s = map (\<lambda>(a, b). R b) (and_ops es))"

lemma share_regs_cong:
  assumes "wf_stream n es" and "\<And>x. x < n \<Longrightarrow> f x = g x" and "x < n + length es"
  shows "share_regs lg n f es x = share_regs lg n g es x"
  using assms(1,3)
proof (induction es arbitrary: x rule: rev_induct)
  case Nil
  then show ?case using assms(2) by simp
next
  case (snoc e es)
  then have wf: "wf_stream n es" "\<forall>w \<in> set (ev_reads e). w < n + length es"
    by (simp_all add: wf_stream_snoc)
  have "new_share lg e (num_and_evs es) (share_regs lg n f es) =
      new_share lg e (num_and_evs es) (share_regs lg n g es)"
    using snoc.IH [OF wf(1)] wf(2) by (cases e) (simp_all add: new_share_def)
  then show ?case using snoc.IH [OF wf(1), of x] snoc.prems(2) by simp
qed

lemma mask_regs_cong:
  assumes "\<And>x. x < n \<Longrightarrow> f x = g x" and "x < n + length es"
  shows "mask_regs n f es x = mask_regs n g es x"
  using assms(2)
proof (induction es arbitrary: x rule: rev_induct)
  case Nil
  then show ?case using assms(1) by simp
next
  case (snoc e es)
  then show ?case by simp
qed

lemma commit_sizes_sel:
  assumes frame: "sm_frame (load_inputs w s) (sm_s p)" and ai: "sm_ai p = k"
  defines "s' \<equiv> sm_s (commit_sizes p)"
  shows "rs_phys s' = rs_phys (sm_s p)" "rs_wire_slot s' = rs_wire_slot (sm_s p)"
    "rs_mask_input s' = rs_mask_input (sm_s p)" "rs_num_slots s' = rs_num_slots (sm_s p)"
    "rs_party s' = rs_party s" "rs_Delta s' = rs_Delta s" "rs_num_inputs s' = rs_num_inputs s"
    "rs_num_wires s' = rs_num_wires s" "rs_num_ands s' = k" "rs_mitc s' = rs_mitc s"
    "rs_last_use s' = rs_last_use s" "rs_persist s' = rs_persist s"
    "rs_rep_a s' = rs_rep_a (sm_s p)" "rs_rep_b s' = rs_rep_b (sm_s p)"
    "rs_party s = 1 \<Longrightarrow> rs_label_slot s' = resize (rs_num_slots (sm_s p)) 0 (rs_label_slot (load_inputs w s))"
    "rs_party s \<noteq> 1 \<Longrightarrow> rs_eval_slot s' = resize (rs_num_slots (sm_s p)) 0 (rs_eval_slot (load_inputs w s))"
  using ai by (simp_all add: s'_def commit_sizes_def Let_def sm_frame_sel [OF frame])

text \<open>Slots that stay clear of live wires at every event make the assignment safe.\<close>

lemma slots_safe_slot:
  assumes safe: "slots_safe_upto n es outs (length es) ph" and pos: "\<And>x. x < n + length es \<Longrightarrow> 0 \<le> ph ! x"
    and slot: "\<And>x. slot x = nat (ph ! x)"
  shows "slot_safe n es (persists n es outs) slot"
  unfolding slot_safe_def
proof (intro conjI allI impI)
  fix k x assume k: "k < length es" and x: "x < n + k" and c: "persists n es outs (n + k) \<or> live_at (persists n es outs) es k x"
  have "ph ! (n + k) \<noteq> ph ! x"
    using safe k x c unfolding slots_safe_upto_def by blast
  then show "slot (n + k) \<noteq> slot x"
    using pos [of "n + k"] pos [of x] k x by (auto simp: slot)
qed (use safe in \<open>simp add: slots_safe_upto_def slot\<close>)

theorem slot_mask_ok:
  assumes live: "live_state_ok es outs s" and wf: "wf_stream (rs_num_inputs s) es"
    and src: "stream_of (rs_num_inputs s) src = (outs, es)"
    and run: "drive slot_mask_ops src (init_slot_mask (load_inputs w s) f0) = (outs', p)"
  defines "s' \<equiv> sm_s (commit_sizes p)"
  shows "slots_ready es outs w (\<lambda>i. stream_share f0 (tp_pos f0 + i)) s'"
    and "sm_fpre p = f0\<lparr>tp_pos := tp_pos f0 + lg_minted (num_and_evs es),
           tp_cots_minted := tp_cots_minted f0 \<or> 0 < num_and_evs es\<rparr>"
    and "rs_party s' = rs_party s \<and> rs_Delta s' = rs_Delta s \<and> rs_num_inputs s' = rs_num_inputs s \<and>
         rs_mitc s' = rs_mitc s"
proof -
  let ?s = "load_inputs w s" and ?n = "rs_num_inputs s" and ?per = "persists (rs_num_inputs s) es outs"
  let ?lg = "\<lambda>i. stream_share f0 (tp_pos f0 + i)"
  have "drive slot_mask_ops src (init_slot_mask ?s f0) = (outs, fold sm_event es (init_slot_mask ?s f0))"
    using slot_mask.drive_stream [of src "init_slot_mask ?s f0"] src by (simp add: init_slot_mask_def)
  then have p: "p = fold sm_event es (init_slot_mask ?s f0)" using run by simp
  have "sm_inv es outs ?s f0 (length es) p"
    using sm_inv_run [OF live wf, of "length es" w f0] by (simp add: p)
  note I = this [unfolded sm_inv_def Let_def, simplified]
  let ?R = "share_regs ?lg ?n (wslot ?s) es" and ?M = "mask_regs ?n (minp ?s) es"
  have inv: "slots_inv (live_at ?per es (length es)) (?n + length es) ?R ?M p"
    and safe: "slots_safe_upto ?n es outs (length es) (rs_phys (sm_s p))"
    and lg: "lg_inv f0 (num_and_evs es) p" and frame: "sm_frame ?s (sm_s p)"
    and ai: "sm_ai p = num_and_evs es" and lenp: "length (rs_phys (sm_s p)) = rs_num_wires s"
    and reps: "rs_rep_a (sm_s p) = map (\<lambda>(a, b). ?R a) (and_ops es)"
      "rs_rep_b (sm_s p) = map (\<lambda>(a, b). ?R b) (and_ops es)"
    using I by simp_all
  note s'_eq = commit_sizes_sel [OF frame ai, folded s'_def]
  show "sm_fpre p = f0\<lparr>tp_pos := tp_pos f0 + lg_minted (num_and_evs es),
           tp_cots_minted := tp_cots_minted f0 \<or> 0 < num_and_evs es\<rparr>"
    using lg by (simp add: lg_inv_def)
  show "rs_party s' = rs_party s \<and> rs_Delta s' = rs_Delta s \<and> rs_num_inputs s' = ?n \<and> rs_mitc s' = rs_mitc s"
    by (simp add: s'_eq)
  have nw: "rs_num_wires s = ?n + length es" using live by (simp add: live_state_ok_def)
  have live': "live_state_ok es outs s'" using live by (simp add: live_state_ok_def s'_eq)
  note II = inv [unfolded slots_inv_def Let_def]
  have slot: "slot_of s' x = nat (rs_phys (sm_s p) ! x)" for x by (simp add: slot_of_def s'_eq)
  have in_slot: "slot_of s' x = x" if "x < ?n" for x
    using safe that by (simp add: slot slots_safe_upto_def)
  have range: "rs_phys (sm_s p) ! x = int (slot_of s' x) \<and> slot_of s' x < rs_num_slots s'"
    if "x < rs_num_wires s" for x
  proof -
    have "0 \<le> rs_phys (sm_s p) ! x" "rs_phys (sm_s p) ! x < int (rs_num_slots (sm_s p))"
      using II that nw by simp_all
    then show ?thesis by (simp add: slot s'_eq nat_less_iff)
  qed
  have safe': "slot_safe ?n es ?per (slot_of s')"
    by (rule slots_safe_slot [OF safe _ slot]) (use II in simp)
  have n_le: "?n \<le> rs_num_slots s'"
  proof (cases "?n = 0")
    case False
    then have "?n - 1 < ?n" "?n - 1 < rs_num_wires s" using nw by linarith+
    then show ?thesis using range [of "?n - 1"] in_slot [of "?n - 1"] by linarith
  qed simp
  have Rc: "?R x = share_regs ?lg ?n (\<lambda>x. sw_bundle w ! x) es x" if "x < ?n + length es" for x
    using wf that by (intro share_regs_cong) (auto simp: load_inputs_acc)
  have Mc: "?M x = mask_regs ?n (\<lambda>x. sw_Lambda w ! x) es x" if "x < ?n + length es" for x
    using that by (intro mask_regs_cong) (auto simp: load_inputs_acc)
  have reps': "rs_rep_a s' = map (\<lambda>(a, b). share_regs ?lg ?n (\<lambda>x. sw_bundle w ! x) es a) (and_ops es)"
    "rs_rep_b s' = map (\<lambda>(a, b). share_regs ?lg ?n (\<lambda>x. sw_bundle w ! x) es b) (and_ops es)"
    using and_ops_bound [OF wf] Rc by (force simp: s'_eq reps)+
  have persist: "wslot s' x = share_regs ?lg ?n (\<lambda>x. sw_bundle w ! x) es x \<and>
      minp s' x = mask_regs ?n (\<lambda>x. sw_Lambda w ! x) es x" if "x < rs_num_wires s" "?per x" for x
    using II that nw Rc [of x] Mc [of x] by (simp add: wslot_def minp_def slot s'_eq live_at_def)
  have labels: "(rs_party s = 1 \<longrightarrow> lbl s' x = sw_label0 w ! x) \<and>
      (rs_party s \<noteq> 1 \<longrightarrow> evl s' x = sw_eval_label w ! x)" if "x < ?n" for x
    using that n_le in_slot [OF that]
    by (auto simp: lbl_def evl_def s'_eq resize_def nth_append load_inputs_def Let_def)
  show "slots_ready es outs w ?lg s'"
    unfolding slots_ready_def Let_def s'_eq(5,7,8)
  proof (intro conjI)
    show "length (rs_wire_slot s') = rs_num_slots s'" "length (rs_mask_input s') = rs_num_slots s'"
      using II by (simp_all add: s'_eq)
    show "rs_party s = 1 \<longrightarrow> length (rs_label_slot s') = rs_num_slots s'"
      "rs_party s \<noteq> 1 \<longrightarrow> length (rs_eval_slot s') = rs_num_slots s'"
      using n_le by (auto simp: s'_eq resize_def load_inputs_def Let_def)
  qed (use live' safe' range persist labels reps' in blast)+
qed

section \<open>Properties\<close>

text \<open>
  C13: slot reuse is safe. After the liveness pass and the slot pass over the gate stream of a
  source, the slot a gate's output is written to is not the slot of an earlier wire that is an
  input, an output of the source, or read by this gate or a later one; every slot lies in the
  arrays; and the operand shares of every AND gate were recorded before their slots could be reused.
\<close>

theorem slot_reuse_safe:
  fixes s :: "'m run_state"
  assumes "stream_of (rs_num_inputs s) src = (outs, es)" and "wf_stream (rs_num_inputs s) es"
    and "drive live_ops src (init_live s) = (o1, lp)"
    and "drive slot_mask_ops src (init_slot_mask (load_inputs w (lp_commit o1 lp s)) f) = (o2, p)"
  defines "s' \<equiv> sm_s (commit_sizes p)" and "n \<equiv> rs_num_inputs s"
    and "R \<equiv> share_regs (\<lambda>i. stream_share f (tp_pos f + i)) (rs_num_inputs s) ((!) (sw_bundle w)) es"
  shows "(\<forall>k < length es. \<forall>x < n + k.
        (x < n \<or> x \<in> set outs \<or> (\<exists>j < length es. k \<le> j \<and> x \<in> set (ev_reads (es ! j)))) \<longrightarrow>
        slot_of s' (n + k) \<noteq> slot_of s' x) \<and>
    (\<forall>x < n + length es. slot_of s' x < rs_num_slots s') \<and>
    length (rs_wire_slot s') = rs_num_slots s' \<and> length (rs_mask_input s') = rs_num_slots s' \<and>
    rs_rep_a s' = map (\<lambda>(a, b). R a) (and_ops es) \<and> rs_rep_b s' = map (\<lambda>(a, b). R b) (and_ops es)"
proof -
  note live = live_commit_ok [OF assms(1-3)]
  let ?s = "lp_commit o1 lp s"
  have n: "rs_num_inputs ?s = n" by (simp add: lp_commit_def n_def)
  have ok: "live_state_ok es outs ?s" using live by simp
  note S = slot_mask_ok [OF ok _ _ assms(4), unfolded n, OF assms(2,1) [folded n_def], folded s'_def]
  have ns: "rs_num_inputs s' = n" using S(3) by blast
  have safe: "slot_safe n es (persists n es outs) (slot_of s')" and nw: "rs_num_wires s' = n + length es"
    using S(1) ns by (simp_all add: slots_ready_def live_state_ok_def Let_def)
  have "slot_of s' (n + k) \<noteq> slot_of s' x"
    if "k < length es" "x < n + k" "x < n \<or> x \<in> set outs \<or> (\<exists>j < length es. k \<le> j \<and> x \<in> set (ev_reads (es ! j)))" for k x
  proof -
    have "live_at (persists n es outs) es k x" using that(3) by (auto simp: live_at_def persists_def)
    then show ?thesis using safe that(1,2) by (simp add: slot_safe_def)
  qed
  then show ?thesis
    using S(1) nw ns by (simp add: slots_ready_def Let_def R_def n_def [symmetric])
qed

theorem slot_reuse_safe_witness:
  "\<exists>o1 lp o2 p. drive live_ops (AndG 0 1 (\<lambda>w. Ret [w])) (init_live (init_run_state 1 7 2 (0 :: nat))) = (o1, lp) \<and>
     drive slot_mask_ops (AndG 0 1 (\<lambda>w. Ret [w]))
       (init_slot_mask (load_inputs empty_wires (lp_commit o1 lp (init_run_state 1 7 2 (0 :: nat))))
         (init_pool (\<lambda>_. 7) 1 40 [] (\<lambda>_. 0) (\<lambda>_. 0))) = (o2, p) \<and>
     slot_of (sm_s (commit_sizes p)) 2 \<noteq> slot_of (sm_s (commit_sizes p)) 0"
proof -
  let ?s = "init_run_state 1 7 2 (0 :: nat)" and ?b = "AndG 0 1 (\<lambda>w. Ret [w])"
  let ?f = "init_pool (\<lambda>_. 7) 1 40 [] (\<lambda>_. 0) (\<lambda>_. 0)"
  have n: "rs_num_inputs ?s = 2" by (simp add: init_run_state_def)
  have src: "stream_of (rs_num_inputs ?s) ?b = ([2], [EAnd 0 1])" unfolding n by simp
  have wf: "wf_stream (rs_num_inputs ?s) [EAnd 0 1]" unfolding n by (simp add: wf_stream_def)
  obtain o1 lp where l: "drive live_ops ?b (init_live ?s) = (o1, lp)" by (metis surj_pair)
  obtain o2 p where p: "drive slot_mask_ops ?b (init_slot_mask (load_inputs empty_wires (lp_commit o1 lp ?s)) ?f) = (o2, p)"
    by (metis surj_pair)
  have "slot_of (sm_s (commit_sizes p)) (2 + 0) \<noteq> slot_of (sm_s (commit_sizes p)) 0"
    using slot_reuse_safe [OF src wf l p] unfolding n by auto
  then show ?thesis using l p by auto
qed

end
