(* ===== verification/Garble.thy ===== *)
theory Garble
  imports Half_Gate Chunk_Stream Slot_Mask
begin

text \<open>
  Pass 2 of the garbler (\<^verbatim>\<open>AG2PCGarblePass\<close> of \<^verbatim>\<open>backend/pass_ctx.h\<close>):
  shares and zero labels of every wire, two ciphertexts and one parity bit per AND gate, staged in
  chunks that the sender task drains through the pipe. The pass over slots computes what a machine
  with one register per wire computes, and the chunks hold the rows of the AND gates in order.
\<close>

section \<open>The pass\<close>

record 'm garble_pass =
  gp_s :: "'m run_state"
  gp_wid :: nat
  gp_ai :: nat
  gp_pipe :: "stream_chunk pipe"
  gp_sent :: "stream_chunk list"   \<comment> \<open>what the sender task has written, chunk by chunk\<close>
  gp_cur :: "nat option"
  gp_c0 :: int
  gp_c1 :: int

definition init_garble :: "'m run_state \<Rightarrow> 'm garble_pass" where
  "init_garble st = \<lparr>gp_s = st, gp_wid = rs_num_inputs st, gp_ai = 0,
     gp_pipe = init_pipe 2 (init_chunk (rs_num_ands st)), gp_sent = [], gp_cur = None,
     gp_c0 = - 1, gp_c1 = - 1\<rparr>"

text \<open>
  The loop of the sender task until it would wait. It is run after each publish, one of the
  interleavings the pipe allows.
\<close>

function sender_loop :: "stream_chunk pipe \<Rightarrow> stream_chunk list \<Rightarrow> stream_chunk pipe \<times> stream_chunk list" where
  "sender_loop p sent =
     (case consumer_slot p of
        Some (Some i) \<Rightarrow> sender_loop (consumer_release p) (sent @ [pp_slots p ! i])
      | _ \<Rightarrow> (p, sent))"
  by pat_completeness auto
termination
  by (relation "measure (\<lambda>(p, sent). pp_count p)")
     (auto simp: consumer_slot_def consumer_release_def split: if_splits)

declare sender_loop.simps [simp del]

definition gp_run_sender :: "'m garble_pass \<Rightarrow> 'm garble_pass" where
  "gp_run_sender p = (case sender_loop (gp_pipe p) (gp_sent p) of (pipe, sent) \<Rightarrow>
     p\<lparr>gp_pipe := pipe, gp_sent := sent\<rparr>)"

definition gp_publish :: "'m garble_pass \<Rightarrow> 'm garble_pass" where
  "gp_publish p = gp_run_sender (p\<lparr>gp_pipe := producer_publish (gp_pipe p)\<rparr>)"

text \<open>\<^verbatim>\<open>cur = &pipe.producer_slot(); cur->n = 0;\<close>\<close>

definition gp_take_slot :: "'m garble_pass \<Rightarrow> 'm garble_pass" where
  "gp_take_slot p = (case producer_slot (gp_pipe p) of
     None \<Rightarrow> p\<lparr>gp_cur := None\<rparr>
   | Some i \<Rightarrow> p\<lparr>gp_cur := Some i,
       gp_pipe := write_slot i ((pp_slots (gp_pipe p) ! i)\<lparr>ck_n := 0\<rparr>) (gp_pipe p)\<rparr>)"

definition gp_begin :: "'m garble_pass \<Rightarrow> 'm garble_pass" where
  "gp_begin p = gp_take_slot p"

definition gp_end :: "'m garble_pass \<Rightarrow> 'm garble_pass" where
  "gp_end p =
     (let p = (case gp_cur p of
                 None \<Rightarrow> p
               | Some i \<Rightarrow> if ck_n (pp_slots (gp_pipe p) ! i) > 0 then gp_publish p else p)
      in gp_run_sender (p\<lparr>gp_pipe := producer_close (gp_pipe p)\<rparr>))"

definition gp_stage :: "row \<Rightarrow> 'm garble_pass \<Rightarrow> 'm garble_pass" where
  "gp_stage r p = (case gp_cur p of
     None \<Rightarrow> p
   | Some i \<Rightarrow>
      let c = stage_row r (pp_slots (gp_pipe p) ! i);
          p = p\<lparr>gp_pipe := write_slot i c (gp_pipe p)\<rparr>
      in if ck_n c = kBatch then gp_take_slot (gp_publish p) else p)"

definition gp_fresh_const :: "bool \<Rightarrow> 'm garble_pass \<Rightarrow> wire \<times> 'm garble_pass" where
  "gp_fresh_const v p =
     (let w = gp_wid p; s = set_wslot w zero_share (gp_s p);
          s = set_lbl w (if v then rs_Delta s else 0) s;
          p = p\<lparr>gp_wid := Suc w, gp_s := s\<rparr>
      in (w, if v then p\<lparr>gp_c1 := int w\<rparr> else p\<lparr>gp_c0 := int w\<rparr>))"

definition gp_public_bit :: "bool \<Rightarrow> 'm garble_pass \<Rightarrow> wire \<times> 'm garble_pass" where
  "gp_public_bit v p =
     (let c = (if v then gp_c1 p else gp_c0 p) in if c < 0 then gp_fresh_const v p else (nat c, p))"

definition gp_xor_gate :: "wire \<Rightarrow> wire \<Rightarrow> 'm garble_pass \<Rightarrow> wire \<times> 'm garble_pass" where
  "gp_xor_gate i0 i1 p =
     (let w = gp_wid p; s = gp_s p;
          sh = sh_xor (wslot s i0) (wslot s i1);
          lb = lbl s i0 XOR lbl s i1
      in (w, p\<lparr>gp_wid := Suc w, gp_s := set_lbl w lb (set_wslot w sh s)\<rparr>))"

definition gp_not_gate :: "wire \<Rightarrow> 'm garble_pass \<Rightarrow> wire \<times> 'm garble_pass" where
  "gp_not_gate i p =
     (let w = gp_wid p; s = gp_s p; sh = wslot s i; lb = lbl s i XOR rs_Delta s
      in (w, p\<lparr>gp_wid := Suc w, gp_s := set_lbl w lb (set_wslot w sh s)\<rparr>))"

definition gp_and_gate ::
  "('m, 'd) prims \<Rightarrow> wire \<Rightarrow> wire \<Rightarrow> 'm garble_pass \<Rightarrow> wire \<times> 'm garble_pass" where
  "gp_and_gate P in0 in1 p =
     (let w = gp_wid p; my_ai = gp_ai p; s = gp_s p;
          (G0, G1, ml_g0) = garble_row P (rs_mitc s) (rs_Delta s)
             (wslot s in0, lbl s in0) (wslot s in1, lbl s in1) (wslot s w) (rs_sigma s ! my_ai);
          s = set_lbl w ml_g0 (s\<lparr>rs_mitc := pr_adv P (rs_mitc s) 1\<rparr>)
      in (w, gp_stage (G0, G1, bbyte (LSB1 ml_g0)) (p\<lparr>gp_wid := Suc w, gp_ai := Suc my_ai, gp_s := s\<rparr>)))"

definition garble_ops :: "('m, 'd) prims \<Rightarrow> 'm garble_pass ctx_ops" where
  "garble_ops P = \<lparr>op_public_bit = gp_public_bit, op_and_gate = gp_and_gate P,
     op_xor_gate = gp_xor_gate, op_not_gate = gp_not_gate\<rparr>"

section \<open>The pass as an action per event\<close>

definition gp_event :: "('m, 'd) prims \<Rightarrow> ev \<Rightarrow> 'm garble_pass \<Rightarrow> 'm garble_pass" where
  "gp_event P e p = (case e of
      EConst v \<Rightarrow> snd (gp_fresh_const v p)
    | EAnd a b \<Rightarrow> snd (gp_and_gate P a b p)
    | EXor a b \<Rightarrow> snd (gp_xor_gate a b p)
    | ENot a \<Rightarrow> snd (gp_not_gate a p))"

lemma gp_stage_frame [simp]:
  "gp_s (gp_stage r p) = gp_s p" "gp_wid (gp_stage r p) = gp_wid p" "gp_ai (gp_stage r p) = gp_ai p"
  "gp_c0 (gp_stage r p) = gp_c0 p" "gp_c1 (gp_stage r p) = gp_c1 p"
  by (simp_all add: gp_stage_def gp_take_slot_def gp_publish_def gp_run_sender_def Let_def
      split: option.splits prod.splits)

interpretation garble: lockstep "garble_ops P" gp_wid gp_c0 gp_c1 "gp_event P" for P
  by unfold_locales
    (auto simp: garble_ops_def gp_event_def gp_public_bit_def gp_fresh_const_def gp_and_gate_def
      gp_xor_gate_def gp_not_gate_def Let_def case_prod_beta split: ev.splits)

section \<open>Staging\<close>

text \<open>The rows produced so far: those sent, then those in the current chunk.\<close>

definition gp_rows :: "'m garble_pass \<Rightarrow> row list" where
  "gp_rows p = concat (map chunk_rows (gp_sent p)) @
     (case gp_cur p of None \<Rightarrow> [] | Some i \<Rightarrow> chunk_rows (pp_slots (gp_pipe p) ! i))"

text \<open>
  The staging invariant, with \<open>a\<close> AND gates still to come: the pipe is drained, the producer owns
  the current chunk, which is not full, and full batches were sent.
\<close>

definition gp_staging :: "nat \<Rightarrow> nat \<Rightarrow> 'm garble_pass \<Rightarrow> bool" where
  "gp_staging cap a p \<longleftrightarrow>
     (\<exists>i. gp_cur p = Some i \<and> producer_slot (gp_pipe p) = Some i \<and> pp_count (gp_pipe p) = 0 \<and>
        length (pp_slots (gp_pipe p)) = 2 \<and> pp_head (gp_pipe p) < 2 \<and>
        (\<forall>c \<in> set (pp_slots (gp_pipe p)). chunk_ok cap c) \<and>
        ck_n (pp_slots (gp_pipe p) ! i) < kBatch \<and>
        (cap = kBatch \<or> ck_n (pp_slots (gp_pipe p) ! i) + a \<le> cap)) \<and>
     cap \<le> kBatch \<and> (\<forall>c \<in> set (gp_sent p). chunk_ok cap c \<and> ck_n c = kBatch)"

lemma sender_loop_one:
  assumes "pp_count q = 1"
  shows "sender_loop q sent = (consumer_release q, sent @ [pp_slots q ! pp_head q])"
proof -
  have "consumer_slot q = Some (Some (pp_head q))" using assms by (simp add: consumer_slot_def)
  moreover have "pp_count (consumer_release q) = 0" using assms by (simp add: consumer_release_def)
  moreover from this have "sender_loop (consumer_release q) s = (consumer_release q, s)" for s
    by (subst sender_loop.simps) (simp add: consumer_slot_def)
  ultimately show ?thesis by (subst sender_loop.simps) simp
qed

lemma sender_loop_empty: "pp_count q = 0 \<Longrightarrow> sender_loop q sent = (q, sent)"
  by (subst sender_loop.simps) (simp add: consumer_slot_def)

lemma gp_publish_drained:
  assumes "producer_slot (gp_pipe p) = Some i" "pp_count (gp_pipe p) = 0"
    "pp_head (gp_pipe p) < length (pp_slots (gp_pipe p))"
  shows "gp_publish p = p\<lparr>gp_pipe := consumer_release (producer_publish (gp_pipe p)),
           gp_sent := gp_sent p @ [pp_slots (gp_pipe p) ! i]\<rparr>"
proof -
  have "pp_head (gp_pipe p) = i" using assms by (auto simp: producer_slot_def split: if_splits)
  then show ?thesis
    using assms(2) sender_loop_one [of "producer_publish (gp_pipe p)" "gp_sent p"]
    by (simp add: gp_publish_def gp_run_sender_def producer_publish_def)
qed

lemma gp_stage_rows:
  assumes st: "gp_staging cap a p" and a: "0 < a"
  shows "gp_staging cap (a - 1) (gp_stage r p)" and "gp_rows (gp_stage r p) = gp_rows p @ [r]"
proof -
  obtain i where i: "gp_cur p = Some i" "producer_slot (gp_pipe p) = Some i" "pp_count (gp_pipe p) = 0"
    "length (pp_slots (gp_pipe p)) = 2" "pp_head (gp_pipe p) < 2"
    "\<forall>c \<in> set (pp_slots (gp_pipe p)). chunk_ok cap c"
    "ck_n (pp_slots (gp_pipe p) ! i) < kBatch"
    "cap = kBatch \<or> ck_n (pp_slots (gp_pipe p) ! i) + a \<le> cap"
    and cap: "cap \<le> kBatch" and sent: "\<forall>c \<in> set (gp_sent p). chunk_ok cap c \<and> ck_n c = kBatch"
    using st unfolding gp_staging_def by blast
  let ?slots = "pp_slots (gp_pipe p)" and ?c0 = "pp_slots (gp_pipe p) ! i"
  have hd: "pp_head (gp_pipe p) = i" "i < 2" using i by (auto simp: producer_slot_def split: if_splits)
  have c0: "chunk_ok cap ?c0" "ck_n ?c0 < cap" using i hd a cap by auto
  define c where "c = stage_row r ?c0"
  have c: "chunk_ok cap c" "chunk_rows c = chunk_rows ?c0 @ [r]" "ck_n c = Suc (ck_n ?c0)"
    using stage_row_ok [OF c0] chunk_rows_stage [OF c0] by (auto simp: c_def stage_row_def split: prod.splits)
  have set_c: "\<forall>d \<in> set (?slots[i := c]). chunk_ok cap d"
    using i(6) c(1) set_update_subset_insert [of ?slots i c] by blast
  let ?p1 = "p\<lparr>gp_pipe := write_slot i c (gp_pipe p)\<rparr>"
  show "gp_staging cap (a - 1) (gp_stage r p) " "gp_rows (gp_stage r p) = gp_rows p @ [r]"
  proof (atomize(full), cases "ck_n c = kBatch")
    case False
    have eq: "gp_stage r p = ?p1" using False by (simp add: gp_stage_def i(1) c_def Let_def)
    have "gp_staging cap (a - 1) ?p1"
      using i hd c set_c False a cap sent unfolding gp_staging_def
      by (auto simp: write_slot_def producer_slot_def)
    moreover have "gp_rows ?p1 = gp_rows p @ [r]"
      using i hd c by (simp add: gp_rows_def write_slot_def)
    ultimately show "gp_staging cap (a - 1) (gp_stage r p) \<and> gp_rows (gp_stage r p) = gp_rows p @ [r]"
      by (simp add: eq)
  next
    case True
    then have capB: "cap = kBatch" using c0 c cap by linarith
    let ?q = "consumer_release (producer_publish (write_slot i c (gp_pipe p)))"
    have pub: "gp_publish ?p1 = ?p1\<lparr>gp_pipe := ?q, gp_sent := gp_sent p @ [c]\<rparr>"
      using gp_publish_drained [of ?p1 i] i hd by (simp add: write_slot_def producer_slot_def)
    define j where "j = Suc i mod 2"
    have q: "pp_slots ?q = ?slots[i := c]" "pp_count ?q = 0" "pp_head ?q = j"
      using i hd by (simp_all add: consumer_release_def producer_publish_def write_slot_def j_def)
    have j: "j < 2" by (simp add: j_def)
    have qs: "producer_slot ?q = Some j" using q i j by (simp add: producer_slot_def)
    define d where "d = (pp_slots ?q ! j)\<lparr>ck_n := 0\<rparr>"
    have "chunk_ok cap (pp_slots ?q ! j)" using set_c q(1) j i(4) by (metis length_list_update nth_mem)
    then have d: "chunk_ok cap d" "ck_n d = 0" by (simp_all add: d_def chunk_ok_def)
    have eq: "gp_stage r p = ?p1\<lparr>gp_pipe := write_slot j d ?q, gp_sent := gp_sent p @ [c], gp_cur := Some j\<rparr>"
      using True pub qs by (simp add: gp_stage_def i(1) c_def [symmetric] Let_def gp_take_slot_def d_def)
    have set_d: "\<forall>x \<in> set ((pp_slots ?q)[j := d]). chunk_ok cap x"
      using set_c d(1) q(1) set_update_subset_insert [of "pp_slots ?q" j d] by auto
    have "gp_staging cap (a - 1) (gp_stage r p)"
      unfolding gp_staging_def eq using qs q d set_d capB sent c(1) True j i(4) kBatch_pos
      by (auto simp: write_slot_def producer_slot_def)
    moreover have "gp_rows (gp_stage r p) = gp_rows p @ [r]"
      using q j i(1,4) c(2) d(2) by (simp add: gp_rows_def eq write_slot_def chunk_rows_def)
    ultimately show "gp_staging cap (a - 1) (gp_stage r p) \<and> gp_rows (gp_stage r p) = gp_rows p @ [r]" ..
  qed
qed

section \<open>The pass as a machine over slots\<close>

text \<open>Per slot: share and zero label. Besides: difference, hash state, AND shares, counter, rows.\<close>

type_synonym 'm garble_aux = "block \<times> 'm \<times> ashare list \<times> nat \<times> row list"

definition gp_cell :: "'m garble_pass \<Rightarrow> nat \<Rightarrow> ashare \<times> block" where
  "gp_cell p i = (rs_wire_slot (gp_s p) ! i, rs_label_slot (gp_s p) ! i)"

definition gp_aux :: "'m garble_pass \<Rightarrow> 'm garble_aux" where
  "gp_aux p = (rs_Delta (gp_s p), rs_mitc (gp_s p), rs_sigma (gp_s p), gp_ai p, gp_rows p)"

definition gp_size_ok :: "'m garble_pass \<Rightarrow> nat \<Rightarrow> nat \<Rightarrow> bool" where
  "gp_size_ok p m a \<longleftrightarrow> length (rs_wire_slot (gp_s p)) = m \<and> length (rs_label_slot (gp_s p)) = m \<and>
     gp_staging (chunk_cap (rs_num_ands (gp_s p))) a p"

definition garble_and ::
  "('m, 'd) prims \<Rightarrow> 'm garble_aux \<Rightarrow> (wire \<Rightarrow> ashare \<times> block) \<Rightarrow> wire \<Rightarrow> wire \<Rightarrow> wire \<Rightarrow>
   block \<times> block \<times> block" where
  "garble_and P x f a b out = (case x of (D, m, sig, i, rows) \<Rightarrow>
     garble_row P m D (f a) (f b) (fst (f out)) (sig ! i))"

definition garble_cell ::
  "('m, 'd) prims \<Rightarrow> ev \<Rightarrow> 'm garble_aux \<Rightarrow> (wire \<Rightarrow> ashare \<times> block) \<Rightarrow> wire \<Rightarrow> ashare \<times> block" where
  "garble_cell P e x f out = (case e of
      EConst v \<Rightarrow> (zero_share, if v then fst x else 0)
    | EXor a b \<Rightarrow> (sh_xor (fst (f a)) (fst (f b)), snd (f a) XOR snd (f b))
    | ENot a \<Rightarrow> (fst (f a), snd (f a) XOR fst x)
    | EAnd a b \<Rightarrow> (fst (f out), snd (snd (garble_and P x f a b out))))"

definition garble_aux ::
  "('m, 'd) prims \<Rightarrow> ev \<Rightarrow> 'm garble_aux \<Rightarrow> (wire \<Rightarrow> ashare \<times> block) \<Rightarrow> wire \<Rightarrow> 'm garble_aux" where
  "garble_aux P e x f out = (case e of
      EAnd a b \<Rightarrow> (case x of (D, m, sig, i, rows) \<Rightarrow>
        case garble_and P x f a b out of (G0, G1, g) \<Rightarrow>
          (D, pr_adv P m 1, sig, Suc i, rows @ [(G0, G1, bbyte (LSB1 g))]))
    | _ \<Rightarrow> x)"

lemma garble_simps:
  "garble_cell P (EConst v) x f out = (zero_share, if v then fst x else 0)"
  "garble_cell P (EXor a b) x f out = (sh_xor (fst (f a)) (fst (f b)), snd (f a) XOR snd (f b))"
  "garble_cell P (ENot a) x f out = (fst (f a), snd (f a) XOR fst x)"
  "garble_cell P (EAnd a b) x f out = (fst (f out), snd (snd (garble_and P x f a b out)))"
  "\<not> ev_is_and e \<Longrightarrow> garble_aux P e x f out = x"
  "garble_and P (D, m, sig, i, rows) f a b out = (G0, G1, g) \<Longrightarrow>
   garble_aux P (EAnd a b) (D, m, sig, i, rows) f out =
     (D, pr_adv P m 1, sig, Suc i, rows @ [(G0, G1, bbyte (LSB1 g))])"
  by (cases e; simp add: garble_cell_def garble_aux_def)+

lemma gp_acc: "wslot (gp_s p) w = fst (gp_cell p (slot_of (gp_s p) w))"
  "lbl (gp_s p) w = snd (gp_cell p (slot_of (gp_s p) w))"
  "(wslot (gp_s p) w, lbl (gp_s p) w) = gp_cell p (slot_of (gp_s p) w)"
  by (simp_all add: wslot_def lbl_def gp_cell_def)

lemma slot_of_upd [simp]:
  "slot_of (set_wslot w x s) = slot_of s" "slot_of (set_lbl w l s) = slot_of s"
  "slot_of (set_evl w l s) = slot_of s" "slot_of (set_minp w y s) = slot_of s"
  "slot_of (s\<lparr>rs_mitc := m\<rparr>) = slot_of s"
  by (simp_all add: slot_of_def fun_eq_iff set_wslot_def set_lbl_def set_evl_def set_minp_def)

lemma gp_event_s:
  "gp_s (gp_event P e p) = (let w = gp_wid p; s = gp_s p;
      c = garble_cell P e (gp_aux p) (\<lambda>w. gp_cell p (slot_of s w)) w;
      s' = (if ev_is_and e then s\<lparr>rs_mitc := pr_adv P (rs_mitc s) 1\<rparr> else set_wslot w (fst c) s)
    in set_lbl w (snd c) s')"
  by (cases e)
     (simp_all add: gp_event_def gp_fresh_const_def gp_xor_gate_def gp_not_gate_def gp_and_gate_def
       garble_cell_def garble_and_def gp_aux_def gp_acc Let_def set_wslot_def case_prod_beta)

lemma gp_event_rest:
  "\<not> ev_is_and e \<Longrightarrow> gp_pipe (gp_event P e p) = gp_pipe p \<and> gp_sent (gp_event P e p) = gp_sent p \<and>
     gp_cur (gp_event P e p) = gp_cur p \<and> gp_ai (gp_event P e p) = gp_ai p"
  "gp_event P (EAnd a b) p = (case garble_and P (gp_aux p) (\<lambda>w. gp_cell p (slot_of (gp_s p) w)) a b (gp_wid p) of
     (G0, G1, g) \<Rightarrow> gp_stage (G0, G1, bbyte (LSB1 g))
       (p\<lparr>gp_wid := Suc (gp_wid p), gp_ai := Suc (gp_ai p),
          gp_s := set_lbl (gp_wid p) g ((gp_s p)\<lparr>rs_mitc := pr_adv P (rs_mitc (gp_s p)) 1\<rparr>)\<rparr>))"
  by (cases e; simp add: gp_event_def gp_fresh_const_def gp_xor_gate_def gp_not_gate_def Let_def)
     (simp add: gp_event_def gp_and_gate_def garble_and_def gp_aux_def gp_acc Let_def case_prod_beta)

lemma gp_rows_upd [simp]:
  "gp_rows (p\<lparr>gp_wid := w, gp_ai := i, gp_s := s\<rparr>) = gp_rows p"
  "gp_staging cap a (p\<lparr>gp_wid := w, gp_ai := i, gp_s := s\<rparr>) = gp_staging cap a p"
  by (simp_all add: gp_rows_def gp_staging_def split: option.split)

lemma gp_rows_cong:
  "gp_pipe p' = gp_pipe p \<Longrightarrow> gp_sent p' = gp_sent p \<Longrightarrow> gp_cur p' = gp_cur p \<Longrightarrow>
   gp_rows p' = gp_rows p \<and> gp_staging cap a p' = gp_staging cap a p"
  by (simp add: gp_rows_def gp_staging_def split: option.split)

lemma gp_event_frame:
  "rs_Delta (gp_s (gp_event P e p)) = rs_Delta (gp_s p)"
  "rs_sigma (gp_s (gp_event P e p)) = rs_sigma (gp_s p)"
  "rs_num_ands (gp_s (gp_event P e p)) = rs_num_ands (gp_s p)"
  "rs_mitc (gp_s (gp_event P e p)) = (if ev_is_and e then pr_adv P (rs_mitc (gp_s p)) 1 else rs_mitc (gp_s p))"
  "rs_mask_input (gp_s (gp_event P e p)) = rs_mask_input (gp_s p)"
  "rs_phys (gp_s (gp_event P e p)) = rs_phys (gp_s p)"
  "rs_party (gp_s (gp_event P e p)) = rs_party (gp_s p)"
  "rs_num_inputs (gp_s (gp_event P e p)) = rs_num_inputs (gp_s p)"
  "rs_M1_t (gp_s (gp_event P e p)) = rs_M1_t (gp_s p)"
  "rs_Lambda_AND (gp_s (gp_event P e p)) = rs_Lambda_AND (gp_s p)"
  by (simp_all add: gp_event_s Let_def set_lbl_def set_wslot_def)

interpretation garble_slots: slot_pass "gp_event P" gp_wid "\<lambda>p. slot_of (gp_s p)" gp_cell gp_aux
  gp_size_ok "garble_cell P" "garble_aux P" for P
proof (unfold_locales, goal_cases)
  case (1 e p)
  then show ?case by (rule garble.wid_emit)
next
  case (2 e p)
  then show ?case by (simp add: gp_event_s Let_def)
next
  case (3 p m a e)
  have "gp_staging cap (if ev_is_and e then a - 1 else a) (gp_event P e p)" if st: "gp_staging cap a p" for cap
  proof (cases "ev_is_and e")
    case True
    then obtain b c where e: "e = EAnd b c" by (cases e) auto
    show ?thesis
      using 3(3) st by (simp add: e gp_event_rest(2) gp_stage_rows(1) del: One_nat_def split: prod.splits)
  next
    case False
    then show ?thesis using st gp_event_rest(1) [OF False, of P p] gp_rows_cong by (metis (full_types))
  qed
  then show ?case
    using 3 by (simp add: gp_size_ok_def gp_event_frame) (simp add: gp_event_s Let_def set_lbl_def set_wslot_def)
next
  case (4 p m a e i)
  then show ?case
    by (cases e) (auto simp: gp_size_ok_def gp_cell_def gp_event_s Let_def set_lbl_def set_wslot_def
        slot_of_def garble_cell_def)
next
  case (5 p m a e)
  show ?case
  proof (cases "ev_is_and e")
    case True
    then obtain b c where e: "e = EAnd b c" by (cases e) auto
    have st: "gp_staging (chunk_cap (rs_num_ands (gp_s p))) a p" "0 < a"
      using 5 True by (simp_all add: gp_size_ok_def)
    obtain G0 G1 g where row: "garble_and P (gp_aux p) (\<lambda>w. gp_cell p (slot_of (gp_s p) w)) b c (gp_wid p) = (G0, G1, g)"
      by (metis prod_cases3)
    have "gp_rows (gp_event P e p) = gp_rows p @ [(G0, G1, bbyte (LSB1 g))]"
    proof -
      have "gp_staging (chunk_cap (rs_num_ands (gp_s p))) a (p\<lparr>gp_wid := w, gp_ai := i, gp_s := s\<rparr>)" for w i s
        using st by simp
      from gp_stage_rows(2) [OF this st(2)] show ?thesis by (simp add: e gp_event_rest(2) row)
    qed
    moreover have "gp_ai (gp_event P e p) = Suc (gp_ai p)"
      by (simp add: e gp_event_rest(2) row)
    ultimately show ?thesis
      using row gp_event_frame [of P e p]
      unfolding gp_aux_def [of "gp_event P e p"] by (simp add: garble_aux_def e) (simp add: gp_aux_def)
  next
    case False
    then show ?thesis
      using gp_event_rest(1) [OF False, of P p] gp_rows_cong [of "gp_event P e p" p]
      by (cases e) (simp_all add: gp_aux_def gp_event_frame garble_aux_def)
  qed
next
  case (6 e out f g x)
  then show ?case by (cases e) (auto simp: ev_deps_def garble_cell_def garble_and_def split: prod.splits)
next
  case (7 e out f g x)
  then show ?case by (cases e) (auto simp: ev_deps_def garble_aux_def garble_and_def split: prod.splits)
qed

section \<open>Begin and end\<close>

lemma gp_begin_ok:
  "gp_staging (chunk_cap (rs_num_ands s)) (rs_num_ands s) (gp_begin (init_garble s))"
  "gp_s (gp_begin (init_garble s)) = s" "gp_wid (gp_begin (init_garble s)) = rs_num_inputs s"
  "gp_c0 (gp_begin (init_garble s)) = - 1" "gp_c1 (gp_begin (init_garble s)) = - 1"
  "gp_ai (gp_begin (init_garble s)) = 0" "gp_rows (gp_begin (init_garble s)) = []"
proof -
  let ?c = "init_chunk (rs_num_ands s)"
  have c: "?c\<lparr>ck_n := 0\<rparr> = ?c" by (simp add: init_chunk_def)
  have bg: "gp_begin (init_garble s) = (init_garble s)\<lparr>gp_cur := Some 0,
      gp_pipe := write_slot 0 ?c (init_pipe 2 ?c)\<rparr>"
    by (simp add: gp_begin_def gp_take_slot_def init_garble_def producer_slot_def init_pipe_def c)
  have w: "write_slot 0 ?c (init_pipe 2 ?c) = init_pipe 2 ?c"
    by (simp add: write_slot_def init_pipe_def numeral_2_eq_2)
  show "gp_staging (chunk_cap (rs_num_ands s)) (rs_num_ands s) (gp_begin (init_garble s))"
    unfolding bg w gp_staging_def
    using init_chunk_ok [of "rs_num_ands s"] chunk_cap_le kBatch_pos
    by (auto simp: init_garble_def init_pipe_def producer_slot_def init_chunk_def chunk_cap_def)
  show "gp_s (gp_begin (init_garble s)) = s" "gp_wid (gp_begin (init_garble s)) = rs_num_inputs s"
    "gp_c0 (gp_begin (init_garble s)) = - 1" "gp_c1 (gp_begin (init_garble s)) = - 1"
    "gp_ai (gp_begin (init_garble s)) = 0" "gp_rows (gp_begin (init_garble s)) = []"
    unfolding bg w by (simp_all add: init_garble_def init_pipe_def gp_rows_def chunk_rows_def init_chunk_def)
qed

lemma gp_end_ok:
  assumes "gp_staging cap a p"
  shows "batched (gp_sent (gp_end p))" and "concat (map chunk_rows (gp_sent (gp_end p))) = gp_rows p"
    and "gp_s (gp_end p) = gp_s p"
proof -
  obtain i where i: "gp_cur p = Some i" "producer_slot (gp_pipe p) = Some i" "pp_count (gp_pipe p) = 0"
    "length (pp_slots (gp_pipe p)) = 2" "pp_head (gp_pipe p) < 2"
    "\<forall>c \<in> set (pp_slots (gp_pipe p)). chunk_ok cap c"
    "ck_n (pp_slots (gp_pipe p) ! i) < kBatch"
    and cap: "cap \<le> kBatch" and sent: "\<forall>c \<in> set (gp_sent p). chunk_ok cap c \<and> ck_n c = kBatch"
    using assms unfolding gp_staging_def by blast
  let ?c = "pp_slots (gp_pipe p) ! i"
  have "i < 2" using i by (auto simp: producer_slot_def split: if_splits)
  then have c: "chunk_ok cap ?c" using i(4,6) by auto
  have empty: "pp_count (producer_close q) = pp_count q" for q :: "stream_chunk pipe"
    by (simp add: producer_close_def)
  have e: "gp_sent (gp_end p) = gp_sent p @ (if ck_n ?c > 0 then [?c] else []) \<and> gp_s (gp_end p) = gp_s p"
  proof (cases "ck_n ?c > 0")
    case True
    have "gp_publish p = p\<lparr>gp_pipe := consumer_release (producer_publish (gp_pipe p)), gp_sent := gp_sent p @ [?c]\<rparr>"
      using gp_publish_drained [OF i(2,3)] i(4,5) by simp
    moreover have "pp_count (producer_close (consumer_release (producer_publish (gp_pipe p)))) = 0"
      using i(3) by (simp add: producer_close_def consumer_release_def producer_publish_def)
    ultimately show ?thesis
      using True i(1) by (simp add: gp_end_def Let_def gp_run_sender_def sender_loop_empty)
  next
    case False
    then show ?thesis
      using i(1,3) by (simp add: gp_end_def Let_def gp_run_sender_def sender_loop_empty empty)
  qed
  then show "gp_s (gp_end p) = gp_s p" by blast
  show "concat (map chunk_rows (gp_sent (gp_end p))) = gp_rows p"
    using e i(1) by (simp add: gp_rows_def chunk_rows_def)
  have "chunk_ok (length (ck_b d)) d" if "chunk_ok cap d" for d
    using that by (simp add: chunk_ok_def)
  then show "batched (gp_sent (gp_end p))"
    using e sent c i(7) kBatch_pos by (auto simp: batched_def butlast_append dest: in_set_butlastD)
qed

lemma batched_length:
  "batched cs \<Longrightarrow> length (concat (map chunk_rows cs)) = sum_list (map ck_n cs)"
  by (simp add: length_concat comp_def chunk_rows_def)

section \<open>The run\<close>

definition garble_regs ::
  "('m, 'd) prims \<Rightarrow> 'm run_state \<Rightarrow> ev list \<Rightarrow> (wire \<Rightarrow> ashare \<times> block) \<times> 'm garble_aux \<times> nat" where
  "garble_regs P s es = reg_run (garble_cell P) (garble_aux P) es
     (\<lambda>w. (wslot s w, lbl s w), (rs_Delta s, rs_mitc s, rs_sigma s, 0, []), rs_num_inputs s)"

text \<open>
  The garbler's pass from a run state with a safe slot assignment: what the persistent slots hold,
  and the chunks the sender wrote.
\<close>

theorem garble_run_ok:
  fixes s :: "'m run_state"
  assumes ready: "slots_ready es outs w lg s" and wf: "wf_stream (rs_num_inputs s) es"
    and party: "rs_party s = 1"
    and src: "stream_of (rs_num_inputs s) src = (outs, es)"
    and run: "drive (garble_ops P) src (gp_begin (init_garble s)) = (outs', p)"
  defines "s' \<equiv> gp_s (gp_end p)" and "sent \<equiv> gp_sent (gp_end p)"
    and "r \<equiv> garble_regs P s es"
  shows "\<forall>x < rs_num_wires s. persists (rs_num_inputs s) es outs x \<longrightarrow> (wslot s' x, lbl s' x) = fst r x"
    and "batched sent" and "concat (map chunk_rows sent) = snd (snd (snd (snd (fst (snd r)))))"
    and "rs_mask_input s' = rs_mask_input s \<and> rs_phys s' = rs_phys s \<and> rs_Delta s' = rs_Delta s \<and>
         rs_sigma s' = rs_sigma s \<and> rs_party s' = rs_party s \<and> rs_num_ands s' = rs_num_ands s \<and>
         rs_num_inputs s' = rs_num_inputs s \<and> rs_M1_t s' = rs_M1_t s \<and> rs_Lambda_AND s' = rs_Lambda_AND s"
    and "length (rs_wire_slot s') = rs_num_slots s"
proof -
  let ?p0 = "gp_begin (init_garble s)" and ?n = "rs_num_inputs s"
  let ?per = "persists (rs_num_inputs s) es outs"
  have "drive (garble_ops P) src ?p0 = (outs, fold (gp_event P) es ?p0)"
    using garble.drive_stream [of P src ?p0] src by (simp add: gp_begin_ok)
  then have p: "p = fold (gp_event P) es ?p0" using run by simp
  note R = ready [unfolded slots_ready_def Let_def]
  have live: "live_state_ok es outs s" using R by blast
  then have nw: "rs_num_wires s = ?n + length es" "rs_num_ands s = num_and_evs es"
    by (simp_all add: live_state_ok_def)
  have "gp_size_ok ?p0 (rs_num_slots s) (num_and_evs es)"
    using R party gp_begin_ok(1) [of s] nw by (simp add: gp_size_ok_def gp_begin_ok)
  moreover have "slot_of s x < rs_num_slots s" if "x < ?n + length es" for x
    using R that nw(1) by metis
  moreover have "?per (?n + k)" if "k < length es" "ev_is_and (es ! k)" for k
    using that by (simp add: persists_def)
  moreover have "slot_safe ?n es ?per (slot_of (gp_s ?p0))" using R by (simp add: gp_begin_ok)
  ultimately have ref: "gp_size_ok p (rs_num_slots s) 0 \<and> gp_aux p = fst (snd r) \<and>
      (\<forall>x < ?n + length es. ?per x \<longrightarrow> gp_cell p (slot_of s x) = fst r x)"
    using garble_slots.slots_refine_registers [of ?n es ?per ?p0 "rs_num_slots s" "length es" P] wf
    by (auto simp: p r_def garble_regs_def gp_begin_ok gp_cell_def wslot_def lbl_def gp_aux_def live_at_def
        num_and_evs_def)
  then have st: "gp_staging (chunk_cap (rs_num_ands (gp_s p))) 0 p" by (simp add: gp_size_ok_def)
  note e = gp_end_ok [OF st]
  show "batched sent" using e(1) by (simp add: sent_def)
  show "concat (map chunk_rows sent) = snd (snd (snd (snd (fst (snd r)))))"
  proof -
    have "fst (snd r) = gp_aux p" using ref by simp
    then show ?thesis using e(2) by (simp add: sent_def gp_aux_def)
  qed
  have fr: "rs_mask_input (gp_s p) = rs_mask_input s \<and> rs_phys (gp_s p) = rs_phys s \<and> rs_Delta (gp_s p) = rs_Delta s \<and>
      rs_sigma (gp_s p) = rs_sigma s \<and> rs_party (gp_s p) = rs_party s \<and> rs_num_ands (gp_s p) = rs_num_ands s \<and>
      rs_num_inputs (gp_s p) = ?n \<and> rs_M1_t (gp_s p) = rs_M1_t s \<and> rs_Lambda_AND (gp_s p) = rs_Lambda_AND s"
    unfolding p by (induction es rule: rev_induct) (simp_all add: gp_event_frame gp_begin_ok)
  then show "rs_mask_input s' = rs_mask_input s \<and> rs_phys s' = rs_phys s \<and> rs_Delta s' = rs_Delta s \<and>
         rs_sigma s' = rs_sigma s \<and> rs_party s' = rs_party s \<and> rs_num_ands s' = rs_num_ands s \<and>
         rs_num_inputs s' = rs_num_inputs s \<and> rs_M1_t s' = rs_M1_t s \<and> rs_Lambda_AND s' = rs_Lambda_AND s"
    by (simp add: s'_def e(3))
  have "slot_of s' = slot_of s" using fr by (simp add: slot_of_def fun_eq_iff s'_def e(3))
  then show "\<forall>x < rs_num_wires s. ?per x \<longrightarrow> (wslot s' x, lbl s' x) = fst r x"
    using ref nw(1) by (simp add: s'_def e(3) gp_acc)
  show "length (rs_wire_slot s') = rs_num_slots s"
    using ref by (simp add: s'_def e(3) gp_size_ok_def)
qed

end
