(* ===== verification/Evaluate.thy ===== *)
theory Evaluate
  imports Half_Gate Chunk_Stream Slot_Mask
begin

text \<open>
  Pass 2 of the evaluator (\<^verbatim>\<open>AG2PCEvaluatePass\<close> of \<^verbatim>\<open>backend/pass_ctx.h\<close>): it
  consumes the ciphertext chunks of the receiver task, derives the label and the opened mask of
  every wire, and builds its half of the check values. The pass over slots computes what a machine
  with one register per wire computes, reading the rows of the stream in order.
\<close>

section \<open>The pass\<close>

record 'm eval_pass =
  ep_s :: "'m run_state"
  ep_wid :: nat
  ep_ai :: nat
  ep_pipe :: "stream_chunk pipe"
  ep_io :: "byte list"      \<comment> \<open>what \<^verbatim>\<open>recv_io\<close> still delivers\<close>
  ep_base :: nat            \<comment> \<open>\<^verbatim>\<open>recv_base\<close> of the receiver task\<close>
  ep_cur :: "nat option"
  ep_loc :: nat
  ep_fault :: bool          \<comment> \<open>set where the code would dereference a null chunk\<close>
  ep_c0 :: int
  ep_c1 :: int

definition init_eval :: "'m run_state \<Rightarrow> byte list \<Rightarrow> 'm eval_pass" where
  "init_eval st io = \<lparr>ep_s = st, ep_wid = rs_num_inputs st, ep_ai = 0,
     ep_pipe = init_pipe 2 (init_chunk (rs_num_ands st)), ep_io = io, ep_base = 0, ep_cur = None,
     ep_loc = 0, ep_fault = False, ep_c0 = - 1, ep_c1 = - 1\<rparr>"

text \<open>
  One round of the receiver task; it is run when the consumer would wait, one of the interleavings
  the pipe allows.
\<close>

definition ep_receive :: "'m eval_pass \<Rightarrow> 'm eval_pass" where
  "ep_receive p =
     (if ep_base p < rs_num_ands (ep_s p) then
        (case producer_slot (ep_pipe p) of
           None \<Rightarrow> p
         | Some i \<Rightarrow>
             let n = min kBatch (rs_num_ands (ep_s p) - ep_base p);
                 (c, io) = recv_chunk n (pp_slots (ep_pipe p) ! i) (ep_io p)
             in p\<lparr>ep_pipe := producer_publish (write_slot i c (ep_pipe p)), ep_io := io,
                  ep_base := ep_base p + n\<rparr>)
      else p\<lparr>ep_pipe := producer_close (ep_pipe p)\<rparr>)"

definition ep_release :: "'m eval_pass \<Rightarrow> 'm eval_pass" where
  "ep_release p = (case ep_cur p of None \<Rightarrow> p | Some _ \<Rightarrow> p\<lparr>ep_pipe := consumer_release (ep_pipe p)\<rparr>)"

definition ep_next_chunk :: "'m eval_pass \<Rightarrow> 'm eval_pass" where
  "ep_next_chunk p =
     (if (case ep_cur p of None \<Rightarrow> True | Some i \<Rightarrow> ep_loc p = ck_n (pp_slots (ep_pipe p) ! i)) then
        (let p = ep_release p;
             p = (if consumer_slot (ep_pipe p) = None then ep_receive p else p)
         in case consumer_slot (ep_pipe p) of
              Some (Some i) \<Rightarrow> p\<lparr>ep_cur := Some i, ep_loc := 0\<rparr>
            | _ \<Rightarrow> p\<lparr>ep_cur := None, ep_loc := 0, ep_fault := True\<rparr>)
      else p)"

definition ep_row :: "'m eval_pass \<Rightarrow> row" where
  "ep_row p = (case ep_cur p of
     None \<Rightarrow> (0, 0, 0)
   | Some i \<Rightarrow> let c = pp_slots (ep_pipe p) ! i
              in (ck_G c ! (2 * ep_loc p), ck_G c ! (2 * ep_loc p + 1), ck_b c ! ep_loc p))"

definition ep_end :: "'m eval_pass \<Rightarrow> 'm eval_pass" where
  "ep_end p = ep_release p"

definition ep_fresh_const :: "bool \<Rightarrow> 'm eval_pass \<Rightarrow> wire \<times> 'm eval_pass" where
  "ep_fresh_const v p =
     (let w = ep_wid p; s = set_minp w (bbyte v) (set_evl w 0 (set_wslot w zero_share (ep_s p)));
          p = p\<lparr>ep_wid := Suc w, ep_s := s\<rparr>
      in (w, if v then p\<lparr>ep_c1 := int w\<rparr> else p\<lparr>ep_c0 := int w\<rparr>))"

definition ep_public_bit :: "bool \<Rightarrow> 'm eval_pass \<Rightarrow> wire \<times> 'm eval_pass" where
  "ep_public_bit v p =
     (let c = (if v then ep_c1 p else ep_c0 p) in if c < 0 then ep_fresh_const v p else (nat c, p))"

definition ep_xor_gate :: "wire \<Rightarrow> wire \<Rightarrow> 'm eval_pass \<Rightarrow> wire \<times> 'm eval_pass" where
  "ep_xor_gate i0 i1 p =
     (let w = ep_wid p; s = ep_s p;
          sh = sh_xor (wslot s i0) (wslot s i1); ev = evl s i0 XOR evl s i1; mi = minp s i0 XOR minp s i1
      in (w, p\<lparr>ep_wid := Suc w, ep_s := set_minp w mi (set_evl w ev (set_wslot w sh s))\<rparr>))"

definition ep_not_gate :: "wire \<Rightarrow> 'm eval_pass \<Rightarrow> wire \<times> 'm eval_pass" where
  "ep_not_gate i p =
     (let w = ep_wid p; s = ep_s p; sh = wslot s i; ev = evl s i; mi = minp s i XOR 1
      in (w, p\<lparr>ep_wid := Suc w, ep_s := set_minp w mi (set_evl w ev (set_wslot w sh s))\<rparr>))"

definition ep_and_gate ::
  "('m, 'd) prims \<Rightarrow> wire \<Rightarrow> wire \<Rightarrow> 'm eval_pass \<Rightarrow> wire \<times> 'm eval_pass" where
  "ep_and_gate P in0 in1 p =
     (let w = ep_wid p; my_ai = ep_ai p;
          p = ep_next_chunk (p\<lparr>ep_wid := Suc w, ep_ai := Suc my_ai\<rparr>);
          s = ep_s p; (G0, G1, b) = ep_row p;
          La = nz (minp s in0); Lb = nz (minp s in1); sb = rs_sigma s ! my_ai;
          t = eval_label_row P (rs_mitc s) (wslot s in0, evl s in0, La) (wslot s in1, evl s in1, Lb)
                (wslot s w) sb G0 G1;
          Lg = nz (b XOR bbyte (LSB1 t));
          m = eval_check_row (rs_Delta s) (wslot s in0, La) (wslot s in1, Lb) (wslot s w) sb Lg;
          s = set_minp w (bbyte Lg) (set_evl w t (s\<lparr>rs_mitc := pr_adv P (rs_mitc s) 1\<rparr>));
          s = s\<lparr>rs_Lambda_AND := (rs_Lambda_AND s)[my_ai := bbyte Lg], rs_M1_t := (rs_M1_t s)[my_ai := m]\<rparr>
      in (w, p\<lparr>ep_s := s, ep_loc := Suc (ep_loc p)\<rparr>))"

definition eval_ops :: "('m, 'd) prims \<Rightarrow> 'm eval_pass ctx_ops" where
  "eval_ops P = \<lparr>op_public_bit = ep_public_bit, op_and_gate = ep_and_gate P,
     op_xor_gate = ep_xor_gate, op_not_gate = ep_not_gate\<rparr>"

section \<open>The pass as an action per event\<close>

definition ep_event :: "('m, 'd) prims \<Rightarrow> ev \<Rightarrow> 'm eval_pass \<Rightarrow> 'm eval_pass" where
  "ep_event P e p = (case e of
      EConst v \<Rightarrow> snd (ep_fresh_const v p)
    | EAnd a b \<Rightarrow> snd (ep_and_gate P a b p)
    | EXor a b \<Rightarrow> snd (ep_xor_gate a b p)
    | ENot a \<Rightarrow> snd (ep_not_gate a p))"

lemma ep_release_frame [simp]:
  "ep_s (ep_release p) = ep_s p" "ep_wid (ep_release p) = ep_wid p"
  "ep_ai (ep_release p) = ep_ai p" "ep_c0 (ep_release p) = ep_c0 p" "ep_c1 (ep_release p) = ep_c1 p"
  by (simp_all add: ep_release_def split: option.splits)

lemma ep_receive_frame [simp]:
  "ep_s (ep_receive p) = ep_s p" "ep_wid (ep_receive p) = ep_wid p"
  "ep_ai (ep_receive p) = ep_ai p" "ep_c0 (ep_receive p) = ep_c0 p" "ep_c1 (ep_receive p) = ep_c1 p"
  by (simp_all add: ep_receive_def Let_def split: option.splits prod.splits)

lemma ep_next_chunk_frame [simp]:
  "ep_s (ep_next_chunk p) = ep_s p" "ep_wid (ep_next_chunk p) = ep_wid p"
  "ep_ai (ep_next_chunk p) = ep_ai p" "ep_c0 (ep_next_chunk p) = ep_c0 p" "ep_c1 (ep_next_chunk p) = ep_c1 p"
  by (simp_all add: ep_next_chunk_def Let_def split: option.split)

interpretation eval: lockstep "eval_ops P" ep_wid ep_c0 ep_c1 "ep_event P" for P
  by unfold_locales
    (auto simp: eval_ops_def ep_event_def ep_public_bit_def ep_fresh_const_def ep_and_gate_def
      ep_xor_gate_def ep_not_gate_def Let_def case_prod_beta split: ev.splits)

section \<open>Reading the stream\<close>

text \<open>The rows not yet consumed: the rest of the current chunk, then what the receiver will deliver.\<close>

definition ep_rows :: "'m eval_pass \<Rightarrow> row list" where
  "ep_rows p = (case ep_cur p of None \<Rightarrow> [] | Some i \<Rightarrow> drop (ep_loc p) (chunk_rows (pp_slots (ep_pipe p) ! i))) @
     stream_rows (rs_num_ands (ep_s p) - ep_base p) (ep_io p)"

text \<open>
  The reading invariant with \<open>a\<close> AND gates still to come: the pipe holds the current chunk only, and
  there are exactly \<open>a\<close> rows left.
\<close>

definition ep_reading :: "nat \<Rightarrow> 'm eval_pass \<Rightarrow> bool" where
  "ep_reading a p \<longleftrightarrow>
     (let q = ep_pipe p; N = rs_num_ands (ep_s p) in
      length (pp_slots q) = 2 \<and> pp_head q < 2 \<and> \<not> pp_closed q \<and>
      (\<forall>c \<in> set (pp_slots q). chunk_ok (chunk_cap N) c) \<and> ep_base p \<le> N \<and> \<not> ep_fault p \<and>
      (case ep_cur p of
         None \<Rightarrow> pp_count q = 0 \<and> a = N - ep_base p
       | Some i \<Rightarrow> pp_count q = 1 \<and> i = pp_head q \<and> ep_loc p \<le> ck_n (pp_slots q ! i) \<and>
           a = ck_n (pp_slots q ! i) - ep_loc p + (N - ep_base p)))"

lemma ep_receive_ok:
  assumes q: "length (pp_slots (ep_pipe p)) = 2" "pp_head (ep_pipe p) < 2" "pp_count (ep_pipe p) = 0"
    "\<not> pp_closed (ep_pipe p)" "\<forall>c \<in> set (pp_slots (ep_pipe p)). chunk_ok (chunk_cap (rs_num_ands (ep_s p))) c"
    and b: "ep_base p < rs_num_ands (ep_s p)" and nf: "\<not> ep_fault p"
  defines "N \<equiv> rs_num_ands (ep_s p)"
  defines "i \<equiv> pp_head (ep_pipe p)"
  defines "p' \<equiv> (ep_receive p)\<lparr>ep_cur := Some i, ep_loc := 0\<rparr>"
  shows "consumer_slot (ep_pipe (ep_receive p)) = Some (Some i)"
    and "ep_reading (N - ep_base p) p'" and "ep_rows p' = stream_rows (N - ep_base p) (ep_io p)"
    and "0 < ck_n (pp_slots (ep_pipe p') ! i)"
proof -
  let ?q = "ep_pipe p"
  let ?n = "min kBatch (N - ep_base p)"
  obtain c io where c: "recv_chunk ?n (pp_slots ?q ! i) (ep_io p) = (c, io)" by (metis surj_pair)
  have i2: "i < 2" using q by (simp add: i_def)
  have ps: "producer_slot ?q = Some i" using q by (simp add: producer_slot_def i_def)
  have eq: "ep_receive p = p\<lparr>ep_pipe := producer_publish (write_slot i c ?q), ep_io := io,
      ep_base := ep_base p + ?n\<rparr>"
    using b ps c by (simp add: ep_receive_def N_def)
  let ?q' = "producer_publish (write_slot i c ?q)"
  have q': "pp_slots ?q' = (pp_slots ?q)[i := c]" "pp_head ?q' = i" "pp_count ?q' = 1" "\<not> pp_closed ?q'"
    using q by (simp_all add: producer_publish_def write_slot_def i_def)
  have n: "0 < ?n" "?n \<le> chunk_cap N"
    using b kBatch_pos by (simp_all add: N_def chunk_cap_def)
  have "chunk_ok (chunk_cap N) (pp_slots ?q ! i)" using q i2 by (simp add: N_def)
  then have cok: "chunk_ok (chunk_cap N) c" "ck_n c = ?n"
    using recv_chunk_sel(2) [where cap = "chunk_cap N" and c = "pp_slots ?q ! i" and n = ?n and io = "ep_io p"]
      recv_chunk_sel(1) [where c = "pp_slots ?q ! i" and n = ?n and io = "ep_io p"] n(2)
    by (simp_all add: c)
  have set_c: "\<forall>d \<in> set ((pp_slots ?q)[i := c]). chunk_ok (chunk_cap N) d"
    using q(5) cok(1) set_update_subset_insert [of "pp_slots ?q" i c] by (auto simp: N_def)
  show "consumer_slot (ep_pipe (ep_receive p)) = Some (Some i)"
    using q' by (simp add: eq consumer_slot_def)
  have p': "ep_cur p' = Some i" "ep_loc p' = 0" "ep_pipe p' = ?q'" "ep_io p' = io"
    "ep_base p' = ep_base p + ?n" "ep_s p' = ep_s p" "ep_fault p' = ep_fault p"
    by (simp_all add: p'_def eq)
  have nth: "pp_slots ?q' ! i = c" using q' q(1) i2 by simp
  show "0 < ck_n (pp_slots (ep_pipe p') ! i)" using nth cok n by (simp add: p')
  have "ep_base p + ?n \<le> N" "ck_n c + (N - (ep_base p + ?n)) = N - ep_base p"
    using b cok(2) by (auto simp: N_def)
  then show "ep_reading (N - ep_base p) p'"
    using q q' i2 set_c nf nth by (simp add: ep_reading_def Let_def p' N_def)
  have "stream_rows (N - ep_base p) (ep_io p) = chunk_rows c @ stream_rows (N - ep_base p - ?n) io"
  proof -
    obtain c2 io2 where c2: "recv_chunk ?n (init_chunk 0) (ep_io p) = (c2, io2)" by (metis surj_pair)
    have "chunk_rows c2 = chunk_rows c" "io2 = io"
      using recv_chunk_sel(3,4) [where n = ?n and c = "init_chunk 0" and io = "ep_io p" and d = "pp_slots ?q ! i"]
      by (simp_all add: c c2)
    then show ?thesis using n(1) c2 by (subst stream_rows.simps) (auto simp: Let_def)
  qed
  then show "ep_rows p' = stream_rows (N - ep_base p) (ep_io p)"
    using nth by (simp add: ep_rows_def p' N_def)
qed

lemma ep_next_chunk_ok:
  assumes rd: "ep_reading a p" and a: "0 < a"
  defines "p' \<equiv> ep_next_chunk p"
  shows "ep_reading a p'" and "ep_rows p' = ep_rows p"
    and "\<exists>i. ep_cur p' = Some i \<and> ep_loc p' < ck_n (pp_slots (ep_pipe p') ! i)"
proof -
  let ?q = "ep_pipe p" and ?N = "rs_num_ands (ep_s p)"
  have R: "length (pp_slots ?q) = 2" "pp_head ?q < 2" "\<not> pp_closed ?q"
    "\<forall>c \<in> set (pp_slots ?q). chunk_ok (chunk_cap ?N) c" "ep_base p \<le> ?N" "\<not> ep_fault p"
    using rd by (simp_all add: ep_reading_def Let_def)
  show "ep_reading a p'" "ep_rows p' = ep_rows p"
    "\<exists>i. ep_cur p' = Some i \<and> ep_loc p' < ck_n (pp_slots (ep_pipe p') ! i)"
  proof (atomize(full), cases "ep_cur p")
    case None
    then have c0: "pp_count ?q = 0" "a = ?N - ep_base p" using rd by (simp_all add: ep_reading_def Let_def)
    have cs: "consumer_slot ?q = None" using c0 R by (simp add: consumer_slot_def)
    note rec = ep_receive_ok [of p, OF R(1,2) c0(1) R(3,4) _ R(6)]
    have b: "ep_base p < ?N" using c0(2) a by simp
    have "p' = (ep_receive p)\<lparr>ep_cur := Some (pp_head ?q), ep_loc := 0\<rparr>"
      using None cs rec(1) [OF b] by (simp add: p'_def ep_next_chunk_def ep_release_def Let_def)
    then show "ep_reading a p' \<and> ep_rows p' = ep_rows p \<and>
        (\<exists>i. ep_cur p' = Some i \<and> ep_loc p' < ck_n (pp_slots (ep_pipe p') ! i))"
      using rec(2-4) [OF b] None c0(2) by (simp add: ep_rows_def)
  next
    case (Some i)
    then have S: "pp_count ?q = 1" "i = pp_head ?q" "ep_loc p \<le> ck_n (pp_slots ?q ! i)"
      "a = ck_n (pp_slots ?q ! i) - ep_loc p + (?N - ep_base p)"
      using rd by (auto simp: ep_reading_def Let_def)
    show "ep_reading a p' \<and> ep_rows p' = ep_rows p \<and>
        (\<exists>i. ep_cur p' = Some i \<and> ep_loc p' < ck_n (pp_slots (ep_pipe p') ! i))"
    proof (cases "ep_loc p = ck_n (pp_slots ?q ! i)")
      case False
      then have "p' = p" by (simp add: p'_def ep_next_chunk_def Some)
      then show ?thesis using rd Some S False by simp
    next
      case True
      let ?p1 = "p\<lparr>ep_pipe := consumer_release ?q\<rparr>"
      have q1: "pp_slots (consumer_release ?q) = pp_slots ?q" "pp_count (consumer_release ?q) = 0"
        "pp_head (consumer_release ?q) < 2" "\<not> pp_closed (consumer_release ?q)"
        using R S by (simp_all add: consumer_release_def)
      have cs: "consumer_slot (consumer_release ?q) = None" using q1 by (simp add: consumer_slot_def)
      have b: "ep_base p < ?N" using S(4) True a by simp
      note rec = ep_receive_ok [of ?p1, simplified, OF _ q1(3,2,4) _ b R(6), unfolded q1(1), OF R(1,4)]
      have "p' = (ep_receive ?p1)\<lparr>ep_cur := Some (pp_head (consumer_release ?q)), ep_loc := 0\<rparr>"
        using Some True cs rec(1) by (simp add: p'_def ep_next_chunk_def ep_release_def Let_def)
      moreover have "drop (ep_loc p) (chunk_rows (pp_slots ?q ! i)) = []"
        using True by (simp add: chunk_rows_def)
      ultimately show ?thesis
        using rec(2-4) Some S(4) True by (simp add: ep_rows_def)
    qed
  qed
qed

lemma ep_row_take:
  assumes rd: "ep_reading a p" and c: "ep_cur p = Some i" "ep_loc p < ck_n (pp_slots (ep_pipe p) ! i)"
  shows "ep_rows p = ep_row p # ep_rows (p\<lparr>ep_loc := Suc (ep_loc p)\<rparr>)"
    and "ep_reading (a - 1) (p\<lparr>ep_loc := Suc (ep_loc p)\<rparr>)"
proof -
  let ?c = "pp_slots (ep_pipe p) ! i"
  have "drop (ep_loc p) (chunk_rows ?c) = chunk_rows ?c ! ep_loc p # drop (Suc (ep_loc p)) (chunk_rows ?c)"
    using c(2) by (intro Cons_nth_drop_Suc [symmetric]) (simp add: chunk_rows_def)
  moreover have "chunk_rows ?c ! ep_loc p = ep_row p" using c by (simp add: chunk_rows_def ep_row_def Let_def)
  ultimately show "ep_rows p = ep_row p # ep_rows (p\<lparr>ep_loc := Suc (ep_loc p)\<rparr>)"
    using c(1) by (simp add: ep_rows_def)
  show "ep_reading (a - 1) (p\<lparr>ep_loc := Suc (ep_loc p)\<rparr>)"
    using rd c by (auto simp: ep_reading_def Let_def)
qed

section \<open>The pass as a machine over slots\<close>

text \<open>Per slot: share, label, opened mask. Besides: difference, hash state, AND shares, counter, rows
  to come, check values, opened AND masks.\<close>

type_synonym 'm eval_aux = "block \<times> 'm \<times> ashare list \<times> nat \<times> row list \<times> block list \<times> byte list"

definition ep_cell :: "'m eval_pass \<Rightarrow> nat \<Rightarrow> ashare \<times> block \<times> byte" where
  "ep_cell p i = (rs_wire_slot (ep_s p) ! i, rs_eval_slot (ep_s p) ! i, rs_mask_input (ep_s p) ! i)"

definition ep_aux :: "'m eval_pass \<Rightarrow> 'm eval_aux" where
  "ep_aux p = (rs_Delta (ep_s p), rs_mitc (ep_s p), rs_sigma (ep_s p), ep_ai p, ep_rows p,
     rs_M1_t (ep_s p), rs_Lambda_AND (ep_s p))"

definition ep_size_ok :: "'m eval_pass \<Rightarrow> nat \<Rightarrow> nat \<Rightarrow> bool" where
  "ep_size_ok p m a \<longleftrightarrow> length (rs_wire_slot (ep_s p)) = m \<and> length (rs_eval_slot (ep_s p)) = m \<and>
     length (rs_mask_input (ep_s p)) = m \<and> ep_reading a p"

text \<open>Label, opened mask and check value of one AND.\<close>

definition eval_and ::
  "('m, 'd) prims \<Rightarrow> block \<times> 'm \<Rightarrow> ashare \<Rightarrow> row \<Rightarrow> (wire \<Rightarrow> ashare \<times> block \<times> byte) \<Rightarrow>
   wire \<Rightarrow> wire \<Rightarrow> wire \<Rightarrow> block \<times> bool \<times> block" where
  "eval_and P Dm sb r f a b out =
     (let (D, m) = Dm; (G0, G1, bb) = r; (sa, ea, ma) = f a; (sb1, eb, mb) = f b; La = nz ma; Lb = nz mb;
          t = eval_label_row P m (sa, ea, La) (sb1, eb, Lb) (fst (f out)) sb G0 G1;
          Lg = nz (bb XOR bbyte (LSB1 t))
      in (t, Lg, eval_check_row D (sa, La) (sb1, Lb) (fst (f out)) sb Lg))"

definition eval_gate ::
  "('m, 'd) prims \<Rightarrow> 'm eval_aux \<Rightarrow> (wire \<Rightarrow> ashare \<times> block \<times> byte) \<Rightarrow> wire \<Rightarrow> wire \<Rightarrow> wire \<Rightarrow>
   block \<times> bool \<times> block" where
  "eval_gate P x f a b out = (case x of (D, m, sig, i, rows, M1, LA) \<Rightarrow>
     eval_and P (D, m) (sig ! i) (hd rows) f a b out)"

definition eval_cell ::
  "('m, 'd) prims \<Rightarrow> ev \<Rightarrow> 'm eval_aux \<Rightarrow> (wire \<Rightarrow> ashare \<times> block \<times> byte) \<Rightarrow> wire \<Rightarrow> ashare \<times> block \<times> byte" where
  "eval_cell P e x f out = (case e of
      EConst v \<Rightarrow> (zero_share, 0, bbyte v)
    | EXor a b \<Rightarrow> (sh_xor (fst (f a)) (fst (f b)), fst (snd (f a)) XOR fst (snd (f b)),
                  snd (snd (f a)) XOR snd (snd (f b)))
    | ENot a \<Rightarrow> (fst (f a), fst (snd (f a)), snd (snd (f a)) XOR 1)
    | EAnd a b \<Rightarrow> (case eval_gate P x f a b out of (t, Lg, m) \<Rightarrow> (fst (f out), t, bbyte Lg)))"

definition eval_aux ::
  "('m, 'd) prims \<Rightarrow> ev \<Rightarrow> 'm eval_aux \<Rightarrow> (wire \<Rightarrow> ashare \<times> block \<times> byte) \<Rightarrow> wire \<Rightarrow> 'm eval_aux" where
  "eval_aux P e x f out = (case e of
      EAnd a b \<Rightarrow> (case x of (D, m, sig, i, rows, M1, LA) \<Rightarrow>
        case eval_gate P x f a b out of (t, Lg, chk) \<Rightarrow>
          (D, pr_adv P m 1, sig, Suc i, tl rows, M1[i := chk], LA[i := bbyte Lg]))
    | _ \<Rightarrow> x)"

lemma eval_simps:
  "eval_cell P (EConst v) x f out = (zero_share, 0, bbyte v)"
  "eval_cell P (EXor a b) x f out = (sh_xor (fst (f a)) (fst (f b)), fst (snd (f a)) XOR fst (snd (f b)),
     snd (snd (f a)) XOR snd (snd (f b)))"
  "eval_cell P (ENot a) x f out = (fst (f a), fst (snd (f a)), snd (snd (f a)) XOR 1)"
  "eval_cell P (EAnd a b) x f out = (fst (f out), fst (eval_gate P x f a b out),
     bbyte (fst (snd (eval_gate P x f a b out))))"
  "\<not> ev_is_and e \<Longrightarrow> eval_aux P e x f out = x"
  "eval_gate P (D, m, sig, i, rows, M1, LA) f a b out = (t, Lg, chk) \<Longrightarrow>
   eval_aux P (EAnd a b) (D, m, sig, i, rows, M1, LA) f out =
     (D, pr_adv P m 1, sig, Suc i, tl rows, M1[i := chk], LA[i := bbyte Lg])"
  by (cases e; simp add: eval_cell_def eval_aux_def case_prod_beta)+

lemma ep_acc: "wslot (ep_s p) w = fst (ep_cell p (slot_of (ep_s p) w))"
  "evl (ep_s p) w = fst (snd (ep_cell p (slot_of (ep_s p) w)))"
  "minp (ep_s p) w = snd (snd (ep_cell p (slot_of (ep_s p) w)))"
  by (simp_all add: wslot_def evl_def minp_def ep_cell_def)

lemma slot_of_eval_upd [simp]:
  "slot_of (set_wslot w x s) = slot_of s"
  "slot_of (set_evl w l s) = slot_of s" "slot_of (set_minp w y s) = slot_of s"
  "slot_of (s\<lparr>rs_mitc := m\<rparr>) = slot_of s"
  "slot_of (s\<lparr>rs_Lambda_AND := la, rs_M1_t := m1\<rparr>) = slot_of s"
  by (simp_all add: slot_of_def fun_eq_iff set_wslot_def set_evl_def set_minp_def)

lemma ep_reading_frame [simp]:
  "ep_s (p\<lparr>ep_wid := w, ep_ai := i\<rparr>) = ep_s p"
  "ep_reading a (p\<lparr>ep_wid := w, ep_ai := i\<rparr>) = ep_reading a p"
  "ep_rows (p\<lparr>ep_wid := w, ep_ai := i\<rparr>) = ep_rows p"
  by (simp_all add: ep_reading_def ep_rows_def Let_def split: option.split)

lemma ep_reading_state:
  "rs_num_ands s = rs_num_ands (ep_s p) \<Longrightarrow>
   ep_reading a (p\<lparr>ep_s := s, ep_loc := l\<rparr>) = ep_reading a (p\<lparr>ep_loc := l\<rparr>)"
  "rs_num_ands s = rs_num_ands (ep_s p) \<Longrightarrow>
   ep_rows (p\<lparr>ep_s := s, ep_loc := l\<rparr>) = ep_rows (p\<lparr>ep_loc := l\<rparr>)"
  by (simp_all add: ep_reading_def ep_rows_def Let_def split: option.split)

text \<open>One AND: the chunk is advanced, the first outstanding row is consumed.\<close>

lemma ep_and_event:
  fixes P :: "('m, 'd) prims" and b c :: wire
  assumes rd: "ep_reading a p" and a: "0 < a"
  defines "q \<equiv> ep_next_chunk (p\<lparr>ep_wid := Suc (ep_wid p), ep_ai := Suc (ep_ai p)\<rparr>)" and "s \<equiv> ep_s p"
  defines "g \<equiv> eval_gate P (ep_aux p) (\<lambda>w. ep_cell p (slot_of s w)) b c (ep_wid p)"
  shows "ep_event P (EAnd b c) p = q\<lparr>ep_s := (set_minp (ep_wid p) (bbyte (fst (snd g)))
            (set_evl (ep_wid p) (fst g) (s\<lparr>rs_mitc := pr_adv P (rs_mitc s) 1\<rparr>)))
              \<lparr>rs_Lambda_AND := (rs_Lambda_AND s)[ep_ai p := bbyte (fst (snd g))],
               rs_M1_t := (rs_M1_t s)[ep_ai p := snd (snd g)]\<rparr>, ep_loc := Suc (ep_loc q)\<rparr>"
    and "ep_rows p = ep_row q # ep_rows (q\<lparr>ep_loc := Suc (ep_loc q)\<rparr>)"
    and "ep_reading (a - 1) (q\<lparr>ep_loc := Suc (ep_loc q)\<rparr>)"
proof -
  let ?p1 = "p\<lparr>ep_wid := Suc (ep_wid p), ep_ai := Suc (ep_ai p)\<rparr>"
  have rd1: "ep_reading a ?p1" using rd by simp
  obtain i where i: "ep_cur q = Some i" "ep_loc q < ck_n (pp_slots (ep_pipe q) ! i)"
    using ep_next_chunk_ok(3) [OF rd1 a] by (auto simp: q_def)
  have rq: "ep_reading a q" "ep_rows q = ep_rows p"
    using ep_next_chunk_ok(1,2) [OF rd1 a] by (simp_all add: q_def)
  show rows: "ep_rows p = ep_row q # ep_rows (q\<lparr>ep_loc := Suc (ep_loc q)\<rparr>)"
    using ep_row_take(1) [OF rq(1) i] rq(2) by simp
  show "ep_reading (a - 1) (q\<lparr>ep_loc := Suc (ep_loc q)\<rparr>)" by (rule ep_row_take(2) [OF rq(1) i])
  have hd: "hd (ep_rows p) = ep_row q" using rows by simp
  have sq: "ep_s q = ep_s p" by (simp add: q_def)
  obtain G0 G1 bb where r: "ep_row q = (G0, G1, bb)" by (metis prod_cases3)
  show "ep_event P (EAnd b c) p = q\<lparr>ep_s := (set_minp (ep_wid p) (bbyte (fst (snd g)))
            (set_evl (ep_wid p) (fst g) (s\<lparr>rs_mitc := pr_adv P (rs_mitc s) 1\<rparr>)))
              \<lparr>rs_Lambda_AND := (rs_Lambda_AND s)[ep_ai p := bbyte (fst (snd g))],
               rs_M1_t := (rs_M1_t s)[ep_ai p := snd (snd g)]\<rparr>, ep_loc := Suc (ep_loc q)\<rparr>"
    using r hd sq
    by (simp add: ep_event_def ep_and_gate_def q_def [symmetric] g_def eval_gate_def eval_and_def
        ep_aux_def Let_def ep_acc [of p] case_prod_beta s_def set_minp_def set_evl_def slot_of_def)
qed

text \<open>The other gates.\<close>

lemma ep_linear_event:
  fixes P :: "('m, 'd) prims" and p :: "'m eval_pass"
  assumes "\<not> ev_is_and e"
  defines "s \<equiv> ep_s p"
  defines "c \<equiv> eval_cell P e (ep_aux p) (\<lambda>w. ep_cell p (slot_of s w)) (ep_wid p)"
  shows "ep_s (ep_event P e p) = set_minp (ep_wid p) (snd (snd c)) (set_evl (ep_wid p) (fst (snd c))
           (set_wslot (ep_wid p) (fst c) s))"
    and "ep_reading a (ep_event P e p) = ep_reading a p" and "ep_rows (ep_event P e p) = ep_rows p"
    and "ep_ai (ep_event P e p) = ep_ai p"
proof -
  show "ep_s (ep_event P e p) = set_minp (ep_wid p) (snd (snd c)) (set_evl (ep_wid p) (fst (snd c))
           (set_wslot (ep_wid p) (fst c) s))"
    using assms(1) by (cases e) (simp_all add: ep_event_def ep_fresh_const_def ep_xor_gate_def ep_not_gate_def
        eval_cell_def c_def ep_acc s_def Let_def)
  have same: "ep_pipe (ep_event P e p) = ep_pipe p" "ep_io (ep_event P e p) = ep_io p"
    "ep_base (ep_event P e p) = ep_base p" "ep_cur (ep_event P e p) = ep_cur p"
    "ep_loc (ep_event P e p) = ep_loc p" "ep_fault (ep_event P e p) = ep_fault p"
    "rs_num_ands (ep_s (ep_event P e p)) = rs_num_ands (ep_s p)"
    "ep_ai (ep_event P e p) = ep_ai p"
    using assms(1) by (cases e; simp add: ep_event_def ep_fresh_const_def ep_xor_gate_def ep_not_gate_def
        Let_def set_minp_def set_evl_def set_wslot_def)+
  then show "ep_reading a (ep_event P e p) = ep_reading a p" "ep_rows (ep_event P e p) = ep_rows p"
    "ep_ai (ep_event P e p) = ep_ai p"
    by (simp_all only: ep_reading_def ep_rows_def)
qed

interpretation eval_slots: slot_pass "ep_event P" ep_wid "\<lambda>p. slot_of (ep_s p)" ep_cell ep_aux
  ep_size_ok "eval_cell P" "eval_aux P" for P
proof (unfold_locales, goal_cases)
  case (1 e p)
  then show ?case by (rule eval.wid_emit)
next
  case (2 e p)
  show ?case
  proof (cases "ev_is_and e")
    case True
    then obtain b c where e: "e = EAnd b c" by (cases e) auto
    show ?thesis
      by (simp add: e ep_event_def ep_and_gate_def Let_def case_prod_beta)
  qed (simp add: ep_linear_event(1))
next
  case (3 p m a e)
  show ?case
  proof (cases "ev_is_and e")
    case True
    then obtain b c where e: "e = EAnd b c" by (cases e) auto
    have rd: "ep_reading a p" "0 < a" using 3 True by (simp_all add: ep_size_ok_def)
    show ?thesis
      using 3 ep_and_event(3) [OF rd]
      by (simp add: ep_and_event(1) [OF rd, where P = P and b = b and c = c] e ep_size_ok_def set_minp_def
          set_evl_def ep_reading_state)
  next
    case False
    then show ?thesis
      using 3 by (simp add: ep_size_ok_def ep_linear_event) (simp add: set_minp_def set_evl_def set_wslot_def)
  qed
next
  case (4 p m a e i)
  show ?case
  proof (cases "ev_is_and e")
    case True
    then obtain b c where e: "e = EAnd b c" by (cases e) auto
    have rd: "ep_reading a p" "0 < a" using 4 True by (simp_all add: ep_size_ok_def)
    show ?thesis
      using 4(1,2)
      by (auto simp: ep_and_event(1) [OF rd, where P = P and b = b and c = c] e ep_size_ok_def set_minp_def
          set_evl_def ep_cell_def slot_of_def eval_cell_def case_prod_beta)
  next
    case False
    then show ?thesis
      using 4(1,2) by (auto simp: ep_size_ok_def ep_linear_event(1) ep_cell_def set_minp_def set_evl_def
          set_wslot_def slot_of_def)
  qed
next
  case (5 p m a e)
  show ?case
  proof (cases "ev_is_and e")
    case True
    then obtain b c where e: "e = EAnd b c" by (cases e) auto
    have rd: "ep_reading a p" "0 < a" using 5 True by (simp_all add: ep_size_ok_def)
    let ?q = "ep_next_chunk (p\<lparr>ep_wid := Suc (ep_wid p), ep_ai := Suc (ep_ai p)\<rparr>)"
    show ?thesis
      using ep_and_event(2) [OF rd]
      by (simp add: ep_and_event(1) [OF rd, where P = P and b = b and c = c] e ep_aux_def eval_aux_def
          set_minp_def set_evl_def case_prod_beta ep_reading_state)
  next
    case False
    then show ?thesis
      by (cases e) (simp_all add: ep_aux_def eval_aux_def ep_linear_event set_minp_def set_evl_def set_wslot_def)
  qed
next
  case (6 e out f g x)
  then show ?case
    by (cases e) (auto simp: ev_deps_def eval_cell_def eval_gate_def eval_and_def Let_def split: prod.splits)
next
  case (7 e out f g x)
  then show ?case
    by (cases e) (auto simp: ev_deps_def eval_aux_def eval_gate_def eval_and_def Let_def split: prod.splits)
qed

section \<open>The run\<close>

lemma init_eval_ok:
  "ep_reading (rs_num_ands s) (init_eval s io)" "ep_rows (init_eval s io) = stream_rows (rs_num_ands s) io"
  "ep_s (init_eval s io) = s" "ep_wid (init_eval s io) = rs_num_inputs s" "ep_ai (init_eval s io) = 0"
  "ep_c0 (init_eval s io) = - 1" "ep_c1 (init_eval s io) = - 1"
  using init_chunk_ok [of "rs_num_ands s"]
  by (auto simp: init_eval_def ep_reading_def ep_rows_def init_pipe_def)

definition eval_regs ::
  "('m, 'd) prims \<Rightarrow> 'm run_state \<Rightarrow> row list \<Rightarrow> ev list \<Rightarrow>
   (wire \<Rightarrow> ashare \<times> block \<times> byte) \<times> 'm eval_aux \<times> nat" where
  "eval_regs P s rows es = reg_run (eval_cell P) (eval_aux P) es
     (\<lambda>w. (wslot s w, evl s w, minp s w),
      (rs_Delta s, rs_mitc s, rs_sigma s, 0, rows, rs_M1_t s, rs_Lambda_AND s), rs_num_inputs s)"

lemma ep_event_frame:
  "rs_party (ep_s (ep_event P e p)) = rs_party (ep_s p)" "rs_phys (ep_s (ep_event P e p)) = rs_phys (ep_s p)"
  "rs_Delta (ep_s (ep_event P e p)) = rs_Delta (ep_s p)"
  "rs_num_ands (ep_s (ep_event P e p)) = rs_num_ands (ep_s p)"
  by (cases e; simp add: ep_event_def ep_fresh_const_def ep_xor_gate_def ep_not_gate_def ep_and_gate_def
      Let_def case_prod_beta set_minp_def set_evl_def set_wslot_def)+

text \<open>
  The evaluator's pass from a run state with a safe slot assignment: what the persistent slots hold
  at the end, the check values and opened masks; no null chunk is dereferenced.
\<close>

theorem eval_run_ok:
  fixes s :: "'m run_state"
  assumes ready: "slots_ready es outs w lg s" and wf: "wf_stream (rs_num_inputs s) es"
    and party: "rs_party s \<noteq> 1"
    and src: "stream_of (rs_num_inputs s) src = (outs, es)"
    and run: "drive (eval_ops P) src (init_eval s io) = (outs', p)"
  defines "s' \<equiv> ep_s (ep_end p)"
    and "r \<equiv> eval_regs P s (stream_rows (rs_num_ands s) io) es"
  shows "\<forall>x < rs_num_wires s. persists (rs_num_inputs s) es outs x \<longrightarrow>
      (wslot s' x, evl s' x, minp s' x) = fst r x"
    and "(rs_M1_t s', rs_Lambda_AND s') = snd (snd (snd (snd (snd (fst (snd r))))))"
    and "\<not> ep_fault p"
    and "rs_party s' = rs_party s \<and> rs_phys s' = rs_phys s \<and> rs_Delta s' = rs_Delta s \<and>
         rs_num_ands s' = rs_num_ands s"
proof -
  let ?p0 = "init_eval s io" and ?n = "rs_num_inputs s"
  let ?per = "persists (rs_num_inputs s) es outs"
  have "drive (eval_ops P) src ?p0 = (outs, fold (ep_event P) es ?p0)"
    using eval.drive_stream [of P src ?p0] src by (simp add: init_eval_ok)
  then have p: "p = fold (ep_event P) es ?p0" using run by simp
  note R = ready [unfolded slots_ready_def Let_def]
  have live: "live_state_ok es outs s" using R by blast
  then have nw: "rs_num_wires s = ?n + length es" "rs_num_ands s = num_and_evs es"
    by (simp_all add: live_state_ok_def)
  have "ep_size_ok ?p0 (rs_num_slots s) (num_and_evs es)"
    using R party init_eval_ok(1) [of s io] nw by (simp add: ep_size_ok_def init_eval_ok)
  moreover have "slot_of s x < rs_num_slots s" if "x < ?n + length es" for x
    using R that nw(1) by metis
  moreover have "?per (?n + k)" if "k < length es" "ev_is_and (es ! k)" for k
    using that by (simp add: persists_def)
  moreover have "slot_safe ?n es ?per (slot_of (ep_s ?p0))" using R by (simp add: init_eval_ok)
  ultimately have ref: "ep_size_ok p (rs_num_slots s) 0 \<and> ep_aux p = fst (snd r) \<and>
      (\<forall>x < ?n + length es. ?per x \<longrightarrow> ep_cell p (slot_of s x) = fst r x)"
    using eval_slots.slots_refine_registers [of ?n es ?per ?p0 "rs_num_slots s" "length es" P] wf
    by (auto simp: p r_def eval_regs_def init_eval_ok ep_cell_def wslot_def evl_def minp_def ep_aux_def live_at_def
        num_and_evs_def)
  have s': "s' = ep_s p" by (simp add: s'_def ep_end_def)
  have fr: "rs_party (ep_s p) = rs_party s \<and> rs_phys (ep_s p) = rs_phys s \<and> rs_Delta (ep_s p) = rs_Delta s \<and>
      rs_num_ands (ep_s p) = rs_num_ands s"
    unfolding p by (induction es rule: rev_induct) (simp_all add: ep_event_frame init_eval_ok)
  then show "rs_party s' = rs_party s \<and> rs_phys s' = rs_phys s \<and> rs_Delta s' = rs_Delta s \<and>
         rs_num_ands s' = rs_num_ands s" by (simp add: s')
  have "slot_of s' = slot_of s" using fr by (simp add: slot_of_def fun_eq_iff s')
  then show "\<forall>x < rs_num_wires s. ?per x \<longrightarrow> (wslot s' x, evl s' x, minp s' x) = fst r x"
    using ref nw(1) by (simp add: s' ep_acc)
  have "fst (snd r) = ep_aux p" using ref by simp
  then show "(rs_M1_t s', rs_Lambda_AND s') = snd (snd (snd (snd (snd (fst (snd r))))))"
    by (simp add: s' ep_aux_def)
  show "\<not> ep_fault p" using ref by (simp add: ep_size_ok_def ep_reading_def Let_def)
qed

end
