(* ===== verification/Gamma_Check.thy ===== *)
theory Gamma_Check
  imports Half_Gate Slot_Mask
begin

text \<open>
  Pass 3 of the garbler (\<^verbatim>\<open>AG2PCGammaCheckPass\<close> of \<^verbatim>\<open>backend/pass_ctx.h\<close>):
  with the opened AND masks received from the evaluator it propagates the masks of all wires and
  recomputes the check values.
\<close>

section \<open>The pass\<close>

record 'm gamma_pass =
  gc_s :: "'m run_state"
  gc_wid :: nat
  gc_ai :: nat
  gc_c0 :: int
  gc_c1 :: int

definition init_gamma :: "'m run_state \<Rightarrow> 'm gamma_pass" where
  "init_gamma st = \<lparr>gc_s = st, gc_wid = rs_num_inputs st, gc_ai = 0, gc_c0 = - 1, gc_c1 = - 1\<rparr>"

definition gc_fresh_const :: "bool \<Rightarrow> 'm gamma_pass \<Rightarrow> wire \<times> 'm gamma_pass" where
  "gc_fresh_const v p =
     (let w = gc_wid p; p = p\<lparr>gc_wid := Suc w, gc_s := set_minp w (bbyte v) (set_wslot w zero_share (gc_s p))\<rparr>
      in (w, if v then p\<lparr>gc_c1 := int w\<rparr> else p\<lparr>gc_c0 := int w\<rparr>))"

definition gc_public_bit :: "bool \<Rightarrow> 'm gamma_pass \<Rightarrow> wire \<times> 'm gamma_pass" where
  "gc_public_bit v p =
     (let c = (if v then gc_c1 p else gc_c0 p) in if c < 0 then gc_fresh_const v p else (nat c, p))"

definition gc_xor_gate :: "wire \<Rightarrow> wire \<Rightarrow> 'm gamma_pass \<Rightarrow> wire \<times> 'm gamma_pass" where
  "gc_xor_gate i0 i1 p =
     (let w = gc_wid p; s = gc_s p; sh = sh_xor (wslot s i0) (wslot s i1); mi = minp s i0 XOR minp s i1
      in (w, p\<lparr>gc_wid := Suc w, gc_s := set_minp w mi (set_wslot w sh s)\<rparr>))"

definition gc_not_gate :: "wire \<Rightarrow> 'm gamma_pass \<Rightarrow> wire \<times> 'm gamma_pass" where
  "gc_not_gate i p =
     (let w = gc_wid p; s = gc_s p; sh = wslot s i; mi = minp s i XOR 1
      in (w, p\<lparr>gc_wid := Suc w, gc_s := set_minp w mi (set_wslot w sh s)\<rparr>))"

definition gc_and_gate :: "wire \<Rightarrow> wire \<Rightarrow> 'm gamma_pass \<Rightarrow> wire \<times> 'm gamma_pass" where
  "gc_and_gate in0 in1 p =
     (let w = gc_wid p; my_ai = gc_ai p;
          s = set_minp w (rs_Lambda_AND (gc_s p) ! my_ai) (gc_s p);
          La = nz (minp s in0); Lb = nz (minp s in1);
          m = garbler_check_row (wslot s in0, La) (wslot s in1, Lb) (wslot s w) (rs_sigma s ! my_ai)
      in (w, p\<lparr>gc_wid := Suc w, gc_ai := Suc my_ai, gc_s := s\<lparr>rs_M1_t := (rs_M1_t s)[my_ai := m]\<rparr>\<rparr>))"

definition gamma_ops :: "'m gamma_pass ctx_ops" where
  "gamma_ops = \<lparr>op_public_bit = gc_public_bit, op_and_gate = gc_and_gate,
     op_xor_gate = gc_xor_gate, op_not_gate = gc_not_gate\<rparr>"

definition gc_event :: "ev \<Rightarrow> 'm gamma_pass \<Rightarrow> 'm gamma_pass" where
  "gc_event e p = (case e of
      EConst v \<Rightarrow> snd (gc_fresh_const v p)
    | EAnd a b \<Rightarrow> snd (gc_and_gate a b p)
    | EXor a b \<Rightarrow> snd (gc_xor_gate a b p)
    | ENot a \<Rightarrow> snd (gc_not_gate a p))"

interpretation gamma: lockstep gamma_ops gc_wid gc_c0 gc_c1 gc_event
  by unfold_locales
    (auto simp: gamma_ops_def gc_event_def gc_public_bit_def gc_fresh_const_def gc_and_gate_def
      gc_xor_gate_def gc_not_gate_def Let_def split: ev.splits)

section \<open>The pass as a machine over slots\<close>

text \<open>Per slot: share and opened mask. Besides: AND shares, received masks, counter, check values.\<close>

type_synonym gamma_aux = "ashare list \<times> byte list \<times> nat \<times> block list"

definition gc_cell :: "'m gamma_pass \<Rightarrow> nat \<Rightarrow> ashare \<times> byte" where
  "gc_cell p i = (rs_wire_slot (gc_s p) ! i, rs_mask_input (gc_s p) ! i)"

definition gc_aux :: "'m gamma_pass \<Rightarrow> gamma_aux" where
  "gc_aux p = (rs_sigma (gc_s p), rs_Lambda_AND (gc_s p), gc_ai p, rs_M1_t (gc_s p))"

definition gc_size_ok :: "'m gamma_pass \<Rightarrow> nat \<Rightarrow> nat \<Rightarrow> bool" where
  "gc_size_ok p m a \<longleftrightarrow> length (rs_wire_slot (gc_s p)) = m \<and> length (rs_mask_input (gc_s p)) = m"

definition gamma_cell :: "ev \<Rightarrow> gamma_aux \<Rightarrow> (wire \<Rightarrow> ashare \<times> byte) \<Rightarrow> wire \<Rightarrow> ashare \<times> byte" where
  "gamma_cell e x f out = (case e of
      EConst v \<Rightarrow> (zero_share, bbyte v)
    | EXor a b \<Rightarrow> (sh_xor (fst (f a)) (fst (f b)), snd (f a) XOR snd (f b))
    | ENot a \<Rightarrow> (fst (f a), snd (f a) XOR 1)
    | EAnd a b \<Rightarrow> (case x of (sig, LA, i, M1) \<Rightarrow> (fst (f out), LA ! i)))"

definition gamma_aux :: "ev \<Rightarrow> gamma_aux \<Rightarrow> (wire \<Rightarrow> ashare \<times> byte) \<Rightarrow> wire \<Rightarrow> gamma_aux" where
  "gamma_aux e x f out = (case e of
      EAnd a b \<Rightarrow> (case x of (sig, LA, i, M1) \<Rightarrow>
        (sig, LA, Suc i, M1[i := garbler_check_row (fst (f a), nz (snd (f a))) (fst (f b), nz (snd (f b)))
                                  (fst (f out)) (sig ! i)]))
    | _ \<Rightarrow> x)"

lemma gamma_cell_simps:
  "gamma_cell (EConst v) x f out = (zero_share, bbyte v)"
  "gamma_cell (EXor a b) x f out = (sh_xor (fst (f a)) (fst (f b)), snd (f a) XOR snd (f b))"
  "gamma_cell (ENot a) x f out = (fst (f a), snd (f a) XOR 1)"
  "gamma_cell (EAnd a b) x f out = (fst (f out), fst (snd x) ! fst (snd (snd x)))"
  "\<not> ev_is_and e \<Longrightarrow> gamma_aux e y f out = y"
  "gamma_aux (EAnd a b) (sig, LA, i, M1) f out =
     (sig, LA, Suc i, M1[i := garbler_check_row (fst (f a), nz (snd (f a))) (fst (f b), nz (snd (f b)))
        (fst (f out)) (sig ! i)])"
  by (cases e; simp add: gamma_cell_def gamma_aux_def case_prod_beta)+

lemma slot_of_gamma_upd [simp]:
  "slot_of (set_wslot w x s) = slot_of s" "slot_of (set_minp w y s) = slot_of s"
  "slot_of (s\<lparr>rs_M1_t := m\<rparr>) = slot_of s"
  by (simp_all add: slot_of_def fun_eq_iff set_wslot_def set_minp_def)

lemma gc_acc: "wslot (gc_s p) w = fst (gc_cell p (slot_of (gc_s p) w))"
  "minp (gc_s p) w = snd (gc_cell p (slot_of (gc_s p) w))"
  by (simp_all add: wslot_def minp_def gc_cell_def)

lemma gc_set_minp:
  "wslot (set_minp w y s) x = wslot s x" "rs_sigma (set_minp w y s) = rs_sigma s"
  "rs_M1_t (set_minp w y s) = rs_M1_t s" "rs_Lambda_AND (set_minp w y s) = rs_Lambda_AND s"
  "slot_of s x \<noteq> slot_of s w \<Longrightarrow> minp (set_minp w y s) x = minp s x"
  by (simp_all add: wslot_def minp_def set_minp_def slot_of_def)

lemma gc_and_event:
  fixes p :: "'m gamma_pass"
  assumes "slot_of (gc_s p) a \<noteq> slot_of (gc_s p) (gc_wid p)" "slot_of (gc_s p) b \<noteq> slot_of (gc_s p) (gc_wid p)"
  defines "f \<equiv> \<lambda>w. gc_cell p (slot_of (gc_s p) w)"
  shows "gc_event (EAnd a b) p = p\<lparr>gc_wid := Suc (gc_wid p), gc_ai := Suc (gc_ai p),
     gc_s := (set_minp (gc_wid p) (rs_Lambda_AND (gc_s p) ! gc_ai p) (gc_s p))
       \<lparr>rs_M1_t := (rs_M1_t (gc_s p))[gc_ai p := garbler_check_row (fst (f a), nz (snd (f a)))
          (fst (f b), nz (snd (f b))) (fst (f (gc_wid p))) (rs_sigma (gc_s p) ! gc_ai p)]\<rparr>\<rparr>"
  using assms(1,2) by (simp add: gc_event_def gc_and_gate_def Let_def gc_set_minp gc_acc f_def)

lemma gc_linear_event:
  fixes p :: "'m gamma_pass"
  assumes "\<not> ev_is_and e"
  defines "c \<equiv> gamma_cell e (gc_aux p) (\<lambda>w. gc_cell p (slot_of (gc_s p) w)) (gc_wid p)"
  shows "gc_s (gc_event e p) = set_minp (gc_wid p) (snd c) (set_wslot (gc_wid p) (fst c) (gc_s p))"
    and "gc_ai (gc_event e p) = gc_ai p"
  using assms(1) by (cases e; simp add: gc_event_def gc_fresh_const_def gc_xor_gate_def gc_not_gate_def
      gamma_cell_def c_def gc_acc Let_def)+

interpretation gamma_slots: slot_pass gc_event gc_wid "\<lambda>p. slot_of (gc_s p)" gc_cell gc_aux
  gc_size_ok gamma_cell gamma_aux
proof (unfold_locales, goal_cases)
  case (1 e p)
  then show ?case by (rule gamma.wid_emit)
next
  case (2 e p)
  show ?case
    by (cases e) (simp_all add: gc_event_def gc_and_gate_def gc_linear_event(1) [unfolded gc_event_def] Let_def
        gc_fresh_const_def gc_xor_gate_def gc_not_gate_def)
next
  case (3 p m a e)
  then show ?case
    by (cases e) (simp_all add: gc_size_ok_def gc_event_def gc_and_gate_def Let_def gc_fresh_const_def
        gc_xor_gate_def gc_not_gate_def set_minp_def set_wslot_def)
next
  case (4 p m a e i)
  show ?case
  proof (cases "ev_is_and e")
    case True
    then obtain b c where e: "e = EAnd b c" by (cases e) auto
    have ne: "slot_of (gc_s p) b \<noteq> slot_of (gc_s p) (gc_wid p)" "slot_of (gc_s p) c \<noteq> slot_of (gc_s p) (gc_wid p)"
      using 4(4) [of b] 4(4) [of c] by (simp_all add: e)
    show ?thesis
      using 4(1,2) by (auto simp: e gc_and_event [OF ne] gc_size_ok_def gc_cell_def set_minp_def slot_of_def
          gamma_cell_def gc_aux_def)
  next
    case False
    then show ?thesis
      using 4(1,2) by (auto simp: gc_size_ok_def gc_linear_event(1) gc_cell_def set_minp_def set_wslot_def slot_of_def)
  qed
next
  case (5 p m a e)
  show ?case
  proof (cases "ev_is_and e")
    case True
    then obtain b c where e: "e = EAnd b c" by (cases e) auto
    have ne: "slot_of (gc_s p) b \<noteq> slot_of (gc_s p) (gc_wid p)" "slot_of (gc_s p) c \<noteq> slot_of (gc_s p) (gc_wid p)"
      using 5(4) [of b] 5(4) [of c] by (simp_all add: e)
    show ?thesis
      by (simp add: e gc_and_event [OF ne] gc_aux_def gamma_aux_def set_minp_def)
  next
    case False
    then show ?thesis
      by (cases e) (simp_all add: gc_aux_def gamma_aux_def gc_linear_event set_minp_def set_wslot_def)
  qed
next
  case (6 e out f g x)
  then show ?case by (cases e) (auto simp: ev_deps_def gamma_cell_def split: prod.splits)
next
  case (7 e out f g x)
  then show ?case by (cases e) (auto simp: ev_deps_def gamma_aux_def split: prod.splits)
qed

section \<open>The run\<close>

definition gamma_regs :: "'m run_state \<Rightarrow> ev list \<Rightarrow> (wire \<Rightarrow> ashare \<times> byte) \<times> gamma_aux \<times> nat" where
  "gamma_regs s es = reg_run gamma_cell gamma_aux es
     (\<lambda>w. (wslot s w, minp s w), (rs_sigma s, rs_Lambda_AND s, 0, rs_M1_t s), rs_num_inputs s)"

lemma gc_event_frame:
  "rs_phys (gc_s (gc_event e p)) = rs_phys (gc_s p)" "rs_label_slot (gc_s (gc_event e p)) = rs_label_slot (gc_s p)"
  "rs_party (gc_s (gc_event e p)) = rs_party (gc_s p)" "rs_num_ands (gc_s (gc_event e p)) = rs_num_ands (gc_s p)"
  by (cases e; simp add: gc_event_def gc_and_gate_def Let_def gc_fresh_const_def
        gc_xor_gate_def gc_not_gate_def set_minp_def set_wslot_def)+

theorem gamma_run_ok:
  fixes s :: "'m run_state"
  assumes safe: "slot_safe n es (persists n es outs) (slot_of s)" and wf: "wf_stream n es"
    and n: "n = rs_num_inputs s"
    and range: "\<And>x. x < n + length es \<Longrightarrow> slot_of s x < m"
    and len: "length (rs_wire_slot s) = m" "length (rs_mask_input s) = m"
    and src: "stream_of n src = (outs, es)"
    and run: "drive gamma_ops src (init_gamma s) = (outs', p)"
  defines "s' \<equiv> gc_s p" and "r \<equiv> gamma_regs s es"
  shows "\<forall>x < n + length es. persists n es outs x \<longrightarrow> (wslot s' x, minp s' x) = fst r x"
    and "rs_M1_t s' = snd (snd (snd (fst (snd r))))"
    and "rs_phys s' = rs_phys s \<and> rs_label_slot s' = rs_label_slot s \<and> rs_party s' = rs_party s \<and> rs_num_ands s' = rs_num_ands s"
proof -
  let ?p0 = "init_gamma s" and ?per = "persists n es outs"
  have "drive gamma_ops src ?p0 = (outs, fold gc_event es ?p0)"
    using gamma.drive_stream [of src ?p0] src by (simp add: init_gamma_def n)
  then have p: "p = fold gc_event es ?p0" using run by simp
  have "gc_size_ok ?p0 m (num_and_evs es)" using len by (simp add: gc_size_ok_def init_gamma_def)
  moreover have "?per (n + k)" if "k < length es" "ev_is_and (es ! k)" for k
    using that by (simp add: persists_def)
  ultimately have ref: "gc_aux p = fst (snd r) \<and>
      (\<forall>x < n + length es. ?per x \<longrightarrow> gc_cell p (slot_of s x) = fst r x)"
    using gamma_slots.slots_refine_registers [of n es ?per ?p0 m "length es"] wf safe range
    by (auto simp: p r_def gamma_regs_def init_gamma_def gc_cell_def wslot_def minp_def gc_aux_def live_at_def
        n)
  have fr: "rs_phys s' = rs_phys s \<and> rs_label_slot s' = rs_label_slot s \<and> rs_party s' = rs_party s \<and> rs_num_ands s' = rs_num_ands s"
    unfolding s'_def p by (induction es rule: rev_induct) (simp_all add: gc_event_frame init_gamma_def)
  then show "rs_phys s' = rs_phys s \<and> rs_label_slot s' = rs_label_slot s \<and> rs_party s' = rs_party s \<and> rs_num_ands s' = rs_num_ands s" .
  have "slot_of s' = slot_of s" using fr by (simp add: slot_of_def fun_eq_iff)
  then show "\<forall>x < n + length es. ?per x \<longrightarrow> (wslot s' x, minp s' x) = fst r x"
    using ref by (simp add: s'_def gc_acc)
  have "fst (snd r) = gc_aux p" using ref by simp
  then show "rs_M1_t s' = snd (snd (snd (fst (snd r))))" by (simp add: s'_def gc_aux_def)
qed

end
