(* ===== verification/Garbled_Run.thy ===== *)
theory Garbled_Run
  imports Garble Evaluate Gamma_Check
begin

text \<open>
  Both parties on one gate stream, as register machines: the evaluator, fed the garbler's rows,
  holds for every wire the garbler's label for the opened mask, the opened mask is the cleartext
  value plus the shared mask bit, and its check values are those of the garbler's shares.
\<close>

section \<open>Masks of the wires\<close>

definition wire_mask ::
  "(nat \<Rightarrow> ashare) \<Rightarrow> (nat \<Rightarrow> ashare) \<Rightarrow> nat \<Rightarrow> (wire \<Rightarrow> ashare) \<Rightarrow> (wire \<Rightarrow> ashare) \<Rightarrow> ev list \<Rightarrow> wire \<Rightarrow> bool" where
  "wire_mask lg1 lg2 n ins1 ins2 es w =
     share_bit (share_regs lg1 n ins1 es w) (share_regs lg2 n ins2 es w)"

text \<open>Valid input and AND masks, and AND shares that hold the products of the operand masks.\<close>

definition masks_ok ::
  "block \<Rightarrow> block \<Rightarrow> nat \<Rightarrow> ev list \<Rightarrow> (wire \<Rightarrow> ashare) \<Rightarrow> (wire \<Rightarrow> ashare) \<Rightarrow> (nat \<Rightarrow> ashare) \<Rightarrow>
   (nat \<Rightarrow> ashare) \<Rightarrow> ashare list \<Rightarrow> ashare list \<Rightarrow> bool" where
  "masks_ok D1 D2 n es ins1 ins2 lg1 lg2 sig1 sig2 \<longleftrightarrow>
     (\<forall>w < n. shares_ok D1 D2 (ins1 w) (ins2 w)) \<and>
     (\<forall>i < num_and_evs es. shares_ok D1 D2 (lg1 i) (lg2 i) \<and> shares_ok D1 D2 (sig1 ! i) (sig2 ! i) \<and>
        share_bit (sig1 ! i) (sig2 ! i) =
          (wire_mask lg1 lg2 n ins1 ins2 es (fst (and_ops es ! i)) \<and>
           wire_mask lg1 lg2 n ins1 ins2 es (snd (and_ops es ! i))))"

lemma wire_mask_snoc:
  "w < n + length es \<Longrightarrow> wire_mask lg1 lg2 n ins1 ins2 (es @ [e]) w = wire_mask lg1 lg2 n ins1 ins2 es w"
  by (simp add: wire_mask_def)

lemma and_ops_nth_bound:
  "wf_stream n es \<Longrightarrow> i < num_and_evs es \<Longrightarrow>
   fst (and_ops es ! i) < n + length es \<and> snd (and_ops es ! i) < n + length es"
  using and_ops_bound [of n es "fst (and_ops es ! i)" "snd (and_ops es ! i)"] nth_mem [of i "and_ops es"]
  by simp

lemma masks_ok_snocD:
  assumes "masks_ok D1 D2 n (es @ [e]) ins1 ins2 lg1 lg2 sig1 sig2" and "wf_stream n (es @ [e])"
  shows "masks_ok D1 D2 n es ins1 ins2 lg1 lg2 sig1 sig2"
proof -
  have wf: "wf_stream n es" using assms(2) by (simp add: wf_stream_snoc)
  show ?thesis
    unfolding masks_ok_def
  proof (intro conjI allI impI)
    show "w < n \<Longrightarrow> shares_ok D1 D2 (ins1 w) (ins2 w)" for w using assms(1) by (simp add: masks_ok_def)
    fix i assume i: "i < num_and_evs es"
    then have i': "i < num_and_evs (es @ [e])" "and_ops (es @ [e]) ! i = and_ops es ! i"
      by (simp_all add: nth_append)
    note b = and_ops_nth_bound [OF wf i]
    show "shares_ok D1 D2 (lg1 i) (lg2 i)" "shares_ok D1 D2 (sig1 ! i) (sig2 ! i)"
      using assms(1) i' unfolding masks_ok_def by blast+
    have "share_bit (sig1 ! i) (sig2 ! i) =
        (wire_mask lg1 lg2 n ins1 ins2 (es @ [e]) (fst (and_ops (es @ [e]) ! i)) \<and>
         wire_mask lg1 lg2 n ins1 ins2 (es @ [e]) (snd (and_ops (es @ [e]) ! i)))"
      using assms(1) i'(1) unfolding masks_ok_def by blast
    then show "share_bit (sig1 ! i) (sig2 ! i) =
        (wire_mask lg1 lg2 n ins1 ins2 es (fst (and_ops es ! i)) \<and>
         wire_mask lg1 lg2 n ins1 ins2 es (snd (and_ops es ! i)))"
      using b unfolding i'(2) by (simp only: wire_mask_snoc)
  qed
qed

lemma share_regs_ok:
  assumes "\<forall>w < n. shares_ok D1 D2 (ins1 w) (ins2 w)"
    and "\<forall>i < num_and_evs es. shares_ok D1 D2 (lg1 i) (lg2 i)" and "wf_stream n es" and "w < n + length es"
  shows "shares_ok D1 D2 (share_regs lg1 n ins1 es w) (share_regs lg2 n ins2 es w)"
  using assms(2-4)
proof (induction es arbitrary: w rule: rev_induct)
  case Nil
  then show ?case using assms(1) by simp
next
  case (snoc e es)
  have wf: "wf_stream n es" "\<forall>w \<in> set (ev_reads e). w < n + length es"
    using snoc.prems(2) by (simp_all add: wf_stream_snoc)
  have lg: "\<forall>i < num_and_evs es. shares_ok D1 D2 (lg1 i) (lg2 i)"
    "ev_is_and e \<Longrightarrow> shares_ok D1 D2 (lg1 (num_and_evs es)) (lg2 (num_and_evs es))"
    using snoc.prems(1) by simp_all
  note ih = snoc.IH [OF lg(1) wf(1)]
  show ?case
  proof (cases "w = n + length es")
    case False
    then show ?thesis using ih snoc.prems(3) by simp
  next
    case True
    then show ?thesis
      using ih wf(2) lg(2) by (cases e) (auto simp: new_share_def intro: shares_ok_xor)
  qed
qed

lemma masks_okD:
  assumes "masks_ok D1 D2 n es ins1 ins2 lg1 lg2 sig1 sig2"
  shows "\<forall>w < n. shares_ok D1 D2 (ins1 w) (ins2 w)" "\<forall>i < num_and_evs es. shares_ok D1 D2 (lg1 i) (lg2 i)"
  using assms unfolding masks_ok_def by blast+

text \<open>The share of an AND output is the fresh mask of that gate.\<close>

lemma share_regs_and:
  "k < length es \<Longrightarrow> ev_is_and (es ! k) \<Longrightarrow> share_regs lg n ins es (n + k) = lg (num_and_evs (take k es))"
proof (induction es rule: rev_induct)
  case (snoc e es)
  then show ?case
    by (cases "k = length es") (cases e; auto simp: nth_append new_share_def)+
qed simp

text \<open>How the mask bit of a fresh wire depends on its operands' bits.\<close>

lemma wire_mask_new:
  "wire_mask lg1 lg2 n ins1 ins2 (es @ [e]) (n + length es) = (case e of
      EConst v \<Rightarrow> False
    | EAnd a b \<Rightarrow> share_bit (lg1 (num_and_evs es)) (lg2 (num_and_evs es))
    | EXor a b \<Rightarrow> wire_mask lg1 lg2 n ins1 ins2 es a \<noteq> wire_mask lg1 lg2 n ins1 ins2 es b
    | ENot a \<Rightarrow> wire_mask lg1 lg2 n ins1 ins2 es a)"
  by (cases e) (simp_all add: wire_mask_def new_share_def)

text \<open>The output wires of the AND gates.\<close>

definition and_outs :: "nat \<Rightarrow> ev list \<Rightarrow> wire list" where
  "and_outs n es = map ((+) n) (filter (\<lambda>k. ev_is_and (es ! k)) [0..<length es])"

lemma and_outs_Nil [simp]: "and_outs n [] = []"
  by (simp add: and_outs_def)

lemma and_outs_snoc [simp]:
  "and_outs n (es @ [e]) = and_outs n es @ (if ev_is_and e then [n + length es] else [])"
proof -
  have "filter (\<lambda>k. ev_is_and ((es @ [e]) ! k)) [0..<length es] = filter (\<lambda>k. ev_is_and (es ! k)) [0..<length es]"
    by (rule filter_cong) (simp_all add: nth_append)
  then show ?thesis by (simp add: and_outs_def)
qed

lemma length_and_outs [simp]: "length (and_outs n es) = num_and_evs es"
  by (induction es rule: rev_induct) simp_all

lemma and_outs_bound: "i < num_and_evs es \<Longrightarrow> and_outs n es ! i < n + length es"
proof -
  assume "i < num_and_evs es"
  then have "and_outs n es ! i \<in> set (and_outs n es)" by (intro nth_mem) simp
  then show ?thesis by (auto simp: and_outs_def)
qed

section \<open>Registers outside the written range\<close>

lemma reg_run_untouched:
  "out + length es \<le> w \<Longrightarrow> fst (reg_run nc na es (f, x, out)) w = f w"
  by (induction es rule: rev_induct) simp_all

text \<open>Preset AND output shares.\<close>

definition preset :: "nat \<Rightarrow> ev list \<Rightarrow> (nat \<Rightarrow> ashare) \<Rightarrow> (wire \<Rightarrow> ashare) \<Rightarrow> bool" where
  "preset n es lg f \<longleftrightarrow>
     (\<forall>k < length es. ev_is_and (es ! k) \<longrightarrow> f (n + k) = lg (num_and_evs (take k es)))"

lemma preset_snocD:
  "preset n (es @ [e]) lg f \<Longrightarrow> preset n es lg f \<and> (ev_is_and e \<longrightarrow> f (n + length es) = lg (num_and_evs es))"
  unfolding preset_def by (auto simp: nth_append dest: spec [of _ "length es"] less_SucI)

text \<open>The shares of the three passes are those of the register machine of the slot pass.\<close>

lemma garble_regs_share:
  assumes "\<forall>w < n. fst (f w) = ins w" and "preset n es lg (\<lambda>w. fst (f w))" and "wf_stream n es"
    and "w < n + length es"
  shows "fst (fst (reg_run (garble_cell P) (garble_aux P) es (f, x, n)) w) = share_regs lg n ins es w"
  using assms(2-4)
proof (induction es arbitrary: w rule: rev_induct)
  case Nil
  then show ?case using assms(1) by simp
next
  case (snoc e es)
  have wf: "wf_stream n es" "\<forall>w \<in> set (ev_reads e). w < n + length es"
    using snoc.prems(2) by (simp_all add: wf_stream_snoc)
  have pre: "preset n es lg (\<lambda>w. fst (f w))" "ev_is_and e \<longrightarrow> fst (f (n + length es)) = lg (num_and_evs es)"
    using preset_snocD [OF snoc.prems(1)] by blast+
  note ih = snoc.IH [OF pre(1) wf(1)]
  have un: "fst (reg_run (garble_cell P) (garble_aux P) es (f, x, n)) (n + length es) = f (n + length es)"
    by (rule reg_run_untouched) simp
  show ?case
    using ih wf(2) pre(2) snoc.prems(3) un
    by (cases e) (auto simp: garble_simps new_share_def)
qed

lemma eval_regs_share:
  assumes "\<forall>w < n. fst (f w) = ins w" and "preset n es lg (\<lambda>w. fst (f w))" and "wf_stream n es"
    and "w < n + length es"
  shows "fst (fst (reg_run (eval_cell P) (eval_aux P) es (f, x, n)) w) = share_regs lg n ins es w"
  using assms(2-4)
proof (induction es arbitrary: w rule: rev_induct)
  case Nil
  then show ?case using assms(1) by simp
next
  case (snoc e es)
  have wf: "wf_stream n es" "\<forall>w \<in> set (ev_reads e). w < n + length es"
    using snoc.prems(2) by (simp_all add: wf_stream_snoc)
  have pre: "preset n es lg (\<lambda>w. fst (f w))" "ev_is_and e \<longrightarrow> fst (f (n + length es)) = lg (num_and_evs es)"
    using preset_snocD [OF snoc.prems(1)] by blast+
  note ih = snoc.IH [OF pre(1) wf(1)]
  have un: "fst (reg_run (eval_cell P) (eval_aux P) es (f, x, n)) (n + length es) = f (n + length es)"
    by (rule reg_run_untouched) simp
  show ?case
    using ih wf(2) pre(2) snoc.prems(3) un
    by (cases e) (auto simp: eval_simps new_share_def)
qed

lemma gamma_regs_share:
  assumes "\<forall>w < n. fst (f w) = ins w" and "preset n es lg (\<lambda>w. fst (f w))" and "wf_stream n es"
    and "w < n + length es"
  shows "fst (fst (reg_run gamma_cell gamma_aux es (f, x, n)) w) = share_regs lg n ins es w"
  using assms(2-4)
proof (induction es arbitrary: w rule: rev_induct)
  case Nil
  then show ?case using assms(1) by simp
next
  case (snoc e es)
  have wf: "wf_stream n es" "\<forall>w \<in> set (ev_reads e). w < n + length es"
    using snoc.prems(2) by (simp_all add: wf_stream_snoc)
  have pre: "preset n es lg (\<lambda>w. fst (f w))" "ev_is_and e \<longrightarrow> fst (f (n + length es)) = lg (num_and_evs es)"
    using preset_snocD [OF snoc.prems(1)] by blast+
  note ih = snoc.IH [OF pre(1) wf(1)]
  have un: "fst (reg_run gamma_cell gamma_aux es (f, x, n)) (n + length es) = f (n + length es)"
    by (rule reg_run_untouched) simp
  show ?case
    using ih wf(2) pre(2) snoc.prems(3) un
    by (cases e) (auto simp: gamma_cell_simps new_share_def)
qed

section \<open>Garbler and evaluator together\<close>

text \<open>The opened mask of a wire: its cleartext value under its mask bit.\<close>

definition opened ::
  "(nat \<Rightarrow> ashare) \<Rightarrow> (nat \<Rightarrow> ashare) \<Rightarrow> (wire \<Rightarrow> ashare) \<Rightarrow> (wire \<Rightarrow> ashare) \<Rightarrow> bool list \<Rightarrow> ev list \<Rightarrow> wire \<Rightarrow> bool" where
  "opened lg1 lg2 ins1 ins2 vs es w \<longleftrightarrow>
     clear_run vs es ! w \<noteq> wire_mask lg1 lg2 (length vs) ins1 ins2 es w"

text \<open>The evaluator holds the garbler's label for the opened mask \<open>x\<close>, and the mask itself.\<close>

definition encodes :: "block \<Rightarrow> bool \<Rightarrow> block \<Rightarrow> block \<times> byte \<Rightarrow> bool" where
  "encodes D x l e \<longleftrightarrow> e = (l XOR sel x D, bbyte x)"

text \<open>The garbler's check value of AND gate \<open>i\<close>.\<close>

definition check_value ::
  "(nat \<Rightarrow> ashare) \<Rightarrow> (nat \<Rightarrow> ashare) \<Rightarrow> (wire \<Rightarrow> ashare) \<Rightarrow> (wire \<Rightarrow> ashare) \<Rightarrow> bool list \<Rightarrow> ev list \<Rightarrow>
   ashare list \<Rightarrow> nat \<Rightarrow> block" where
  "check_value lg1 lg2 ins1 ins2 vs es sig1 i =
     (let a = fst (and_ops es ! i); b = snd (and_ops es ! i) in
      garbler_check_row
        (share_regs lg1 (length vs) ins1 es a, opened lg1 lg2 ins1 ins2 vs es a)
        (share_regs lg1 (length vs) ins1 es b, opened lg1 lg2 ins1 ins2 vs es b) (lg1 i) (sig1 ! i))"

lemma opened_snoc:
  "w < length vs + length es \<Longrightarrow> opened lg1 lg2 ins1 ins2 vs (es @ [e]) w = opened lg1 lg2 ins1 ins2 vs es w"
  by (simp add: opened_def wire_mask_snoc nth_append)

lemma opened_new:
  "opened lg1 lg2 ins1 ins2 vs (es @ [e]) (length vs + length es) = (case e of
      EConst v \<Rightarrow> v
    | EAnd a b \<Rightarrow> (clear_run vs es ! a \<and> clear_run vs es ! b) \<noteq>
        share_bit (lg1 (num_and_evs es)) (lg2 (num_and_evs es))
    | EXor a b \<Rightarrow> opened lg1 lg2 ins1 ins2 vs es a \<noteq> opened lg1 lg2 ins1 ins2 vs es b
    | ENot a \<Rightarrow> \<not> opened lg1 lg2 ins1 ins2 vs es a)"
  by (cases e) (auto simp: opened_def wire_mask_new nth_append)

lemma check_value_snoc:
  assumes "wf_stream (length vs) es" and "i < num_and_evs es"
  shows "check_value lg1 lg2 ins1 ins2 vs (es @ [e]) sig1 i = check_value lg1 lg2 ins1 ins2 vs es sig1 i"
proof -
  have "and_ops (es @ [e]) ! i = and_ops es ! i" using assms(2) by (simp add: nth_append)
  then show ?thesis
    using and_ops_nth_bound [OF assms] by (simp add: check_value_def Let_def opened_snoc)
qed

lemma check_value_new:
  assumes "a < length vs + length es" and "b < length vs + length es"
  shows "check_value lg1 lg2 ins1 ins2 vs (es @ [EAnd a b]) sig1 (num_and_evs es) =
    garbler_check_row (share_regs lg1 (length vs) ins1 es a, opened lg1 lg2 ins1 ins2 vs es a)
      (share_regs lg1 (length vs) ins1 es b, opened lg1 lg2 ins1 ins2 vs es b)
      (lg1 (num_and_evs es)) (sig1 ! num_and_evs es)"
proof -
  have "and_ops (es @ [EAnd a b]) ! num_and_evs es = (a, b)" by (simp add: nth_append)
  then show ?thesis using assms by (simp add: check_value_def opened_snoc)
qed

text \<open>The AND gate of both passes on related operands.\<close>

lemma joint_and:
  fixes P :: "('m, 'd) prims"
  assumes ok: "shares_ok D1 D2 sa ta" "shares_ok D1 D2 sb tb" "shares_ok D1 D2 sg tg" "shares_ok D1 D2 ss ts"
    and sig: "share_bit ss ts = (share_bit sa ta \<and> share_bit sb tb)" and D: "deltas_ok D1 D2"
    and f: "f a = (sa, la)" "f b = (sb, lb)" "fst (f out) = sg"
    and g: "g a = (ta, ea)" "g b = (tb, eb)" "fst (g out) = tg"
    and enc: "encodes D1 La la ea" "encodes D1 Lb lb eb"
    and row: "garble_and P (D1, m, sig1, i, rows) f a b out = (G0, G1, l)" and s: "sig1 ! i = ss" "sig2 ! i = ts"
  defines "x \<equiv> ((La \<noteq> share_bit sa ta) \<and> (Lb \<noteq> share_bit sb tb)) \<noteq> share_bit sg tg"
  shows "eval_gate P (D2, m, sig2, i, (G0, G1, bbyte (LSB1 l)) # rest, M1, LA) g a b out =
    (l XOR sel x D1, x, garbler_check_row (sa, La) (sb, Lb) sg ss)"
proof -
  have r: "garble_row P m D1 (sa, la) (sb, lb) sg ss = (G0, G1, l)"
    using row by (simp add: garble_and_def f s)
  have e: "ea = (la XOR sel La D1, bbyte La)" "eb = (lb XOR sel Lb D1, bbyte Lb)"
    using enc by (simp_all add: encodes_def)
  have t: "eval_label_row P m (ta, fst ea, La) (tb, fst eb, Lb) tg ts G0 G1 = l XOR sel x D1"
    unfolding x_def by (rule eval_label_row_correct [OF ok sig _ _ r]) (simp_all add: e)
  have Lg: "nz (bbyte (LSB1 l) XOR bbyte (LSB1 (l XOR sel x D1))) = x"
    using D by (simp add: deltas_ok_def) blast
  have D2: "LSB D2" using D by (simp add: deltas_ok_def)
  have c: "eval_check_row D2 (ta, La) (tb, Lb) tg ts x = garbler_check_row (sa, La) (sb, Lb) sg ss"
    using check_rows_agree_iff [OF ok sig D2, of La Lb x] by (simp add: x_def)
  show ?thesis
    using t Lg c by (simp add: eval_gate_def eval_and_def Let_def g s e)
qed

text \<open>The other gates.\<close>

lemma joint_linear:
  fixes P :: "('m, 'd) prims"
  assumes "\<not> ev_is_and e" and "fst xa = D"
    and "\<And>w. w \<in> set (ev_reads e) \<Longrightarrow> encodes D (x w) (snd (f w)) (snd (g w))"
  shows "encodes D (case e of EConst v \<Rightarrow> v | EAnd a b \<Rightarrow> y a b | EXor a b \<Rightarrow> x a \<noteq> x b | ENot a \<Rightarrow> \<not> x a)
    (snd (garble_cell P e xa f out)) (snd (eval_cell P e xb g out))"
  using assms by (cases e) (simp_all add: encodes_def garble_simps eval_simps sel_neq sel_not xor_algebra)

text \<open>
  The two register runs on one stream. \<open>rest\<close> are rows the evaluator has not consumed; \<open>M1\<close> and
  \<open>LA\<close> are its check-value and mask buffers.
\<close>

definition joint_garble ::
  "('m, 'd) prims \<Rightarrow> block \<Rightarrow> 'm \<Rightarrow> ashare list \<Rightarrow> nat \<Rightarrow> (wire \<Rightarrow> ashare \<times> block) \<Rightarrow> ev list \<Rightarrow>
   (wire \<Rightarrow> ashare \<times> block) \<times> 'm garble_aux \<times> nat" where
  "joint_garble P D m sig n f es = reg_run (garble_cell P) (garble_aux P) es (f, (D, m, sig, 0, []), n)"

definition joint_eval ::
  "('m, 'd) prims \<Rightarrow> block \<Rightarrow> 'm \<Rightarrow> ashare list \<Rightarrow> nat \<Rightarrow> (wire \<Rightarrow> ashare \<times> block \<times> byte) \<Rightarrow> row list \<Rightarrow>
   block list \<Rightarrow> byte list \<Rightarrow> ev list \<Rightarrow> (wire \<Rightarrow> ashare \<times> block \<times> byte) \<times> 'm eval_aux \<times> nat" where
  "joint_eval P D m sig n g rows M1 LA es =
     reg_run (eval_cell P) (eval_aux P) es (g, (D, m, sig, 0, rows, M1, LA), n)"

definition rows_of :: "(wire \<Rightarrow> ashare \<times> block) \<times> 'm garble_aux \<times> nat \<Rightarrow> row list" where
  "rows_of r = snd (snd (snd (snd (fst (snd r)))))"

text \<open>The relation the two runs keep.\<close>

definition joint_ok where
  "joint_ok P D1 D2 m sig1 sig2 ins1 ins2 lg1 lg2 vs rest M1 LA G E es \<longleftrightarrow>
     (\<forall>w < length vs + length es.
        encodes D1 (opened lg1 lg2 ins1 ins2 vs es w) (snd (fst G w)) (snd (fst E w))) \<and>
     (\<exists>m'. fst (snd G) = (D1, m', sig1, num_and_evs es, rows_of G) \<and>
        (\<exists>M1' LA'. fst (snd E) = (D2, m', sig2, num_and_evs es, rest, M1', LA') \<and>
           length M1' = length M1 \<and> length LA' = length LA \<and>
           (\<forall>i < num_and_evs es.
              LA' ! i = bbyte (opened lg1 lg2 ins1 ins2 vs es (and_outs (length vs) es ! i)) \<and>
              M1' ! i = check_value lg1 lg2 ins1 ins2 vs es sig1 i)))"

lemma joint_okI:
  assumes "\<And>w. w < length vs + length es \<Longrightarrow>
      encodes D1 (opened lg1 lg2 ins1 ins2 vs es w) (snd (fst G w)) (snd (fst E w))"
    and "fst (snd G) = (D1, m', sig1, num_and_evs es, R)"
    and "fst (snd E) = (D2, m', sig2, num_and_evs es, rest, M1', LA')"
    and "length M1' = length M1" "length LA' = length LA"
    and "\<And>i. i < num_and_evs es \<Longrightarrow>
      LA' ! i = bbyte (opened lg1 lg2 ins1 ins2 vs es (and_outs (length vs) es ! i)) \<and>
      M1' ! i = check_value lg1 lg2 ins1 ins2 vs es sig1 i"
  shows "joint_ok P D1 D2 m sig1 sig2 ins1 ins2 lg1 lg2 vs rest M1 LA G E es"
  unfolding joint_ok_def using assms by (auto simp: rows_of_def)

lemma garble_rows_grow:
  "\<exists>r. rows_of (reg_step (garble_cell P) (garble_aux P) e G) = rows_of G @ r \<and> (\<not> ev_is_and e \<longrightarrow> r = [])"
proof (cases "ev_is_and e")
  case True
  then obtain a b where "e = EAnd a b" by (cases e) auto
  then show ?thesis
    by (cases "fst (snd G)") (auto simp: rows_of_def garble_aux_def split: prod.splits)
qed (simp add: rows_of_def garble_simps(5))

lemma joint_okD:
  assumes "joint_ok P D1 D2 m sig1 sig2 ins1 ins2 lg1 lg2 vs rest M1 LA G E es"
  obtains m' M1' LA' where
    "\<And>w. w < length vs + length es \<Longrightarrow>
      encodes D1 (opened lg1 lg2 ins1 ins2 vs es w) (snd (fst G w)) (snd (fst E w))"
    "fst (snd G) = (D1, m', sig1, num_and_evs es, rows_of G)"
    "fst (snd E) = (D2, m', sig2, num_and_evs es, rest, M1', LA')"
    "length M1' = length M1" "length LA' = length LA"
    "\<And>i. i < num_and_evs es \<Longrightarrow>
      LA' ! i = bbyte (opened lg1 lg2 ins1 ins2 vs es (and_outs (length vs) es ! i)) \<and>
      M1' ! i = check_value lg1 lg2 ins1 ins2 vs es sig1 i"
  using assms unfolding joint_ok_def by blast

text \<open>The older check values and masks are not affected by the next event.\<close>

lemma told_values_snoc:
  assumes "wf_stream (length vs) es" and "i < num_and_evs es"
    and "LA ! i = bbyte (opened lg1 lg2 ins1 ins2 vs es (and_outs (length vs) es ! i)) \<and>
      M1 ! i = check_value lg1 lg2 ins1 ins2 vs es sig1 i"
  shows "LA ! i = bbyte (opened lg1 lg2 ins1 ins2 vs (es @ [e]) (and_outs (length vs) (es @ [e]) ! i)) \<and>
      M1 ! i = check_value lg1 lg2 ins1 ins2 vs (es @ [e]) sig1 i"
proof -
  have "and_outs (length vs) (es @ [e]) ! i = and_outs (length vs) es ! i" using assms(2) by (simp add: nth_append)
  then show ?thesis using assms and_outs_bound [OF assms(2), of "length vs"]
    by (simp add: opened_snoc check_value_snoc)
qed

text \<open>A linear event: the two machines compute related labels, the buffers stay.\<close>

lemma joint_ok_linear:
  fixes G :: "(wire \<Rightarrow> ashare \<times> block) \<times> 'm garble_aux \<times> nat"
  assumes I: "joint_ok P D1 D2 m sig1 sig2 ins1 ins2 lg1 lg2 vs rest M1 LA G E es"
    and wf: "wf_stream (length vs) (es @ [e])" and e: "\<not> ev_is_and e"
    and out: "snd (snd G) = length vs + length es" "snd (snd E) = length vs + length es"
  defines "G' \<equiv> reg_step (garble_cell P) (garble_aux P) e G" and "E' \<equiv> reg_step (eval_cell P) (eval_aux P) e E"
  shows "joint_ok P D1 D2 m sig1 sig2 ins1 ins2 lg1 lg2 vs rest M1 LA G' E' (es @ [e])"
proof -
  let ?op = "opened lg1 lg2 ins1 ins2 vs" and ?N = "length vs + length es"
  have wf': "wf_stream (length vs) es" "\<And>w. w \<in> set (ev_reads e) \<Longrightarrow> w < ?N"
    using wf by (simp_all add: wf_stream_snoc)
  from I show ?thesis
  proof (rule joint_okD)
    fix m' M1' LA'
    assume enc: "\<And>w. w < ?N \<Longrightarrow> encodes D1 (?op es w) (snd (fst G w)) (snd (fst E w))"
      and G: "fst (snd G) = (D1, m', sig1, num_and_evs es, rows_of G)"
      and E: "fst (snd E) = (D2, m', sig2, num_and_evs es, rest, M1', LA')"
      and l: "length M1' = length M1" "length LA' = length LA"
      and B: "\<And>i. i < num_and_evs es \<Longrightarrow> LA' ! i = bbyte (?op es (and_outs (length vs) es ! i)) \<and>
        M1' ! i = check_value lg1 lg2 ins1 ins2 vs es sig1 i"
    have n: "num_and_evs (es @ [e]) = num_and_evs es" using e by simp
    have "encodes D1 (?op (es @ [e]) w) (snd (fst G' w)) (snd (fst E' w))" if "w < length vs + length (es @ [e])" for w
    proof (cases "w = ?N")
      case False
      then show ?thesis using enc [of w] that by (simp add: G'_def E'_def out opened_snoc)
    next
      case True
      have "encodes D1 (?op (es @ [e]) ?N) (snd (garble_cell P e (fst (snd G)) (fst G) ?N))
          (snd (eval_cell P e (fst (snd E)) (fst E) ?N))"
        unfolding opened_new by (rule joint_linear) (use e G enc wf'(2) in simp_all)
      then show ?thesis by (simp only: True G'_def E'_def out reg_step_sel fun_upd_same)
    qed
    moreover have "fst (snd G') = fst (snd G)" "fst (snd E') = fst (snd E)"
      using e by (simp_all add: G'_def E'_def garble_simps(5) eval_simps(5))
    ultimately show ?thesis
      using G E l told_values_snoc [OF wf'(1) _ B] unfolding n [symmetric] by (intro joint_okI) auto
  qed
qed

text \<open>An AND event: one row is added and consumed.\<close>

lemma joint_and_gate:
  fixes P :: "('m, 'd) prims"
  assumes masks: "masks_ok D1 D2 (length vs) (es @ [EAnd a b]) ins1 ins2 lg1 lg2 sig1 sig2" and D: "deltas_ok D1 D2"
    and wf: "wf_stream (length vs) (es @ [EAnd a b])"
    and f: "\<And>w. w < length vs + length es \<Longrightarrow> fst (f w) = share_regs lg1 (length vs) ins1 es w"
      "fst (f (length vs + length es)) = lg1 (num_and_evs es)"
    and g: "\<And>w. w < length vs + length es \<Longrightarrow> fst (g w) = share_regs lg2 (length vs) ins2 es w"
      "fst (g (length vs + length es)) = lg2 (num_and_evs es)"
    and enc: "\<And>w. w < length vs + length es \<Longrightarrow>
      encodes D1 (opened lg1 lg2 ins1 ins2 vs es w) (snd (f w)) (snd (g w))"
    and row: "garble_and P (D1, m, sig1, num_and_evs es, rows) f a b (length vs + length es) = (G0, G1, l)"
  defines "x \<equiv> opened lg1 lg2 ins1 ins2 vs (es @ [EAnd a b]) (length vs + length es)"
  shows "eval_gate P (D2, m, sig2, num_and_evs es, (G0, G1, bbyte (LSB1 l)) # rest, M1, LA) g a b
      (length vs + length es) =
    (l XOR sel x D1, x, check_value lg1 lg2 ins1 ins2 vs (es @ [EAnd a b]) sig1 (num_and_evs es))"
proof -
  let ?op = "opened lg1 lg2 ins1 ins2 vs" and ?n = "length vs" and ?k = "num_and_evs es"
  let ?mask = "wire_mask lg1 lg2 ?n ins1 ins2"
  have ab: "a < ?n + length es" "b < ?n + length es" and wf': "wf_stream ?n es"
    using wf by (simp_all add: wf_stream_snoc)
  have kk: "?k < num_and_evs (es @ [EAnd a b])" "and_ops (es @ [EAnd a b]) ! ?k = (a, b)" by (simp_all add: nth_append)
  have mk: "shares_ok D1 D2 (lg1 ?k) (lg2 ?k)" "shares_ok D1 D2 (sig1 ! ?k) (sig2 ! ?k)"
    using masks kk(1) unfolding masks_ok_def by blast+
  have "share_bit (sig1 ! ?k) (sig2 ! ?k) = (?mask (es @ [EAnd a b]) (fst (and_ops (es @ [EAnd a b]) ! ?k)) \<and>
      ?mask (es @ [EAnd a b]) (snd (and_ops (es @ [EAnd a b]) ! ?k)))"
    using masks kk(1) unfolding masks_ok_def by blast
  then have sg: "share_bit (sig1 ! ?k) (sig2 ! ?k) = (?mask es a \<and> ?mask es b)"
    using ab unfolding kk(2) by (simp only: wire_mask_snoc fst_conv snd_conv)
  note sh = share_regs_ok [OF masks_okD [OF masks_ok_snocD [OF masks wf]] wf']
  have x: "x = (((?op es a \<noteq> ?mask es a) \<and> (?op es b \<noteq> ?mask es b)) \<noteq> share_bit (lg1 ?k) (lg2 ?k))"
    unfolding x_def opened_new by (auto simp: opened_def)
  show ?thesis
    unfolding x wire_mask_def check_value_new [OF ab]
  proof (rule joint_and [OF sh [OF ab(1)] sh [OF ab(2)] mk _ D, where f = f and g = g])
    show "f a = (share_regs lg1 ?n ins1 es a, snd (f a))" "f b = (share_regs lg1 ?n ins1 es b, snd (f b))"
      "g a = (share_regs lg2 ?n ins2 es a, snd (g a))" "g b = (share_regs lg2 ?n ins2 es b, snd (g b))"
      using f(1) g(1) ab by (simp_all add: prod_eq_iff)
  qed (use sg enc ab row f(2) g(2) in \<open>simp_all add: wire_mask_def\<close>)
qed

lemma joint_ok_and:
  fixes G :: "(wire \<Rightarrow> ashare \<times> block) \<times> 'm garble_aux \<times> nat"
  assumes I: "joint_ok P D1 D2 m sig1 sig2 ins1 ins2 lg1 lg2 vs (r @ rest) M1 LA G E es"
    and wf: "wf_stream (length vs) (es @ [EAnd a b])"
    and masks: "masks_ok D1 D2 (length vs) (es @ [EAnd a b]) ins1 ins2 lg1 lg2 sig1 sig2" and D: "deltas_ok D1 D2"
    and len: "num_and_evs es < length M1" "num_and_evs es < length LA"
    and out: "snd (snd G) = length vs + length es" "snd (snd E) = length vs + length es"
    and f: "\<And>w. w < length vs + length es \<Longrightarrow> fst (fst G w) = share_regs lg1 (length vs) ins1 es w"
      "fst (fst G (length vs + length es)) = lg1 (num_and_evs es)"
    and g: "\<And>w. w < length vs + length es \<Longrightarrow> fst (fst E w) = share_regs lg2 (length vs) ins2 es w"
      "fst (fst E (length vs + length es)) = lg2 (num_and_evs es)"
  defines "G' \<equiv> reg_step (garble_cell P) (garble_aux P) (EAnd a b) G"
    and "E' \<equiv> reg_step (eval_cell P) (eval_aux P) (EAnd a b) E"
  assumes r: "rows_of G' = rows_of G @ r"
  shows "joint_ok P D1 D2 m sig1 sig2 ins1 ins2 lg1 lg2 vs rest M1 LA G' E' (es @ [EAnd a b])"
proof -
  let ?op = "opened lg1 lg2 ins1 ins2 vs" and ?N = "length vs + length es" and ?k = "num_and_evs es"
  let ?es = "es @ [EAnd a b]"
  let ?x = "?op ?es ?N" and ?c = "check_value lg1 lg2 ins1 ins2 vs ?es sig1 ?k"
  have wf': "wf_stream (length vs) es" using wf by (simp add: wf_stream_snoc)
  from I show ?thesis
  proof (rule joint_okD)
    fix m' M1' LA'
    assume enc: "\<And>w. w < ?N \<Longrightarrow> encodes D1 (?op es w) (snd (fst G w)) (snd (fst E w))"
      and A: "fst (snd G) = (D1, m', sig1, ?k, rows_of G)" "fst (snd E) = (D2, m', sig2, ?k, r @ rest, M1', LA')"
      and l: "length M1' = length M1" "length LA' = length LA"
      and B: "\<And>i. i < ?k \<Longrightarrow> LA' ! i = bbyte (?op es (and_outs (length vs) es ! i)) \<and>
        M1' ! i = check_value lg1 lg2 ins1 ins2 vs es sig1 i"
    obtain G0 G1 la where row: "garble_and P (D1, m', sig1, ?k, rows_of G) (fst G) a b ?N = (G0, G1, la)"
      by (metis prod_cases3)
    have ga: "fst (snd G') = (D1, pr_adv P m' 1, sig1, Suc ?k, rows_of G @ [(G0, G1, bbyte (LSB1 la))])"
      using garble_simps(6) [OF row] by (simp add: G'_def A out)
    then have rr: "r = [(G0, G1, bbyte (LSB1 la))]" using r by (simp add: rows_of_def)
    note ev = joint_and_gate [OF masks D wf f g enc row, of rest M1' LA']
    have ea: "fst (snd E') = (D2, pr_adv P m' 1, sig2, Suc ?k, rest, M1'[?k := ?c], LA'[?k := bbyte ?x])"
      using eval_simps(6) [OF ev] by (simp add: E'_def A out rr)
    have enc': "encodes D1 (?op ?es w) (snd (fst G' w)) (snd (fst E' w))" if "w < length vs + length ?es" for w
    proof (cases "w = ?N")
      case False
      then show ?thesis using enc [of w] that by (simp add: G'_def E'_def out opened_snoc)
    next
      case True
      then show ?thesis
        using ev row by (simp add: G'_def E'_def out garble_simps eval_simps A rr encodes_def)
    qed
    have chk: "LA'[?k := bbyte ?x] ! i = bbyte (?op ?es (and_outs (length vs) ?es ! i)) \<and>
        M1'[?k := ?c] ! i = check_value lg1 lg2 ins1 ins2 vs ?es sig1 i" if "i < num_and_evs ?es" for i
    proof (cases "i = ?k")
      case False
      then have "i < ?k" using that by simp
      from told_values_snoc [OF wf' this B [OF this], of "EAnd a b"] show ?thesis using False by simp
    qed (use len l in \<open>simp add: nth_append\<close>)
    have n: "num_and_evs ?es = Suc ?k" by simp
    note o = ga [folded n] ea [folded n]
    show ?thesis
      by (rule joint_okI [OF _ o]) (use enc' chk l in simp_all)
  qed
qed

theorem joint_run_ok:
  fixes P :: "('m, 'd) prims" and vs :: "bool list" and m :: 'm and D1 :: block
    and f :: "wire \<Rightarrow> ashare \<times> block" and sig1 :: "ashare list"
  defines "n \<equiv> length vs"
  assumes wf: "wf_stream n es" and masks: "masks_ok D1 D2 n es ins1 ins2 lg1 lg2 sig1 sig2"
    and D: "deltas_ok D1 D2"
    and f: "\<forall>w < n. fst (f w) = ins1 w" "preset n es lg1 (\<lambda>w. fst (f w))"
    and g: "\<forall>w < n. fst (g w) = ins2 w" "preset n es lg2 (\<lambda>w. fst (g w))"
    and init: "\<forall>w < n. encodes D1 (vs ! w \<noteq> share_bit (ins1 w) (ins2 w)) (snd (f w)) (snd (g w))"
    and len: "num_and_evs es \<le> length M1" "num_and_evs es \<le> length LA"
  defines "G \<equiv> \<lambda>es. joint_garble P D1 m sig1 n f es"
  shows "joint_ok P D1 D2 m sig1 sig2 ins1 ins2 lg1 lg2 vs rest M1 LA (G es)
     (joint_eval P D2 m sig2 n g (rows_of (G es) @ rest) M1 LA es) es"
  using wf masks f(2) g(2) len
proof (induction es arbitrary: rest rule: rev_induct)
  case Nil
  then show ?case
    using init by (auto simp: joint_ok_def G_def joint_garble_def joint_eval_def rows_of_def opened_def
        wire_mask_def n_def)
next
  case (snoc e es)
  have wf: "wf_stream n es" using snoc.prems(1) by (simp add: wf_stream_snoc)
  note masks = masks_ok_snocD [OF snoc.prems(2,1)]
  have pre: "preset n es lg1 (\<lambda>w. fst (f w))" "preset n es lg2 (\<lambda>w. fst (g w))"
    "ev_is_and e \<longrightarrow> fst (f (n + length es)) = lg1 (num_and_evs es)"
    "ev_is_and e \<longrightarrow> fst (g (n + length es)) = lg2 (num_and_evs es)"
    using preset_snocD [OF snoc.prems(3)] preset_snocD [OF snoc.prems(4)] by blast+
  have len: "num_and_evs es \<le> length M1" "num_and_evs es \<le> length LA" using snoc.prems(5,6) by simp_all
  have Gstep: "G (es @ [e]) = reg_step (garble_cell P) (garble_aux P) e (G es)" by (simp add: G_def joint_garble_def)
  obtain r where r: "rows_of (G (es @ [e])) = rows_of (G es) @ r" and lin: "\<not> ev_is_and e \<Longrightarrow> r = []"
    using garble_rows_grow [of P e "G es"] unfolding Gstep by blast
  define E where "E = joint_eval P D2 m sig2 n g (rows_of (G es) @ (r @ rest)) M1 LA es"
  have Estep: "joint_eval P D2 m sig2 n g (rows_of (G (es @ [e])) @ rest) M1 LA (es @ [e]) =
      reg_step (eval_cell P) (eval_aux P) e E"
    by (simp add: E_def joint_eval_def r)
  have I: "joint_ok P D1 D2 m sig1 sig2 ins1 ins2 lg1 lg2 vs (r @ rest) M1 LA (G es) E es"
    unfolding E_def by (rule snoc.IH [OF wf masks pre(1,2) len])
  have out: "snd (snd (G es)) = n + length es" "snd (snd E) = n + length es"
    by (simp_all add: G_def E_def joint_garble_def joint_eval_def)
  show ?case
  proof (cases "ev_is_and e")
    case False
    from joint_ok_linear [OF I [unfolded lin [OF False] append_Nil] snoc.prems(1) [unfolded n_def] False out [unfolded n_def]]
    show ?thesis unfolding Gstep [symmetric] Estep by (simp add: lin [OF False])
  next
    case True
    then obtain a b where e: "e = EAnd a b" by (cases e) auto
    have "fst (fst (G es) w) = share_regs lg1 n ins1 es w" "fst (fst E w) = share_regs lg2 n ins2 es w"
      if "w < n + length es" for w
      unfolding G_def joint_garble_def E_def joint_eval_def
      by (rule garble_regs_share [OF f(1) pre(1) wf that] eval_regs_share [OF g(1) pre(2) wf that])+
    moreover have "fst (G es) (n + length es) = f (n + length es)" "fst E (n + length es) = g (n + length es)"
      unfolding G_def joint_garble_def E_def joint_eval_def by (rule reg_run_untouched, simp)+
    ultimately show ?thesis
      unfolding Estep unfolding Gstep
      using joint_ok_and [OF I snoc.prems(1) [unfolded e n_def] snoc.prems(2) [unfolded e n_def] D _ _ out [unfolded n_def]]
        snoc.prems(5,6) pre(3,4) r True unfolding Gstep by (simp add: e n_def)
  qed
qed

end
