(* ===== verification/Protocol.thy ===== *)
theory Protocol
  imports Triple_Pool
begin

text \<open>
  The crypto core \<^verbatim>\<open>AG2PCProtocol\<close> of \<^verbatim>\<open>backend/protocol.h\<close>: public
  constants, the batched input phase \<^verbatim>\<open>process_inputs\<close> and output decoding
  \<^verbatim>\<open>decode\<close>. What one party computes and sends is a definition of its own, so that the
  peer's message can be any value; the two-party definitions feed each party the other's message.
  The parties are numbered as in emp-tool.
\<close>

definition PUBLIC :: nat where "PUBLIC = 0"
definition ALICE :: nat where "ALICE = 1"
definition BOB :: nat where "BOB = 2"

lemmas party_defs = PUBLIC_def ALICE_def BOB_def

section \<open>State\<close>

record protocol =
  pc_party :: nat
  pc_Delta :: block
  pc_fpre :: pool
  pc_calls :: nat   \<comment> \<open>\<^verbatim>\<open>process_input_calls\<close>\<close>

definition init_protocol :: "nat \<Rightarrow> pool \<Rightarrow> protocol" where
  "init_protocol party fpre =
     \<lparr>pc_party = party, pc_Delta = tp_Delta fpre, pc_fpre = fpre, pc_calls = 0\<rparr>"

definition protocol_cot_check :: "protocol \<Rightarrow> protocol" where
  "protocol_cot_check p = p\<lparr>pc_fpre := maybe_flush_cot_check (pc_fpre p)\<rparr>"

text \<open>The two ends of one session.\<close>

definition protocols_ok :: "protocol \<Rightarrow> protocol \<Rightarrow> bool" where
  "protocols_ok p q \<longleftrightarrow> pc_party p = 1 \<and> pc_party q = 2 \<and> pc_Delta p = tp_Delta (pc_fpre p) \<and>
     pc_Delta q = tp_Delta (pc_fpre q) \<and> pools_ok (pc_fpre p) (pc_fpre q)"

lemma protocols_okD:
  assumes "protocols_ok p q"
  shows "pc_party p = 1" "pc_party q = 2" "deltas_ok (pc_Delta p) (pc_Delta q)"
    "pools_ok (pc_fpre p) (pc_fpre q)" "pc_Delta p = tp_Delta (pc_fpre p)" "pc_Delta q = tp_Delta (pc_fpre q)"
  using assms by (simp_all add: protocols_ok_def pools_ok_def)

lemma init_protocols_ok: "pools_ok f g \<Longrightarrow> protocols_ok (init_protocol 1 f) (init_protocol 2 g)"
  by (simp add: protocols_ok_def init_protocol_def)

lemma cot_check_pools_ok: "pools_ok f g \<Longrightarrow> pools_ok (maybe_flush_cot_check f) (maybe_flush_cot_check g)"
  by (rule pools_ok_step [OF _ same_session_ops(3) same_session_ops(3)])
    (auto simp: pools_ok_def maybe_flush_cot_check_def flush_cot_check_def)

lemma protocol_cot_check_ok:
  "protocols_ok p q \<Longrightarrow> protocols_ok (protocol_cot_check p) (protocol_cot_check q)"
  by (simp add: protocols_ok_def protocol_cot_check_def cot_check_pools_ok)
     (simp add: maybe_flush_cot_check_def flush_cot_check_def)

section \<open>Public constants\<close>

definition public_wires :: "protocol \<Rightarrow> byte list \<Rightarrow> secure_wires" where
  "public_wires p bits =
     \<lparr>sw_Lambda = map (\<lambda>b. bbyte (nz b)) bits,
      sw_bundle = replicate (length bits) zero_share,
      sw_label0 = (if pc_party p = 1 then map (\<lambda>b. if nz b then pc_Delta p else 0) bits else []),
      sw_eval_label = (if pc_party p = 1 then [] else map (\<lambda>b. 0) bits)\<rparr>"

lemma public_wires_rel:
  assumes "pc_party p = 1" and "pc_party q = 2"
  shows "wires_rel (pc_Delta p) (pc_Delta q) (public_wires p bits) (public_wires q bits) (map nz bits)"
  using assms by (auto simp: wires_rel_def eval_rel_def sw_layout_def sw_size_def public_wires_def sel_def)

section \<open>Opening shares\<close>

text \<open>
  A party ships the bits of its shares and the hash of its MACs. The receiver recomputes the MACs
  from its keys and the received bits; \<^verbatim>\<open>select_mask\<close> is indexed with the received byte.
\<close>

record 'd open_msg =
  om_share :: "byte list"
  om_digest :: 'd

definition open_shares :: "('m, 'd) prims \<Rightarrow> ashare list \<Rightarrow> 'd open_msg" where
  "open_shares P sh = \<lparr>om_share = map (\<lambda>s. bbyte (LSB (sh_mac s))) sh, om_digest = pr_digest P (map sh_mac sh)\<rparr>"

definition exp_macs :: "block \<Rightarrow> ashare list \<Rightarrow> byte list \<Rightarrow> block list result" where
  "exp_macs D sh tmp = map_result (\<lambda>i.
     bind_result (select_mask_at (tmp ! i)) (\<lambda>m. Inr (sh_key (sh ! i) XOR (m AND D)))) [0..<length sh]"

definition verify_open ::
  "('m, 'd) prims \<Rightarrow> ag2pc_error \<Rightarrow> block \<Rightarrow> ashare list \<Rightarrow> 'd open_msg \<Rightarrow> unit result" where
  "verify_open P err D sh msg =
     bind_result (exp_macs D sh (om_share msg)) (\<lambda>e.
       if pr_digest P e \<noteq> om_digest msg then Inl err else Inr ())"

lemma exp_macs_bits:
  assumes "\<And>i. i < length sh \<Longrightarrow> tmp ! i = bbyte (b i)"
  shows "exp_macs D sh tmp = Inr (map (\<lambda>i. sh_key (sh ! i) XOR sel (b i) D) [0..<length sh])"
  unfolding exp_macs_def by (rule map_result_ok) (simp add: assms)

lemma exp_macs_Inr:
  assumes "exp_macs D sh tmp = Inr e"
  shows "length e = length sh"
    and "i < length sh \<Longrightarrow> \<exists>b. tmp ! i = bbyte b \<and> e ! i = sh_key (sh ! i) XOR sel b D"
proof -
  have r: "list_all2 (\<lambda>i y. bind_result (select_mask_at (tmp ! i)) (\<lambda>m. Inr (sh_key (sh ! i) XOR (m AND D))) = Inr y)
      [0..<length sh] e"
    using assms by (simp add: exp_macs_def map_result_Inr)
  then show "length e = length sh" by (simp add: list_all2_lengthD [symmetric])
  assume "i < length sh"
  then have "bind_result (select_mask_at (tmp ! i)) (\<lambda>m. Inr (sh_key (sh ! i) XOR (m AND D))) = Inr (e ! i)"
    using list_all2_nthD [OF r, of i] by simp
  then show "\<exists>b. tmp ! i = bbyte b \<and> e ! i = sh_key (sh ! i) XOR sel b D"
    by (cases "tmp ! i = 0"; cases "tmp ! i = 1")
       (auto simp: select_mask_at_def bbyte_def intro: exI [of _ True] exI [of _ False])
qed

text \<open>Honest shares verify.\<close>

lemma map_select_errors:
  "map_result (\<lambda>i. bind_result (select_mask_at (tmp ! i)) (\<lambda>m. Inr (k i m))) xs = Inl x \<Longrightarrow> x = Out_Of_Bounds"
  by (induction xs) (auto simp: select_mask_at_def bind_result_def split: sum.splits if_splits)

lemma exp_macs_errors: "exp_macs D sh tmp = Inl err \<Longrightarrow> err = Out_Of_Bounds"
  unfolding exp_macs_def by (rule map_select_errors)

lemma exp_macs_honest:
  assumes "length ts = length sh" and "\<And>i. i < length sh \<Longrightarrow> mac_ok D (sh_mac (ts ! i)) (sh_key (sh ! i))"
  shows "exp_macs D sh (map (\<lambda>s. bbyte (LSB (sh_mac s))) ts) = Inr (map sh_mac ts)"
proof -
  have k: "sh_key (sh ! i) XOR sel (LSB (sh_mac (ts ! i))) D = sh_mac (ts ! i)" if "i < length sh" for i
    by (rule conjunct1 [OF assms(2) [OF that, unfolded mac_ok_def], symmetric])
  have "map (\<lambda>i. sh_key (sh ! i) XOR sel (LSB (sh_mac (ts ! i))) D) [0..<length sh] = map sh_mac ts"
    by (rule nth_equalityI) (simp_all add: assms(1) k)
  then show ?thesis using exp_macs_bits [of sh _ "\<lambda>i. LSB (sh_mac (ts ! i))" D] assms(1) by simp
qed

lemma verify_open_honest:
  assumes "length ts = length sh" and "\<And>i. i < length sh \<Longrightarrow> mac_ok D (sh_mac (ts ! i)) (sh_key (sh ! i))"
  shows "verify_open P err D sh (open_shares P ts) = Inr ()"
  using exp_macs_honest [OF assms] by (simp add: verify_open_def open_shares_def)

text \<open>
  A sender that is accepted with a flipped bit knows the receiver's difference: the block it hashed
  for that wire and the MAC it holds differ by it.
\<close>

lemma verify_open_forgery:
  assumes inj: "\<And>x y. pr_digest P x = pr_digest P y \<Longrightarrow> x = y"
    and acc: "verify_open P err D sh \<lparr>om_share = tmp, om_digest = pr_digest P ms\<rparr> = Inr ()"
    and ok: "mac_ok D (sh_mac t) (sh_key (sh ! i))" and i: "i < length sh"
    and flip: "tmp ! i \<noteq> bbyte (LSB (sh_mac t))"
  shows "ms ! i XOR sh_mac t = D"
proof -
  obtain e where e: "exp_macs D sh tmp = Inr e" "pr_digest P e = pr_digest P ms"
    using acc by (auto simp: verify_open_def bind_result_Inr split: if_splits)
  have "e = ms" by (rule inj) (rule e(2))
  moreover obtain b where b: "tmp ! i = bbyte b" "e ! i = sh_key (sh ! i) XOR sel b D"
    using exp_macs_Inr(2) [OF e(1) i] by blast
  ultimately have "ms ! i = sh_key (sh ! i) XOR sel (\<not> LSB (sh_mac t)) D"
    using flip by auto
  then have "ms ! i XOR sh_mac t = (sh_key (sh ! i) XOR sel (\<not> LSB (sh_mac t)) D) XOR
      (sh_key (sh ! i) XOR sel (LSB (sh_mac t)) D)"
    by (rule arg_cong2 [where f = "(XOR)"]) (rule conjunct1 [OF ok [unfolded mac_ok_def]])
  also have "\<dots> = D" by (cases "LSB (sh_mac t)") (simp_all add: xor_algebra)
  finally show ?thesis .
qed

section \<open>The input phase\<close>

text \<open>The request is validated before any communication.\<close>

definition check_owners :: "nat list \<Rightarrow> byte list list \<Rightarrow> unit result" where
  "check_owners owners bits =
     (if length owners \<noteq> length bits then Inl Owners_Size_Mismatch
      else if \<exists>o' \<in> set owners. o' \<noteq> ALICE \<and> o' \<noteq> BOB then Inl Owner_Not_Party
      else Inr ())"

definition owner_offset :: "byte list list \<Rightarrow> nat \<Rightarrow> nat" where
  "owner_offset bits k = sum_list (map length (take k bits))"

text \<open>\<^verbatim>\<open>owner_of_wire\<close> and \<^verbatim>\<open>own_x_bits\<close>.\<close>

definition wire_owners :: "nat list \<Rightarrow> byte list list \<Rightarrow> nat list" where
  "wire_owners owners bits = concat (map (\<lambda>(o', bs). replicate (length bs) o') (zip owners bits))"

definition own_x_bits :: "nat \<Rightarrow> nat list \<Rightarrow> byte list list \<Rightarrow> byte list" where
  "own_x_bits party owners bits =
     concat (map (\<lambda>(o', bs). if o' = party then bs else replicate (length bs) 0) (zip owners bits))"

definition peer_idx_list :: "nat \<Rightarrow> nat list \<Rightarrow> nat list" where
  "peer_idx_list party ow = filter (\<lambda>i. ow ! i \<noteq> party) [0..<length ow]"

definition own_x_packed :: "nat \<Rightarrow> nat list \<Rightarrow> byte list \<Rightarrow> byte list" where
  "own_x_packed party ow x = map ((!) x) (filter (\<lambda>i. ow ! i = party) [0..<length ow])"

text \<open>
  The combined bundle: one draw for all wires, the garbler's labels from its generator
  (\<open>labels\<close>).
\<close>

definition inputs_draw :: "block list \<Rightarrow> nat \<Rightarrow> protocol \<Rightarrow> secure_wires \<times> protocol" where
  "inputs_draw labels n p =
     (let (sh, f) = draw n (pc_fpre p)
      in (\<lparr>sw_Lambda = replicate n 0, sw_bundle = sh,
           sw_label0 = (if pc_party p = 1 then map ((!) labels) [0..<n] else []),
           sw_eval_label = (if pc_party p = 1 then [] else replicate n 0)\<rparr>, p\<lparr>pc_fpre := f\<rparr>))"

text \<open>The message of one party: opened shares, and the bits of the wires it owns.\<close>

definition inputs_message ::
  "('m, 'd) prims \<Rightarrow> nat \<Rightarrow> nat list \<Rightarrow> byte list \<Rightarrow> secure_wires \<Rightarrow> 'd open_msg \<times> byte list" where
  "inputs_message P party ow x sw = (open_shares P (sw_bundle sw), own_x_packed party ow x)"

definition add_peer_x :: "nat list \<Rightarrow> byte list \<Rightarrow> byte list \<Rightarrow> byte list" where
  "add_peer_x idx px L = fold (\<lambda>(i, x) L. L[i := L ! i XOR x]) (zip idx px) L"

text \<open>What a party makes of the peer's message: the opened masks of all wires.\<close>

definition inputs_open ::
  "('m, 'd) prims \<Rightarrow> protocol \<Rightarrow> nat list \<Rightarrow> byte list \<Rightarrow> secure_wires \<Rightarrow> 'd open_msg \<times> byte list \<Rightarrow>
   byte list result" where
  "inputs_open P p ow x sw msg =
     (let sh = sw_bundle sw; (om, px) = msg in
      bind_result (verify_open P Share_Mac_Mismatch (pc_Delta p) sh om) (\<lambda>_.
        Inr (add_peer_x (peer_idx_list (pc_party p) ow) px
          (map (\<lambda>i. bbyte (LSB (sh_mac (sh ! i))) XOR om_share om ! i XOR x ! i) [0..<length sh]))))"

text \<open>The garbler's labels for the opened masks.\<close>

definition inputs_labels :: "block \<Rightarrow> secure_wires \<Rightarrow> byte list \<Rightarrow> block list result" where
  "inputs_labels D sw Lam = map_result (\<lambda>i.
     bind_result (select_mask_at (Lam ! i)) (\<lambda>m. Inr (sw_label0 sw ! i XOR (m AND D)))) [0..<length Lam]"

definition split_owners :: "byte list list \<Rightarrow> secure_wires \<Rightarrow> secure_wires list" where
  "split_owners bits sw =
     map (\<lambda>k. sw_slice (owner_offset bits k) (owner_offset bits k + length (bits ! k)) sw) [0..<length bits]"

text \<open>Both parties.\<close>

definition process_inputs ::
  "('m, 'd) prims \<Rightarrow> nat list \<Rightarrow> byte list list \<Rightarrow> byte list list \<Rightarrow> block list \<Rightarrow>
   protocol \<Rightarrow> protocol \<Rightarrow> ((secure_wires list \<times> protocol) \<times> (secure_wires list \<times> protocol)) result" where
  "process_inputs P owners bits1 bits2 labels p q =
     (let p = p\<lparr>pc_calls := Suc (pc_calls p)\<rparr>; q = q\<lparr>pc_calls := Suc (pc_calls q)\<rparr>;
          n = sum_list (map length bits1) in
      bind_result (check_owners owners bits1) (\<lambda>_. bind_result (check_owners owners bits2) (\<lambda>_.
        if n = 0 then
          Inr ((replicate (length owners) empty_wires, p), (replicate (length owners) empty_wires, q))
        else
          let (g, p) = inputs_draw labels n p; (e, q) = inputs_draw [] n q;
              ow = wire_owners owners bits1;
              x1 = own_x_bits (pc_party p) owners bits1; x2 = own_x_bits (pc_party q) owners bits2;
              m1 = inputs_message P (pc_party p) ow x1 g; m2 = inputs_message P (pc_party q) ow x2 e
          in bind_result (inputs_open P p ow x1 g m2) (\<lambda>L1.
             bind_result (inputs_open P q ow x2 e m1) (\<lambda>L2.
             bind_result (inputs_labels (pc_Delta p) g L1) (\<lambda>lab.
               Inr ((split_owners bits1 (g\<lparr>sw_Lambda := L1\<rparr>), p),
                    (split_owners bits2 (e\<lparr>sw_Lambda := L2, sw_eval_label := lab\<rparr>), q))))))))"

text \<open>The cleartext inputs: each owner's own bits.\<close>

definition input_bits :: "nat list \<Rightarrow> byte list list \<Rightarrow> byte list list \<Rightarrow> nat \<Rightarrow> byte list" where
  "input_bits owners bits1 bits2 k = (if owners ! k = ALICE then bits1 ! k else bits2 ! k)"

subsection \<open>Honest parties agree\<close>

text \<open>The request both parties pass: the same owners and widths, and truth values as bits.\<close>

definition inputs_ok :: "nat list \<Rightarrow> byte list list \<Rightarrow> byte list list \<Rightarrow> bool" where
  "inputs_ok owners bits1 bits2 \<longleftrightarrow>
     length owners = length bits1 \<and> length owners = length bits2 \<and> set owners \<subseteq> {ALICE, BOB} \<and>
     map length bits1 = map length bits2 \<and>
     (\<forall>k < length owners. \<forall>b \<in> set (input_bits owners bits1 bits2 k). b = 0 \<or> b = 1)"

definition flat_inputs :: "nat list \<Rightarrow> byte list list \<Rightarrow> byte list list \<Rightarrow> byte list" where
  "flat_inputs owners bits1 bits2 = concat (map (input_bits owners bits1 bits2) [0..<length owners])"

lemma flat_inputs_Cons:
  "flat_inputs (o' # owners) (b1 # bits1) (b2 # bits2) =
     (if o' = ALICE then b1 else b2) @ flat_inputs owners bits1 bits2"
proof -
  have "map (input_bits (o' # owners) (b1 # bits1) (b2 # bits2)) [0..<length (o' # owners)] =
      (if o' = ALICE then b1 else b2) # map (input_bits owners bits1 bits2) [0..<length owners]"
    by (simp add: upt_conv_Cons map_Suc_upt [symmetric] input_bits_def comp_def del: upt_Suc)
  then show ?thesis by (simp add: flat_inputs_def)
qed

lemma flat_views:
  assumes "length owners = length bits1" and "length bits1 = length bits2" and "map length bits1 = map length bits2"
    and "set owners \<subseteq> {ALICE, BOB}"
  defines "ow \<equiv> wire_owners owners bits1" and "X \<equiv> flat_inputs owners bits1 bits2"
  shows "length X = sum_list (map length bits1)" and "length ow = length X" and "set ow \<subseteq> {ALICE, BOB}"
    and "own_x_bits 1 owners bits1 = map (\<lambda>(o', x). if o' = 1 then x else 0) (zip ow X)"
    and "own_x_bits 2 owners bits2 = map (\<lambda>(o', x). if o' = 2 then x else 0) (zip ow X)"
  unfolding ow_def X_def using assms(1-4)
proof (atomize (full), induction owners bits1 bits2 rule: list_induct3)
  case Nil
  then show ?case by (simp add: flat_inputs_def wire_owners_def own_x_bits_def)
next
  case (Cons o' owners b1 bits1 b2 bits2)
  have w: "wire_owners (o' # owners) (b1 # bits1) = replicate (length b1) o' @ wire_owners owners bits1"
    "own_x_bits p (o' # owners) (b # bs) = (if o' = p then b else replicate (length b) 0) @ own_x_bits p owners bs"
    for p b bs by (simp_all add: wire_owners_def own_x_bits_def)
  have z: "map (\<lambda>(o', x). if o' = p then x else 0) (zip (replicate (length b) a) b) =
      (if a = p then b else replicate (length b) 0)" for p a :: nat and b :: "byte list"
    by (induction b) simp_all
  have len: "length b1 = length b2" "o' = 1 \<or> o' = 2" using Cons.prems by (auto simp: party_defs)
  show ?case
    using Cons.IH Cons.prems len z [of 1 b1 o'] z [of 2 b2 o'] z [of 2 b1 o'] z [of 1 b2 o']
    by (auto simp: w flat_inputs_Cons party_defs)
qed

lemma add_peer_x_nth:
  assumes "distinct idx" and "\<forall>i \<in> set idx. i < length L" and "px = map f idx"
  shows "length (add_peer_x idx px L) = length L"
    and "j < length L \<Longrightarrow> add_peer_x idx px L ! j = (if j \<in> set idx then L ! j XOR f j else L ! j)"
  using assms
proof (atomize (full), induction idx arbitrary: px L)
  case Nil
  then show ?case by (simp add: add_peer_x_def)
next
  case (Cons i idx)
  let ?L = "L[i := L ! i XOR f i]"
  have "add_peer_x (i # idx) px L = add_peer_x idx (map f idx) ?L"
    using Cons.prems by (simp add: add_peer_x_def)
  moreover have "j \<in> set idx \<Longrightarrow> ?L ! j = L ! j" using Cons.prems by (cases "j = i") auto
  ultimately show ?case using Cons.IH [of ?L "map f idx"] Cons.prems by auto
qed

lemma map2_ite_nth:
  "length ow = length X \<Longrightarrow> i < length X \<Longrightarrow>
   map (\<lambda>(o', x). if o' = p then x else 0) (zip ow X) ! i = (if ow ! i = p then X ! i else 0)"
  by simp

lemma bbyte_xor_left: "bbyte a XOR bbyte b XOR y = bbyte (a \<noteq> b) XOR y"
  by (simp add: xor.assoc [symmetric])

text \<open>What an honest party opens from an honest peer's message.\<close>

lemma inputs_open_honest:
  fixes P :: "('m, 'd) prims"
  assumes party: "{pc_party p, peer} = {1, 2}" "pc_party p \<noteq> peer"
    and len: "length ow = length X" "length (sw_bundle sw) = length X" "length (sw_bundle sw') = length X"
    and ow: "set ow \<subseteq> {ALICE, BOB}"
    and macs: "\<And>i. i < length X \<Longrightarrow> mac_ok (pc_Delta p) (sh_mac (sw_bundle sw' ! i)) (sh_key (sw_bundle sw ! i))"
    and x: "x = map (\<lambda>(o', x). if o' = pc_party p then x else 0) (zip ow X)"
      "x' = map (\<lambda>(o', x). if o' = peer then x else 0) (zip ow X)"
  shows "inputs_open P p ow x sw (inputs_message P peer ow x' sw') =
    Inr (map (\<lambda>i. bbyte (LSB (sh_mac (sw_bundle sw ! i)) \<noteq> LSB (sh_mac (sw_bundle sw' ! i))) XOR X ! i) [0..<length X])"
    (is "?l = Inr ?r")
proof -
  let ?sh = "sw_bundle sw" and ?om = "open_shares P (sw_bundle sw')"
  let ?L = "map (\<lambda>i. bbyte (LSB (sh_mac (?sh ! i))) XOR om_share ?om ! i XOR x ! i) [0..<length ?sh]"
  have ow12: "ow ! i = pc_party p \<or> ow ! i = peer" if "i < length ow" for i
    using ow nth_mem [OF that] party(1) by (auto simp: party_defs)
  have "filter (\<lambda>i. ow ! i = peer) [0..<length ow] = peer_idx_list (pc_party p) ow"
    unfolding peer_idx_list_def by (rule filter_cong) (use ow12 party(2) in auto)
  then have px: "own_x_packed peer ow x' = map ((!) x') (peer_idx_list (pc_party p) ow)"
    by (simp add: own_x_packed_def)
  have idx: "distinct (peer_idx_list (pc_party p) ow)" "\<forall>i \<in> set (peer_idx_list (pc_party p) ow). i < length ?L"
    "j \<in> set (peer_idx_list (pc_party p) ow) \<longleftrightarrow> j < length X \<and> ow ! j \<noteq> pc_party p" for j
    using len by (auto simp: peer_idx_list_def)
  note add = add_peer_x_nth [OF idx(1,2) refl, where f = "(!) x'"]
  have ver: "verify_open P Share_Mac_Mismatch (pc_Delta p) ?sh ?om = Inr ()"
    by (rule verify_open_honest) (use len macs in simp_all)
  have l: "?l = Inr (add_peer_x (peer_idx_list (pc_party p) ow) (map ((!) x') (peer_idx_list (pc_party p) ow)) ?L)"
    by (simp add: inputs_open_def inputs_message_def ver px Let_def)
  have "add_peer_x (peer_idx_list (pc_party p) ow) (map ((!) x') (peer_idx_list (pc_party p) ow)) ?L = ?r"
  proof (rule nth_equalityI)
    show "length (add_peer_x (peer_idx_list (pc_party p) ow) (map ((!) x') (peer_idx_list (pc_party p) ow)) ?L) = length ?r"
      using add(1) len by simp
    fix j assume "j < length (add_peer_x (peer_idx_list (pc_party p) ow) (map ((!) x') (peer_idx_list (pc_party p) ow)) ?L)"
    then have j: "j < length X" using add(1) len by simp
    have xs: "x ! j = (if ow ! j = pc_party p then X ! j else 0)" "x' ! j = (if ow ! j = peer then X ! j else 0)"
      unfolding x by (rule map2_ite_nth [OF len(1) j])+
    have "?L ! j = bbyte (LSB (sh_mac (?sh ! j))) XOR bbyte (LSB (sh_mac (sw_bundle sw' ! j))) XOR x ! j"
      using j len by (simp add: open_shares_def)
    then show "add_peer_x (peer_idx_list (pc_party p) ow) (map ((!) x') (peer_idx_list (pc_party p) ow)) ?L ! j = ?r ! j"
      using add(2) [of j] j len xs ow12 [of j] party(2) idx(3) [of j]
      by (cases "ow ! j = pc_party p") (simp_all add: xor.assoc bbyte_xor_left)
  qed
  then show ?thesis by (simp add: l)
qed

text \<open>A slice of related bundles is related.\<close>

lemma wires_rel_slice:
  assumes "wires_rel D1 D2 g e vs" and "lo \<le> hi" and "hi \<le> length vs"
  shows "wires_rel D1 D2 (sw_slice lo hi g) (sw_slice lo hi e) (range_of lo hi vs)"
proof -
  have R: "sw_layout 1 g" "sw_layout 2 e" "sw_size g = length vs" "sw_size e = length vs" "sw_Lambda g = sw_Lambda e"
    and W: "\<And>i. i < length vs \<Longrightarrow> shares_ok D1 D2 (sw_bundle g ! i) (sw_bundle e ! i) \<and>
        sw_Lambda e ! i = bbyte (vs ! i \<noteq> share_bit (sw_bundle g ! i) (sw_bundle e ! i)) \<and>
        sw_eval_label e ! i = sw_label0 g ! i XOR sel (nz (sw_Lambda e ! i)) D1"
    using assms(1) unfolding wires_rel_def eval_rel_def by blast+
  note lay = sw_layout_slice [OF R(1) assms(2)] sw_layout_slice [OF R(2) assms(2)]
  have len: "length (sw_bundle g) = length vs" "length (sw_bundle e) = length vs"
    "length (sw_label0 g) = length vs" "length (sw_eval_label e) = length vs" "length (sw_Lambda e) = length vs"
    using R by (simp_all add: sw_layout_def sw_size_def)
  have at: "sw_bundle (sw_slice lo hi g) ! i = sw_bundle g ! (lo + i)"
    "sw_bundle (sw_slice lo hi e) ! i = sw_bundle e ! (lo + i)"
    "sw_Lambda (sw_slice lo hi e) ! i = sw_Lambda e ! (lo + i)"
    "sw_eval_label (sw_slice lo hi e) ! i = sw_eval_label e ! (lo + i)"
    "sw_label0 (sw_slice lo hi g) ! i = sw_label0 g ! (lo + i)"
    "range_of lo hi vs ! i = vs ! (lo + i)" if "i < hi - lo" for i
  proof -
    have b: "lo + i < hi" "lo + i < length vs" using that assms(2,3) by simp_all
    then have "sw_bundle g \<noteq> []" "sw_bundle e \<noteq> []" "sw_eval_label e \<noteq> []" "sw_label0 g \<noteq> []"
      using len by auto
    then show "sw_bundle (sw_slice lo hi g) ! i = sw_bundle g ! (lo + i)"
      "sw_bundle (sw_slice lo hi e) ! i = sw_bundle e ! (lo + i)"
      "sw_Lambda (sw_slice lo hi e) ! i = sw_Lambda e ! (lo + i)"
      "sw_eval_label (sw_slice lo hi e) ! i = sw_eval_label e ! (lo + i)"
      "sw_label0 (sw_slice lo hi g) ! i = sw_label0 g ! (lo + i)"
      "range_of lo hi vs ! i = vs ! (lo + i)"
      using b len by (simp_all add: sw_slice_def range_of_nth)
  qed
  have "eval_rel D1 D2 (sw_slice lo hi g) (sw_slice lo hi e) (range_of lo hi vs)"
    unfolding eval_rel_def using lay R(3,4) assms(2,3) W at by simp
  moreover have "sw_Lambda (sw_slice lo hi g) = sw_Lambda (sw_slice lo hi e)"
    by (simp add: sw_slice_def R(5))
  ultimately show ?thesis by (simp add: wires_rel_def)
qed

lemma concat_range:
  "k < length xss \<Longrightarrow>
   range_of (sum_list (map length (take k xss))) (sum_list (map length (take k xss)) + length (xss ! k)) (concat xss) = xss ! k"
proof (induction xss arbitrary: k)
  case (Cons xs xss)
  then show ?case by (cases k) (simp_all add: range_of_def)
qed simp

lemma concat_range_bound:
  "k < length xss \<Longrightarrow> sum_list (map length (take k xss)) + length (xss ! k) \<le> length (concat xss)"
proof (induction xss arbitrary: k)
  case (Cons xs xss)
  then show ?case by (cases k) (simp_all add: length_concat)
qed simp

lemma inputs_draw_sel:
  assumes "inputs_draw labels n p = (g, p')"
  shows "sw_bundle g = map (stream_share (pc_fpre p)) [tp_pos (pc_fpre p)..<tp_pos (pc_fpre p) + n]"
    and "pc_party p = 1 \<Longrightarrow> sw_label0 g = map ((!) labels) [0..<n] \<and> sw_eval_label g = []"
    and "pc_party p \<noteq> 1 \<Longrightarrow> sw_label0 g = []"
    and "p' = p\<lparr>pc_fpre := (pc_fpre p)\<lparr>tp_pos := tp_pos (pc_fpre p) + n, tp_cots_minted := True\<rparr>\<rparr>"
  using assms by (auto simp: inputs_draw_def draw_eq)

text \<open>The combined bundle after the openings.\<close>

lemma combined_inputs:
  assumes pq: "protocols_ok p q"
    and g: "inputs_draw labels n p = (g, p')" and e: "inputs_draw [] n q = (e, q')"
    and X: "length X = n" "\<forall>i < n. X ! i = bbyte (nz (X ! i))"
  defines "L \<equiv> map (\<lambda>i. bbyte (nz (X ! i) \<noteq> share_bit (sw_bundle g ! i) (sw_bundle e ! i))) [0..<n]"
  shows "inputs_labels (pc_Delta p) g L =
      Inr (map (\<lambda>i. sw_label0 g ! i XOR sel (nz (L ! i)) (pc_Delta p)) [0..<n])"
    and "wires_rel (pc_Delta p) (pc_Delta q) (g\<lparr>sw_Lambda := L\<rparr>)
      (e\<lparr>sw_Lambda := L, sw_eval_label := map (\<lambda>i. sw_label0 g ! i XOR sel (nz (L ! i)) (pc_Delta p)) [0..<n]\<rparr>) (map nz X)"
proof -
  note G = inputs_draw_sel [OF g] and E = inputs_draw_sel [OF e] and D = protocols_okD [OF pq]
  have pos: "tp_pos (pc_fpre p) = tp_pos (pc_fpre q)" and cot: "cot_ok (pc_fpre p) (pc_fpre q)"
    using D(4) by (simp_all add: pools_ok_def)
  have "inputs_labels (pc_Delta p) g L =
      Inr (map (\<lambda>i. sw_label0 g ! i XOR sel (nz (L ! i)) (pc_Delta p)) [0..<length L])"
    unfolding inputs_labels_def by (rule map_result_ok) (simp add: L_def)
  then show "inputs_labels (pc_Delta p) g L =
      Inr (map (\<lambda>i. sw_label0 g ! i XOR sel (nz (L ! i)) (pc_Delta p)) [0..<n])" by (simp add: L_def)
  have sh: "shares_ok (pc_Delta p) (pc_Delta q) (sw_bundle g ! i) (sw_bundle e ! i)" if "i < n" for i
    using cot that pos D(5,6) by (simp add: G(1) E(1) cot_ok_def)
  show "wires_rel (pc_Delta p) (pc_Delta q) (g\<lparr>sw_Lambda := L\<rparr>)
      (e\<lparr>sw_Lambda := L, sw_eval_label := map (\<lambda>i. sw_label0 g ! i XOR sel (nz (L ! i)) (pc_Delta p)) [0..<n]\<rparr>) (map nz X)"
    using sh X(1) D(1,2) G E
    by (auto simp: wires_rel_def eval_rel_def sw_layout_def sw_size_def L_def)
qed

lemma open_bits_masked:
  assumes "\<forall>i < n. X ! i = bbyte (nz (X ! i))"
  shows "map (\<lambda>i. bbyte (LSB (sh_mac (s ! i)) \<noteq> LSB (sh_mac (t ! i))) XOR X ! i) [0..<n] =
    map (\<lambda>i. bbyte (nz (X ! i) \<noteq> share_bit (s ! i) (t ! i))) [0..<n]"
proof (rule map_cong [OF refl])
  fix i assume "i \<in> set [0..<n]"
  then obtain b where "X ! i = bbyte b" using assms by fastforce
  then show "bbyte (LSB (sh_mac (s ! i)) \<noteq> LSB (sh_mac (t ! i))) XOR X ! i =
      bbyte (nz (X ! i) \<noteq> share_bit (s ! i) (t ! i))"
    by (simp add: share_bit_def) blast
qed

lemma inputs_flat_bits:
  assumes "inputs_ok owners bits1 bits2" and "i < length (flat_inputs owners bits1 bits2)"
  shows "flat_inputs owners bits1 bits2 ! i = bbyte (nz (flat_inputs owners bits1 bits2 ! i))"
proof -
  have "flat_inputs owners bits1 bits2 ! i \<in> set (flat_inputs owners bits1 bits2)"
    using assms(2) by (rule nth_mem)
  then have "flat_inputs owners bits1 bits2 ! i = 0 \<or> flat_inputs owners bits1 bits2 ! i = 1"
    using assms(1) by (auto simp: flat_inputs_def inputs_ok_def)
  then show ?thesis by (auto simp: bbyte_def nz_def)
qed

lemma owner_offset_flat:
  assumes "inputs_ok owners bits1 bits2" and k: "k < length owners"
  defines "xss \<equiv> map (input_bits owners bits1 bits2) [0..<length owners]"
  shows "owner_offset bits1 k = sum_list (map length (take k xss))" "owner_offset bits2 k = owner_offset bits1 k"
    and "length (bits1 ! k) = length (xss ! k)" "length (bits2 ! k) = length (xss ! k)"
proof -
  have l: "length owners = length bits1" "length owners = length bits2" "map length bits1 = map length bits2"
    using assms(1) by (simp_all add: inputs_ok_def)
  have eq: "length (bits1 ! j) = length (bits2 ! j)" if "j < length owners" for j
    using l that by (metis nth_map)
  have same: "map length xss = map length bits1"
    by (rule nth_equalityI) (use l eq in \<open>auto simp: xss_def input_bits_def\<close>)
  show "owner_offset bits1 k = sum_list (map length (take k xss))" "owner_offset bits2 k = owner_offset bits1 k"
    unfolding owner_offset_def take_map [symmetric] same l(3) by simp_all
  show "length (bits1 ! k) = length (xss ! k)" "length (bits2 ! k) = length (xss ! k)"
    using k eq l by (auto simp: xss_def input_bits_def)
qed

lemma map_nz_range: "range_of lo hi (map nz X) = map nz (range_of lo hi X)"
  by (simp add: range_of_def take_map drop_map)

lemma share_bit_commute: "share_bit s t = share_bit t s"
  by (auto simp: share_bit_def)

text \<open>Both sides open the same masks.\<close>

lemma inputs_open_masks:
  fixes P :: "('m, 'd) prims"
  assumes pq: "protocols_ok p q" and ok: "inputs_ok owners bits1 bits2"
    and lens: "length (sw_bundle g) = length (flat_inputs owners bits1 bits2)"
      "length (sw_bundle e) = length (flat_inputs owners bits1 bits2)"
    and sh: "\<And>i. i < length (flat_inputs owners bits1 bits2) \<Longrightarrow>
      shares_ok (pc_Delta p) (pc_Delta q) (sw_bundle g ! i) (sw_bundle e ! i)"
  defines "X \<equiv> flat_inputs owners bits1 bits2"
  defines "L \<equiv> map (\<lambda>i. bbyte (nz (X ! i) \<noteq> share_bit (sw_bundle g ! i) (sw_bundle e ! i))) [0..<length X]"
  shows "inputs_open P p (wire_owners owners bits1) (own_x_bits 1 owners bits1) g
      (inputs_message P 2 (wire_owners owners bits1) (own_x_bits 2 owners bits2) e) = Inr L"
    and "inputs_open P q (wire_owners owners bits1) (own_x_bits 2 owners bits2) e
      (inputs_message P 1 (wire_owners owners bits1) (own_x_bits 1 owners bits1) g) = Inr L"
proof -
  have l: "length owners = length bits1" "length bits1 = length bits2" "map length bits1 = map length bits2"
    "set owners \<subseteq> {ALICE, BOB}" using ok by (simp_all add: inputs_ok_def)
  note F = flat_views [OF l]
  have ps: "pc_party p = 1" "pc_party q = 2" using protocols_okD [OF pq] by simp_all
  have bits: "\<forall>i < length X. X ! i = bbyte (nz (X ! i))" using inputs_flat_bits [OF ok] by (simp add: X_def)
  have "inputs_open P p (wire_owners owners bits1) (own_x_bits 1 owners bits1) g
      (inputs_message P 2 (wire_owners owners bits1) (own_x_bits 2 owners bits2) e) =
    Inr (map (\<lambda>i. bbyte (LSB (sh_mac (sw_bundle g ! i)) \<noteq> LSB (sh_mac (sw_bundle e ! i))) XOR X ! i) [0..<length X])"
    unfolding X_def by (rule inputs_open_honest) (use F lens sh ps in \<open>auto simp: shares_ok_def\<close>)
  then show "inputs_open P p (wire_owners owners bits1) (own_x_bits 1 owners bits1) g
      (inputs_message P 2 (wire_owners owners bits1) (own_x_bits 2 owners bits2) e) = Inr L"
    unfolding open_bits_masked [OF bits] L_def .
  have "inputs_open P q (wire_owners owners bits1) (own_x_bits 2 owners bits2) e
      (inputs_message P 1 (wire_owners owners bits1) (own_x_bits 1 owners bits1) g) =
    Inr (map (\<lambda>i. bbyte (LSB (sh_mac (sw_bundle e ! i)) \<noteq> LSB (sh_mac (sw_bundle g ! i))) XOR X ! i) [0..<length X])"
    unfolding X_def by (rule inputs_open_honest) (use F lens sh ps in \<open>auto simp: shares_ok_def\<close>)
  then show "inputs_open P q (wire_owners owners bits1) (own_x_bits 2 owners bits2) e
      (inputs_message P 1 (wire_owners owners bits1) (own_x_bits 1 owners bits1) g) = Inr L"
    unfolding open_bits_masked [OF bits] L_def by (simp only: share_bit_commute)
qed

text \<open>The combined bundle, split by owner.\<close>

lemma split_owners_rel:
  assumes ok: "inputs_ok owners bits1 bits2" and W: "wires_rel D1 D2 g e (map nz (flat_inputs owners bits1 bits2))"
    and k: "k < length owners"
  shows "wires_rel D1 D2 (split_owners bits1 g ! k) (split_owners bits2 e ! k) (map nz (input_bits owners bits1 bits2 k))"
proof -
  let ?xss = "map (input_bits owners bits1 bits2) [0..<length owners]" and ?X = "flat_inputs owners bits1 bits2"
  have l: "length owners = length bits1" "length owners = length bits2" using ok by (simp_all add: inputs_ok_def)
  note off = owner_offset_flat [OF ok k]
  have kx: "k < length ?xss" using k by simp
  have "range_of (owner_offset bits1 k) (owner_offset bits1 k + length (bits1 ! k)) (map nz ?X) =
      map nz (input_bits owners bits1 bits2 k)"
    unfolding map_nz_range flat_inputs_def off(1,3) using concat_range [OF kx] k by simp
  moreover have "owner_offset bits1 k + length (bits1 ! k) \<le> length (map nz ?X)"
    unfolding flat_inputs_def off(1,3) using concat_range_bound [OF kx] by simp
  ultimately show ?thesis
    using wires_rel_slice [OF W, of "owner_offset bits1 k" "owner_offset bits1 k + length (bits1 ! k)"]
      off k l by (simp add: split_owners_def)
qed

text \<open>A request for no bits.\<close>

lemma inputs_of_nothing:
  assumes ok: "inputs_ok owners bits1 bits2" and n: "sum_list (map length bits1) = 0" and k: "k < length owners"
  shows "wires_rel D1 D2 empty_wires empty_wires (map nz (input_bits owners bits1 bits2 k))"
proof -
  have l: "length owners = length bits1" "length bits1 = length bits2" "map length bits1 = map length bits2"
    "set owners \<subseteq> {ALICE, BOB}" using ok by (simp_all add: inputs_ok_def)
  have "length (flat_inputs owners bits1 bits2) = 0" unfolding flat_views(1) [OF l] by (rule n)
  then have "input_bits owners bits1 bits2 k = []" using k by (simp add: flat_inputs_def)
  then show ?thesis by (simp add: wires_rel_def eval_rel_def sw_size_def empty_wires_def sw_layout_def)
qed

theorem process_inputs_ok:
  fixes P :: "('m, 'd) prims"
  assumes pq: "protocols_ok p q" and ok: "inputs_ok owners bits1 bits2"
  shows "\<exists>gs p' es q'. process_inputs P owners bits1 bits2 labels p q = Inr ((gs, p'), (es, q')) \<and>
    length gs = length owners \<and> length es = length owners \<and>
    (\<forall>k < length owners. wires_rel (pc_Delta p) (pc_Delta q) (gs ! k) (es ! k)
       (map nz (input_bits owners bits1 bits2 k))) \<and>
    protocols_ok p' q' \<and> pc_Delta p' = pc_Delta p \<and> pc_Delta q' = pc_Delta q \<and>
    pc_calls p' = Suc (pc_calls p) \<and> pc_calls q' = Suc (pc_calls q)"
proof -
  let ?n = "sum_list (map length bits1)" and ?X = "flat_inputs owners bits1 bits2"
  let ?p = "p\<lparr>pc_calls := Suc (pc_calls p)\<rparr>" and ?q = "q\<lparr>pc_calls := Suc (pc_calls q)\<rparr>"
  have l: "length owners = length bits1" "length bits1 = length bits2" "map length bits1 = map length bits2"
    "set owners \<subseteq> {ALICE, BOB}" "length owners = length bits2" using ok by (simp_all add: inputs_ok_def)
  have chk: "check_owners owners bits1 = Inr ()" "check_owners owners bits2 = Inr ()"
    using l by (auto simp: check_owners_def)
  have pq': "protocols_ok ?p ?q" using pq by (simp add: protocols_ok_def)
  note D = protocols_okD [OF pq]
  have n: "length ?X = ?n" using flat_views(1) [OF l(1-4)] by simp
  show ?thesis
  proof (cases "?n = 0")
    case True
    then show ?thesis using inputs_of_nothing [OF ok True] pq' chk by (simp add: process_inputs_def)
  next
    case False
    obtain g p' where g: "inputs_draw labels ?n ?p = (g, p')" by (metis surj_pair)
    obtain e q' where e: "inputs_draw [] ?n ?q = (e, q')" by (metis surj_pair)
    note G = inputs_draw_sel [OF g] and E = inputs_draw_sel [OF e]
    let ?L = "map (\<lambda>i. bbyte (nz (?X ! i) \<noteq> share_bit (sw_bundle g ! i) (sw_bundle e ! i))) [0..<?n]"
    have bits: "\<forall>i < ?n. ?X ! i = bbyte (nz (?X ! i))" using inputs_flat_bits [OF ok] n by simp
    note comb = combined_inputs [OF pq' g e n bits]
    have ps: "pc_party p' = 1" "pc_party q' = 2" "pc_Delta p' = pc_Delta p" "pc_Delta q' = pc_Delta q"
      "pc_calls p' = Suc (pc_calls p)" "pc_calls q' = Suc (pc_calls q)" using G(4) E(4) D by simp_all
    have pok: "protocols_ok p' q'"
      using pq G(4) E(4) pools_ok_step [OF D(4), of "pc_fpre p'" "pc_fpre q'"]
      by (auto simp: protocols_ok_def pools_ok_def same_session_def)
    have lens: "length (sw_bundle g) = length ?X" "length (sw_bundle e) = length ?X" by (simp_all add: G(1) E(1) n)
    have sh: "shares_ok (pc_Delta p') (pc_Delta q') (sw_bundle g ! i) (sw_bundle e ! i)" if "i < length ?X" for i
      using comb(2) that n ps unfolding wires_rel_def eval_rel_def by simp
    let ?lab = "map (\<lambda>i. sw_label0 g ! i XOR sel (nz (?L ! i)) (pc_Delta p)) [0..<?n]"
    let ?g = "g\<lparr>sw_Lambda := ?L\<rparr>" and ?e = "e\<lparr>sw_Lambda := ?L, sw_eval_label := ?lab\<rparr>"
    have lab: "inputs_labels (pc_Delta p) g ?L = Inr ?lab" using comb(1) by simp
    have run: "process_inputs P owners bits1 bits2 labels p q = Inr ((split_owners bits1 ?g, p'), (split_owners bits2 ?e, q'))"
      by (simp only: process_inputs_def Let_def chk bind_result_simps False if_False g e prod.case ps
          inputs_open_masks [OF pok ok lens sh, unfolded n] lab)
    have "wires_rel (pc_Delta p) (pc_Delta q) ?g ?e (map nz ?X)" using comb(2) by simp
    from split_owners_rel [OF ok this] show ?thesis
      using run ps l pok by (simp add: split_owners_def)
  qed
qed

section \<open>Decoding\<close>

text \<open>
  What the recipient (party \<open>me\<close>) makes of the other party's message, and the two roles of a public
  opening: party 2 broadcasts what it decoded, party 1 takes the low bit of what it receives.
\<close>

definition decode_recv ::
  "('m, 'd) prims \<Rightarrow> block \<Rightarrow> secure_wires \<Rightarrow> 'd open_msg \<Rightarrow> byte list result" where
  "decode_recv P D w msg =
     (let sh = sw_bundle w in
      bind_result (verify_open P Decode_Mac_Mismatch D sh msg) (\<lambda>_.
        Inr (map (\<lambda>i. (bbyte (LSB (sh_mac (sh ! i))) XOR sw_Lambda w ! i XOR om_share msg ! i) AND 1)
          [0..<length sh])))"

definition decode_broadcast :: "byte list \<Rightarrow> byte list" where
  "decode_broadcast buf = map (\<lambda>b. b AND 1) buf"

text \<open>Both parties; a party that is not a recipient gets the empty vector.\<close>

definition decode ::
  "('m, 'd) prims \<Rightarrow> nat \<Rightarrow> protocol \<Rightarrow> protocol \<Rightarrow> secure_wires \<Rightarrow> secure_wires \<Rightarrow>
   (byte list \<times> byte list) result" where
  "decode P recipient p q g e =
     bind_result (check_secure_wires g (pc_party p)) (\<lambda>_.
     bind_result (check_secure_wires e (pc_party q)) (\<lambda>_.
       if recipient = PUBLIC then
         bind_result (decode_recv P (pc_Delta q) e (open_shares P (sw_bundle g))) (\<lambda>v.
           Inr (decode_broadcast v, v))
       else if recipient = pc_party p then
         bind_result (decode_recv P (pc_Delta p) g (open_shares P (sw_bundle e))) (\<lambda>v. Inr (v, []))
       else if recipient = pc_party q then
         bind_result (decode_recv P (pc_Delta q) e (open_shares P (sw_bundle g))) (\<lambda>v. Inr ([], v))
       else Inr ([], [])))"

lemma decode_recv_honest:
  assumes "length (sw_bundle w') = length (sw_bundle w)" and "length vs = length (sw_bundle w)"
    and "\<And>i. i < length vs \<Longrightarrow> mac_ok D (sh_mac (sw_bundle w' ! i)) (sh_key (sw_bundle w ! i))"
    and "\<And>i. i < length vs \<Longrightarrow> sw_Lambda w ! i =
      bbyte (vs ! i \<noteq> (LSB (sh_mac (sw_bundle w ! i)) \<noteq> LSB (sh_mac (sw_bundle w' ! i))))"
  shows "decode_recv P D w (open_shares P (sw_bundle w')) = Inr (map bbyte vs)"
proof -
  have v: "verify_open P Decode_Mac_Mismatch D (sw_bundle w) (open_shares P (sw_bundle w')) = Inr ()"
    by (rule verify_open_honest) (use assms in simp_all)
  have "map (\<lambda>i. (bbyte (LSB (sh_mac (sw_bundle w ! i))) XOR sw_Lambda w ! i XOR
      om_share (open_shares P (sw_bundle w')) ! i) AND 1) [0..<length (sw_bundle w)] = map bbyte vs"
  proof (rule nth_equalityI)
    fix i assume "i < length (map (\<lambda>i. (bbyte (LSB (sh_mac (sw_bundle w ! i))) XOR sw_Lambda w ! i XOR
      om_share (open_shares P (sw_bundle w')) ! i) AND 1) [0..<length (sw_bundle w)])"
    then have i: "i < length vs" using assms(2) by simp
    then show "map (\<lambda>i. (bbyte (LSB (sh_mac (sw_bundle w ! i))) XOR sw_Lambda w ! i XOR
        om_share (open_shares P (sw_bundle w')) ! i) AND 1) [0..<length (sw_bundle w)] ! i = map bbyte vs ! i"
      using assms(1,2) assms(4) [OF i] by (simp add: open_shares_def) blast
  qed (simp add: assms)
  then show ?thesis by (simp add: decode_recv_def v Let_def)
qed

text \<open>
  Opening to party 2 needs only the evaluator's masks; opening to party 1 needs that the garbler's
  masks are the same.
\<close>

lemma decode_eval_rel:
  assumes pq: "protocols_ok p q" and rel: "eval_rel (pc_Delta p) (pc_Delta q) g e vs"
  shows "decode P BOB p q g e = Inr ([], map bbyte vs)"
    and "decode P PUBLIC p q g e = Inr (map bbyte vs, map bbyte vs)"
proof -
  note D = protocols_okD [OF pq]
  have R: "sw_layout 1 g" "sw_layout 2 e" "sw_size g = length vs" "sw_size e = length vs"
    and W: "\<And>i. i < length vs \<Longrightarrow> shares_ok (pc_Delta p) (pc_Delta q) (sw_bundle g ! i) (sw_bundle e ! i) \<and>
        sw_Lambda e ! i = bbyte (vs ! i \<noteq> share_bit (sw_bundle g ! i) (sw_bundle e ! i))"
    using rel unfolding eval_rel_def by blast+
  have len: "length (sw_bundle g) = length vs" "length (sw_bundle e) = length vs"
    using R by (simp_all add: sw_layout_def sw_size_def)
  have "decode_recv P (pc_Delta q) e (open_shares P (sw_bundle g)) = Inr (map bbyte vs)"
    by (rule decode_recv_honest) (use len W in \<open>auto simp: shares_ok_def share_bit_def\<close>)
  then show "decode P BOB p q g e = Inr ([], map bbyte vs)"
    "decode P PUBLIC p q g e = Inr (map bbyte vs, map bbyte vs)"
    using R(1,2) D(1,2) by (simp_all add: decode_def sw_layout_check party_defs decode_broadcast_def)
qed

lemma decode_wires_rel:
  assumes pq: "protocols_ok p q" and rel: "wires_rel (pc_Delta p) (pc_Delta q) g e vs"
  shows "decode P ALICE p q g e = Inr (map bbyte vs, [])"
proof -
  note D = protocols_okD [OF pq]
  have R: "sw_layout 1 g" "sw_layout 2 e" "sw_size g = length vs" "sw_size e = length vs" "sw_Lambda g = sw_Lambda e"
    and W: "\<And>i. i < length vs \<Longrightarrow> shares_ok (pc_Delta p) (pc_Delta q) (sw_bundle g ! i) (sw_bundle e ! i) \<and>
        sw_Lambda e ! i = bbyte (vs ! i \<noteq> share_bit (sw_bundle g ! i) (sw_bundle e ! i))"
    using rel unfolding wires_rel_def eval_rel_def by blast+
  have len: "length (sw_bundle g) = length vs" "length (sw_bundle e) = length vs"
    using R by (simp_all add: sw_layout_def sw_size_def)
  have "decode_recv P (pc_Delta p) g (open_shares P (sw_bundle e)) = Inr (map bbyte vs)"
    by (rule decode_recv_honest) (use len W R(5) in \<open>auto simp: shares_ok_def share_bit_def\<close>)
  then show ?thesis
    using R(1,2) D(1,2) by (simp add: decode_def sw_layout_check party_defs)
qed

text \<open>What the errors are.\<close>

lemma decode_recv_errors:
  "decode_recv P D w msg = Inl err \<Longrightarrow> err = Decode_Mac_Mismatch \<or> err = Out_Of_Bounds"
  using exp_macs_errors
  by (auto simp: decode_recv_def verify_open_def bind_result_def Let_def split: sum.splits if_splits)

section \<open>Properties\<close>

definition toy_proto :: "nat \<Rightarrow> protocol" where
  "toy_proto party = init_protocol party (toy_pool party)"

lemma toy_protos_ok: "protocols_ok (toy_proto 1) (toy_proto 2)"
  unfolding toy_proto_def by (rule init_protocols_ok [OF toy_pools_ok])

text \<open>
  C29: the input phase of two honest parties returns, in one call for all owners, and yields for
  every owner a bundle of authenticated wires that encodes that owner's bits: valid shares, the same
  opened mask at both parties, and the garbler's label for it at the evaluator. The parties stay in
  step.
\<close>

theorem input_phase_correct:
  assumes "protocols_ok p q" and "inputs_ok owners bits1 bits2"
  shows "\<exists>gs p' es q'. process_inputs P owners bits1 bits2 labels p q = Inr ((gs, p'), (es, q')) \<and>
    length gs = length owners \<and> length es = length owners \<and>
    (\<forall>k < length owners. wires_rel (pc_Delta p) (pc_Delta q) (gs ! k) (es ! k)
       (map nz (input_bits owners bits1 bits2 k))) \<and>
    protocols_ok p' q' \<and> pc_calls p' = Suc (pc_calls p) \<and> pc_calls q' = Suc (pc_calls q)"
  using process_inputs_ok [OF assms, of P labels] by blast

theorem input_phase_correct_witness:
  "\<exists>gs p' es q'. process_inputs toy_prims [ALICE, BOB] [[1, 0], [0]] [[0, 0], [1]] [5, 6, 7]
     (toy_proto 1) (toy_proto 2) = Inr ((gs, p'), (es, q')) \<and>
   wires_rel (pc_Delta (toy_proto 1)) (pc_Delta (toy_proto 2)) (gs ! 0) (es ! 0) [True, False] \<and>
   wires_rel (pc_Delta (toy_proto 1)) (pc_Delta (toy_proto 2)) (gs ! 1) (es ! 1) [True]"
proof -
  let ?o = "[ALICE, BOB]" and ?b1 = "[[1, 0], [0]] :: byte list list" and ?b2 = "[[0, 0], [1]] :: byte list list"
  have ib: "input_bits ?o ?b1 ?b2 0 = [1, 0]" "input_bits ?o ?b1 ?b2 1 = [1]"
    by (simp_all add: input_bits_def party_defs)
  have all: "(\<forall>k < length ?o. Q k) \<longleftrightarrow> Q 0 \<and> Q 1" for Q
    by (auto simp: numeral_2_eq_2 All_less_Suc)
  have ok: "inputs_ok ?o ?b1 ?b2"
    unfolding inputs_ok_def all ib by simp
  show ?thesis
    using input_phase_correct [OF toy_protos_ok ok, of toy_prims "[5, 6, 7]"] unfolding all ib
    by (auto simp: nz_def)
qed

text \<open>
  C30: decoding related bundles returns the cleartext bits at exactly the recipient, and to both
  parties for a public opening; nobody aborts.
\<close>

theorem decode_correct:
  assumes "protocols_ok p q" and "wires_rel (pc_Delta p) (pc_Delta q) g e vs"
  shows "decode P ALICE p q g e = Inr (map bbyte vs, []) \<and> decode P BOB p q g e = Inr ([], map bbyte vs) \<and>
    decode P PUBLIC p q g e = Inr (map bbyte vs, map bbyte vs)"
proof -
  have "eval_rel (pc_Delta p) (pc_Delta q) g e vs" using assms(2) by (simp add: wires_rel_def)
  from decode_wires_rel [OF assms, of P] decode_eval_rel [OF assms(1) this, of P] show ?thesis by blast
qed

theorem decode_correct_witness:
  "decode toy_prims ALICE (toy_proto 1) (toy_proto 2) (public_wires (toy_proto 1) [1, 0])
     (public_wires (toy_proto 2) [1, 0]) = Inr ([1, 0], [])"
proof -
  have "wires_rel (pc_Delta (toy_proto 1)) (pc_Delta (toy_proto 2)) (public_wires (toy_proto 1) [1, 0])
      (public_wires (toy_proto 2) [1, 0]) (map nz [1, 0])"
    by (rule public_wires_rel) (simp_all add: toy_proto_def init_protocol_def toy_pool_def)
  from decode_correct [OF toy_protos_ok this, of toy_prims] show ?thesis
    by (simp add: nz_def bbyte_def)
qed



text \<open>
  C40: a share byte other than 0 and 1 in the peer's message indexes the two-entry table
  \<^verbatim>\<open>select_mask\<close> out of bounds, before the hash is compared.
\<close>

theorem peer_byte_out_of_bounds:
  assumes "i < length (sw_bundle w)" and "1 < om_share msg ! i"
  shows "decode_recv P D w msg = Inl Out_Of_Bounds"
proof -
  have "select_mask_at (om_share msg ! i) = Inl Out_Of_Bounds"
    using assms(2) by (auto simp: select_mask_at_def)
  then obtain err where "exp_macs D (sw_bundle w) (om_share msg) = Inl err"
    unfolding exp_macs_def using map_result_Inl [of i "[0..<length (sw_bundle w)]"] assms(1)
    by (metis (no_types, lifting) atLeastLessThan_upt bind_result_simps(1) lessThan_atLeast0 lessThan_iff)
  then show ?thesis
    using exp_macs_errors [of D "sw_bundle w" "om_share msg" err]
    by (simp add: decode_recv_def verify_open_def Let_def)
qed

theorem peer_byte_out_of_bounds_witness:
  "decode_recv toy_prims 7 \<lparr>sw_Lambda = [0], sw_bundle = [zero_share], sw_label0 = [0], sw_eval_label = []\<rparr>
     \<lparr>om_share = [2], om_digest = pr_digest toy_prims []\<rparr> = Inl Out_Of_Bounds"
  by (rule peer_byte_out_of_bounds [of 0]) simp_all



text \<open>
  Opening a public value gives back the bits it was made of, to each recipient: the bundles both
  parties build on their own need neither shares nor a message.
\<close>

lemma public_value_roundtrip:
  fixes bits :: "byte list"
  assumes "protocols_ok p q"
  defines "g \<equiv> public_wires p bits" and "e \<equiv> public_wires q bits" and "out \<equiv> map (\<lambda>b. bbyte (nz b)) bits"
  shows "decode P PUBLIC p q g e = Inr (out, out) \<and> decode P ALICE p q g e = Inr (out, []) \<and>
    decode P BOB p q g e = Inr ([], out)"
proof -
  have w: "wires_rel (pc_Delta p) (pc_Delta q) g e (map nz bits)"
    unfolding g_def e_def using protocols_okD [OF assms(1)] by (intro public_wires_rel) simp_all
  then have "eval_rel (pc_Delta p) (pc_Delta q) g e (map nz bits)" by (simp add: wires_rel_def)
  then show ?thesis
    using decode_eval_rel [OF assms(1), of g e "map nz bits" P] decode_wires_rel [OF assms(1) w, of P]
    by (simp add: out_def comp_def)
qed

end
