(* ===== verification/Announced.thy ===== *)
theory Announced
  imports Garbled_Run
begin

text \<open>
  The check pass without assuming that garbler and evaluator agree: the evaluator on any rows
  whatsoever, and the garbler that recomputes the check values from the AND masks it is told. The check
  values of the two parties differ, gate by gate, by the evaluator's global difference exactly where
  the opened mask of that gate is wrong. On an honest stream the masks are the right ones.
\<close>

section \<open>Masks as announced\<close>

text \<open>The opened masks of all wires when those of the AND gates are given.\<close>

definition told_bit :: "(nat \<Rightarrow> bool) \<Rightarrow> ev \<Rightarrow> nat \<Rightarrow> (wire \<Rightarrow> bool) \<Rightarrow> bool" where
  "told_bit la e i f = (case e of
      EConst v \<Rightarrow> v | EAnd a b \<Rightarrow> la i | EXor a b \<Rightarrow> f a \<noteq> f b | ENot a \<Rightarrow> \<not> f a)"

definition told :: "(nat \<Rightarrow> bool) \<Rightarrow> nat \<Rightarrow> (wire \<Rightarrow> bool) \<Rightarrow> ev list \<Rightarrow> wire \<Rightarrow> bool" where
  "told la n ins es =
     fst (reg_run (\<lambda>e i f out. told_bit la e i f) (\<lambda>e i f out. and_count e i) es (ins, 0, n))"

lemma told_Nil [simp]: "told la n ins [] = ins"
  by (simp add: told_def)

lemma told_snoc [simp]: "told la n ins (es @ [e]) =
    (told la n ins es)(n + length es := told_bit la e (num_and_evs es) (told la n ins es))"
  by (simp add: told_def)

text \<open>The garbler's and the evaluator's check value of a gate under given opened masks.\<close>

definition told_check ::
  "(nat \<Rightarrow> ashare) \<Rightarrow> nat \<Rightarrow> (wire \<Rightarrow> ashare) \<Rightarrow> ashare list \<Rightarrow> (wire \<Rightarrow> bool) \<Rightarrow> ev list \<Rightarrow> nat \<Rightarrow> block" where
  "told_check lg n ins sig op es i =
     (let a = fst (and_ops es ! i); b = snd (and_ops es ! i) in
      garbler_check_row (share_regs lg n ins es a, op a) (share_regs lg n ins es b, op b) (lg i) (sig ! i))"

definition own_check ::
  "block \<Rightarrow> (nat \<Rightarrow> ashare) \<Rightarrow> nat \<Rightarrow> (wire \<Rightarrow> ashare) \<Rightarrow> ashare list \<Rightarrow> (nat \<Rightarrow> bool) \<Rightarrow> (wire \<Rightarrow> bool) \<Rightarrow>
   ev list \<Rightarrow> nat \<Rightarrow> block" where
  "own_check D lg n ins sig la op es i =
     (let a = fst (and_ops es ! i); b = snd (and_ops es ! i) in
      eval_check_row D (share_regs lg n ins es a, op a) (share_regs lg n ins es b, op b) (lg i) (sig ! i) (la i))"

lemma check_value_told: "check_value lg1 lg2 ins1 ins2 vs es sig i =
    told_check lg1 (length vs) ins1 sig (opened lg1 lg2 ins1 ins2 vs es) es i"
  by (simp add: check_value_def told_check_def)

lemma told_check_snoc:
  assumes "wf_stream n es" and "i < num_and_evs es"
  shows "told_check lg n ins sig (told la n x (es @ [e])) (es @ [e]) i = told_check lg n ins sig (told la n x es) es i"
    and "own_check D lg n ins sig la (told la n x (es @ [e])) (es @ [e]) i =
      own_check D lg n ins sig la (told la n x es) es i"
  using and_ops_nth_bound [OF assms] assms(2)
  by (simp_all add: told_check_def own_check_def Let_def nth_append)

lemma told_check_new:
  assumes "a < n + length es" and "b < n + length es"
  shows "told_check lg n ins sig (told la n x (es @ [EAnd a b])) (es @ [EAnd a b]) (num_and_evs es) =
      garbler_check_row (share_regs lg n ins es a, told la n x es a) (share_regs lg n ins es b, told la n x es b)
        (lg (num_and_evs es)) (sig ! num_and_evs es)"
    and "own_check D lg n ins sig la (told la n x (es @ [EAnd a b])) (es @ [EAnd a b]) (num_and_evs es) =
      eval_check_row D (share_regs lg n ins es a, told la n x es a) (share_regs lg n ins es b, told la n x es b)
        (lg (num_and_evs es)) (sig ! num_and_evs es) (la (num_and_evs es))"
  using assms by (simp_all add: told_check_def own_check_def Let_def nth_append)

section \<open>The two check passes, whatever was opened\<close>

text \<open>The garbler's recomputation from any announced masks.\<close>

definition gamma_told where
  "gamma_told lg n ins sig LA la x r es \<longleftrightarrow>
     (\<forall>w < n + length es. snd (fst r w) = bbyte (told la n x es w)) \<and>
     (\<exists>M1. fst (snd r) = (sig, LA, num_and_evs es, M1) \<and>
        (\<forall>i < num_and_evs es. M1 ! i = told_check lg n ins sig (told la n x es) es i))"

lemma gamma_told_run:
  fixes h :: "wire \<Rightarrow> ashare \<times> byte"
  assumes wf: "wf_stream n es" and f: "\<forall>w < n. fst (h w) = ins w" "preset n es lg (\<lambda>w. fst (h w))"
    and init: "\<forall>w < n. snd (h w) = bbyte (x w)"
    and LA: "\<forall>i < num_and_evs es. LA ! i = bbyte (la i)"
    and len: "num_and_evs es \<le> length M1"
  shows "gamma_told lg n ins sig LA la x (reg_run gamma_cell gamma_aux es (h, (sig, LA, 0, M1), n)) es \<and>
     length (snd (snd (snd (fst (snd (reg_run gamma_cell gamma_aux es (h, (sig, LA, 0, M1), n))))))) = length M1"
  using wf f(2) LA len
proof (induction es rule: rev_induct)
  case Nil
  then show ?case using init by (simp add: gamma_told_def)
next
  case (snoc e es)
  have wf: "wf_stream n es" "\<And>w. w \<in> set (ev_reads e) \<Longrightarrow> w < n + length es"
    using snoc.prems(1) by (simp_all add: wf_stream_snoc)
  have pre: "preset n es lg (\<lambda>w. fst (h w))" "ev_is_and e \<longrightarrow> fst (h (n + length es)) = lg (num_and_evs es)"
    using preset_snocD [OF snoc.prems(2)] by blast+
  let ?N = "n + length es" and ?k = "num_and_evs es" and ?t = "told la n x es"
  define r where "r = reg_run gamma_cell gamma_aux es (h, (sig, LA, 0, M1), n)"
  have I: "gamma_told lg n ins sig LA la x r es" "length (snd (snd (snd (fst (snd r))))) = length M1"
    using snoc.IH wf(1) pre(1) snoc.prems(3,4) unfolding r_def by simp_all
  then obtain M where A: "fst (snd r) = (sig, LA, ?k, M)"
    and B: "\<And>i. i < ?k \<Longrightarrow> M ! i = told_check lg n ins sig ?t es i"
    unfolding gamma_told_def by blast
  have mk: "snd (fst r w) = bbyte (?t w)" if "w < n + length es" for w
    using I(1) that unfolding gamma_told_def by blast
  have sh: "fst (fst r w) = share_regs lg n ins es w" if "w < n + length es" for w
    unfolding r_def by (rule gamma_regs_share [OF f(1) pre(1) wf(1) that])
  have out: "snd (snd r) = ?N" by (simp add: r_def)
  have un: "fst r ?N = h ?N" unfolding r_def by (rule reg_run_untouched) simp
  have step: "reg_run gamma_cell gamma_aux (es @ [e]) (h, (sig, LA, 0, M1), n) = reg_step gamma_cell gamma_aux e r"
    by (simp add: r_def)
  have "snd (gamma_cell e (fst (snd r)) (fst r) ?N) = bbyte (told_bit la e ?k ?t)"
    using wf(2) mk snoc.prems(3) by (cases e) (auto simp: gamma_cell_simps told_bit_def A)
  then have masks: "snd (fst (reg_step gamma_cell gamma_aux e r) w) = bbyte (told la n x (es @ [e]) w)"
    if "w < n + length (es @ [e])" for w
    using that mk by (cases "w = ?N") (simp_all add: out)
  define c where "c = told_check lg n ins sig (told la n x (es @ [e])) (es @ [e]) ?k"
  define M' where "M' = (if ev_is_and e then M[?k := c] else M)"
  have aux: "fst (snd (reg_step gamma_cell gamma_aux e r)) = (sig, LA, num_and_evs (es @ [e]), M')"
  proof (cases "ev_is_and e")
    case True
    then obtain a b where e: "e = EAnd a b" by (cases e) auto
    have ab: "a < n + length es" "b < n + length es" using wf(2) by (simp_all add: e)
    have "c = garbler_check_row (fst (fst r a), nz (snd (fst r a))) (fst (fst r b), nz (snd (fst r b)))
          (fst (fst r ?N)) (sig ! ?k)"
      unfolding c_def e using told_check_new(1) [OF ab] mk sh un pre(2) True ab by simp
    then show ?thesis by (simp add: e gamma_cell_simps A out M'_def del: One_nat_def)
  qed (simp add: gamma_cell_simps A M'_def)
  have "M' ! i = told_check lg n ins sig (told la n x (es @ [e])) (es @ [e]) i" if "i < num_and_evs (es @ [e])" for i
    using that B told_check_snoc(1) [OF wf(1), of i] I(2) snoc.prems(4)
    by (cases "i = ?k") (auto simp: M'_def A c_def split: if_splits)
  then show ?case
    unfolding step gamma_told_def using masks aux I(2) A by (simp add: M'_def)
qed

text \<open>The evaluator on any rows: \<open>la\<close> are the AND masks it ends up opening.\<close>

definition eval_told where
  "eval_told D lg n ins sig la x M1 LA r es \<longleftrightarrow>
     (\<forall>w < n + length es. snd (snd (fst r w)) = bbyte (told la n x es w)) \<and>
     (\<exists>m rows M LA'. fst (snd r) = (D, m, sig, num_and_evs es, rows, M, LA') \<and>
        length M = length M1 \<and> length LA' = length LA \<and>
        (\<forall>i < num_and_evs es. LA' ! i = bbyte (la i) \<and>
           M ! i = own_check D lg n ins sig la (told la n x es) es i))"

lemma eval_toldD:
  assumes "eval_told D lg n ins sig la x M1 LA r es"
  shows "w < n + length es \<Longrightarrow> snd (snd (fst r w)) = bbyte (told la n x es w)"
    and "\<exists>m rows M LA'. fst (snd r) = (D, m, sig, num_and_evs es, rows, M, LA') \<and>
        length M = length M1 \<and> length LA' = length LA \<and>
        (\<forall>i < num_and_evs es. LA' ! i = bbyte (la i) \<and>
           M ! i = own_check D lg n ins sig la (told la n x es) es i)"
  using assms unfolding eval_told_def by blast+

text \<open>Masks beyond the AND gates of the stream do not matter.\<close>

lemma told_cong:
  "(\<And>i. i < num_and_evs es \<Longrightarrow> la i = lb i) \<Longrightarrow> told la n x es = told lb n x es"
proof (induction es rule: rev_induct)
  case (snoc e es)
  then show ?case by (cases e) (simp_all add: told_bit_def)
qed simp

lemma own_check_cong:
  "la i = lb i \<Longrightarrow> own_check D lg n ins sig la op es i = own_check D lg n ins sig lb op es i"
  by (simp add: own_check_def)

text \<open>One more event: a linear gate opens no mask.\<close>

lemma eval_told_linear:
  assumes I: "eval_told D lg n ins sig la x M1 LA r es" and wf: "wf_stream n es"
    and reads: "\<And>w. w \<in> set (ev_reads e) \<Longrightarrow> w < n + length es" and out: "snd (snd r) = n + length es"
    and lin: "\<not> ev_is_and e"
  shows "eval_told D lg n ins sig la x M1 LA (reg_step (eval_cell P) (eval_aux P) e r) (es @ [e])"
proof -
  let ?N = "n + length es" and ?k = "num_and_evs es"
  obtain m rows M LA' where A: "fst (snd r) = (D, m, sig, ?k, rows, M, LA')" "length M = length M1" "length LA' = length LA"
    and B: "\<And>i. i < ?k \<Longrightarrow> LA' ! i = bbyte (la i) \<and> M ! i = own_check D lg n ins sig la (told la n x es) es i"
    using eval_toldD(2) [OF I] by blast
  have mk: "snd (snd (fst r w)) = bbyte (told la n x es w)" if "w < n + length es" for w
    using eval_toldD(1) [OF I that] .
  have "snd (snd (eval_cell P e (fst (snd r)) (fst r) ?N)) = bbyte (told_bit la e ?k (told la n x es))"
    using reads mk lin by (cases e) (auto simp: eval_simps told_bit_def)
  then have masks: "snd (snd (fst (reg_step (eval_cell P) (eval_aux P) e r) w)) = bbyte (told la n x (es @ [e]) w)"
    if "w < n + length (es @ [e])" for w
    using that mk by (cases "w = ?N") (simp_all add: out)
  have "fst (snd (reg_step (eval_cell P) (eval_aux P) e r)) = (D, m, sig, num_and_evs (es @ [e]), rows, M, LA')"
    using lin by (simp add: A eval_simps(5))
  moreover have "LA' ! i = bbyte (la i) \<and> M ! i = own_check D lg n ins sig la (told la n x (es @ [e])) (es @ [e]) i"
    if "i < num_and_evs (es @ [e])" for i
    using that lin B told_check_snoc(2) [OF wf, of i] by simp
  ultimately show ?thesis unfolding eval_told_def using masks A(2,3) by blast
qed

text \<open>An AND gate opens the mask the evaluator computes, and enters its check value.\<close>

lemma eval_told_check:
  assumes gate: "eval_gate P (D, m, sig, k, rows, M, LA) (fst r) a b N = (t, Lg, chk)"
    and ab: "a < n + length es" "b < n + length es" and N: "fst (fst r N) = lg k" and k: "k = num_and_evs es"
    and sh: "\<And>w. w < n + length es \<Longrightarrow> fst (fst r w) = share_regs lg n ins es w"
    and mk: "\<And>w. w < n + length es \<Longrightarrow> snd (snd (fst r w)) = bbyte (told la n x es w)" and Lg: "la k = Lg"
  shows "chk = own_check D lg n ins sig la (told la n x (es @ [EAnd a b])) (es @ [EAnd a b]) k"
proof -
  obtain ea where "fst r a = (share_regs lg n ins es a, ea, bbyte (told la n x es a))"
    using sh [OF ab(1)] mk [OF ab(1)] by (metis prod.collapse)
  moreover obtain eb where "fst r b = (share_regs lg n ins es b, eb, bbyte (told la n x es b))"
    using sh [OF ab(2)] mk [OF ab(2)] by (metis prod.collapse)
  ultimately have "chk = eval_check_row D (share_regs lg n ins es a, told la n x es a)
      (share_regs lg n ins es b, told la n x es b) (lg k) (sig ! k) Lg"
    using gate N by (auto simp: eval_gate_def eval_and_def Let_def split: prod.splits)
  then show ?thesis unfolding k by (simp only: told_check_new(2) [OF ab]) (simp add: Lg [unfolded k])
qed

lemma eval_told_and:
  assumes I: "eval_told D lg n ins sig la0 x M1 LA r es" and wf: "wf_stream n es"
    and ab: "a < n + length es" "b < n + length es" and out: "snd (snd r) = n + length es"
    and N: "fst (fst r (n + length es)) = lg (num_and_evs es)"
    and sh: "\<And>w. w < n + length es \<Longrightarrow> fst (fst r w) = share_regs lg n ins es w"
    and len: "num_and_evs es < length M1" "num_and_evs es < length LA"
  shows "\<exists>la. eval_told D lg n ins sig la x M1 LA (reg_step (eval_cell P) (eval_aux P) (EAnd a b) r) (es @ [EAnd a b])"
proof -
  let ?e = "EAnd a b" and ?N = "n + length es" and ?k = "num_and_evs es"
  obtain m rows M LA' where A: "fst (snd r) = (D, m, sig, ?k, rows, M, LA')" "length M = length M1" "length LA' = length LA"
    and B: "\<And>i. i < ?k \<Longrightarrow> LA' ! i = bbyte (la0 i) \<and> M ! i = own_check D lg n ins sig la0 (told la0 n x es) es i"
    using eval_toldD(2) [OF I] by blast
  obtain t Lg chk where gate: "eval_gate P (D, m, sig, ?k, rows, M, LA') (fst r) a b ?N = (t, Lg, chk)"
    by (metis prod_cases3)
  define la where "la = la0(?k := Lg)"
  have tl: "told la n x es = told la0 n x es" by (rule told_cong) (simp add: la_def)
  have mk: "snd (snd (fst r w)) = bbyte (told la n x es w)" if "w < n + length es" for w
    using eval_toldD(1) [OF I that] by (simp add: tl)
  have chk: "chk = own_check D lg n ins sig la (told la n x (es @ [?e])) (es @ [?e]) ?k"
    by (rule eval_told_check [OF gate ab N refl sh mk]) (simp_all add: la_def)
  have c: "snd (snd (eval_cell P ?e (fst (snd r)) (fst r) ?N)) = bbyte (told_bit la ?e ?k (told la n x es))"
    by (simp add: eval_simps A gate told_bit_def la_def)
  have masks: "snd (snd (fst (reg_step (eval_cell P) (eval_aux P) ?e r) w)) = bbyte (told la n x (es @ [?e]) w)"
    if "w < n + length (es @ [?e])" for w
    using that mk c by (cases "w = ?N") (simp_all add: out)
  have "fst (snd (reg_step (eval_cell P) (eval_aux P) ?e r)) =
      (D, pr_adv P m 1, sig, num_and_evs (es @ [?e]), tl rows, M[?k := chk], LA'[?k := bbyte Lg])"
    using eval_simps(6) [OF gate] by (simp add: A out)
  moreover have "LA'[?k := bbyte Lg] ! i = bbyte (la i) \<and>
      M[?k := chk] ! i = own_check D lg n ins sig la (told la n x (es @ [?e])) (es @ [?e]) i"
    if i: "i < num_and_evs (es @ [?e])" for i
  proof (cases "i = ?k")
    case True
    then show ?thesis using i A(2,3) len chk by (simp add: la_def)
  next
    case ne: False
    then have k: "i < ?k" using i by simp
    have "own_check D lg n ins sig la (told la n x (es @ [?e])) (es @ [?e]) i = own_check D lg n ins sig la0 (told la0 n x es) es i"
      unfolding told_check_snoc(2) [OF wf k] tl by (rule own_check_cong) (simp add: la_def ne)
    then show ?thesis using B [OF k] ne by (simp add: la_def)
  qed
  ultimately have "eval_told D lg n ins sig la x M1 LA (reg_step (eval_cell P) (eval_aux P) ?e r) (es @ [?e])"
    unfolding eval_told_def using masks A(2,3) by (metis (no_types, lifting) length_list_update)
  then show ?thesis by blast
qed

lemma eval_told_run:
  fixes P :: "('m, 'd) prims" and g :: "wire \<Rightarrow> ashare \<times> block \<times> byte"
  assumes wf: "wf_stream n es" and f: "\<forall>w < n. fst (g w) = ins w" "preset n es lg (\<lambda>w. fst (g w))"
    and init: "\<forall>w < n. snd (snd (g w)) = bbyte (x w)"
    and len: "num_and_evs es \<le> length M1" "num_and_evs es \<le> length LA"
  shows "\<exists>la. eval_told D lg n ins sig la x M1 LA (joint_eval P D m sig n g rows M1 LA es) es"
  using wf f(2) len
proof (induction es rule: rev_induct)
  case Nil
  then show ?case using init by (simp add: eval_told_def joint_eval_def)
next
  case (snoc e es)
  have wf: "wf_stream n es" "\<And>w. w \<in> set (ev_reads e) \<Longrightarrow> w < n + length es"
    using snoc.prems(1) by (simp_all add: wf_stream_snoc)
  have pre: "preset n es lg (\<lambda>w. fst (g w))" "ev_is_and e \<longrightarrow> fst (g (n + length es)) = lg (num_and_evs es)"
    using preset_snocD [OF snoc.prems(2)] by blast+
  define r where "r = joint_eval P D m sig n g rows M1 LA es"
  obtain la where I: "eval_told D lg n ins sig la x M1 LA r es"
    using snoc.IH wf(1) pre(1) snoc.prems(3,4) unfolding r_def by auto
  have sh: "fst (fst r w) = share_regs lg n ins es w" if "w < n + length es" for w
    unfolding r_def joint_eval_def by (rule eval_regs_share [OF f(1) pre(1) wf(1) that])
  have out: "snd (snd r) = n + length es" by (simp add: r_def joint_eval_def)
  have un: "fst r (n + length es) = g (n + length es)" unfolding r_def joint_eval_def by (rule reg_run_untouched) simp
  have step: "joint_eval P D m sig n g rows M1 LA (es @ [e]) = reg_step (eval_cell P) (eval_aux P) e r"
    by (simp add: r_def joint_eval_def)
  show ?case
  proof (cases "ev_is_and e")
    case False
    then show ?thesis unfolding step using eval_told_linear [OF I wf out] by blast
  next
    case True
    then obtain a b where e: "e = EAnd a b" by (cases e) auto
    have "a < n + length es" "b < n + length es" using wf(2) by (simp_all add: e)
    moreover have "fst (fst r (n + length es)) = lg (num_and_evs es)" using pre(2) True un by simp
    ultimately show ?thesis
      unfolding step unfolding e by (rule eval_told_and [OF I wf(1) _ _ out _ sh]) (use snoc.prems(3,4) e in simp_all)
  qed
qed


section \<open>Comparing the two\<close>

text \<open>What the opened mask of AND gate \<open>i\<close> has to be, given those of its operands.\<close>

definition due where
  "due lg1 lg2 n ins1 ins2 op es i =
     (let a = fst (and_ops es ! i); b = snd (and_ops es ! i) in
      ((op a \<noteq> wire_mask lg1 lg2 n ins1 ins2 es a) \<and> (op b \<noteq> wire_mask lg1 lg2 n ins1 ins2 es b)) \<noteq>
      share_bit (lg1 i) (lg2 i))"

lemma checks_differ:
  assumes masks: "masks_ok D1 D2 n es ins1 ins2 lg1 lg2 sig1 sig2" and wf: "wf_stream n es"
    and i: "i < num_and_evs es"
  shows "told_check lg1 n ins1 sig1 op es i XOR own_check D2 lg2 n ins2 sig2 la op es i =
    sel (la i \<noteq> due lg1 lg2 n ins1 ins2 op es i) D2"
proof -
  note b = and_ops_nth_bound [OF wf i]
  note sh = share_regs_ok [OF masks_okD [OF masks] wf]
  have m: "shares_ok D1 D2 (lg1 i) (lg2 i)" "shares_ok D1 D2 (sig1 ! i) (sig2 ! i)"
    "share_bit (sig1 ! i) (sig2 ! i) =
      (wire_mask lg1 lg2 n ins1 ins2 es (fst (and_ops es ! i)) \<and> wire_mask lg1 lg2 n ins1 ins2 es (snd (and_ops es ! i)))"
    using masks i unfolding masks_ok_def by blast+
  show ?thesis
    unfolding told_check_def own_check_def due_def Let_def wire_mask_def
    by (rule check_rows_differ [OF sh sh m(1,2) m(3) [unfolded wire_mask_def]]) (use b in simp_all)
qed

lemma due_snoc:
  assumes "wf_stream n es" and "i < num_and_evs es"
  shows "due lg1 lg2 n ins1 ins2 (told la n x (es @ [e])) (es @ [e]) i = due lg1 lg2 n ins1 ins2 (told la n x es) es i"
  using and_ops_nth_bound [OF assms] assms(2)
  by (simp add: due_def Let_def nth_append wire_mask_def)

lemma due_new:
  assumes "a < n + length es" and "b < n + length es"
  shows "due lg1 lg2 n ins1 ins2 (told la n x (es @ [EAnd a b])) (es @ [EAnd a b]) (num_and_evs es) =
    (((told la n x es a \<noteq> wire_mask lg1 lg2 n ins1 ins2 es a) \<and>
      (told la n x es b \<noteq> wire_mask lg1 lg2 n ins1 ins2 es b)) \<noteq> share_bit (lg1 (num_and_evs es)) (lg2 (num_and_evs es)))"
  using assms by (simp add: due_def Let_def nth_append wire_mask_def)

text \<open>If every AND mask is the one due, all masks are the opened masks of the cleartext run.\<close>

lemma told_due_opened:
  assumes "wf_stream (length vs) es" and x: "\<forall>w < length vs. x w = (vs ! w \<noteq> share_bit (ins1 w) (ins2 w))"
    and "\<forall>i < num_and_evs es. la i = due lg1 lg2 (length vs) ins1 ins2 (told la (length vs) x es) es i"
    and "w < length vs + length es"
  shows "told la (length vs) x es w = opened lg1 lg2 ins1 ins2 vs es w"
  using assms(1,3,4)
proof (induction es arbitrary: w rule: rev_induct)
  case Nil
  then show ?case using x by (simp add: opened_def wire_mask_def)
next
  case (snoc e es)
  let ?n = "length vs"
  have wf: "wf_stream ?n es" "\<And>w. w \<in> set (ev_reads e) \<Longrightarrow> w < ?n + length es"
    using snoc.prems(1) by (simp_all add: wf_stream_snoc)
  have d: "\<forall>i < num_and_evs es. la i = due lg1 lg2 ?n ins1 ins2 (told la ?n x es) es i"
  proof (intro allI impI)
    fix i assume i: "i < num_and_evs es"
    then have "i < num_and_evs (es @ [e])" by simp
    with snoc.prems(2) have "la i = due lg1 lg2 ?n ins1 ins2 (told la ?n x (es @ [e])) (es @ [e]) i" by blast
    then show "la i = due lg1 lg2 ?n ins1 ins2 (told la ?n x es) es i" by (simp only: due_snoc [OF wf(1) i])
  qed
  note ih = snoc.IH [OF wf(1) d]
  show ?case
  proof (cases "w = ?n + length es")
    case False
    then show ?thesis using ih [of w] snoc.prems(3) by (simp add: opened_snoc)
  next
    case True
    show ?thesis
    proof (cases e)
      case (EAnd a b)
      have ab: "a < ?n + length es" "b < ?n + length es" using wf(2) by (simp_all add: EAnd)
      have "la (num_and_evs es) = (((told la ?n x es a \<noteq> wire_mask lg1 lg2 ?n ins1 ins2 es a) \<and>
          (told la ?n x es b \<noteq> wire_mask lg1 lg2 ?n ins1 ins2 es b)) \<noteq> share_bit (lg1 (num_and_evs es)) (lg2 (num_and_evs es)))"
        using snoc.prems(2) [unfolded EAnd, THEN spec [of _ "num_and_evs es"]] by (simp only: due_new [OF ab]) simp
      moreover have "(told la ?n x es c \<noteq> wire_mask lg1 lg2 ?n ins1 ins2 es c) = clear_run vs es ! c"
        if "c < ?n + length es" for c
        using ih [OF that] by (auto simp: opened_def)
      ultimately show ?thesis using ab by (simp add: True EAnd opened_new told_bit_def)
    qed (use wf(2) ih in \<open>simp_all add: True opened_new told_bit_def\<close>)
  qed
qed

text \<open>The masks the evaluator opens on an honest stream are due.\<close>

lemma told_opened:
  assumes "wf_stream (length vs) es" and x: "\<forall>w < length vs. x w = (vs ! w \<noteq> share_bit (ins1 w) (ins2 w))"
    and "\<forall>i < num_and_evs es. la i = opened lg1 lg2 ins1 ins2 vs es (and_outs (length vs) es ! i)"
    and "w < length vs + length es"
  shows "told la (length vs) x es w = opened lg1 lg2 ins1 ins2 vs es w"
  using assms(1,3,4)
proof (induction es arbitrary: w rule: rev_induct)
  case Nil
  then show ?case using x by (simp add: opened_def wire_mask_def)
next
  case (snoc e es)
  let ?n = "length vs"
  have wf: "wf_stream ?n es" "\<And>w. w \<in> set (ev_reads e) \<Longrightarrow> w < ?n + length es"
    using snoc.prems(1) by (simp_all add: wf_stream_snoc)
  have "la i = opened lg1 lg2 ins1 ins2 vs es (and_outs ?n es ! i)" if "i < num_and_evs es" for i
  proof -
    have "and_outs ?n (es @ [e]) ! i = and_outs ?n es ! i" using that by (simp add: nth_append)
    then show ?thesis using snoc.prems(2) that opened_snoc and_outs_bound [OF that, of ?n] by fastforce
  qed
  note ih = snoc.IH [OF wf(1)] this
  show ?case
  proof (cases "w = ?n + length es")
    case False
    then show ?thesis using ih snoc.prems(3) by (simp add: opened_snoc)
  next
    case True
    show ?thesis
    proof (cases e)
      case (EAnd a b)
      have "and_outs ?n (es @ [e]) ! num_and_evs es = ?n + length es" by (simp add: EAnd nth_append)
      then show ?thesis using snoc.prems(2) by (auto simp: True EAnd told_bit_def)
    qed (use wf(2) ih in \<open>simp_all add: True opened_new told_bit_def\<close>)
  qed
qed

lemma told_check_cong:
  assumes "wf_stream n es" and "i < num_and_evs es" and "\<And>w. w < n + length es \<Longrightarrow> op w = oq w"
  shows "told_check lg n ins sig op es i = told_check lg n ins sig oq es i"
  using and_ops_nth_bound [OF assms(1,2)] assms(3) by (simp add: told_check_def Let_def)

lemma check_values_told:
  assumes "wf_stream (length vs) es" and "i < num_and_evs es"
    and "\<And>w. w < length vs + length es \<Longrightarrow> op w = opened lg1 lg2 ins1 ins2 vs es w"
  shows "told_check lg1 (length vs) ins1 sig op es i = check_value lg1 lg2 ins1 ins2 vs es sig i"
  unfolding check_value_told by (rule told_check_cong [OF assms])

end
