(* ===== verification/Engine.thy ===== *)
theory Engine
  imports Protocol Announced
begin

text \<open>
  The engine \<^verbatim>\<open>AG2PCEngine\<close> of \<^verbatim>\<open>backend/engine.h\<close>: it drives the passes over
  one source, generates the AND shares between them, exchanges the ciphertexts, the opened AND masks
  and the check digest, and gathers the outputs. For honest parties a run does not abort and
  produces wires that encode the cleartext values of the outputs.
\<close>

section \<open>One run\<close>

record engine =
  en_proto :: protocol
  en_total_ands :: nat

text \<open>
  Randomness both parties derive from the transcript (bucketing coins, half-gate seed) and party
  1's commitment nonce.
\<close>

record run_coins =
  rc_coin :: "nat \<Rightarrow> 32 word"
  rc_nonce :: block
  rc_seed :: block

definition run_pass :: "('p \<Rightarrow> 'p) \<Rightarrow> ('p \<Rightarrow> 'p) \<Rightarrow> 'p ctx_ops \<Rightarrow> body \<Rightarrow> 'p \<Rightarrow> wire list \<times> 'p" where
  "run_pass begin_pass end_pass ops src p =
     (case drive ops src (begin_pass p) of (outs, p') \<Rightarrow> (outs, end_pass p'))"

text \<open>
  Liveness, input load, slot assignment and mask collection, and the buffers of the check. \<open>m0\<close> is
  the hash state before it is keyed.
\<close>

definition run_setup ::
  "'m \<Rightarrow> protocol \<Rightarrow> secure_wires \<Rightarrow> body \<Rightarrow> wire list \<times> 'm run_state \<times> protocol" where
  "run_setup m0 pr w src =
     (let st = init_run_state (pc_party pr) (pc_Delta pr) (sw_size w) m0;
          (outs, lp) = run_pass id id live_ops src (init_live st);
          st = load_inputs w (lp_commit outs lp st);
          (outs1, sp) = run_pass id id slot_mask_ops src (init_slot_mask st (pc_fpre pr));
          sp = commit_sizes sp;
          st = sm_s sp;
          n = max 1 (rs_num_ands st);
          st = st\<lparr>rs_M1_t := resize n 0 (rs_M1_t st), rs_Lambda_AND := replicate n 0\<rparr>
      in (outs, st, pr\<lparr>pc_fpre := sm_fpre sp\<rparr>))"

text \<open>\<^verbatim>\<open>compute_inplace\<close> writes its result into \<^verbatim>\<open>sigma\<close>; then the half-gate hash is keyed.\<close>

definition store_sigma :: "ashare list \<Rightarrow> 'm run_state \<Rightarrow> 'm run_state" where
  "store_sigma sig st = st\<lparr>rs_sigma := sig @ drop (length sig) (rs_sigma st)\<rparr>"

definition set_seed :: "('m, 'd) prims \<Rightarrow> block \<Rightarrow> 'm run_state \<Rightarrow> 'm run_state" where
  "set_seed P seed st = st\<lparr>rs_mitc := pr_setS P seed\<rparr>"

text \<open>
  The garbler's path: the ciphertext stream it sends; then, given the opened AND masks, the check
  digest it sends.
\<close>

definition garbler_send :: "('m, 'd) prims \<Rightarrow> body \<Rightarrow> 'm run_state \<Rightarrow> 'm run_state \<times> byte list" where
  "garbler_send P src st =
     (let (outs, gp) = run_pass gp_begin gp_end (garble_ops P) src (init_garble st)
      in (gp_s gp, stream_bytes (gp_sent gp)))"

definition garbler_check ::
  "('m, 'd) prims \<Rightarrow> body \<Rightarrow> bool list \<Rightarrow> 'm run_state \<Rightarrow> 'm run_state \<times> 'd option" where
  "garbler_check P src LA st =
     (if rs_num_ands st > 0 then
        let st = st\<lparr>rs_Lambda_AND := map bbyte LA @ drop (length LA) (rs_Lambda_AND st)\<rparr>;
            (outs, pp) = run_pass id id gamma_ops src (init_gamma st);
            st = gc_s pp
        in (st, Some (pr_digest P (take (rs_num_ands st) (rs_M1_t st))))
      else (st, None))"

text \<open>
  The evaluator's path: what it computes from the stream and the opened AND masks it sends; then
  its verdict on the garbler's digest.
\<close>

definition evaluator_receive ::
  "('m, 'd) prims \<Rightarrow> body \<Rightarrow> byte list \<Rightarrow> 'm run_state \<Rightarrow> ('m run_state \<times> bool list) result" where
  "evaluator_receive P src io st =
     (let (outs, ep) = run_pass id ep_end (eval_ops P) src (init_eval st io)
      in if ep_fault ep then Inl Null_Deref
         else Inr (ep_s ep, map nz (take (rs_num_ands (ep_s ep)) (rs_Lambda_AND (ep_s ep)))))"

definition evaluator_verdict :: "('m, 'd) prims \<Rightarrow> 'd option \<Rightarrow> 'm run_state \<Rightarrow> unit result" where
  "evaluator_verdict P D2 st =
     (if rs_num_ands st > 0 \<and> D2 \<noteq> Some (pr_digest P (take (rs_num_ands st) (rs_M1_t st)))
      then Inl Gamma_Check_Failed else Inr ())"

definition gather_outputs :: "wire list \<Rightarrow> 'm run_state \<Rightarrow> secure_wires" where
  "gather_outputs outs st =
     \<lparr>sw_Lambda = map (minp st) outs, sw_bundle = map (wslot st) outs,
      sw_label0 = (if rs_party st = 1 then map (lbl st) outs else []),
      sw_eval_label = (if rs_party st = 1 then [] else map (evl st) outs)\<rparr>"

definition finish_run :: "nat \<Rightarrow> protocol \<Rightarrow> engine \<Rightarrow> engine" where
  "finish_run ands pr en =
     en\<lparr>en_proto := protocol_cot_check pr, en_total_ands := en_total_ands en + ands\<rparr>"

text \<open>The whole run, both parties; party 1 garbles.\<close>

definition run_source ::
  "('m, 'd) prims \<Rightarrow> run_coins \<Rightarrow> 'm \<Rightarrow> body \<Rightarrow> secure_wires \<times> engine \<Rightarrow> secure_wires \<times> engine \<Rightarrow>
   ((secure_wires \<times> engine) \<times> (secure_wires \<times> engine)) result" where
  "run_source P rc m0 src we1 we2 =
     (let (w1, en1) = we1; (w2, en2) = we2;
          (outs1, st1, pr1) = run_setup m0 (en_proto en1) w1 src;
          (outs2, st2, pr2) = run_setup m0 (en_proto en2) w2 src
      in bind_result (compute_inplace P (rc_coin rc) (rc_nonce rc) (rs_num_ands st1)
             (rs_rep_a st1) (rs_rep_b st1) (rs_rep_a st2) (rs_rep_b st2) (pc_fpre pr1) (pc_fpre pr2))
         (\<lambda>((sig1, f1), (sig2, f2)).
           let st1 = set_seed P (rc_seed rc) (store_sigma sig1 st1);
               st2 = set_seed P (rc_seed rc) (store_sigma sig2 st2);
               (st1, io) = garbler_send P src st1
           in bind_result (evaluator_receive P src io st2) (\<lambda>(st2, LA).
                let (st1, D2) = garbler_check P src LA st1
                in bind_result (evaluator_verdict P D2 st2) (\<lambda>_.
                     Inr ((gather_outputs outs1 st1, finish_run (rs_num_ands st1) (pr1\<lparr>pc_fpre := f1\<rparr>) en1),
                          (gather_outputs outs2 st2, finish_run (rs_num_ands st2) (pr2\<lparr>pc_fpre := f2\<rparr>) en2))))))"

text \<open>
  \<^verbatim>\<open>run_program\<close>, one party's checks and the run: \<open>exec\<close> is \<^verbatim>\<open>execute_program\<close> of
  emp-tool, as the operations it issues on the pass.
\<close>

definition check_program ::
  "(program \<Rightarrow> bool) \<Rightarrow> program \<Rightarrow> secure_wires \<Rightarrow> protocol \<Rightarrow> unit result" where
  "check_program validate prog w pr =
     bind_result (require_record_canonical validate prog) (\<lambda>_.
     bind_result (check_secure_wires w (pc_party pr)) (\<lambda>_.
       if sw_size w \<noteq> p_num_inputs prog then Inl Program_Input_Width else Inr ()))"

definition run_program ::
  "('m, 'd) prims \<Rightarrow> (program \<Rightarrow> bool) \<Rightarrow> (program \<Rightarrow> wire list \<Rightarrow> body) \<Rightarrow> run_coins \<Rightarrow> 'm \<Rightarrow> program \<Rightarrow>
   secure_wires \<times> engine \<Rightarrow> secure_wires \<times> engine \<Rightarrow>
   ((secure_wires \<times> engine) \<times> (secure_wires \<times> engine)) result" where
  "run_program P validate exec rc m0 prog we1 we2 =
     bind_result (check_program validate prog (fst we1) (en_proto (snd we1))) (\<lambda>_.
     bind_result (check_program validate prog (fst we2) (en_proto (snd we2))) (\<lambda>_.
       run_source P rc m0 (exec prog [0..<p_num_inputs prog]) we1 we2))"

section \<open>Set-up\<close>

lemma slot_of_engine_upd [simp]:
  "slot_of (s\<lparr>rs_M1_t := a, rs_Lambda_AND := b\<rparr>) = slot_of s"
  "slot_of (store_sigma sig s) = slot_of s" "slot_of (set_seed P seed s) = slot_of s"
  by (simp_all add: slot_of_def fun_eq_iff store_sigma_def set_seed_def)

lemma engine_upd_sel [simp]:
  "rs_party (store_sigma sig s) = rs_party s" "rs_Delta (store_sigma sig s) = rs_Delta s"
  "rs_num_inputs (store_sigma sig s) = rs_num_inputs s" "rs_M1_t (store_sigma sig s) = rs_M1_t s"
  "rs_Lambda_AND (store_sigma sig s) = rs_Lambda_AND s"
  "rs_sigma (store_sigma sig s) = sig @ drop (length sig) (rs_sigma s)"
  "rs_party (set_seed P seed s) = rs_party s" "rs_Delta (set_seed P seed s) = rs_Delta s"
  "rs_num_inputs (set_seed P seed s) = rs_num_inputs s" "rs_M1_t (set_seed P seed s) = rs_M1_t s"
  "rs_Lambda_AND (set_seed P seed s) = rs_Lambda_AND s" "rs_sigma (set_seed P seed s) = rs_sigma s"
  "rs_mitc (set_seed P seed s) = pr_setS P seed"
  by (simp_all add: store_sigma_def set_seed_def)

lemma slots_ready_upd [simp]:
  "slots_ready es outs w lg (s\<lparr>rs_M1_t := a, rs_Lambda_AND := b\<rparr>) = slots_ready es outs w lg s"
  "slots_ready es outs w lg (store_sigma sig s) = slots_ready es outs w lg s"
  "slots_ready es outs w lg (set_seed P seed s) = slots_ready es outs w lg s"
  by (simp_all add: slots_ready_def live_state_ok_def wslot_def minp_def lbl_def evl_def Let_def)
     (simp_all add: store_sigma_def set_seed_def)

lemma run_setup_ok:
  assumes src: "stream_of (sw_size w) src = (outs, es)" and wf: "wf_stream (sw_size w) es"
    and run: "run_setup m0 pr w src = (outs', st, pr')"
  defines "f \<equiv> pc_fpre pr"
  shows "outs' = outs" and "slots_ready es outs w (\<lambda>i. stream_share f (tp_pos f + i)) st"
    and "pr' = pr\<lparr>pc_fpre := f\<lparr>tp_pos := tp_pos f + lg_minted (num_and_evs es),
           tp_cots_minted := tp_cots_minted f \<or> 0 < num_and_evs es\<rparr>\<rparr>"
    and "rs_party st = pc_party pr" "rs_Delta st = pc_Delta pr" "rs_num_inputs st = sw_size w"
    and "rs_num_ands st = num_and_evs es"
    and "length (rs_M1_t st) = max 1 (num_and_evs es)" "length (rs_Lambda_AND st) = max 1 (num_and_evs es)"
proof -
  let ?s0 = "init_run_state (pc_party pr) (pc_Delta pr) (sw_size w) m0"
  have n: "rs_num_inputs ?s0 = sw_size w" "rs_party ?s0 = pc_party pr" "rs_Delta ?s0 = pc_Delta pr"
    by (simp_all add: init_run_state_def)
  obtain outs0 lp where lp: "drive live_ops src (init_live ?s0) = (outs0, lp)" by (metis surj_pair)
  note live = live_commit_ok [where s = ?s0, unfolded n, OF src wf lp]
  let ?s1 = "lp_commit outs lp ?s0"
  have n1: "rs_num_inputs ?s1 = sw_size w" "rs_party ?s1 = pc_party pr" "rs_Delta ?s1 = pc_Delta pr"
    by (simp_all add: lp_commit_def n)
  obtain outs1 sp where sp: "drive slot_mask_ops src (init_slot_mask (load_inputs w ?s1) f) = (outs1, sp)"
    by (metis surj_pair)
  note sm = slot_mask_ok [OF live(2), unfolded n1, OF wf src, where w = w, OF sp]
  let ?s2 = "sm_s (commit_sizes sp)"
  have ready: "slots_ready es outs w (\<lambda>i. stream_share f (tp_pos f + i)) ?s2" by (rule sm(1))
  then have na: "rs_num_ands ?s2 = num_and_evs es" by (simp add: slots_ready_def live_state_ok_def Let_def)
  have fp: "sm_fpre (commit_sizes sp) = sm_fpre sp" by (simp add: commit_sizes_def Let_def)
  have eq: "outs' = outs" "pr' = pr\<lparr>pc_fpre := sm_fpre sp\<rparr>"
    "st = ?s2\<lparr>rs_M1_t := resize (max 1 (rs_num_ands ?s2)) 0 (rs_M1_t ?s2),
              rs_Lambda_AND := replicate (max 1 (rs_num_ands ?s2)) 0\<rparr>"
    using run lp sp live(1) unfolding f_def
    by (simp_all add: run_setup_def run_pass_def Let_def fp)
  show "outs' = outs" by (rule eq)
  show "slots_ready es outs w (\<lambda>i. stream_share f (tp_pos f + i)) st" using ready by (simp add: eq(3))
  show "pr' = pr\<lparr>pc_fpre := f\<lparr>tp_pos := tp_pos f + lg_minted (num_and_evs es),
           tp_cots_minted := tp_cots_minted f \<or> 0 < num_and_evs es\<rparr>\<rparr>"
    using sm(2) by (simp add: eq(2))
  show "rs_party st = pc_party pr" "rs_Delta st = pc_Delta pr" "rs_num_inputs st = sw_size w"
    using sm(3) by (simp_all add: eq(3))
  show "rs_num_ands st = num_and_evs es" "length (rs_M1_t st) = max 1 (num_and_evs es)"
    "length (rs_Lambda_AND st) = max 1 (num_and_evs es)"
    using na by (simp_all add: eq(3) resize_def)
qed

text \<open>
  The two parties' states at the point where the garbler starts to garble.
\<close>

definition ready_pair ::
  "block \<Rightarrow> block \<Rightarrow> bool list \<Rightarrow> ev list \<Rightarrow> wire list \<Rightarrow> secure_wires \<Rightarrow> secure_wires \<Rightarrow>
   (nat \<Rightarrow> ashare) \<Rightarrow> (nat \<Rightarrow> ashare) \<Rightarrow> 'm run_state \<Rightarrow> 'm run_state \<Rightarrow> bool" where
  "ready_pair D1 D2 vs es outs w1 w2 lg1 lg2 s1 s2 \<longleftrightarrow>
     slots_ready es outs w1 lg1 s1 \<and> slots_ready es outs w2 lg2 s2 \<and>
     rs_party s1 = 1 \<and> rs_party s2 = 2 \<and> rs_Delta s1 = D1 \<and> rs_Delta s2 = D2 \<and>
     rs_num_inputs s1 = length vs \<and> rs_num_inputs s2 = length vs \<and> rs_mitc s1 = rs_mitc s2 \<and>
     num_and_evs es \<le> length (rs_M1_t s1) \<and> num_and_evs es \<le> length (rs_M1_t s2) \<and>
     num_and_evs es \<le> length (rs_Lambda_AND s1) \<and> num_and_evs es \<le> length (rs_Lambda_AND s2) \<and>
     wires_rel D1 D2 w1 w2 vs \<and> deltas_ok D1 D2 \<and> wf_stream (length vs) es \<and>
     (\<forall>x \<in> set outs. x < length vs + length es) \<and>
     masks_ok D1 D2 (length vs) es ((!) (sw_bundle w1)) ((!) (sw_bundle w2)) lg1 lg2 (rs_sigma s1) (rs_sigma s2)"

lemma pool_shares_ok:
  assumes "pools_ok f g"
  shows "shares_ok (tp_Delta f) (tp_Delta g) (stream_share f (tp_pos f + i)) (stream_share g (tp_pos g + i))"
  using assms by (simp add: pools_ok_def cot_ok_def)

text \<open>The products the shares must hold, as the AND-share generation gives them.\<close>

lemma masks_ok_sigma:
  fixes lg1 lg2 :: "nat \<Rightarrow> ashare"
  assumes ins: "\<forall>w < n. shares_ok D1 D2 (ins1 w) (ins2 w)"
    and lg: "\<forall>i < num_and_evs es. shares_ok D1 D2 (lg1 i) (lg2 i)"
    and sig: "\<forall>i < num_and_evs es. shares_ok D1 D2 (sig1 ! i) (sig2 ! i) \<and>
        share_bit (sig1 ! i) (sig2 ! i) =
          (share_bit (map (\<lambda>(a, b). share_regs lg1 n ins1 es a) (and_ops es) ! i)
                     (map (\<lambda>(a, b). share_regs lg2 n ins2 es a) (and_ops es) ! i) \<and>
           share_bit (map (\<lambda>(a, b). share_regs lg1 n ins1 es b) (and_ops es) ! i)
                     (map (\<lambda>(a, b). share_regs lg2 n ins2 es b) (and_ops es) ! i))"
    and len: "length sig1 = num_and_evs es" "length sig2 = num_and_evs es"
  shows "masks_ok D1 D2 n es ins1 ins2 lg1 lg2 (sig1 @ r1) (sig2 @ r2)"
  unfolding masks_ok_def
proof (intro conjI allI impI)
  fix i assume i: "i < num_and_evs es"
  then show "shares_ok D1 D2 (lg1 i) (lg2 i)" "shares_ok D1 D2 ((sig1 @ r1) ! i) ((sig2 @ r2) ! i)"
    using lg sig len by (simp_all add: nth_append)
  show "share_bit ((sig1 @ r1) ! i) ((sig2 @ r2) ! i) =
      (wire_mask lg1 lg2 n ins1 ins2 es (fst (and_ops es ! i)) \<and>
       wire_mask lg1 lg2 n ins1 ins2 es (snd (and_ops es ! i)))"
    using sig i len by (simp add: nth_append wire_mask_def case_prod_beta)
qed (use ins in blast)

section \<open>Garbling and evaluating\<close>

abbreviation ins_of :: "secure_wires \<Rightarrow> wire \<Rightarrow> ashare" where
  "ins_of w \<equiv> (!) (sw_bundle w)"

lemma ready_wires:
  assumes "slots_ready es outs w lg s" and "x < rs_num_inputs s + length es" and "persists (rs_num_inputs s) es outs x"
  shows "wslot s x = share_regs lg (rs_num_inputs s) (ins_of w) es x"
    and "minp s x = mask_regs (rs_num_inputs s) ((!) (sw_Lambda w)) es x"
  using assms by (simp_all add: slots_ready_def live_state_ok_def Let_def)

lemma ready_inputs:
  assumes "slots_ready es outs w lg s" and "x < rs_num_inputs s"
  shows "wslot s x = sw_bundle w ! x" and "minp s x = sw_Lambda w ! x"
    and "rs_party s = 1 \<Longrightarrow> lbl s x = sw_label0 w ! x" and "rs_party s \<noteq> 1 \<Longrightarrow> evl s x = sw_eval_label w ! x"
proof -
  have p: "persists (rs_num_inputs s) es outs x" using assms(2) by (simp add: persists_def)
  have m: "mask_regs n f es x = f x" if "x < n" for n :: nat and f
    using that by (induction es rule: rev_induct) simp_all
  show "wslot s x = sw_bundle w ! x" "minp s x = sw_Lambda w ! x"
    using ready_wires [OF assms(1) _ p] assms(2) by (simp_all add: share_regs_input m)
  show "rs_party s = 1 \<Longrightarrow> lbl s x = sw_label0 w ! x" "rs_party s \<noteq> 1 \<Longrightarrow> evl s x = sw_eval_label w ! x"
    using assms by (simp_all add: slots_ready_def Let_def)
qed

lemma ready_preset:
  assumes "slots_ready es outs w lg s"
  shows "preset (rs_num_inputs s) es lg (\<lambda>x. wslot s x)"
  unfolding preset_def
proof (intro allI impI)
  fix k assume k: "k < length es" "ev_is_and (es ! k)"
  then have "persists (rs_num_inputs s) es outs (rs_num_inputs s + k)" by (simp add: persists_def)
  with k show "wslot s (rs_num_inputs s + k) = lg (num_and_evs (take k es))"
    using ready_wires(1) [OF assms] by (simp add: share_regs_and)
qed

lemma rows_of_length: "length (rows_of (joint_garble P D m sig n f es)) = num_and_evs es"
proof (induction es rule: rev_induct)
  case Nil
  then show ?case by (simp add: joint_garble_def rows_of_def)
next
  case (snoc e es)
  let ?G = "joint_garble P D m sig n f es"
  obtain D' m' sig' i rows where a: "fst (snd ?G) = (D', m', sig', i, rows)" by (metis prod_cases5)
  have step: "joint_garble P D m sig n f (es @ [e]) = reg_step (garble_cell P) (garble_aux P) e ?G"
    by (simp add: joint_garble_def)
  show ?case
  proof (cases "ev_is_and e")
    case True
    then obtain b c where e: "e = EAnd b c" by (cases e) auto
    obtain G0 G1 l where "garble_and P (D', m', sig', i, rows) (fst ?G) b c (snd (snd ?G)) = (G0, G1, l)"
      by (metis prod_cases3)
    then show ?thesis using snoc a unfolding step by (simp add: e rows_of_def garble_simps)
  qed (use snoc in \<open>simp add: step rows_of_def garble_simps(5)\<close>)
qed

text \<open>The garbler's send pass, and the evaluator's pass on any stream, as register machines.\<close>

lemma garbler_stream:
  fixes P :: "('m, 'd) prims" and s :: "'m run_state"
  assumes ready: "slots_ready es outs w lg s" and party: "rs_party s = 1" and n: "rs_num_inputs s = n"
    and wf: "wf_stream n es" and src: "stream_of n src = (outs, es)" and send: "garbler_send P src s = (s', io)"
  defines "G \<equiv> joint_garble P (rs_Delta s) (rs_mitc s) (rs_sigma s) n (\<lambda>w. (wslot s w, lbl s w)) es"
  shows "\<And>x. x < n + length es \<Longrightarrow> persists n es outs x \<Longrightarrow> (wslot s' x, lbl s' x) = fst G x"
    and "stream_rows (num_and_evs es) io = rows_of G"
    and "rs_mask_input s' = rs_mask_input s \<and> rs_phys s' = rs_phys s \<and>
         rs_sigma s' = rs_sigma s \<and> rs_party s' = 1 \<and> rs_num_ands s' = num_and_evs es \<and>
         rs_num_inputs s' = n \<and> rs_M1_t s' = rs_M1_t s \<and> rs_Lambda_AND s' = rs_Lambda_AND s"
    and "length (rs_wire_slot s') = rs_num_slots s"
proof -
  have nw: "rs_num_wires s = n + length es" "rs_num_ands s = num_and_evs es"
    using ready n by (simp_all add: slots_ready_def live_state_ok_def Let_def)
  obtain outs' gp where gp: "drive (garble_ops P) src (gp_begin (init_garble s)) = (outs', gp)" by (metis surj_pair)
  have s': "s' = gp_s (gp_end gp)" and io: "io = stream_bytes (gp_sent (gp_end gp))"
    using send gp by (simp_all add: garbler_send_def run_pass_def)
  note g = garble_run_ok [OF ready _ party _ gp, unfolded n, OF wf src, folded s']
  have G: "garble_regs P s es = G" by (simp add: G_def garble_regs_def joint_garble_def n)
  have rows: "concat (map chunk_rows (gp_sent (gp_end gp))) = rows_of G"
    using g(3) by (simp add: G rows_of_def)
  have "sum_list (map ck_n (gp_sent (gp_end gp))) = num_and_evs es"
    unfolding batched_length [OF g(2), symmetric] rows G_def by (rule rows_of_length)
  then show "stream_rows (num_and_evs es) io = rows_of G"
    using stream_rows_bytes [OF g(2), of "[]"] by (simp add: io rows)
  show "(wslot s' x, lbl s' x) = fst G x" if "x < n + length es" "persists n es outs x" for x
    using g(1) that by (simp add: nw G)
  show "length (rs_wire_slot s') = rs_num_slots s" by (rule g(5))
  show "rs_mask_input s' = rs_mask_input s \<and> rs_phys s' = rs_phys s \<and>
         rs_sigma s' = rs_sigma s \<and> rs_party s' = 1 \<and> rs_num_ands s' = num_and_evs es \<and>
         rs_num_inputs s' = n \<and> rs_M1_t s' = rs_M1_t s \<and> rs_Lambda_AND s' = rs_Lambda_AND s"
    using g(4) nw party n by simp
qed

lemma evaluator_stream:
  fixes P :: "('m, 'd) prims" and s :: "'m run_state" and io :: "byte list"
  assumes ready: "slots_ready es outs w lg s" and party: "rs_party s = 2" and n: "rs_num_inputs s = n"
    and wf: "wf_stream n es" and src: "stream_of n src = (outs, es)"
  defines "E \<equiv> joint_eval P (rs_Delta s) (rs_mitc s) (rs_sigma s) n (\<lambda>w. (wslot s w, evl s w, minp s w))
      (stream_rows (num_and_evs es) io) (rs_M1_t s) (rs_Lambda_AND s) es"
  assumes aux: "fst (snd E) = (D, m, sig, i, rows, M, LA)"
  obtains s' where "evaluator_receive P src io s = Inr (s', map nz (take (num_and_evs es) LA))"
    and "\<And>x. x < n + length es \<Longrightarrow> persists n es outs x \<Longrightarrow>
      wslot s' x = fst (fst E x) \<and> (evl s' x, minp s' x) = snd (fst E x)"
    and "rs_M1_t s' = M" and "rs_party s' = 2" and "rs_num_ands s' = num_and_evs es"
proof -
  have nw: "rs_num_wires s = n + length es" "rs_num_ands s = num_and_evs es"
    using ready n by (simp_all add: slots_ready_def live_state_ok_def Let_def)
  have p1: "rs_party s \<noteq> 1" using party by simp
  obtain outs' ep where ep: "drive (eval_ops P) src (init_eval s io) = (outs', ep)" by (metis surj_pair)
  let ?s' = "ep_s (ep_end ep)"
  have E: "eval_regs P s (stream_rows (rs_num_ands s) io) es = E"
    by (simp add: E_def eval_regs_def joint_eval_def n nw)
  note e = eval_run_ok [OF ready _ p1 _ ep, unfolded n, OF wf src, unfolded E]
  have M: "rs_M1_t ?s' = M" "rs_Lambda_AND ?s' = LA" using e(2) aux by simp_all
  have na: "rs_party ?s' = 2" "rs_num_ands ?s' = num_and_evs es" using e(4) party by (simp_all add: nw)
  have "\<not> ep_fault (ep_end ep)" using e(3) by (simp add: ep_end_def ep_release_def split: option.split)
  then have rcv: "evaluator_receive P src io s = Inr (?s', map nz (take (num_and_evs es) LA))"
    using ep na M by (simp add: evaluator_receive_def run_pass_def)
  have "wslot ?s' x = fst (fst E x) \<and> (evl ?s' x, minp ?s' x) = snd (fst E x)"
    if x: "x < n + length es" "persists n es outs x" for x
  proof -
    have "(wslot ?s' x, evl ?s' x, minp ?s' x) = fst E x" using e(1) x by (simp add: nw)
    then show ?thesis by (metis fst_conv snd_conv)
  qed
  from that [OF rcv this M(1) na] show thesis .
qed

text \<open>The inputs of the two passes.\<close>

lemma ready_pair_inputs:
  assumes "ready_pair D1 D2 vs es outs w1 w2 lg1 lg2 s1 s2" and w: "w < length vs"
  shows "wslot s1 w = ins_of w1 w" "wslot s2 w = ins_of w2 w"
    and "encodes D1 (vs ! w \<noteq> share_bit (ins_of w1 w) (ins_of w2 w)) (lbl s1 w) (evl s2 w, minp s2 w)"
proof -
  note R = assms(1) [unfolded ready_pair_def]
  have r: "slots_ready es outs w1 lg1 s1" "slots_ready es outs w2 lg2 s2" "rs_party s1 = 1" "rs_party s2 = 2"
    "rs_num_inputs s1 = length vs" "rs_num_inputs s2 = length vs" and rel: "wires_rel D1 D2 w1 w2 vs"
    using R by simp_all
  have "sw_Lambda w2 ! w = bbyte (vs ! w \<noteq> share_bit (ins_of w1 w) (ins_of w2 w))"
    "sw_eval_label w2 ! w = sw_label0 w1 ! w XOR sel (nz (sw_Lambda w2 ! w)) D1"
    using rel w unfolding wires_rel_def eval_rel_def by blast+
  then show "wslot s1 w = ins_of w1 w" "wslot s2 w = ins_of w2 w"
    "encodes D1 (vs ! w \<noteq> share_bit (ins_of w1 w) (ins_of w2 w)) (lbl s1 w) (evl s2 w, minp s2 w)"
    using ready_inputs [OF r(1), of w] ready_inputs [OF r(2), of w] w r by (simp_all add: encodes_def)
qed

text \<open>What the pair of runs leaves in the persistent wires and the check buffers.\<close>

definition evaluated where
  "evaluated D1 vs es outs w1 w2 lg1 lg2 sig1 s1' s2' \<longleftrightarrow>
     (\<forall>x < length vs + length es. persists (length vs) es outs x \<longrightarrow>
        wslot s1' x = share_regs lg1 (length vs) (ins_of w1) es x \<and>
        wslot s2' x = share_regs lg2 (length vs) (ins_of w2) es x \<and>
        encodes D1 (opened lg1 lg2 (ins_of w1) (ins_of w2) vs es x) (lbl s1' x) (evl s2' x, minp s2' x)) \<and>
     (\<forall>i < num_and_evs es. rs_M1_t s2' ! i = check_value lg1 lg2 (ins_of w1) (ins_of w2) vs es sig1 i) \<and>
     num_and_evs es \<le> length (rs_M1_t s2')"

lemma garble_eval_pair:
  fixes P :: "('m, 'd) prims" and s1 s2 :: "'m run_state"
  assumes rp: "ready_pair D1 D2 vs es outs w1 w2 lg1 lg2 s1 s2"
    and src: "stream_of (length vs) src = (outs, es)"
    and send: "garbler_send P src s1 = (s1', io)"
  shows "\<exists>s2' LA. evaluator_receive P src io s2 = Inr (s2', LA) \<and>
      LA = map (\<lambda>i. opened lg1 lg2 (ins_of w1) (ins_of w2) vs es (and_outs (length vs) es ! i)) [0..<num_and_evs es] \<and>
      evaluated D1 vs es outs w1 w2 lg1 lg2 (rs_sigma s1) s1' s2' \<and>
      rs_party s2' = 2 \<and> rs_num_ands s2' = num_and_evs es"
    and "rs_mask_input s1' = rs_mask_input s1 \<and> rs_phys s1' = rs_phys s1 \<and>
         rs_sigma s1' = rs_sigma s1 \<and> rs_party s1' = 1 \<and> rs_num_ands s1' = num_and_evs es \<and>
         rs_num_inputs s1' = length vs \<and> rs_M1_t s1' = rs_M1_t s1 \<and> rs_Lambda_AND s1' = rs_Lambda_AND s1"
    and "length (rs_wire_slot s1') = rs_num_slots s1"
proof -
  note R = rp [unfolded ready_pair_def]
  let ?n = "length vs" and ?k = "num_and_evs es" and ?op = "opened lg1 lg2 (ins_of w1) (ins_of w2) vs es"
  have r: "slots_ready es outs w1 lg1 s1" "slots_ready es outs w2 lg2 s2"
    and p: "rs_party s1 = 1" "rs_party s2 = 2"
    and Ds: "rs_Delta s1 = D1" "rs_Delta s2 = D2"
    and n: "rs_num_inputs s1 = ?n" "rs_num_inputs s2 = ?n" and mitc: "rs_mitc s1 = rs_mitc s2"
    and len: "?k \<le> length (rs_M1_t s2)" "?k \<le> length (rs_Lambda_AND s2)"
    and D: "deltas_ok D1 D2" and wf: "wf_stream ?n es"
    and masks: "masks_ok D1 D2 ?n es (ins_of w1) (ins_of w2) lg1 lg2 (rs_sigma s1) (rs_sigma s2)"
    using R by simp_all
  note g = garbler_stream [OF r(1) p(1) n(1) wf src send, unfolded Ds]
  let ?G = "joint_garble P D1 (rs_mitc s1) (rs_sigma s1) ?n (\<lambda>w. (wslot s1 w, lbl s1 w)) es"
  let ?E = "joint_eval P D2 (rs_mitc s1) (rs_sigma s2) ?n (\<lambda>w. (wslot s2 w, evl s2 w, minp s2 w))
      (rows_of ?G @ []) (rs_M1_t s2) (rs_Lambda_AND s2) es"
  note inp = ready_pair_inputs [OF rp]
  have J: "joint_ok P D1 D2 (rs_mitc s1) (rs_sigma s1) (rs_sigma s2) (ins_of w1) (ins_of w2) lg1 lg2 vs []
      (rs_M1_t s2) (rs_Lambda_AND s2) ?G ?E es"
    by (rule joint_run_ok [OF wf masks D])
      (use inp ready_preset [OF r(1)] ready_preset [OF r(2)] len n in simp_all)
  obtain m' M1' LA' where enc: "\<And>x. x < ?n + length es \<Longrightarrow> encodes D1 (?op x) (snd (fst ?G x)) (snd (fst ?E x))"
    and A: "fst (snd ?E) = (D2, m', rs_sigma s2, ?k, [], M1', LA')"
      "length M1' = length (rs_M1_t s2)" "length LA' = length (rs_Lambda_AND s2)"
    and B: "\<And>i. i < ?k \<Longrightarrow> LA' ! i = bbyte (?op (and_outs ?n es ! i)) \<and>
        M1' ! i = check_value lg1 lg2 (ins_of w1) (ins_of w2) vs es (rs_sigma s1) i"
    by (rule joint_okD [OF J]) blast
  have shG: "fst (fst ?G x) = share_regs lg1 ?n (ins_of w1) es x"
    and shE: "fst (fst ?E x) = share_regs lg2 ?n (ins_of w2) es x" if "x < ?n + length es" for x
    unfolding joint_garble_def joint_eval_def
    by (rule garble_regs_share [OF _ _ wf that], use inp ready_preset [OF r(1)] n in simp_all)
       (rule eval_regs_share [OF _ _ wf that], use inp ready_preset [OF r(2)] n in simp_all)
  obtain s2' where rcv: "evaluator_receive P src io s2 = Inr (s2', map nz (take ?k LA'))"
    and e: "\<And>x. x < ?n + length es \<Longrightarrow> persists ?n es outs x \<Longrightarrow>
        wslot s2' x = fst (fst ?E x) \<and> (evl s2' x, minp s2' x) = snd (fst ?E x)"
    and s2': "rs_M1_t s2' = M1'" "rs_party s2' = 2" "rs_num_ands s2' = ?k"
    by (rule evaluator_stream [OF r(2) p(2) n(2) wf src, of P io, unfolded Ds g(2) mitc [symmetric],
          OF A(1) [unfolded append_Nil2]]) simp
  have "evaluated D1 vs es outs w1 w2 lg1 lg2 (rs_sigma s1) s1' s2'"
    unfolding evaluated_def s2'(1)
  proof (intro conjI allI impI)
    fix x assume x: "x < ?n + length es" "persists ?n es outs x"
    have "wslot s1' x = fst (fst ?G x)" "lbl s1' x = snd (fst ?G x)" using g(1) [OF x] by (metis fst_conv, metis snd_conv)
    then show "wslot s1' x = share_regs lg1 ?n (ins_of w1) es x" "wslot s2' x = share_regs lg2 ?n (ins_of w2) es x"
      "encodes D1 (?op x) (lbl s1' x) (evl s2' x, minp s2' x)"
      using e [OF x] shG [OF x(1)] shE [OF x(1)] enc [OF x(1)] by simp_all
  qed (use B A(2) len in auto)
  moreover have "map nz (take ?k LA') = map (\<lambda>i. ?op (and_outs ?n es ! i)) [0..<?k]"
    by (rule nth_equalityI) (use A(3) B len in simp_all)
  ultimately show "\<exists>s2' LA. evaluator_receive P src io s2 = Inr (s2', LA) \<and>
      LA = map (\<lambda>i. ?op (and_outs ?n es ! i)) [0..<?k] \<and>
      evaluated D1 vs es outs w1 w2 lg1 lg2 (rs_sigma s1) s1' s2' \<and> rs_party s2' = 2 \<and> rs_num_ands s2' = ?k"
    using rcv s2' by blast
  show "rs_mask_input s1' = rs_mask_input s1 \<and> rs_phys s1' = rs_phys s1 \<and>
         rs_sigma s1' = rs_sigma s1 \<and> rs_party s1' = 1 \<and> rs_num_ands s1' = ?k \<and>
         rs_num_inputs s1' = ?n \<and> rs_M1_t s1' = rs_M1_t s1 \<and> rs_Lambda_AND s1' = rs_Lambda_AND s1"
    "length (rs_wire_slot s1') = rs_num_slots s1"
    by (rule g(3), rule g(4))
qed

section \<open>The recomputation\<close>

lemma slot_of_Lambda_upd [simp]:
  "slot_of (s\<lparr>rs_Lambda_AND := b\<rparr>) = slot_of s" "wslot (s\<lparr>rs_Lambda_AND := b\<rparr>) x = wslot s x"
  "minp (s\<lparr>rs_Lambda_AND := b\<rparr>) x = minp s x" "lbl (s\<lparr>rs_Lambda_AND := b\<rparr>) x = lbl s x"
  by (simp_all add: slot_of_def fun_eq_iff wslot_def minp_def lbl_def)

lemma take_nth_map: "n \<le> length xs \<Longrightarrow> (\<And>i. i < n \<Longrightarrow> xs ! i = f i) \<Longrightarrow> take n xs = map f [0..<n]"
  by (rule nth_equalityI) simp_all

text \<open>The garbler's check pass on any announced AND masks \<open>la\<close>.\<close>

text \<open>
  What the check pass finds in the slots of the wires that persist: the shares of the run, and for
  inputs the opened masks.
\<close>

lemma check_slots:
  fixes s s1 :: "'m run_state"
  assumes r1: "slots_ready es outs w1 lg1 s1" and n: "rs_num_inputs s1 = length vs" and rel: "wires_rel D1 D2 w1 w2 vs"
    and fr: "rs_mask_input s = rs_mask_input s1" "slot_of s = slot_of s1"
    and sh: "\<forall>x < length vs + length es. persists (length vs) es outs x \<longrightarrow>
      wslot s x = share_regs lg1 (length vs) (ins_of w1) es x"
  shows "x < length vs \<Longrightarrow> wslot s x = ins_of w1 x \<and> minp s x = bbyte (vs ! x \<noteq> share_bit (ins_of w1 x) (ins_of w2 x))"
    and "preset (length vs) es lg1 (wslot s)"
proof -
  show "wslot s x = ins_of w1 x \<and> minp s x = bbyte (vs ! x \<noteq> share_bit (ins_of w1 x) (ins_of w2 x))" if x: "x < length vs"
  proof -
    have "persists (length vs) es outs x" using x by (simp add: persists_def)
    then have "wslot s x = ins_of w1 x" using sh x by (simp add: share_regs_input)
    moreover have "minp s x = sw_Lambda w1 ! x"
      using ready_inputs(2) [OF r1, of x] x n by (simp add: minp_def fr)
    moreover have "sw_Lambda w1 ! x = bbyte (vs ! x \<noteq> share_bit (ins_of w1 x) (ins_of w2 x))"
      using rel x unfolding wires_rel_def eval_rel_def by simp
    ultimately show ?thesis by simp
  qed
  show "preset (length vs) es lg1 (wslot s)"
    unfolding preset_def
  proof (intro allI impI)
    fix k assume k: "k < length es" "ev_is_and (es ! k)"
    then have "persists (length vs) es outs (length vs + k)" by (simp add: persists_def)
    with k show "wslot s (length vs + k) = lg1 (num_and_evs (take k es))" using sh by (simp add: share_regs_and)
  qed
qed

lemma garbler_check_told:
  fixes P :: "('m, 'd) prims" and s1 s1' :: "'m run_state"
  assumes rp: "ready_pair D1 D2 vs es outs w1 w2 lg1 lg2 s1 s2"
    and src: "stream_of (length vs) src = (outs, es)"
    and fr: "rs_mask_input s1' = rs_mask_input s1" "rs_phys s1' = rs_phys s1" "rs_sigma s1' = rs_sigma s1"
      "rs_party s1' = 1" "rs_num_ands s1' = num_and_evs es" "rs_num_inputs s1' = length vs"
      "rs_M1_t s1' = rs_M1_t s1" "rs_Lambda_AND s1' = rs_Lambda_AND s1"
      "length (rs_wire_slot s1') = rs_num_slots s1"
    and sh: "\<forall>x < length vs + length es. persists (length vs) es outs x \<longrightarrow>
      wslot s1' x = share_regs lg1 (length vs) (ins_of w1) es x"
    and run: "garbler_check P src (map la [0..<num_and_evs es]) s1' = (s1'', dg)" and pos: "0 < num_and_evs es"
  defines "t \<equiv> told la (length vs) (\<lambda>x. vs ! x \<noteq> share_bit (ins_of w1 x) (ins_of w2 x)) es"
  shows "take (num_and_evs es) (rs_M1_t s1'') =
      map (told_check lg1 (length vs) (ins_of w1) (rs_sigma s1) t es) [0..<num_and_evs es]"
    and "dg = Some (pr_digest P (take (num_and_evs es) (rs_M1_t s1'')))"
    and "\<And>x. x < length vs + length es \<Longrightarrow> persists (length vs) es outs x \<Longrightarrow>
      wslot s1'' x = share_regs lg1 (length vs) (ins_of w1) es x \<and>
      minp s1'' x = bbyte (t x) \<and> lbl s1'' x = lbl s1' x"
    and "rs_party s1'' = 1" "rs_num_ands s1'' = num_and_evs es"
proof -
  note R = rp [unfolded ready_pair_def]
  have r1: "slots_ready es outs w1 lg1 s1" and p1: "rs_party s1 = 1" and n: "rs_num_inputs s1 = length vs"
    and len: "num_and_evs es \<le> length (rs_M1_t s1)" "num_and_evs es \<le> length (rs_Lambda_AND s1)"
    and rel: "wires_rel D1 D2 w1 w2 vs" and wf: "wf_stream (length vs) es"
    using R by simp_all
  have sl: "slot_of s1' = slot_of s1" by (simp add: slot_of_def fun_eq_iff fr)
  let ?n = "length vs" and ?k = "num_and_evs es" and ?b = "map la [0..<num_and_evs es]"
  let ?LA = "map bbyte ?b @ drop (length ?b) (rs_Lambda_AND s1')"
  let ?s = "s1'\<lparr>rs_Lambda_AND := ?LA\<rparr>"
  let ?x = "\<lambda>x. vs ! x \<noteq> share_bit (ins_of w1 x) (ins_of w2 x)"
  have nw: "rs_num_wires s1 = ?n + length es" using r1 n by (simp add: slots_ready_def live_state_ok_def Let_def)
  obtain o' pp where pp: "drive gamma_ops src (init_gamma ?s) = (o', pp)" by (metis surj_pair)
  have res: "s1'' = gc_s pp" "dg = Some (pr_digest P (take (rs_num_ands (gc_s pp)) (rs_M1_t (gc_s pp))))"
    using run pp pos fr(5) by (auto simp: garbler_check_def run_pass_def Let_def)
  have pre0: "slot_safe ?n es (persists ?n es outs) (slot_of ?s)" "?n = rs_num_inputs ?s"
    "\<And>x. x < ?n + length es \<Longrightarrow> slot_of ?s x < rs_num_slots s1"
    "length (rs_wire_slot ?s) = rs_num_slots s1" "length (rs_mask_input ?s) = rs_num_slots s1"
    using r1 n nw fr by (simp_all add: slots_ready_def Let_def sl)
  note gam = gamma_run_ok [OF pre0(1) wf pre0(2-5) src pp, folded res(1)]
  let ?h = "\<lambda>w. (wslot ?s w, minp ?s w)"
  have eqs: "rs_mask_input ?s = rs_mask_input s1" "slot_of ?s = slot_of s1" "\<And>x. wslot ?s x = wslot s1' x"
    by (simp_all add: fr sl)
  have inp: "fst (?h w) = ins_of w1 w \<and> snd (?h w) = bbyte (?x w)" if "w < ?n" for w
    using check_slots(1) [OF r1 n rel eqs(1,2) _ that] sh by (simp add: eqs(3))
  have pre: "preset ?n es lg1 (\<lambda>w. fst (?h w))"
    using check_slots(2) [OF r1 n rel eqs(1,2), unfolded eqs(3), OF sh] by (simp add: eqs(3) preset_def)
  have LAi: "\<forall>i < ?k. ?LA ! i = bbyte (la i)" by (simp add: nth_append)
  have g: "gamma_regs ?s es = reg_run gamma_cell gamma_aux es (?h, (rs_sigma s1, ?LA, 0, rs_M1_t s1), ?n)"
    by (simp add: gamma_regs_def fr)
  have i1: "\<forall>w < ?n. fst (?h w) = ins_of w1 w" and i2: "\<forall>w < ?n. snd (?h w) = bbyte (?x w)" using inp by simp_all
  note rc = gamma_told_run [where h = ?h, OF wf i1 pre i2 LAi len(1), of "rs_sigma s1", folded g,
      THEN conjunct1] gamma_told_run [where h = ?h, OF wf i1 pre i2 LAi len(1), of "rs_sigma s1", folded g, THEN conjunct2]
  obtain M where M: "rs_M1_t s1'' = M" "\<forall>i < ?k. M ! i = told_check lg1 ?n (ins_of w1) (rs_sigma s1) t es i"
    using rc(1) gam(2) unfolding gamma_told_def t_def by auto
  have lM: "?k \<le> length M" using rc(2) len(1) by (simp add: M(1) [symmetric] gam(2))
  show "rs_party s1'' = 1" "rs_num_ands s1'' = num_and_evs es" using gam(3) fr by simp_all
  then show "dg = Some (pr_digest P (take ?k (rs_M1_t s1'')))" using res by simp
  show "take ?k (rs_M1_t s1'') = map (told_check lg1 ?n (ins_of w1) (rs_sigma s1) t es) [0..<?k]"
    unfolding M(1) by (rule take_nth_map [OF lM]) (use M(2) in blast)
  fix x assume x: "x < ?n + length es" "persists ?n es outs x"
  have "(wslot s1'' x, minp s1'' x) = fst (gamma_regs ?s es) x" using gam(1) x by blast
  then have "wslot s1'' x = fst (fst (gamma_regs ?s es) x)" "minp s1'' x = snd (fst (gamma_regs ?s es) x)"
    by (metis fst_conv, metis snd_conv)
  moreover have "fst (fst (gamma_regs ?s es) x) = share_regs lg1 ?n (ins_of w1) es x"
    unfolding g by (rule gamma_regs_share [OF _ pre wf x(1)]) (use inp in blast)
  moreover have "snd (fst (gamma_regs ?s es) x) = bbyte (t x)" using rc(1) x(1) unfolding gamma_told_def t_def by blast
  moreover have "slot_of s1'' = slot_of s1'" using gam(3) by (simp add: slot_of_def fun_eq_iff)
  then have "lbl s1'' x = lbl s1' x" using gam(3) by (simp add: lbl_def)
  ultimately show "wslot s1'' x = share_regs lg1 ?n (ins_of w1) es x \<and>
      minp s1'' x = bbyte (t x) \<and> lbl s1'' x = lbl s1' x" by simp
qed

text \<open>On the masks an honest evaluator opens.\<close>

lemma garbler_check_ok:
  fixes P :: "('m, 'd) prims" and s1 s1' :: "'m run_state"
  assumes rp: "ready_pair D1 D2 vs es outs w1 w2 lg1 lg2 s1 s2"
    and src: "stream_of (length vs) src = (outs, es)"
    and fr: "rs_mask_input s1' = rs_mask_input s1" "rs_phys s1' = rs_phys s1" "rs_sigma s1' = rs_sigma s1"
      "rs_party s1' = 1" "rs_num_ands s1' = num_and_evs es" "rs_num_inputs s1' = length vs"
      "rs_M1_t s1' = rs_M1_t s1" "rs_Lambda_AND s1' = rs_Lambda_AND s1"
      "length (rs_wire_slot s1') = rs_num_slots s1"
    and sh: "\<And>x. x < length vs + length es \<Longrightarrow> persists (length vs) es outs x \<Longrightarrow>
      wslot s1' x = share_regs lg1 (length vs) (ins_of w1) es x"
    and LA: "LA = map (\<lambda>i. opened lg1 lg2 (ins_of w1) (ins_of w2) vs es (and_outs (length vs) es ! i)) [0..<num_and_evs es]"
    and run: "garbler_check P src LA s1' = (s1'', dg)" and pos: "0 < num_and_evs es"
  shows "dg = Some (pr_digest P (map (check_value lg1 lg2 (ins_of w1) (ins_of w2) vs es (rs_sigma s1)) [0..<num_and_evs es]))"
    and "\<And>x. x < length vs + length es \<Longrightarrow> persists (length vs) es outs x \<Longrightarrow>
      wslot s1'' x = share_regs lg1 (length vs) (ins_of w1) es x \<and>
      minp s1'' x = bbyte (opened lg1 lg2 (ins_of w1) (ins_of w2) vs es x) \<and> lbl s1'' x = lbl s1' x"
    and "rs_party s1'' = 1" "rs_num_ands s1'' = num_and_evs es"
proof -
  let ?op = "opened lg1 lg2 (ins_of w1) (ins_of w2) vs es"
  have wf: "wf_stream (length vs) es" using rp unfolding ready_pair_def by blast
  have sh': "\<forall>x < length vs + length es. persists (length vs) es outs x \<longrightarrow>
      wslot s1' x = share_regs lg1 (length vs) (ins_of w1) es x" using sh by blast
  note T = garbler_check_told [OF rp src fr sh' run [unfolded LA] pos]
  have tld: "told (\<lambda>i. ?op (and_outs (length vs) es ! i)) (length vs)
      (\<lambda>x. vs ! x \<noteq> share_bit (ins_of w1 x) (ins_of w2 x)) es x = ?op x" if "x < length vs + length es" for x
    by (rule told_opened [OF wf _ _ that]) simp_all
  have eq: "map (told_check lg1 (length vs) (ins_of w1) (rs_sigma s1) (told (\<lambda>i. ?op (and_outs (length vs) es ! i))
      (length vs) (\<lambda>x. vs ! x \<noteq> share_bit (ins_of w1 x) (ins_of w2 x)) es) es) [0..<num_and_evs es] =
    map (check_value lg1 lg2 (ins_of w1) (ins_of w2) vs es (rs_sigma s1)) [0..<num_and_evs es]"
    by (rule map_cong [OF refl], rule check_values_told [OF wf]) (simp, rule tld)
  show "dg = Some (pr_digest P (map (check_value lg1 lg2 (ins_of w1) (ins_of w2) vs es (rs_sigma s1)) [0..<num_and_evs es]))"
    using T(2) unfolding T(1) eq .
  show "rs_party s1'' = 1" "rs_num_ands s1'' = num_and_evs es" by (rule T(4), rule T(5))
  fix x assume x: "x < length vs + length es" "persists (length vs) es outs x"
  show "wslot s1'' x = share_regs lg1 (length vs) (ins_of w1) es x \<and>
      minp s1'' x = bbyte (?op x) \<and> lbl s1'' x = lbl s1' x"
    using T(3) [OF x] tld [OF x(1)] by simp
qed

section \<open>The whole run\<close>

text \<open>Both set-ups and the AND-share generation.\<close>

lemma pair_setup:
  fixes P :: "('m, 'd) prims" and m0 :: 'm
  assumes pq: "protocols_ok p q" and rel: "wires_rel (pc_Delta p) (pc_Delta q) w1 w2 vs"
    and src: "stream_of (length vs) src = (outs, es)" and wf: "wf_stream (length vs) es"
    and ob: "\<forall>x \<in> set outs. x < length vs + length es"
    and s1: "run_setup m0 p w1 src = (outs1, st1, p1)" and s2: "run_setup m0 q w2 src = (outs2, st2, q1)"
  shows "outs1 = outs" "outs2 = outs" "rs_num_ands st1 = num_and_evs es"
    and "pc_party p1 = 1" "pc_party q1 = 2" "pc_Delta p1 = pc_Delta p" "pc_Delta q1 = pc_Delta q"
    and "\<exists>sig1 f1 sig2 f2 lg1 lg2. compute_inplace P coin nonce (num_and_evs es)
          (rs_rep_a st1) (rs_rep_b st1) (rs_rep_a st2) (rs_rep_b st2) (pc_fpre p1) (pc_fpre q1) =
        Inr ((sig1, f1), (sig2, f2)) \<and>
      ready_pair (pc_Delta p) (pc_Delta q) vs es outs w1 w2 lg1 lg2
        (set_seed P seed (store_sigma sig1 st1)) (set_seed P seed (store_sigma sig2 st2)) \<and>
      protocols_ok (p1\<lparr>pc_fpre := f1\<rparr>) (q1\<lparr>pc_fpre := f2\<rparr>)"
proof -
  have sz: "sw_size w1 = length vs" "sw_size w2 = length vs"
    using rel by (simp_all add: wires_rel_def eval_rel_def)
  note A = run_setup_ok [OF _ _ s1, unfolded sz, OF src wf] and B = run_setup_ok [OF _ _ s2, unfolded sz, OF src wf]
  note D = protocols_okD [OF pq]
  show "outs1 = outs" "outs2 = outs" "rs_num_ands st1 = num_and_evs es" by (rule A(1) B(1) A(7))+
  show d: "pc_party p1 = 1" "pc_party q1 = 2" "pc_Delta p1 = pc_Delta p" "pc_Delta q1 = pc_Delta q"
    using A(3) B(3) D(1,2) by simp_all
  let ?f = "pc_fpre p" and ?g = "pc_fpre q"
  let ?lg1 = "\<lambda>i. stream_share ?f (tp_pos ?f + i)" and ?lg2 = "\<lambda>i. stream_share ?g (tp_pos ?g + i)"
  let ?R1 = "share_regs ?lg1 (length vs) (ins_of w1) es" and ?R2 = "share_regs ?lg2 (length vs) (ins_of w2) es"
  have fg: "pools_ok (pc_fpre p1) (pc_fpre q1)" "tp_Delta (pc_fpre p1) = pc_Delta p" "tp_Delta (pc_fpre q1) = pc_Delta q"
    using A(3) B(3) D(4-6) pools_ok_step [OF D(4), of "pc_fpre p1" "pc_fpre q1"]
    by (auto simp: pools_ok_def same_session_def)
  have ins: "\<forall>w < length vs. shares_ok (pc_Delta p) (pc_Delta q) (ins_of w1 w) (ins_of w2 w)"
    using rel unfolding wires_rel_def eval_rel_def by blast
  have lg: "\<forall>i < num_and_evs es. shares_ok (pc_Delta p) (pc_Delta q) (?lg1 i) (?lg2 i)"
    using pool_shares_ok [OF D(4)] D(5,6) by simp
  have rep: "rs_rep_a st1 = map (\<lambda>(a, b). ?R1 a) (and_ops es)" "rs_rep_b st1 = map (\<lambda>(a, b). ?R1 b) (and_ops es)"
    "rs_rep_a st2 = map (\<lambda>(a, b). ?R2 a) (and_ops es)" "rs_rep_b st2 = map (\<lambda>(a, b). ?R2 b) (and_ops es)"
    using A(2,6) B(2,6) sz by (simp_all add: slots_ready_def Let_def)
  have "shares_ok (pc_Delta p) (pc_Delta q) (?R1 (fst (and_ops es ! i))) (?R2 (fst (and_ops es ! i))) \<and>
      shares_ok (pc_Delta p) (pc_Delta q) (?R1 (snd (and_ops es ! i))) (?R2 (snd (and_ops es ! i)))"
    if "i < num_and_evs es" for i
    using share_regs_ok [OF ins lg wf] and_ops_nth_bound [OF wf that] by blast
  then have reps_ok: "\<forall>i < num_and_evs es.
      shares_ok (tp_Delta (pc_fpre p1)) (tp_Delta (pc_fpre q1)) (rs_rep_a st1 ! i) (rs_rep_a st2 ! i) \<and>
      shares_ok (tp_Delta (pc_fpre p1)) (tp_Delta (pc_fpre q1)) (rs_rep_b st1 ! i) (rs_rep_b st2 ! i)"
    by (simp add: rep fg case_prod_beta)
  obtain sig1 f1 sig2 f2 where c: "compute_inplace P coin nonce (num_and_evs es)
        (rs_rep_a st1) (rs_rep_b st1) (rs_rep_a st2) (rs_rep_b st2) (pc_fpre p1) (pc_fpre q1) =
      Inr ((sig1, f1), (sig2, f2))"
    and len: "length sig1 = num_and_evs es" "length sig2 = num_and_evs es"
    and sig: "\<forall>i < num_and_evs es. shares_ok (pc_Delta p) (pc_Delta q) (sig1 ! i) (sig2 ! i) \<and>
      share_bit (sig1 ! i) (sig2 ! i) =
        (share_bit (rs_rep_a st1 ! i) (rs_rep_a st2 ! i) \<and> share_bit (rs_rep_b st1 ! i) (rs_rep_b st2 ! i))"
    and ss: "pools_ok f1 f2" "same_session (pc_fpre p1) f1" "same_session (pc_fpre q1) f2"
    using compute_inplace_correct [OF fg(1) _ _ _ _ reps_ok, of P coin nonce] fg(2,3) by (auto simp: rep)
  have mk: "masks_ok (pc_Delta p) (pc_Delta q) (length vs) es (ins_of w1) (ins_of w2) ?lg1 ?lg2
      (sig1 @ r1) (sig2 @ r2)" for r1 r2
    by (rule masks_ok_sigma [OF ins lg _ len]) (use sig in \<open>simp only: rep\<close>)
  have "ready_pair (pc_Delta p) (pc_Delta q) vs es outs w1 w2 ?lg1 ?lg2
      (set_seed P seed (store_sigma sig1 st1)) (set_seed P seed (store_sigma sig2 st2))"
    using A(2,4,5,6,8,9) B(2,4,5,6,8,9) D(1-3) rel wf ob mk sz
    unfolding ready_pair_def by simp
  moreover have "protocols_ok (p1\<lparr>pc_fpre := f1\<rparr>) (q1\<lparr>pc_fpre := f2\<rparr>)"
    using ss fg d unfolding protocols_ok_def by (auto simp: same_session_def)
  ultimately show "\<exists>sig1 f1 sig2 f2 lg1 lg2. compute_inplace P coin nonce (num_and_evs es)
          (rs_rep_a st1) (rs_rep_b st1) (rs_rep_a st2) (rs_rep_b st2) (pc_fpre p1) (pc_fpre q1) =
        Inr ((sig1, f1), (sig2, f2)) \<and>
      ready_pair (pc_Delta p) (pc_Delta q) vs es outs w1 w2 lg1 lg2
        (set_seed P seed (store_sigma sig1 st1)) (set_seed P seed (store_sigma sig2 st2)) \<and>
      protocols_ok (p1\<lparr>pc_fpre := f1\<rparr>) (q1\<lparr>pc_fpre := f2\<rparr>)"
    using c by blast
qed

lemma minp_cong: "rs_phys s = rs_phys t \<Longrightarrow> rs_mask_input s = rs_mask_input t \<Longrightarrow> minp s x = minp t x"
  by (simp add: minp_def slot_of_def)

text \<open>The wires of an output bundle.\<close>

lemma gather_sel:
  "sw_size (gather_outputs outs st) = length outs"
  "i < length outs \<Longrightarrow> sw_bundle (gather_outputs outs st) ! i = wslot st (outs ! i)"
  "i < length outs \<Longrightarrow> sw_Lambda (gather_outputs outs st) ! i = minp st (outs ! i)"
  "i < length outs \<Longrightarrow> rs_party st = 1 \<Longrightarrow> sw_label0 (gather_outputs outs st) ! i = lbl st (outs ! i)"
  "i < length outs \<Longrightarrow> rs_party st \<noteq> 1 \<Longrightarrow> sw_eval_label (gather_outputs outs st) ! i = evl st (outs ! i)"
  "rs_party st = 1 \<Longrightarrow> sw_layout 1 (gather_outputs outs st)"
  "rs_party st = 2 \<Longrightarrow> sw_layout 2 (gather_outputs outs st)"
  by (simp_all add: gather_outputs_def sw_size_def sw_layout_def)

lemma gather_eval_rel:
  assumes party: "rs_party s1 = 1" "rs_party s2 = 2" and len: "length us = length outs"
    and sh: "\<And>x. x \<in> set outs \<Longrightarrow> shares_ok D1 D2 (wslot s1 x) (wslot s2 x)"
    and enc: "\<And>i. i < length outs \<Longrightarrow> encodes D1 (us ! i \<noteq> share_bit (wslot s1 (outs ! i)) (wslot s2 (outs ! i)))
      (lbl s1 (outs ! i)) (evl s2 (outs ! i), minp s2 (outs ! i))"
  shows "eval_rel D1 D2 (gather_outputs outs s1) (gather_outputs outs s2) us"
  unfolding eval_rel_def
proof (intro conjI allI impI)
  fix i assume i: "i < length us"
  then have i': "i < length outs" by (simp add: len)
  show "shares_ok D1 D2 (sw_bundle (gather_outputs outs s1) ! i) (sw_bundle (gather_outputs outs s2) ! i)"
    using sh i' by (simp add: gather_sel)
  show "sw_Lambda (gather_outputs outs s2) ! i = bbyte (us ! i \<noteq>
      share_bit (sw_bundle (gather_outputs outs s1) ! i) (sw_bundle (gather_outputs outs s2) ! i))"
    "sw_eval_label (gather_outputs outs s2) ! i = sw_label0 (gather_outputs outs s1) ! i XOR
      sel (nz (sw_Lambda (gather_outputs outs s2) ! i)) D1"
    using enc [OF i'] i' party by (simp_all add: gather_sel encodes_def)
qed (use gather_sel party len in simp_all)

text \<open>The cleartext values of the outputs.\<close>

definition clear_outputs :: "bool list \<Rightarrow> wire list \<times> ev list \<Rightarrow> bool list" where
  "clear_outputs vs st = map ((!) (clear_run vs (snd st))) (fst st)"

definition engines_ok :: "engine \<Rightarrow> engine \<Rightarrow> bool" where
  "engines_ok e1 e2 \<longleftrightarrow> protocols_ok (en_proto e1) (en_proto e2)"

text \<open>What the garbler holds at the end of an honest run, and that the evaluator accepts.\<close>

definition garbler_done :: "ev list \<Rightarrow> wire list \<Rightarrow> secure_wires \<Rightarrow> (nat \<Rightarrow> ashare) \<Rightarrow> (wire \<Rightarrow> bool) \<Rightarrow>
    'm run_state \<Rightarrow> 'm run_state \<Rightarrow> bool" where
  "garbler_done es outs w1 lg1 opn t1 u1 \<longleftrightarrow> rs_party u1 = 1 \<and> rs_num_ands u1 = num_and_evs es \<and>
     (\<forall>x \<in> set outs. wslot u1 x = share_regs lg1 (sw_size w1) (ins_of w1) es x \<and> lbl u1 x = lbl t1 x \<and>
        minp u1 x = (if 0 < num_and_evs es then bbyte (opn x)
                     else mask_regs (sw_size w1) ((!) (sw_Lambda w1)) es x))"

lemma garbler_side_ok:
  fixes P :: "('m, 'd) prims" and s1 s2 :: "'m run_state"
  assumes rp: "ready_pair D1 D2 vs es outs w1 w2 lg1 lg2 s1 s2"
    and src: "stream_of (length vs) src = (outs, es)" and ob: "\<forall>x \<in> set outs. x < length vs + length es"
    and send: "garbler_send P src s1 = (t1, io)"
    and ev: "evaluated D1 vs es outs w1 w2 lg1 lg2 (rs_sigma s1) t1 t2" and na2: "rs_num_ands t2 = num_and_evs es"
    and LA: "LA = map (\<lambda>i. opened lg1 lg2 (ins_of w1) (ins_of w2) vs es (and_outs (length vs) es ! i)) [0..<num_and_evs es]"
    and chk: "garbler_check P src LA t1 = (u1, dg)"
  shows "evaluator_verdict P dg t2 = Inr ()"
    and "garbler_done es outs w1 lg1 (opened lg1 lg2 (ins_of w1) (ins_of w2) vs es) t1 u1"
proof -
  let ?n = "length vs" and ?k = "num_and_evs es"
  note fr = garble_eval_pair(2) [OF rp src send]
  have n: "sw_size w1 = ?n" using rp by (simp add: ready_pair_def wires_rel_def eval_rel_def)
  have sh1: "\<And>x. x < ?n + length es \<Longrightarrow> persists ?n es outs x \<Longrightarrow> wslot t1 x = share_regs lg1 ?n (ins_of w1) es x"
    using ev unfolding evaluated_def by blast
  have per: "x < ?n + length es \<and> persists ?n es outs x" if "x \<in> set outs" for x
    using that ob by (simp add: persists_def)
  have "evaluator_verdict P dg t2 = Inr () \<and> garbler_done es outs w1 lg1 (opened lg1 lg2 (ins_of w1) (ins_of w2) vs es) t1 u1"
  proof (cases "0 < ?k")
    case True
    have K: "dg = Some (pr_digest P (map (check_value lg1 lg2 (ins_of w1) (ins_of w2) vs es (rs_sigma s1)) [0..<?k]))"
      "rs_party u1 = 1" "rs_num_ands u1 = ?k"
      and K2: "\<And>x. x < ?n + length es \<Longrightarrow> persists ?n es outs x \<Longrightarrow>
        wslot u1 x = share_regs lg1 ?n (ins_of w1) es x \<and>
        minp u1 x = bbyte (opened lg1 lg2 (ins_of w1) (ins_of w2) vs es x) \<and> lbl u1 x = lbl t1 x"
      using garbler_check_ok [OF rp src _ _ _ _ _ _ _ _ garble_eval_pair(3) [OF rp src send] sh1 LA chk True] fr by blast+
    have "take ?k (rs_M1_t t2) = map (check_value lg1 lg2 (ins_of w1) (ins_of w2) vs es (rs_sigma s1)) [0..<?k]"
      using ev unfolding evaluated_def by (intro take_nth_map) simp_all
    then have "evaluator_verdict P dg t2 = Inr ()" using K(1) na2 by (simp add: evaluator_verdict_def)
    then show ?thesis using K(2,3) K2 per True by (simp add: garbler_done_def n)
  next
    case False
    then have u: "u1 = t1" "evaluator_verdict P dg t2 = Inr ()"
      using chk fr na2 by (simp_all add: garbler_check_def evaluator_verdict_def)
    have "minp t1 x = mask_regs ?n ((!) (sw_Lambda w1)) es x" if "x \<in> set outs" for x
    proof -
      have "minp t1 x = minp s1 x" by (rule minp_cong) (use fr in blast)+
      moreover have "slots_ready es outs w1 lg1 s1" "rs_num_inputs s1 = ?n" using rp unfolding ready_pair_def by blast+
      ultimately show ?thesis using ready_wires(2) [of es outs w1 lg1 s1 x] per [OF that] by simp
    qed
    then show ?thesis using u sh1 per fr False by (simp add: garbler_done_def n)
  qed
  then show "evaluator_verdict P dg t2 = Inr ()"
    "garbler_done es outs w1 lg1 (opened lg1 lg2 (ins_of w1) (ins_of w2) vs es) t1 u1" by blast+
qed

lemma gathered_outputs_ok:
  assumes rp: "ready_pair D1 D2 vs es outs w1 w2 lg1 lg2 s1 s2" and ob: "\<forall>x \<in> set outs. x < length vs + length es"
    and ev: "evaluated D1 vs es outs w1 w2 lg1 lg2 sig t1 t2" and t2: "rs_party t2 = 2"
    and U: "garbler_done es outs w1 lg1 (opened lg1 lg2 (ins_of w1) (ins_of w2) vs es) t1 u1"
  defines "o1 \<equiv> gather_outputs outs u1" and "o2 \<equiv> gather_outputs outs t2"
  shows "eval_rel D1 D2 o1 o2 (clear_outputs vs (outs, es))"
    and "0 < num_and_evs es \<Longrightarrow> sw_Lambda o1 = sw_Lambda o2"
    and "num_and_evs es = 0 \<Longrightarrow> sw_Lambda o1 = map (mask_regs (length vs) ((!) (sw_Lambda w1)) es) outs"
    and "sw_bundle o1 = map (share_regs lg1 (length vs) (ins_of w1) es) outs"
    and "sw_bundle o2 = map (share_regs lg2 (length vs) (ins_of w2) es) outs"
proof -
  let ?n = "length vs" and ?us = "clear_outputs vs (outs, es)"
  have n: "sw_size w1 = ?n" and wf: "wf_stream ?n es"
    and mask: "masks_ok D1 D2 ?n es (ins_of w1) (ins_of w2) lg1 lg2 (rs_sigma s1) (rs_sigma s2)"
    using rp by (simp_all add: ready_pair_def wires_rel_def eval_rel_def)
  note U = U [unfolded garbler_done_def n]
  have E: "wslot t2 x = share_regs lg2 ?n (ins_of w2) es x"
    "encodes D1 (opened lg1 lg2 (ins_of w1) (ins_of w2) vs es x) (lbl t1 x) (evl t2 x, minp t2 x)"
    and x: "x < ?n + length es" if "x \<in> set outs" for x
    using that ob ev unfolding evaluated_def persists_def by blast+
  show "sw_bundle o1 = map (share_regs lg1 ?n (ins_of w1) es) outs"
    "sw_bundle o2 = map (share_regs lg2 ?n (ins_of w2) es) outs"
    "num_and_evs es = 0 \<Longrightarrow> sw_Lambda o1 = map (mask_regs ?n ((!) (sw_Lambda w1)) es) outs"
    using U E(1) by (simp_all add: o1_def o2_def gather_outputs_def)
  show "sw_Lambda o1 = sw_Lambda o2" if "0 < num_and_evs es"
    using U E(2) that by (simp add: o1_def o2_def gather_outputs_def encodes_def)
  show "eval_rel D1 D2 o1 o2 ?us"
    unfolding o1_def o2_def
  proof (rule gather_eval_rel)
    show "rs_party u1 = 1" "rs_party t2 = 2" using U t2 by simp_all
    show "length ?us = length outs" by (simp add: clear_outputs_def)
    show "shares_ok D1 D2 (wslot u1 x) (wslot t2 x)" if "x \<in> set outs" for x
      using U E(1) [OF that] x [OF that] that share_regs_ok [OF masks_okD [OF mask] wf] by simp
    show "encodes D1 (?us ! i \<noteq> share_bit (wslot u1 (outs ! i)) (wslot t2 (outs ! i))) (lbl u1 (outs ! i))
        (evl t2 (outs ! i), minp t2 (outs ! i))" if i: "i < length outs" for i
    proof -
      have "outs ! i \<in> set outs" using i by simp
      then show ?thesis
        using E [of "outs ! i"] U i by (simp add: clear_outputs_def opened_def wire_mask_def)
    qed
  qed
qed

text \<open>
  An honest run returns; its outputs are authenticated and encode the cleartext values for the
  evaluator. The garbler's masks agree if the circuit has an AND gate; in an AND-free circuit they
  are what the slot pass left.
\<close>

theorem run_source_ok:
  fixes P :: "('m, 'd) prims" and m0 :: 'm
  assumes pq: "engines_ok en1 en2"
    and rel: "wires_rel (pc_Delta (en_proto en1)) (pc_Delta (en_proto en2)) w1 w2 vs"
    and src: "stream_of (length vs) src = (outs, es)" and wf: "wf_stream (length vs) es"
    and ob: "\<forall>x \<in> set outs. x < length vs + length es"
  shows "\<exists>o1 en1' o2 en2'. run_source P rc m0 src (w1, en1) (w2, en2) = Inr ((o1, en1'), (o2, en2')) \<and>
    eval_rel (pc_Delta (en_proto en1)) (pc_Delta (en_proto en2)) o1 o2 (clear_outputs vs (outs, es)) \<and>
    (0 < num_and_evs es \<longrightarrow>
       wires_rel (pc_Delta (en_proto en1)) (pc_Delta (en_proto en2)) o1 o2 (clear_outputs vs (outs, es))) \<and>
    (num_and_evs es = 0 \<longrightarrow> sw_Lambda o1 = map (mask_regs (length vs) ((!) (sw_Lambda w1)) es) outs) \<and>
    (\<exists>lg1 lg2. sw_bundle o1 = map (share_regs lg1 (length vs) (ins_of w1) es) outs \<and>
       sw_bundle o2 = map (share_regs lg2 (length vs) (ins_of w2) es) outs) \<and>
    engines_ok en1' en2' \<and>
    pc_Delta (en_proto en1') = pc_Delta (en_proto en1) \<and> pc_Delta (en_proto en2') = pc_Delta (en_proto en2) \<and>
    en_total_ands en1' = en_total_ands en1 + num_and_evs es \<and>
    en_total_ands en2' = en_total_ands en2 + num_and_evs es"
proof -
  let ?p = "en_proto en1" and ?q = "en_proto en2"
  let ?D1 = "pc_Delta (en_proto en1)" and ?D2 = "pc_Delta (en_proto en2)" and ?n = "length vs"
  have pr: "protocols_ok ?p ?q" using pq by (simp add: engines_ok_def)
  obtain outs1 st1 p1 where s1: "run_setup m0 ?p w1 src = (outs1, st1, p1)" by (metis prod_cases3)
  obtain outs2 st2 q1 where s2: "run_setup m0 ?q w2 src = (outs2, st2, q1)" by (metis prod_cases3)
  note S = pair_setup [OF pr rel src wf ob s1 s2]
  obtain sig1 f1 sig2 f2 lg1 lg2 where c: "compute_inplace P (rc_coin rc) (rc_nonce rc) (num_and_evs es)
          (rs_rep_a st1) (rs_rep_b st1) (rs_rep_a st2) (rs_rep_b st2) (pc_fpre p1) (pc_fpre q1) =
        Inr ((sig1, f1), (sig2, f2))"
    and rp: "ready_pair ?D1 ?D2 vs es outs w1 w2 lg1 lg2
        (set_seed P (rc_seed rc) (store_sigma sig1 st1)) (set_seed P (rc_seed rc) (store_sigma sig2 st2))"
    and pr': "protocols_ok (p1\<lparr>pc_fpre := f1\<rparr>) (q1\<lparr>pc_fpre := f2\<rparr>)"
    using S(8) [of P "rc_coin rc" "rc_nonce rc" "rc_seed rc"] by blast
  let ?s1 = "set_seed P (rc_seed rc) (store_sigma sig1 st1)" and ?s2 = "set_seed P (rc_seed rc) (store_sigma sig2 st2)"
  obtain t1 io where snd1: "garbler_send P src ?s1 = (t1, io)" by (metis surj_pair)
  note GE = garble_eval_pair [OF rp src snd1]
  then obtain t2 LA where rcv: "evaluator_receive P src io ?s2 = Inr (t2, LA)"
    and LA: "LA = map (\<lambda>i. opened lg1 lg2 (ins_of w1) (ins_of w2) vs es (and_outs ?n es ! i)) [0..<num_and_evs es]"
    and ev: "evaluated ?D1 vs es outs w1 w2 lg1 lg2 (rs_sigma ?s1) t1 t2"
    and t2: "rs_party t2 = 2" "rs_num_ands t2 = num_and_evs es" by blast
  obtain u1 dg where chk: "garbler_check P src LA t1 = (u1, dg)" by (metis surj_pair)
  note G = garbler_side_ok [OF rp src ob snd1 ev t2(2) LA chk]
  note O = gathered_outputs_ok [OF rp ob ev t2(1) G(2)]
  have U: "rs_party u1 = 1" "rs_num_ands u1 = num_and_evs es" using G(2) by (simp_all add: garbler_done_def)
  let ?e1 = "finish_run (rs_num_ands u1) (p1\<lparr>pc_fpre := f1\<rparr>) en1" and ?e2 = "finish_run (rs_num_ands t2) (q1\<lparr>pc_fpre := f2\<rparr>) en2"
  have run: "run_source P rc m0 src (w1, en1) (w2, en2) =
      Inr ((gather_outputs outs u1, ?e1), (gather_outputs outs t2, ?e2))"
    using s1 s2 c snd1 rcv chk G(1) S(1-3) by (simp add: run_source_def Let_def)
  have "engines_ok ?e1 ?e2"
    using protocol_cot_check_ok [OF pr'] by (simp add: engines_ok_def finish_run_def)
  moreover have "pc_Delta (en_proto ?e1) = ?D1" "pc_Delta (en_proto ?e2) = ?D2"
    "en_total_ands ?e1 = en_total_ands en1 + num_and_evs es" "en_total_ands ?e2 = en_total_ands en2 + num_and_evs es"
    using S(6,7) U t2 by (simp_all add: finish_run_def protocol_cot_check_def)
  moreover have "0 < num_and_evs es \<longrightarrow>
      wires_rel ?D1 ?D2 (gather_outputs outs u1) (gather_outputs outs t2) (clear_outputs vs (outs, es))"
    using O(1,2) by (simp add: wires_rel_def)
  ultimately show ?thesis
    using run O(1,3-5) by (intro exI [of _ "gather_outputs outs u1"] exI [of _ ?e1]
        exI [of _ "gather_outputs outs t2"] exI [of _ ?e2]) blast
qed

end
