(* ===== verification/Program_Run.thy ===== *)
theory Program_Run
  imports Engine Recorder
begin

text \<open>
  Stored programs on the engine. A program that passes the checks of
  \<^verbatim>\<open>AG2PCEngine::run_program\<close> has its own gates as its gate stream, so the engine's
  result is the cleartext execution of the program; a live body and a compiled program with the same
  gates run identically; and what the errors are. The last part shows what happens to a program
  without AND gates: the garbler skips its last pass and keeps wrong opened masks.
\<close>

section \<open>The gate stream of a replayed program\<close>

lemma replay_gates_stream:
  assumes "\<forall>i < length gs. g_out (gs ! i) = n + i \<and> (\<forall>w \<in> set (gate_operands (gs ! i)). w < n + i)"
    and "\<forall>w < n. ws w = w"
    and "count_list (map g_op gs) Op_Const0 \<le> (if c0 < 0 then 1 else 0)"
    and "count_list (map g_op gs) Op_Const1 \<le> (if c1 < 0 then 1 else 0)"
    and "\<forall>w \<in> set outs. w < n + length gs"
  shows "gate_stream (replay_gates gs ws outs) n c0 c1 = (outs, map gate_ev gs)"
  using assms
proof (induction gs arbitrary: n ws c0 c1)
  case Nil
  then show ?case by (simp add: map_idI)
next
  case (Cons g gs)
  have out: "g_out g = n" and rd: "\<forall>w \<in> set (gate_operands g). w < n"
    using Cons.prems(1) by (force dest: spec [of _ 0])+
  have ws: "\<forall>w < Suc n. (ws(n := n)) w = w" using Cons.prems(2) by (simp add: less_Suc_eq)
  have gs: "\<forall>i < length gs. g_out (gs ! i) = Suc n + i \<and> (\<forall>w \<in> set (gate_operands (gs ! i)). w < Suc n + i)"
  proof (intro allI impI)
    fix i assume "i < length gs"
    then show "g_out (gs ! i) = Suc n + i \<and> (\<forall>w \<in> set (gate_operands (gs ! i)). w < Suc n + i)"
      using Cons.prems(1) [rule_format, of "Suc i"] by simp
  qed
  have outs: "\<forall>w \<in> set outs. w < Suc n + length gs" using Cons.prems(5) by simp
  have IH: "gate_stream (replay_gates gs (ws(n := n)) outs) (Suc n) d0 d1 = (outs, map gate_ev gs)"
    if "count_list (map g_op gs) Op_Const0 \<le> (if d0 < 0 then 1 else 0)"
      "count_list (map g_op gs) Op_Const1 \<le> (if d1 < 0 then 1 else 0)" for d0 d1
    by (rule Cons.IH [OF gs ws that outs])
  show ?case
  proof (cases "g_op g")
    case Op_And
    then have "gate_ev g = EAnd (g_in0 g) (g_in1 g)" by (simp add: gate_ev_def)
    then show ?thesis
      using IH [of c0 c1] Cons.prems(2-4) rd Op_And
      by (simp add: gate_operands_def is_const_def is_not_def out)
  next
    case Op_Xor
    then have "gate_ev g = EXor (g_in0 g) (g_in1 g)" by (simp add: gate_ev_def)
    then show ?thesis
      using IH [of c0 c1] Cons.prems(2-4) rd Op_Xor
      by (simp add: gate_operands_def is_const_def is_not_def out)
  next
    case Op_Not
    then have "gate_ev g = ENot (g_in0 g)" by (simp add: gate_ev_def)
    then show ?thesis
      using IH [of c0 c1] Cons.prems(2-4) rd Op_Not
      by (simp add: gate_operands_def is_const_def is_not_def out)
  next
    case Op_Const0
    then have "gate_ev g = EConst False" by (simp add: gate_ev_def)
    then show ?thesis
      using IH [of "int n" c1] Cons.prems(3,4) Op_Const0 by (simp add: out split: if_splits)
  next
    case Op_Const1
    then have "gate_ev g = EConst True" by (simp add: gate_ev_def)
    then show ?thesis
      using IH [of c0 "int n"] Cons.prems(3,4) Op_Const1 by (simp add: out split: if_splits)
  qed
qed

definition prog_evs :: "program \<Rightarrow> ev list" where
  "prog_evs p = map gate_ev (p_gates p)"

lemma replay_stream:
  assumes "topological p" and "record_canonical p"
  shows "stream_of (p_num_inputs p) (replay p [0..<p_num_inputs p]) = (p_outputs p, prog_evs p)"
  unfolding replay_def prog_evs_def
  by (rule replay_gates_stream)
     (use assms in \<open>auto simp: topological_def record_canonical_def\<close>)

lemma topological_stream:
  assumes "topological p"
  shows "wf_stream (p_num_inputs p) (prog_evs p)"
    and "\<forall>x \<in> set (p_outputs p). x < p_num_inputs p + length (prog_evs p)"
  using assms by (simp_all add: topological_def wf_stream_def prog_evs_def)

text \<open>
  What the engine relies on of emp-tool, as documented: an accepted program defines its operands
  before it reads them, and executing it on a context issues its gates in program order.
\<close>

definition emp_tool_ok :: "(program \<Rightarrow> bool) \<Rightarrow> (program \<Rightarrow> wire list \<Rightarrow> body) \<Rightarrow> bool" where
  "emp_tool_ok validate exec \<longleftrightarrow> (\<forall>p. validate p \<longrightarrow> topological p \<and>
     (record_canonical p \<longrightarrow> stream_of (p_num_inputs p) (exec p [0..<p_num_inputs p]) =
        stream_of (p_num_inputs p) (replay p [0..<p_num_inputs p])))"

lemma emp_tool_ok_replay: "emp_tool_ok topological replay"
  by (simp add: emp_tool_ok_def)

lemma emp_tool_stream:
  assumes "emp_tool_ok validate exec" and "validate p" and "record_canonical p"
  shows "stream_of (p_num_inputs p) (exec p [0..<p_num_inputs p]) = (p_outputs p, prog_evs p)"
    and "topological p"
  using assms replay_stream by (auto simp: emp_tool_ok_def)

section \<open>The garbler's masks\<close>

text \<open>
  The garbler's copy of the opened masks is right after a circuit with an AND gate; after one
  without, it is right for wires the circuit did not compute and for constants.
\<close>

definition masked_outputs :: "nat \<Rightarrow> ev list \<Rightarrow> wire list \<Rightarrow> bool" where
  "masked_outputs n es outs \<longleftrightarrow>
     0 < num_and_evs es \<or> (\<forall>x \<in> set outs. x < n \<or> \<not> ev_is_gate (es ! (x - n)))"

lemma reg_at_event:
  assumes "k < length es"
  shows "share_regs lg n f es (n + k) = new_share lg (es ! k) (num_and_evs (take k es)) (share_regs lg n f (take k es))"
    and "mask_regs n g es (n + k) = new_mask (es ! k)"
  using assms
proof (induction es rule: rev_induct)
  case (snoc e es)
  { case 1 then show ?case using snoc(1) by (cases "k = length es") (simp_all add: nth_append) }
  { case 2 then show ?case using snoc(2) by (cases "k = length es") (simp_all add: nth_append) }
qed simp_all

lemma mask_regs_input: "x < n \<Longrightarrow> mask_regs n g es x = g x"
  by (induction es rule: rev_induct) simp_all

lemma run_source_masked:
  fixes P :: "('m, 'd) prims" and m0 :: 'm
  assumes pq: "engines_ok en1 en2"
    and rel: "wires_rel (pc_Delta (en_proto en1)) (pc_Delta (en_proto en2)) w1 w2 vs"
    and src: "stream_of (length vs) src = (outs, es)" and wf: "wf_stream (length vs) es"
    and ob: "\<forall>x \<in> set outs. x < length vs + length es" and mk: "masked_outputs (length vs) es outs"
  shows "\<exists>o1 en1' o2 en2'. run_source P rc m0 src (w1, en1) (w2, en2) = Inr ((o1, en1'), (o2, en2')) \<and>
    wires_rel (pc_Delta (en_proto en1)) (pc_Delta (en_proto en2)) o1 o2 (clear_outputs vs (outs, es)) \<and>
    engines_ok en1' en2' \<and>
    pc_Delta (en_proto en1') = pc_Delta (en_proto en1) \<and> pc_Delta (en_proto en2') = pc_Delta (en_proto en2) \<and>
    en_total_ands en1' = en_total_ands en1 + num_and_evs es \<and>
    en_total_ands en2' = en_total_ands en2 + num_and_evs es"
proof -
  let ?D1 = "pc_Delta (en_proto en1)" and ?D2 = "pc_Delta (en_proto en2)" and ?us = "clear_outputs vs (outs, es)"
  obtain o1 en1' o2 en2' lg1 lg2 where run: "run_source P rc m0 src (w1, en1) (w2, en2) = Inr ((o1, en1'), (o2, en2'))"
    and er: "eval_rel ?D1 ?D2 o1 o2 ?us"
    and pos: "0 < num_and_evs es \<longrightarrow> wires_rel ?D1 ?D2 o1 o2 ?us"
    and free: "num_and_evs es = 0 \<longrightarrow> sw_Lambda o1 = map (mask_regs (length vs) ((!) (sw_Lambda w1)) es) outs"
    and sh: "sw_bundle o1 = map (share_regs lg1 (length vs) (ins_of w1) es) outs"
      "sw_bundle o2 = map (share_regs lg2 (length vs) (ins_of w2) es) outs"
    and fr: "engines_ok en1' en2'" "pc_Delta (en_proto en1') = ?D1" "pc_Delta (en_proto en2') = ?D2"
      "en_total_ands en1' = en_total_ands en1 + num_and_evs es" "en_total_ands en2' = en_total_ands en2 + num_and_evs es"
    using run_source_ok [OF pq rel src wf ob, of P rc m0] by (elim exE conjE) (rule that; assumption)
  have "wires_rel ?D1 ?D2 o1 o2 ?us"
  proof (cases "0 < num_and_evs es")
    case False
    have len: "length ?us = length outs" by (simp add: clear_outputs_def)
    have "mask_regs (length vs) ((!) (sw_Lambda w1)) es (outs ! i) = sw_Lambda o2 ! i" if i: "i < length outs" for i
    proof -
      have L2: "sw_Lambda o2 ! i = bbyte (?us ! i \<noteq> share_bit (sw_bundle o1 ! i) (sw_bundle o2 ! i))"
        using er i len unfolding eval_rel_def by simp
      have us: "?us ! i = clear_run vs es ! (outs ! i)" using i by (simp add: clear_outputs_def)
      show ?thesis
      proof (cases "outs ! i < length vs")
        case True
        then have "sw_Lambda w1 ! (outs ! i) =
            bbyte (vs ! (outs ! i) \<noteq> share_bit (sw_bundle w1 ! (outs ! i)) (sw_bundle w2 ! (outs ! i)))"
          using rel unfolding wires_rel_def eval_rel_def by presburger
        then show ?thesis
          using True i by (simp add: L2 us sh share_regs_input mask_regs_input clear_run_input)
      next
        case out: False
        define k where "k = outs ! i - length vs"
        have x: "outs ! i \<in> set outs" using i by simp
        have "outs ! i < length vs + length es" using ob x by blast
        then have k: "outs ! i = length vs + k" "k < length es" using out by (simp_all add: k_def)
        have "\<not> ev_is_gate (es ! k)"
          using mk False x out unfolding masked_outputs_def k_def by blast
        then obtain v where "es ! k = EConst v" by (cases "es ! k") simp_all
        then show ?thesis
          using i clear_run_event [OF wf k(2)]
          by (simp add: L2 us sh k(1) reg_at_event [OF k(2)] new_share_def new_mask_def)
      qed
    qed
    then have "sw_Lambda o1 = sw_Lambda o2"
      using free False er len by (intro nth_equalityI) (simp_all add: eval_rel_def sw_size_def)
    then show ?thesis using er by (simp add: wires_rel_def)
  qed (use pos in blast)
  then show ?thesis using run fr by (intro exI conjI)
qed
section \<open>Honest runs of a program\<close>

definition prog_clear :: "program \<Rightarrow> bool list \<Rightarrow> bool list" where
  "prog_clear p vs = clear_outputs vs (p_outputs p, prog_evs p)"

definition prog_masked :: "program \<Rightarrow> bool" where
  "prog_masked p \<longleftrightarrow> masked_outputs (p_num_inputs p) (prog_evs p) (p_outputs p)"

lemma wires_rel_layout:
  assumes "wires_rel D1 D2 w1 w2 vs"
  shows "sw_layout 1 w1" "sw_layout 2 w2" "sw_size w1 = length vs" "sw_size w2 = length vs"
  using assms by (simp_all add: wires_rel_def eval_rel_def)

text \<open>The checks of both parties, and what is run when they pass.\<close>

lemma run_program_checked:
  assumes pq: "engines_ok en1 en2" and rel: "wires_rel D1 D2 w1 w2 vs"
  shows "run_program P validate exec rc m0 prog (w1, en1) (w2, en2) =
     bind_result (require_record_canonical validate prog) (\<lambda>_.
       if length vs \<noteq> p_num_inputs prog then Inl Program_Input_Width
       else run_source P rc m0 (exec prog [0..<p_num_inputs prog]) (w1, en1) (w2, en2))"
proof -
  have p: "pc_party (en_proto en1) = 1" "pc_party (en_proto en2) = 2"
    using pq by (simp_all add: engines_ok_def protocols_ok_def)
  have c: "check_secure_wires w1 1 = Inr ()" "check_secure_wires w2 2 = Inr ()"
    using wires_rel_layout [OF rel] by (simp_all add: sw_layout_check)
  show ?thesis
    using wires_rel_layout(3,4) [OF rel]
    by (cases "require_record_canonical validate prog") (simp_all add: run_program_def check_program_def p c del: One_nat_def)
qed

lemma run_program_masked:
  fixes P :: "('m, 'd) prims" and m0 :: 'm
  assumes tool: "emp_tool_ok validate exec" and pq: "engines_ok en1 en2"
    and rel: "wires_rel (pc_Delta (en_proto en1)) (pc_Delta (en_proto en2)) w1 w2 vs"
    and ok: "validate prog" "record_canonical prog" "length vs = p_num_inputs prog" and mk: "prog_masked prog"
  shows "\<exists>o1 en1' o2 en2'. run_program P validate exec rc m0 prog (w1, en1) (w2, en2) = Inr ((o1, en1'), (o2, en2')) \<and>
    wires_rel (pc_Delta (en_proto en1)) (pc_Delta (en_proto en2)) o1 o2 (prog_clear prog vs) \<and>
    engines_ok en1' en2' \<and>
    pc_Delta (en_proto en1') = pc_Delta (en_proto en1) \<and> pc_Delta (en_proto en2') = pc_Delta (en_proto en2) \<and>
    en_total_ands en1' = en_total_ands en1 + num_and_evs (prog_evs prog) \<and>
    en_total_ands en2' = en_total_ands en2 + num_and_evs (prog_evs prog)"
proof -
  have "require_record_canonical validate prog = Inr ()"
    using ok by (simp add: require_record_canonical_ok)
  then have r: "run_program P validate exec rc m0 prog (w1, en1) (w2, en2) =
      run_source P rc m0 (exec prog [0..<p_num_inputs prog]) (w1, en1) (w2, en2)"
    using run_program_checked [OF pq rel, of P validate exec rc m0 prog] ok(3) by simp
  note S = emp_tool_stream [OF tool ok(1,2), folded ok(3)]
  have top: "topological prog" by (rule S(2))
  show ?thesis
    unfolding r prog_clear_def ok(3) [symmetric]
    by (rule run_source_masked [OF pq rel S(1)])
      (use topological_stream [OF top] mk ok(3) in \<open>simp_all add: prog_masked_def\<close>)
qed

section \<open>The errors of a run\<close>

lemma canonical_loop_error:
  "canonical_loop n i gs c0 c1 = Inl err \<longleftrightarrow>
     (if \<exists>j < length gs. g_out (gs ! j) \<noteq> n + i + j then err = Not_Canonical
      else err = Duplicate_Constant \<and>
        (1 < c0 + count_list (map g_op gs) Op_Const0 \<or> 1 < c1 + count_list (map g_op gs) Op_Const1))"
proof (induction gs arbitrary: i c0 c1)
  case (Cons g gs)
  have "(\<exists>j < length (g # gs). g_out ((g # gs) ! j) \<noteq> n + i + j) \<longleftrightarrow>
        g_out g \<noteq> n + i \<or> (\<exists>j < length gs. g_out (gs ! j) \<noteq> n + Suc i + j)"
    by (auto simp: less_Suc_eq_0_disj)
  then show ?case using Cons.IH by (cases "g_out g = n + i") auto
qed auto

text \<open>The first check that fails.\<close>

definition program_error :: "(program \<Rightarrow> bool) \<Rightarrow> program \<Rightarrow> nat \<Rightarrow> ag2pc_error option" where
  "program_error validate prog n =
     (if \<not> validate prog then Some Invalid_Program
      else if \<exists>i < length (p_gates prog). g_out (p_gates prog ! i) \<noteq> p_num_inputs prog + i then Some Not_Canonical
      else if 1 < count_list (map g_op (p_gates prog)) Op_Const0 \<or> 1 < count_list (map g_op (p_gates prog)) Op_Const1
        then Some Duplicate_Constant
      else if n \<noteq> p_num_inputs prog then Some Program_Input_Width else None)"

lemma require_record_canonical_error:
  "require_record_canonical validate prog = (case program_error validate prog (p_num_inputs prog) of
     None \<Rightarrow> Inr () | Some err \<Rightarrow> Inl err)"
proof (cases "canonical_loop (p_num_inputs prog) 0 (p_gates prog) 0 0")
  case (Inl err)
  then show ?thesis
    using canonical_loop_error [of "p_num_inputs prog" 0 "p_gates prog" 0 0 err]
    by (auto simp: require_record_canonical_def program_error_def split: if_splits)
next
  case (Inr u)
  then have "canonical_loop (p_num_inputs prog) 0 (p_gates prog) 0 0 = Inr ()" by simp
  then show ?thesis
    unfolding require_record_canonical_def program_error_def
    by (auto simp: canonical_loop_ok not_less)
qed

section \<open>Live bodies and compiled programs\<close>

text \<open>Each pass sees of a source only its gate stream.\<close>

lemma gp_end_num_inputs: "rs_num_inputs (gp_s (gp_end p)) = rs_num_inputs (gp_s p)"
  by (simp add: gp_end_def gp_publish_def gp_run_sender_def Let_def case_prod_beta split: option.split)

lemma pass_cong:
  assumes "stream_of n b = stream_of n b'"
  shows "rs_num_inputs st = n \<Longrightarrow> garbler_send P b st = garbler_send P b' st"
    and "rs_num_inputs st = n \<Longrightarrow> garbler_check P b LA st = garbler_check P b' LA st"
    and "rs_num_inputs st = n \<Longrightarrow> evaluator_receive P b io st = evaluator_receive P b' io st"
    and "sw_size w = n \<Longrightarrow> run_setup m0 pr w b = run_setup m0 pr w b'"
proof -
  show "garbler_send P b st = garbler_send P b' st" if "rs_num_inputs st = n"
    using garble.drive_stream [of P b "gp_begin (init_garble st)"] garble.drive_stream [of P b' "gp_begin (init_garble st)"] that
    by (simp add: garbler_send_def run_pass_def gp_begin_ok assms)
  show "garbler_check P b LA st = garbler_check P b' LA st" if "rs_num_inputs st = n"
    using gamma.drive_stream [of b "init_gamma (st\<lparr>rs_Lambda_AND := map bbyte LA @ drop (length LA) (rs_Lambda_AND st)\<rparr>)"]
      gamma.drive_stream [of b' "init_gamma (st\<lparr>rs_Lambda_AND := map bbyte LA @ drop (length LA) (rs_Lambda_AND st)\<rparr>)"] that
    by (simp add: garbler_check_def run_pass_def init_gamma_def assms Let_def)
  show "evaluator_receive P b io st = evaluator_receive P b' io st" if "rs_num_inputs st = n"
    using eval.drive_stream [of P b "init_eval st io"] eval.drive_stream [of P b' "init_eval st io"] that
    by (simp add: evaluator_receive_def run_pass_def init_eval_ok assms)
  show "run_setup m0 pr w b = run_setup m0 pr w b'" if w: "sw_size w = n"
  proof -
    let ?st = "init_run_state (pc_party pr) (pc_Delta pr) (sw_size w) m0"
    have n: "rs_num_inputs ?st = n" by (simp add: init_run_state_def w)
    have live: "drive live_ops b (init_live ?st) = drive live_ops b' (init_live ?st)"
      using live.drive_stream [of b "init_live ?st"] live.drive_stream [of b' "init_live ?st"]
      by (simp add: init_live_def n assms)
    have slot: "drive slot_mask_ops b (init_slot_mask (load_inputs w (lp_commit os lp ?st)) f) =
        drive slot_mask_ops b' (init_slot_mask (load_inputs w (lp_commit os lp ?st)) f)" for os lp f
      using slot_mask.drive_stream [of b "init_slot_mask (load_inputs w (lp_commit os lp ?st)) f"]
        slot_mask.drive_stream [of b' "init_slot_mask (load_inputs w (lp_commit os lp ?st)) f"]
      by (simp add: init_slot_mask_def load_inputs_def lp_commit_def Let_def n assms)
    show ?thesis by (simp only: run_setup_def run_pass_def Let_def id_apply live slot)
  qed
qed

lemma garbler_send_num_inputs:
  assumes "garbler_send P b st = (st', io)"
  shows "rs_num_inputs st' = rs_num_inputs st"
proof -
  have "rs_num_inputs (gp_s (fold (gp_event P) es (gp_begin (init_garble st)))) = rs_num_inputs st" for es
    by (induction es rule: rev_induct) (simp_all add: gp_event_frame gp_begin_ok)
  then show ?thesis
    using assms garble.drive_stream [of P b "gp_begin (init_garble st)"]
    by (auto simp: garbler_send_def run_pass_def gp_end_num_inputs)
qed

lemma run_source_cong:
  fixes P :: "('m, 'd) prims" and m0 :: 'm
  assumes eq: "stream_of n b = stream_of n b'" and w: "sw_size w1 = n" "sw_size w2 = n"
    and wf: "wf_stream n (snd (stream_of n b))"
  shows "run_source P rc m0 b (w1, en1) (w2, en2) = run_source P rc m0 b' (w1, en1) (w2, en2)"
proof -
  obtain o1 s1 p1 where s1: "run_setup m0 (en_proto en1) w1 b = (o1, s1, p1)" by (metis prod_cases3)
  obtain o2 s2 p2 where s2: "run_setup m0 (en_proto en2) w2 b = (o2, s2, p2)" by (metis prod_cases3)
  obtain outs es where src: "stream_of n b = (outs, es)" by (metis surj_pair)
  have wf': "wf_stream n es" using wf by (simp add: src)
  have n1: "rs_num_inputs s1 = n" by (rule run_setup_ok(6) [OF _ _ s1, unfolded w, OF src wf'])
  have n2: "rs_num_inputs s2 = n" by (rule run_setup_ok(6) [OF _ _ s2, unfolded w, OF src wf'])
  have g: "garbler_send P b (set_seed P sd (store_sigma g s1)) = garbler_send P b' (set_seed P sd (store_sigma g s1))" for sd g
    by (rule pass_cong(1) [OF eq]) (simp add: n1)
  have e: "evaluator_receive P b io (set_seed P sd (store_sigma g s2)) =
      evaluator_receive P b' io (set_seed P sd (store_sigma g s2))" for sd g io
    by (rule pass_cong(3) [OF eq]) (simp add: n2)
  have c: "garbler_check P b LA st = garbler_check P b' LA st"
    if "garbler_send P b' (set_seed P sd (store_sigma g s1)) = (st, io)" for sd g st io LA
    by (rule pass_cong(2) [OF eq]) (simp add: garbler_send_num_inputs [OF that] n1)
  have s1': "run_setup m0 (en_proto en1) w1 b' = (o1, s1, p1)" "run_setup m0 (en_proto en2) w2 b' = (o2, s2, p2)"
    using s1 s2 pass_cong(4) [OF eq w(1), of m0 "en_proto en1"] pass_cong(4) [OF eq w(2), of m0 "en_proto en2"]
    by simp_all
  show ?thesis
    unfolding run_source_def Let_def prod.case s1 s2 s1' g e
    by (rule arg_cong [where f = "bind_result _"], rule ext)
      (auto split: prod.split simp: c)
qed

section \<open>Properties\<close>

definition toy_engine :: "nat \<Rightarrow> engine" where
  "toy_engine party = \<lparr>en_proto = toy_proto party, en_total_ands = 0\<rparr>"

definition toy_coins :: run_coins where
  "toy_coins = \<lparr>rc_coin = (\<lambda>_. 0), rc_nonce = 5, rc_seed = 9\<rparr>"

abbreviation toy_wires :: "nat \<Rightarrow> byte list \<Rightarrow> secure_wires" where
  "toy_wires party bits \<equiv> public_wires (toy_proto party) bits"

lemma toy_engines_ok: "engines_ok (toy_engine 1) (toy_engine 2)"
  by (simp add: engines_ok_def toy_engine_def toy_protos_ok del: One_nat_def)

lemma toy_wires_rel:
  "wires_rel (pc_Delta (en_proto (toy_engine 1))) (pc_Delta (en_proto (toy_engine 2)))
     (toy_wires 1 bits) (toy_wires 2 bits) (map nz bits)"
  unfolding toy_engine_def engine.simps
  by (rule public_wires_rel) (simp_all add: toy_proto_def init_protocol_def toy_pool_def)

definition and_prog :: program where
  "and_prog = \<lparr>p_gates = [mk_gate 0 1 2 Op_And], p_num_inputs = 2, p_num_wires = 3, p_outputs = [2]\<rparr>"

lemma and_prog_ok:
  "topological and_prog" "record_canonical and_prog" "prog_masked and_prog" "p_num_inputs and_prog = 2"
  "prog_evs and_prog = [EAnd 0 1]" "p_outputs and_prog = [2]"
  by (simp_all add: topological_def record_canonical_def prog_masked_def masked_outputs_def prog_evs_def
      and_prog_def gate_operands_def is_const_def is_not_def gate_ev_def num_and_evs_def)





lemma body_run_compiled:
  fixes P :: "('m, 'd) prims" and m0 :: 'm
  assumes et: "emp_tool_ok validate exec" "validate prog" "record_canonical prog"
    and body: "stream_of (p_num_inputs prog) body = (p_outputs prog, prog_evs prog)"
    and pq: "engines_ok en1 en2" and rel: "wires_rel D1 D2 w1 w2 vs" and len: "length vs = p_num_inputs prog"
  shows "stream_of (p_num_inputs prog) body = stream_of (p_num_inputs prog) (exec prog [0..<p_num_inputs prog])"
    and "run_source P rc m0 body (w1, en1) (w2, en2) = run_program P validate exec rc m0 prog (w1, en1) (w2, en2)"
proof -
  show eq: "stream_of (p_num_inputs prog) body = stream_of (p_num_inputs prog) (exec prog [0..<p_num_inputs prog])"
    using emp_tool_stream(1) [OF et] body by simp
  have wf: "wf_stream (p_num_inputs prog) (snd (stream_of (p_num_inputs prog) body))"
    using topological_stream(1) [OF emp_tool_stream(2) [OF et]] body by simp
  have "require_record_canonical validate prog = Inr ()" using et(2,3) by (simp add: require_record_canonical_ok)
  then have "run_program P validate exec rc m0 prog (w1, en1) (w2, en2) =
      run_source P rc m0 (exec prog [0..<p_num_inputs prog]) (w1, en1) (w2, en2)"
    using len by (simp add: run_program_checked [OF pq rel])
  moreover have "run_source P rc m0 body (w1, en1) (w2, en2) =
      run_source P rc m0 (exec prog [0..<p_num_inputs prog]) (w1, en1) (w2, en2)"
    by (rule run_source_cong [OF eq _ _ wf]) (use wires_rel_layout [OF rel] len in simp_all)
  ultimately show "run_source P rc m0 body (w1, en1) (w2, en2) = run_program P validate exec rc m0 prog (w1, en1) (w2, en2)"
    by simp
qed



text \<open>
  C21: an honest run of a circuit without AND gates leaves the garbler with the opened mask 0 for
  every wire a linear gate computed, so opening such a wire to party 1 returns the mask bit of the
  wire and not its value, while party 2 gets the value.
\<close>

theorem and_free_run_garbler_masks:
  fixes P :: "('m, 'd) prims" and m0 :: 'm
  assumes "engines_ok en1 en2"
    and "wires_rel (pc_Delta (en_proto en1)) (pc_Delta (en_proto en2)) w1 w2 vs"
    and "stream_of (length vs) src = (outs, es)" and "wf_stream (length vs) es"
    and "\<forall>x \<in> set outs. length vs \<le> x \<and> x < length vs + length es \<and> ev_is_gate (es ! (x - length vs))"
    and "num_and_evs es = 0"
  shows "\<exists>o1 en1' o2 en2'. run_source P rc m0 src (w1, en1) (w2, en2) = Inr ((o1, en1'), (o2, en2')) \<and>
    sw_Lambda o1 = replicate (length outs) 0 \<and>
    decode P ALICE (en_proto en1') (en_proto en2') o1 o2 =
      Inr (map (\<lambda>i. bbyte (share_bit (sw_bundle o1 ! i) (sw_bundle o2 ! i))) [0..<length outs], []) \<and>
    decode P BOB (en_proto en1') (en_proto en2') o1 o2 = Inr ([], map bbyte (clear_outputs vs (outs, es)))"
proof -
  let ?D1 = "pc_Delta (en_proto en1)" and ?D2 = "pc_Delta (en_proto en2)" and ?us = "clear_outputs vs (outs, es)"
  have ob: "\<forall>x \<in> set outs. x < length vs + length es" using assms(5) by blast
  obtain o1 en1' o2 en2' where run: "run_source P rc m0 src (w1, en1) (w2, en2) = Inr ((o1, en1'), (o2, en2'))"
    and er: "eval_rel ?D1 ?D2 o1 o2 ?us"
    and free: "num_and_evs es = 0 \<longrightarrow> sw_Lambda o1 = map (mask_regs (length vs) ((!) (sw_Lambda w1)) es) outs"
    and fr: "engines_ok en1' en2'" "pc_Delta (en_proto en1') = ?D1" "pc_Delta (en_proto en2') = ?D2"
    using run_source_ok [OF assms(1-4) ob, of P rc m0] by (elim exE conjE) (rule that; assumption)
  have pr: "protocols_ok (en_proto en1') (en_proto en2')" using fr(1) by (simp add: engines_ok_def)
  have len: "length ?us = length outs" by (simp add: clear_outputs_def)
  have "mask_regs (length vs) ((!) (sw_Lambda w1)) es x = 0" if "x \<in> set outs" for x
  proof -
    define k where "k = x - length vs"
    have k: "x = length vs + k" "k < length es" "ev_is_gate (es ! k)" using assms(5) that by (auto simp: k_def)
    show ?thesis using k(3) by (cases "es ! k") (simp_all add: k(1) reg_at_event [OF k(2)] new_mask_def)
  qed
  then have L: "sw_Lambda o1 = replicate (length outs) 0"
    using free assms(6) by (simp add: map_replicate_const [symmetric])
  have R: "sw_layout 1 o1" "sw_layout 2 o2" "sw_size o1 = length outs" "sw_size o2 = length outs"
    using er by (simp_all add: eval_rel_def len)
  have sh: "shares_ok ?D1 ?D2 (sw_bundle o1 ! i) (sw_bundle o2 ! i)" if "i < length outs" for i
    using er that unfolding eval_rel_def len by blast
  let ?m = "map (\<lambda>i. share_bit (sw_bundle o1 ! i) (sw_bundle o2 ! i)) [0..<length outs]"
  have "decode_recv P ?D1 o1 (open_shares P (sw_bundle o2)) = Inr (map bbyte ?m)"
    by (rule decode_recv_honest) (use R sh L in \<open>simp_all add: sw_layout_def sw_size_def shares_ok_def share_bit_def bbyte_def [of False]\<close>)
  then have "decode P ALICE (en_proto en1') (en_proto en2') o1 o2 =
      Inr (map (\<lambda>i. bbyte (share_bit (sw_bundle o1 ! i) (sw_bundle o2 ! i))) [0..<length outs], [])"
    using R(1,2) protocols_okD(1,2) [OF pr] fr by (simp add: decode_def sw_layout_check party_defs comp_def)
  moreover have "decode P BOB (en_proto en1') (en_proto en2') o1 o2 = Inr ([], map bbyte ?us)"
    by (rule decode_eval_rel(1) [OF pr]) (use er fr in simp)
  ultimately show ?thesis using run L by blast
qed

text \<open>The exclusive or of the public constants 1 and 0, opened to party 1, is 0.\<close>

theorem and_free_run_garbler_masks_witness:
  "\<exists>o1 en1' o2 en2'. run_source toy_prims toy_coins 0 (XorG 0 1 (\<lambda>w. Ret [w]))
       (toy_wires 1 [1, 0], toy_engine 1) (toy_wires 2 [1, 0], toy_engine 2) = Inr ((o1, en1'), (o2, en2')) \<and>
     sw_Lambda o1 = [0] \<and> decode toy_prims BOB (en_proto en1') (en_proto en2') o1 o2 = Inr ([], [1])"
proof -
  have c: "clear_outputs (map nz [1, 0]) ([2], [EXor 0 1]) = [True]"
    by (simp add: clear_outputs_def clear_run_def clear_step_def nz_def)
  have s: "stream_of (length (map nz [1, 0])) (XorG 0 1 (\<lambda>w. Ret [w])) = ([2], [EXor 0 1])" by simp
  show ?thesis
    using and_free_run_garbler_masks [OF toy_engines_ok toy_wires_rel [of "[1, 0]"] s, of toy_prims toy_coins 0]
    unfolding c by (auto simp: wf_stream_def num_and_evs_def bbyte_def)
qed

text \<open>
  C26: the precondition of a run accepts exactly the validated programs whose gates write the ids
  after the inputs in order and in which each constant occurs at most once; and it names the first
  of the three that fails.
\<close>

theorem canonical_check_exact:
  "require_record_canonical validate prog =
     (if \<not> validate prog then Inl Invalid_Program
      else if map g_out (p_gates prog) \<noteq> [p_num_inputs prog..<p_num_inputs prog + length (p_gates prog)] then Inl Not_Canonical
      else if 1 < count_list (map g_op (p_gates prog)) Op_Const0 \<or> 1 < count_list (map g_op (p_gates prog)) Op_Const1
        then Inl Duplicate_Constant
      else Inr ())"
proof -
  have "map g_out (p_gates prog) \<noteq> [p_num_inputs prog..<p_num_inputs prog + length (p_gates prog)] \<longleftrightarrow>
      (\<exists>i < length (p_gates prog). g_out (p_gates prog ! i) \<noteq> p_num_inputs prog + i)"
    unfolding list_eq_iff_nth_eq by simp
  then show ?thesis
    unfolding require_record_canonical_error program_error_def by (simp only: refl if_False not_not split: if_split) simp
qed

end
