(* ===== verification/Gamma_Sound.thy ===== *)
theory Gamma_Sound
  imports Program_Run
begin

text \<open>
  What the check pass of a run protects. The run is the one of \<^verbatim>\<open>backend/engine.h\<close>, but
  with a channel that may replace the garbler's ciphertext stream by any other bytes. If the
  evaluator accepts, then every opened mask is right, unless the two lists of check values collide
  under the digest; the lists differ in an entry exactly when the mask of that gate is wrong, and
  then by the evaluator's global difference.
\<close>

section \<open>A run over a channel\<close>

text \<open>
  As \<^verbatim>\<open>run_source\<close>, with \<open>tamper\<close> applied to the ciphertext stream; it also returns the
  check values of both parties.
\<close>

definition run_over ::
  "(byte list \<Rightarrow> byte list) \<Rightarrow> ('m, 'd) prims \<Rightarrow> run_coins \<Rightarrow> 'm \<Rightarrow> body \<Rightarrow> secure_wires \<times> engine \<Rightarrow>
   secure_wires \<times> engine \<Rightarrow>
   ((block list \<times> block list) \<times> (secure_wires \<times> engine) \<times> (secure_wires \<times> engine)) result" where
  "run_over tamper P rc m0 src we1 we2 =
     (let (w1, en1) = we1; (w2, en2) = we2;
          (outs1, st1, pr1) = run_setup m0 (en_proto en1) w1 src;
          (outs2, st2, pr2) = run_setup m0 (en_proto en2) w2 src
      in bind_result (compute_inplace P (rc_coin rc) (rc_nonce rc) (rs_num_ands st1)
             (rs_rep_a st1) (rs_rep_b st1) (rs_rep_a st2) (rs_rep_b st2) (pc_fpre pr1) (pc_fpre pr2))
         (\<lambda>((sig1, f1), (sig2, f2)).
           let st1 = set_seed P (rc_seed rc) (store_sigma sig1 st1);
               st2 = set_seed P (rc_seed rc) (store_sigma sig2 st2);
               (st1, io) = garbler_send P src st1
           in bind_result (evaluator_receive P src (tamper io) st2) (\<lambda>(st2, LA).
                let (st1, D2) = garbler_check P src LA st1
                in bind_result (evaluator_verdict P D2 st2) (\<lambda>_.
                     Inr ((take (rs_num_ands st1) (rs_M1_t st1), take (rs_num_ands st2) (rs_M1_t st2)),
                          (gather_outputs outs1 st1, finish_run (rs_num_ands st1) (pr1\<lparr>pc_fpre := f1\<rparr>) en1),
                          (gather_outputs outs2 st2, finish_run (rs_num_ands st2) (pr2\<lparr>pc_fpre := f2\<rparr>) en2))))))"

lemma run_over_id:
  "run_source P rc m0 src we1 we2 = bind_result (run_over id P rc m0 src we1 we2) (\<lambda>(chk, r). Inr r)"
  unfolding run_source_def run_over_def Let_def id_apply
  by (auto simp: bind_result_def split: sum.splits prod.splits)

text \<open>The evaluator's half on any stream.\<close>

lemma evaluator_any:
  fixes P :: "('m, 'd) prims" and s1 s2 :: "'m run_state"
  assumes rp: "ready_pair D1 D2 vs es outs w1 w2 lg1 lg2 s1 s2"
    and src: "stream_of (length vs) src = (outs, es)"
  defines "t \<equiv> \<lambda>la. told la (length vs) (\<lambda>x. vs ! x \<noteq> share_bit (ins_of w1 x) (ins_of w2 x)) es"
  shows "\<exists>s2' la. evaluator_receive P src io s2 = Inr (s2', map la [0..<num_and_evs es]) \<and>
      take (num_and_evs es) (rs_M1_t s2') =
        map (own_check D2 lg2 (length vs) (ins_of w2) (rs_sigma s2) la (t la) es) [0..<num_and_evs es] \<and>
      (\<forall>x < length vs + length es. persists (length vs) es outs x \<longrightarrow>
         wslot s2' x = share_regs lg2 (length vs) (ins_of w2) es x \<and> minp s2' x = bbyte (t la x)) \<and>
      rs_party s2' = 2 \<and> rs_num_ands s2' = num_and_evs es"
proof -
  note R = rp [unfolded ready_pair_def]
  let ?n = "length vs" and ?k = "num_and_evs es"
  have r2: "slots_ready es outs w2 lg2 s2" and p2: "rs_party s2 = 2"
    and Ds: "rs_Delta s2 = D2" and n: "rs_num_inputs s2 = ?n"
    and len: "?k \<le> length (rs_M1_t s2)" "?k \<le> length (rs_Lambda_AND s2)"
    and rel: "wires_rel D1 D2 w1 w2 vs" and wf: "wf_stream ?n es"
    using R by simp_all
  let ?x = "\<lambda>x. vs ! x \<noteq> share_bit (ins_of w1 x) (ins_of w2 x)"
  let ?g = "\<lambda>w. (wslot s2 w, evl s2 w, minp s2 w)"
  let ?E = "joint_eval P D2 (rs_mitc s2) (rs_sigma s2) ?n ?g (stream_rows ?k io) (rs_M1_t s2) (rs_Lambda_AND s2) es"
  have i1: "\<forall>w < ?n. fst (?g w) = ins_of w2 w" and i2: "\<forall>w < ?n. snd (snd (?g w)) = bbyte (?x w)"
    using ready_inputs [OF r2] rel n unfolding wires_rel_def eval_rel_def by simp_all
  have pre: "preset ?n es lg2 (\<lambda>w. fst (?g w))" using ready_preset [OF r2] n by simp
  obtain la where T: "eval_told D2 lg2 ?n (ins_of w2) (rs_sigma s2) la ?x (rs_M1_t s2) (rs_Lambda_AND s2) ?E es"
    using eval_told_run [where g = ?g and P = P and D = D2 and m = "rs_mitc s2" and sig = "rs_sigma s2"
        and rows = "stream_rows ?k io", OF wf i1 pre i2 len] by blast
  obtain m rows M LA where A: "fst (snd ?E) = (D2, m, rs_sigma s2, ?k, rows, M, LA)"
      "length M = length (rs_M1_t s2)" "length LA = length (rs_Lambda_AND s2)"
    and B: "\<forall>i < ?k. LA ! i = bbyte (la i) \<and> M ! i = own_check D2 lg2 ?n (ins_of w2) (rs_sigma s2) la (t la) es i"
    using eval_toldD(2) [OF T] unfolding t_def by blast
  obtain s2' where rcv: "evaluator_receive P src io s2 = Inr (s2', map nz (take ?k LA))"
    and e: "\<And>x. x < ?n + length es \<Longrightarrow> persists ?n es outs x \<Longrightarrow>
        wslot s2' x = fst (fst ?E x) \<and> (evl s2' x, minp s2' x) = snd (fst ?E x)"
    and s2': "rs_M1_t s2' = M" "rs_party s2' = 2" "rs_num_ands s2' = ?k"
    by (rule evaluator_stream [OF r2 p2 n wf src, of P io, unfolded Ds, OF A(1)]) simp
  have "map nz (take ?k LA) = map la [0..<?k]" by (rule nth_equalityI) (use A(3) B len in simp_all)
  moreover have "take ?k (rs_M1_t s2') = map (own_check D2 lg2 ?n (ins_of w2) (rs_sigma s2) la (t la) es) [0..<?k]"
    unfolding s2'(1) by (rule take_nth_map) (use A(2) len B in auto)
  moreover have "wslot s2' x = share_regs lg2 ?n (ins_of w2) es x \<and> minp s2' x = bbyte (t la x)"
    if x: "x < ?n + length es" "persists ?n es outs x" for x
  proof -
    have "fst (fst ?E x) = share_regs lg2 ?n (ins_of w2) es x"
      unfolding joint_eval_def by (rule eval_regs_share [where f = ?g, OF i1 pre wf x(1)])
    moreover have "minp s2' x = snd (snd (fst ?E x))" using e [OF x] by (metis snd_conv)
    ultimately show ?thesis using e [OF x] eval_toldD(1) [OF T x(1)] by (simp add: t_def)
  qed
  ultimately show ?thesis using rcv s2' by auto
qed

text \<open>The garbler's half, for any masks it is told.\<close>

lemma garbler_told_side:
  fixes P :: "('m, 'd) prims" and s1 s2 :: "'m run_state"
  assumes rp: "ready_pair D1 D2 vs es outs w1 w2 lg1 lg2 s1 s2"
    and src: "stream_of (length vs) src = (outs, es)"
    and ob: "\<forall>x \<in> set outs. x < length vs + length es"
    and send: "garbler_send P src s1 = (t1, io)"
    and chk: "garbler_check P src (map la [0..<num_and_evs es]) t1 = (u1, dg)"
  defines "t \<equiv> told la (length vs) (\<lambda>x. vs ! x \<noteq> share_bit (ins_of w1 x) (ins_of w2 x)) es"
  shows "rs_num_ands u1 = num_and_evs es"
    and "take (num_and_evs es) (rs_M1_t u1) =
      map (told_check lg1 (length vs) (ins_of w1) (rs_sigma s1) t es) [0..<num_and_evs es]"
    and "\<forall>x \<in> set outs. wslot u1 x = share_regs lg1 (length vs) (ins_of w1) es x"
    and "0 < num_and_evs es \<Longrightarrow> dg = Some (pr_digest P (take (num_and_evs es) (rs_M1_t u1))) \<and>
      (\<forall>x \<in> set outs. minp u1 x = bbyte (t x))"
proof -
  note GE = garble_eval_pair [OF rp src send]
  have na: "rs_num_ands t1 = num_and_evs es" using GE(2) by blast
  have sh: "\<forall>x < length vs + length es. persists (length vs) es outs x \<longrightarrow>
      wslot t1 x = share_regs lg1 (length vs) (ins_of w1) es x"
    using GE(1) unfolding evaluated_def by blast
  have per: "x < length vs + length es \<and> persists (length vs) es outs x" if "x \<in> set outs" for x
    using that ob by (simp add: persists_def)
  have fr: "rs_mask_input t1 = rs_mask_input s1" "rs_phys t1 = rs_phys s1" "rs_sigma t1 = rs_sigma s1"
    "rs_party t1 = 1" "rs_num_inputs t1 = length vs" "rs_M1_t t1 = rs_M1_t s1" "rs_Lambda_AND t1 = rs_Lambda_AND s1"
    using GE(2) by blast+
  note T = garbler_check_told [OF rp src fr(1-4) na fr(5-7) GE(3) sh chk, folded t_def]
  have idle: "u1 = t1" if "num_and_evs es = 0" using chk na that by (simp add: garbler_check_def)
  show "rs_num_ands u1 = num_and_evs es"
    using T(5) idle na by (cases "num_and_evs es = 0") simp_all
  show "take (num_and_evs es) (rs_M1_t u1) =
      map (told_check lg1 (length vs) (ins_of w1) (rs_sigma s1) t es) [0..<num_and_evs es]"
    using T(1) by (cases "num_and_evs es = 0") simp_all
  show "\<forall>x \<in> set outs. wslot u1 x = share_regs lg1 (length vs) (ins_of w1) es x"
    using T(3) idle sh per by (cases "num_and_evs es = 0") auto
  show "dg = Some (pr_digest P (take (num_and_evs es) (rs_M1_t u1))) \<and> (\<forall>x \<in> set outs. minp u1 x = bbyte (t x))"
    if "0 < num_and_evs es"
    using T(2,3) [OF that] per by blast
qed

text \<open>
  The tampered run, as a whole: it succeeds or fails by comparing the digests of two lists of check
  values, whatever the channel does.
\<close>

text \<open>The two lists of check values differ where an announced mask is not the one due.\<close>

lemma check_lists_differ:
  assumes masks: "masks_ok D1 D2 n es f g lg1 lg2 sig1 sig2" and wf: "wf_stream n es" and i: "i < num_and_evs es"
    and xs: "xs = map (told_check lg1 n f sig1 t es) [0..<num_and_evs es]"
    and ys: "ys = map (own_check D2 lg2 n g sig2 la t es) [0..<num_and_evs es]"
  shows "xs ! i XOR ys ! i = sel (la i \<noteq> due lg1 lg2 n f g t es i) D2"
  using checks_differ [OF masks wf i] i unfolding xs ys by simp

lemma run_over_steps:
  fixes P :: "('m, 'd) prims" and m0 :: 'm
  assumes pq: "engines_ok en1 en2"
    and rel: "wires_rel (pc_Delta (en_proto en1)) (pc_Delta (en_proto en2)) w1 w2 vs"
    and src: "stream_of (length vs) src = (outs, es)" and wf: "wf_stream (length vs) es"
    and ob: "\<forall>x \<in> set outs. x < length vs + length es"
  shows "\<exists>lg1 lg2 la t xs ys o1 o2 e1 e2.
    t = told la (length vs) (\<lambda>x. vs ! x \<noteq> share_bit (ins_of w1 x) (ins_of w2 x)) es \<and>
    run_over tamper P rc m0 src (w1, en1) (w2, en2) =
      (if 0 < num_and_evs es \<and> pr_digest P xs \<noteq> pr_digest P ys then Inl Gamma_Check_Failed
       else Inr ((xs, ys), (o1, e1), (o2, e2))) \<and>
    length xs = num_and_evs es \<and> length ys = num_and_evs es \<and>
    (\<forall>i < num_and_evs es. xs ! i XOR ys ! i =
       sel (la i \<noteq> due lg1 lg2 (length vs) (ins_of w1) (ins_of w2) t es i) (pc_Delta (en_proto en2))) \<and>
    (0 < num_and_evs es \<longrightarrow> sw_Lambda o1 = sw_Lambda o2) \<and>
    sw_bundle o1 = map (share_regs lg1 (length vs) (ins_of w1) es) outs \<and>
    sw_bundle o2 = map (share_regs lg2 (length vs) (ins_of w2) es) outs \<and>
    sw_Lambda o2 = map (\<lambda>x. bbyte (t x)) outs"
proof -
  let ?p = "en_proto en1" and ?q = "en_proto en2" and ?k = "num_and_evs es"
  let ?D1 = "pc_Delta (en_proto en1)" and ?D2 = "pc_Delta (en_proto en2)" and ?n = "length vs"
  have pr: "protocols_ok ?p ?q" using pq by (simp add: engines_ok_def)
  obtain outs1 st1 p1 where s1: "run_setup m0 ?p w1 src = (outs1, st1, p1)" by (metis prod_cases3)
  obtain outs2 st2 q1 where s2: "run_setup m0 ?q w2 src = (outs2, st2, q1)" by (metis prod_cases3)
  note S = pair_setup [OF pr rel src wf ob s1 s2]
  obtain sig1 f1 sig2 f2 lg1 lg2 where c: "compute_inplace P (rc_coin rc) (rc_nonce rc) ?k
          (rs_rep_a st1) (rs_rep_b st1) (rs_rep_a st2) (rs_rep_b st2) (pc_fpre p1) (pc_fpre q1) =
        Inr ((sig1, f1), (sig2, f2))"
    and rp: "ready_pair ?D1 ?D2 vs es outs w1 w2 lg1 lg2
        (set_seed P (rc_seed rc) (store_sigma sig1 st1)) (set_seed P (rc_seed rc) (store_sigma sig2 st2))"
    using S(8) [of P "rc_coin rc" "rc_nonce rc" "rc_seed rc"] by blast
  let ?s1 = "set_seed P (rc_seed rc) (store_sigma sig1 st1)" and ?s2 = "set_seed P (rc_seed rc) (store_sigma sig2 st2)"
  obtain t1 io where snd1: "garbler_send P src ?s1 = (t1, io)" by (metis surj_pair)
  let ?t = "\<lambda>la. told la ?n (\<lambda>x. vs ! x \<noteq> share_bit (ins_of w1 x) (ins_of w2 x)) es"
  obtain t2 la where rcv: "evaluator_receive P src (tamper io) ?s2 = Inr (t2, map la [0..<?k])"
    and ys: "take ?k (rs_M1_t t2) = map (own_check ?D2 lg2 ?n (ins_of w2) (rs_sigma ?s2) la (?t la) es) [0..<?k]"
    and sh2: "\<forall>x < ?n + length es. persists ?n es outs x \<longrightarrow>
         wslot t2 x = share_regs lg2 ?n (ins_of w2) es x \<and> minp t2 x = bbyte (?t la x)"
    and t2: "rs_party t2 = 2" "rs_num_ands t2 = ?k"
    using evaluator_any [OF rp src, of P "tamper io"] by (elim exE conjE) (rule that; assumption)
  obtain u1 dg where chk: "garbler_check P src (map la [0..<?k]) t1 = (u1, dg)" by (metis surj_pair)
  note U = garbler_told_side [OF rp src ob snd1 chk]
  let ?xs = "take ?k (rs_M1_t u1)" and ?ys = "take ?k (rs_M1_t t2)"
  let ?o1 = "gather_outputs outs u1" and ?o2 = "gather_outputs outs t2"
  let ?e1 = "finish_run ?k (p1\<lparr>pc_fpre := f1\<rparr>) en1" and ?e2 = "finish_run ?k (q1\<lparr>pc_fpre := f2\<rparr>) en2"
  have run: "run_over tamper P rc m0 src (w1, en1) (w2, en2) = bind_result (evaluator_verdict P dg t2)
      (\<lambda>_. Inr ((?xs, ?ys), (?o1, ?e1), (?o2, ?e2)))"
    using s1 s2 c snd1 rcv chk S(1-3) t2 U(1) by (simp add: run_over_def Let_def)
  have verdict: "evaluator_verdict P dg t2 =
      (if 0 < ?k \<and> pr_digest P ?xs \<noteq> pr_digest P ?ys then Inl Gamma_Check_Failed else Inr ())"
    using U(4) t2(2) by (auto simp: evaluator_verdict_def)
  have outcome: "run_over tamper P rc m0 src (w1, en1) (w2, en2) =
      (if 0 < ?k \<and> pr_digest P ?xs \<noteq> pr_digest P ?ys then Inl Gamma_Check_Failed
       else Inr ((?xs, ?ys), (?o1, ?e1), (?o2, ?e2)))"
    unfolding run verdict by (rule if_split [THEN iffD2]) (intro conjI impI; simp only: if_True if_False bind_result_simps simp_thms)
  have per: "x < ?n + length es \<and> persists ?n es outs x" if "x \<in> set outs" for x
    using that ob by (simp add: persists_def)
  have masks: "masks_ok ?D1 ?D2 ?n es (ins_of w1) (ins_of w2) lg1 lg2 (rs_sigma ?s1) (rs_sigma ?s2)"
    using rp unfolding ready_pair_def by blast
  have diff: "\<forall>i < ?k. ?xs ! i XOR ?ys ! i = sel (la i \<noteq> due lg1 lg2 ?n (ins_of w1) (ins_of w2) (?t la) es i) ?D2"
    by (intro allI impI check_lists_differ [OF masks wf _ U(2) ys])
  have len: "length ?xs = ?k" "length ?ys = ?k" unfolding U(2) ys by simp_all
  have lam: "0 < ?k \<longrightarrow> sw_Lambda ?o1 = sw_Lambda ?o2"
    using U(4) sh2 per by (simp add: gather_outputs_def)
  have bun: "sw_bundle ?o1 = map (share_regs lg1 ?n (ins_of w1) es) outs"
    "sw_bundle ?o2 = map (share_regs lg2 ?n (ins_of w2) es) outs" "sw_Lambda ?o2 = map (\<lambda>x. bbyte (?t la x)) outs"
    using U(3) sh2 per by (simp_all add: gather_outputs_def)
  show ?thesis
    by (rule exI [of _ lg1], rule exI [of _ lg2], rule exI [of _ la], rule exI [of _ "?t la"], rule exI [of _ ?xs],
        rule exI [of _ ?ys], rule exI [of _ ?o1], rule exI [of _ ?o2], rule exI [of _ ?e1], rule exI [of _ ?e2])
      (intro conjI; fact refl outcome len diff lam bun)
qed

lemma run_over_lists:
  fixes P :: "('m, 'd) prims" and m0 :: 'm
  assumes "engines_ok en1 en2"
    and "wires_rel (pc_Delta (en_proto en1)) (pc_Delta (en_proto en2)) w1 w2 vs"
    and "stream_of (length vs) src = (outs, es)" and "wf_stream (length vs) es"
    and "\<forall>x \<in> set outs. x < length vs + length es"
    and "run_over tamper P rc m0 src (w1, en1) (w2, en2) = Inr ((xs, ys), (o1, en1'), (o2, en2'))"
  shows "\<exists>lg1 lg2 la t. t = told la (length vs) (\<lambda>x. vs ! x \<noteq> share_bit (ins_of w1 x) (ins_of w2 x)) es \<and>
    length xs = num_and_evs es \<and> length ys = num_and_evs es \<and>
    (\<forall>i < num_and_evs es. xs ! i XOR ys ! i =
       sel (la i \<noteq> due lg1 lg2 (length vs) (ins_of w1) (ins_of w2) t es i) (pc_Delta (en_proto en2))) \<and>
    (0 < num_and_evs es \<longrightarrow> pr_digest P xs = pr_digest P ys \<and> sw_Lambda o1 = sw_Lambda o2) \<and>
    sw_bundle o1 = map (share_regs lg1 (length vs) (ins_of w1) es) outs \<and>
    sw_bundle o2 = map (share_regs lg2 (length vs) (ins_of w2) es) outs \<and>
    sw_Lambda o2 = map (\<lambda>x. bbyte (t x)) outs"
proof -
  obtain lg1 lg2 la t xs' ys' o1' o2' e1 e2 where
    A: "t = told la (length vs) (\<lambda>x. vs ! x \<noteq> share_bit (ins_of w1 x) (ins_of w2 x)) es"
    and run: "run_over tamper P rc m0 src (w1, en1) (w2, en2) =
      (if 0 < num_and_evs es \<and> pr_digest P xs' \<noteq> pr_digest P ys' then Inl Gamma_Check_Failed
       else Inr ((xs', ys'), (o1', e1), (o2', e2)))"
    and B: "length xs' = num_and_evs es" "length ys' = num_and_evs es"
      "\<forall>i < num_and_evs es. xs' ! i XOR ys' ! i =
         sel (la i \<noteq> due lg1 lg2 (length vs) (ins_of w1) (ins_of w2) t es i) (pc_Delta (en_proto en2))"
      "0 < num_and_evs es \<longrightarrow> sw_Lambda o1' = sw_Lambda o2'"
      "sw_bundle o1' = map (share_regs lg1 (length vs) (ins_of w1) es) outs"
      "sw_bundle o2' = map (share_regs lg2 (length vs) (ins_of w2) es) outs"
      "sw_Lambda o2' = map (\<lambda>x. bbyte (t x)) outs"
    using run_over_steps [OF assms(1-5), of tamper P rc m0] by (elim exE conjE) (rule that; assumption)
  have e: "xs = xs'" "ys = ys'" "o1 = o1'" "o2 = o2'"
    and dig: "0 < num_and_evs es \<longrightarrow> pr_digest P xs' = pr_digest P ys' \<and> sw_Lambda o1' = sw_Lambda o2'"
    using assms(6) B(4) unfolding run by (auto split: if_splits)
  show ?thesis
    unfolding e by (rule exI [of _ lg1], rule exI [of _ lg2], rule exI [of _ la], rule exI [of _ t])
      (intro conjI; fact A B dig)
qed

section \<open>Properties\<close>

text \<open>
  C6: whatever bytes replace the garbler's ciphertext stream, if the evaluator accepts then the two
  parties hold the same opened output masks and two lists of check values with the same digest, whose
  entries are equal or differ by the evaluator's secret global difference. If the lists are equal,
  that is unless they are a collision of the digest, every opened output mask is the cleartext value
  under its mask bit: tampering is detected or leaves the masks right.
\<close>

theorem tampered_stream_detected:
  fixes P :: "('m, 'd) prims" and m0 :: 'm
  assumes "engines_ok en1 en2"
    and "wires_rel (pc_Delta (en_proto en1)) (pc_Delta (en_proto en2)) w1 w2 vs"
    and "stream_of (length vs) src = (outs, es)" and "wf_stream (length vs) es"
    and "\<forall>x \<in> set outs. x < length vs + length es"
    and "run_over tamper P rc m0 src (w1, en1) (w2, en2) = Inr ((xs, ys), (o1, en1'), (o2, en2'))"
  shows "(0 < num_and_evs es \<longrightarrow> sw_Lambda o1 = sw_Lambda o2 \<and> pr_digest P xs = pr_digest P ys) \<and>
    length xs = num_and_evs es \<and> length ys = num_and_evs es \<and>
    (\<forall>i < num_and_evs es. xs ! i = ys ! i \<or> xs ! i XOR ys ! i = pc_Delta (en_proto en2)) \<and>
    (xs = ys \<longrightarrow> (\<forall>i < length outs. sw_Lambda o2 ! i =
        bbyte (clear_outputs vs (outs, es) ! i \<noteq> share_bit (sw_bundle o1 ! i) (sw_bundle o2 ! i))))"
proof -
  let ?D2 = "pc_Delta (en_proto en2)" and ?n = "length vs"
  obtain lg1 lg2 la t where t: "t = told la ?n (\<lambda>x. vs ! x \<noteq> share_bit (ins_of w1 x) (ins_of w2 x)) es"
    and len: "length xs = num_and_evs es" "length ys = num_and_evs es"
    and diff: "\<forall>i < num_and_evs es. xs ! i XOR ys ! i = sel (la i \<noteq> due lg1 lg2 ?n (ins_of w1) (ins_of w2) t es i) ?D2"
    and dig: "0 < num_and_evs es \<longrightarrow> pr_digest P xs = pr_digest P ys \<and> sw_Lambda o1 = sw_Lambda o2"
    and b: "sw_bundle o1 = map (share_regs lg1 ?n (ins_of w1) es) outs"
      "sw_bundle o2 = map (share_regs lg2 ?n (ins_of w2) es) outs" "sw_Lambda o2 = map (\<lambda>x. bbyte (t x)) outs"
    using run_over_lists [OF assms(1-6)] by (elim exE conjE) (rule that; assumption)
  have D: "?D2 \<noteq> 0" using assms(1) by (auto simp: engines_ok_def protocols_ok_def pools_ok_def deltas_ok_def)
  have "sw_Lambda o2 ! i =
      bbyte (clear_outputs vs (outs, es) ! i \<noteq> share_bit (sw_bundle o1 ! i) (sw_bundle o2 ! i))"
    if eq: "xs = ys" and i: "i < length outs" for i
  proof -
    have la: "\<forall>i < num_and_evs es. la i = due lg1 lg2 ?n (ins_of w1) (ins_of w2) t es i"
      using diff D eq by (auto simp: sel_def split: if_splits)
    have "t x = opened lg1 lg2 (ins_of w1) (ins_of w2) vs es x" if "x < ?n + length es" for x
      unfolding t by (rule told_due_opened [OF assms(4) _ la [unfolded t] that]) blast
    then show ?thesis using assms(5) i by (simp add: b clear_outputs_def opened_def wire_mask_def)
  qed
  moreover have "xs ! i = ys ! i \<or> xs ! i XOR ys ! i = ?D2" if "i < num_and_evs es" for i
  proof -
    have "xs ! i XOR ys ! i = 0 \<or> xs ! i XOR ys ! i = ?D2" using diff that by (simp add: sel_def)
    then show ?thesis by (metis xor_cancel_iff xor_self_eq)
  qed
  ultimately show ?thesis using dig len by blast
qed

theorem tampered_stream_detected_witness:
  "\<exists>xs ys o1 en1' o2 en2'. run_over id toy_prims toy_coins 0 (AndG 0 1 (\<lambda>w. Ret [w]))
       (toy_wires 1 [1, 1], toy_engine 1) (toy_wires 2 [1, 1], toy_engine 2) =
     Inr ((xs, ys), (o1, en1'), (o2, en2')) \<and>
     sw_Lambda o2 ! 0 = bbyte (\<not> share_bit (sw_bundle o1 ! 0) (sw_bundle o2 ! 0)) \<and> sw_Lambda o1 = sw_Lambda o2"
proof -
  let ?b = "AndG 0 1 (\<lambda>w. Ret [w])" and ?vs = "map nz [1, 1]"
  have st: "stream_of (length ?vs) ?b = ([2], [EAnd 0 1])" by (simp add: numeral_2_eq_2)
  have wf: "wf_stream (length ?vs) [EAnd 0 1]" by (simp add: wf_stream_def)
  have ob: "\<forall>x \<in> set [2]. x < length ?vs + length [EAnd 0 1]" by simp
  have c: "clear_outputs ?vs ([2], [EAnd 0 1]) = [True]"
    by (simp add: clear_outputs_def clear_run_def clear_step_def nz_def)
  obtain o1 en1' o2 en2' where "run_source toy_prims toy_coins 0 ?b (toy_wires 1 [1, 1], toy_engine 1)
      (toy_wires 2 [1, 1], toy_engine 2) = Inr ((o1, en1'), (o2, en2'))"
    using run_source_ok [OF toy_engines_ok toy_wires_rel st wf ob, of toy_prims toy_coins 0] by blast
  then obtain xs ys where r: "run_over id toy_prims toy_coins 0 ?b (toy_wires 1 [1, 1], toy_engine 1)
      (toy_wires 2 [1, 1], toy_engine 2) = Inr ((xs, ys), (o1, en1'), (o2, en2'))"
    by (auto simp: run_over_id bind_result_def split: sum.splits)
  note T = tampered_stream_detected [OF toy_engines_ok toy_wires_rel st wf ob r]
  have "xs = ys" using T by (simp add: toy_prims_def num_and_evs_def)
  with T r c show ?thesis by (auto simp: num_and_evs_def)
qed



end
