(* ===== verification/Run_Shape.thy ===== *)
theory Run_Shape
  imports Program_Run
begin

text \<open>
  What two parties who agree on a source agree on without exchanging a message: the numbering of the
  wires in each of the five passes of \<^verbatim>\<open>backend/pass_ctx.h\<close>, and the number of
  bytes of the ciphertext stream.
\<close>

section \<open>The length of the ciphertext stream\<close>

lemma length_blocks_bytes: "length (concat (map block_bytes bs)) = 16 * length bs"
  by (induction bs) (simp_all add: block_bytes_def)

lemma length_chunk_bytes: "chunk_ok cap c \<Longrightarrow> length (chunk_bytes c) = 33 * length (chunk_rows c)"
  by (simp add: chunk_bytes_def chunk_ok_def length_blocks_bytes chunk_rows_def)

lemma length_stream_bytes:
  assumes "batched cs"
  shows "length (stream_bytes cs) = 33 * length (concat (map chunk_rows cs))"
proof -
  have "length (chunk_bytes c) = 33 * length (chunk_rows c)" if "c \<in> set cs" for c
    using assms that by (auto simp: batched_def intro: length_chunk_bytes)
  then show ?thesis
    by (simp add: stream_bytes_def length_concat comp_def sum_list_const_mult cong: map_cong)
qed

section \<open>Properties\<close>

text \<open>
  C19: the five passes walk a source in step. Driven over the same source they hand out the same wire
  ids in the same order, return the same output wires, and agree on the number of wires of the run.
\<close>

theorem passes_in_lockstep:
  fixes s :: "'m run_state"
  shows "let n = rs_num_inputs s; (outs, es) = stream_of n src; w = n + length es
    in map_prod id lp_wid (drive live_ops src (init_live s)) = (outs, w) \<and>
       map_prod id sm_wid (drive slot_mask_ops src (init_slot_mask s f)) = (outs, w) \<and>
       map_prod id gp_wid (drive (garble_ops P) src (gp_begin (init_garble s))) = (outs, w) \<and>
       map_prod id ep_wid (drive (eval_ops P) src (init_eval s io)) = (outs, w) \<and>
       map_prod id gc_wid (drive gamma_ops src (init_gamma s)) = (outs, w)"
proof -
  obtain outs es where src: "stream_of (rs_num_inputs s) src = (outs, es)" by (metis surj_pair)
  have "map_prod id lp_wid (drive live_ops src (init_live s)) = (outs, rs_num_inputs s + length es)"
    using src by (simp add: live.drive_stream live.wid_fold init_live_def)
  moreover have "map_prod id sm_wid (drive slot_mask_ops src (init_slot_mask s f)) = (outs, rs_num_inputs s + length es)"
    using src by (simp add: slot_mask.drive_stream slot_mask.wid_fold init_slot_mask_def)
  moreover have "map_prod id gp_wid (drive (garble_ops P) src (gp_begin (init_garble s))) = (outs, rs_num_inputs s + length es)"
    using src by (simp add: garble.drive_stream garble.wid_fold gp_begin_ok)
  moreover have "map_prod id ep_wid (drive (eval_ops P) src (init_eval s io)) = (outs, rs_num_inputs s + length es)"
    using src by (simp add: eval.drive_stream eval.wid_fold init_eval_ok)
  moreover have "map_prod id gc_wid (drive gamma_ops src (init_gamma s)) = (outs, rs_num_inputs s + length es)"
    using src by (simp add: gamma.drive_stream gamma.wid_fold init_gamma_def)
  ultimately show ?thesis by (simp add: src)
qed

text \<open>
  C34: the garbler sends exactly 33 bytes per AND gate of the source, whatever the inputs, the shares
  and the seed of the run.
\<close>

theorem ciphertext_volume:
  assumes "run_setup m0 pr w src = (outs', st, pr')" and "pc_party pr = 1"
    and "stream_of (sw_size w) src = (outs, es)" and "wf_stream (sw_size w) es"
    and "garbler_send P src (set_seed P seed (store_sigma sig st)) = (st', io)"
  shows "length io = 33 * num_and_evs es"
proof -
  note S = run_setup_ok [OF assms(3,4,1)]
  let ?s = "set_seed P seed (store_sigma sig st)"
  have ready: "slots_ready es outs w (\<lambda>i. stream_share (pc_fpre pr) (tp_pos (pc_fpre pr) + i)) ?s"
    and n: "rs_num_inputs ?s = sw_size w" "rs_party ?s = 1"
    using S assms(2) by (simp_all only: slots_ready_upd) (simp_all add: set_seed_def store_sigma_def)
  obtain o' gp where gp: "drive (garble_ops P) src (gp_begin (init_garble ?s)) = (o', gp)" by (metis surj_pair)
  note g = garble_run_ok [OF ready _ n(2) _ gp, unfolded n, OF assms(4,3)]
  have io: "io = stream_bytes (gp_sent (gp_end gp))" using assms(5) gp by (simp add: garbler_send_def run_pass_def)
  have "concat (map chunk_rows (gp_sent (gp_end gp))) = rows_of (garble_regs P ?s es)"
    using g(3) by (simp add: rows_of_def)
  moreover have "length (rows_of (garble_regs P ?s es)) = num_and_evs es"
    unfolding garble_regs_def using rows_of_length [unfolded joint_garble_def] .
  ultimately show ?thesis by (simp add: io length_stream_bytes [OF g(2)])
qed

theorem ciphertext_volume_witness:
  "\<exists>outs' st pr' st' io. run_setup (0 :: block) (en_proto (toy_engine 1)) (toy_wires 1 [1, 1]) (AndG 0 1 (\<lambda>w. Ret [w])) = (outs', st, pr') \<and>
     garbler_send toy_prims (AndG 0 1 (\<lambda>w. Ret [w])) (set_seed toy_prims 3 (store_sigma [] st)) = (st', io) \<and>
     length io = 33"
proof -
  let ?b = "AndG 0 1 (\<lambda>w. Ret [w])" and ?w = "toy_wires 1 [1, 1]" and ?pr = "en_proto (toy_engine 1)"
  obtain outs' st pr' where s: "run_setup (0 :: block) ?pr ?w ?b = (outs', st, pr')" by (metis surj_pair)
  obtain st' io where g: "garbler_send toy_prims ?b (set_seed toy_prims 3 (store_sigma [] st)) = (st', io)" by (metis surj_pair)
  have n: "sw_size ?w = 2" by (simp add: sw_size_def public_wires_def)
  have src: "stream_of (sw_size ?w) ?b = ([2], [EAnd 0 1])" unfolding n by simp
  have wf: "wf_stream (sw_size ?w) [EAnd 0 1]" unfolding n by (simp add: wf_stream_def)
  have p: "pc_party ?pr = 1" by (simp add: toy_engine_def toy_proto_def init_protocol_def toy_pool_def)
  show ?thesis using ciphertext_volume [OF s p src wf g] s g by (simp add: num_and_evs_def)
qed

end
