(* ===== verification/Session.thy ===== *)
theory Session
  imports Program_Run
begin

text \<open>
  The public handle \<^verbatim>\<open>AG2PCSession\<close> of \<^verbatim>\<open>session/ag2pc_session.h\<close>. A
  session is one party's protocol, recorder and carried state; what a party does on its own is a
  function of its session, a call that exchanges messages is a function of both sessions. A typed
  value is the list of its wire ids and a cleartext the list of its bits: the typed layer is
  emp-tool's.
\<close>

section \<open>State\<close>

record carried_state =
  cs_bundle :: ashare
  cs_Lambda :: byte
  cs_label0 :: block
  cs_evlbl :: block

definition no_carried :: carried_state where
  "no_carried = \<lparr>cs_bundle = zero_share, cs_Lambda = 0, cs_label0 = 0, cs_evlbl = 0\<rparr>"

type_synonym carried = "wire \<rightharpoonup> carried_state"

text \<open>The protocol is the one inside the engine, to which \<^verbatim>\<open>engine_\<close> points.\<close>

record session =
  ss_engine :: engine
  ss_ctx :: recorder
  ss_carried :: carried

abbreviation ss_proto :: "session \<Rightarrow> protocol" where
  "ss_proto s \<equiv> en_proto (ss_engine s)"

definition set_proto :: "protocol \<Rightarrow> session \<Rightarrow> session" where
  "set_proto p s = s\<lparr>ss_engine := (ss_engine s)\<lparr>en_proto := p\<rparr>\<rparr>"

definition init_session :: "nat \<Rightarrow> pool \<Rightarrow> session" where
  "init_session party fpre =
     \<lparr>ss_engine = \<lparr>en_proto = init_protocol party fpre, en_total_ands = 0\<rparr>,
      ss_ctx = init_recorder, ss_carried = Map.empty\<rparr>"

definition is_evaluator :: "protocol \<Rightarrow> bool" where
  "is_evaluator p \<longleftrightarrow> pc_party p \<noteq> ALICE"

section \<open>Carried state\<close>

definition carry_load :: "carried_state \<Rightarrow> secure_wires \<Rightarrow> nat \<Rightarrow> bool \<Rightarrow> carried_state" where
  "carry_load c s i is_eval =
     (let c = c\<lparr>cs_Lambda := sw_Lambda s ! i, cs_bundle := sw_bundle s ! i\<rparr>
      in if is_eval then c\<lparr>cs_evlbl := sw_eval_label s ! i\<rparr> else c\<lparr>cs_label0 := sw_label0 s ! i\<rparr>)"

definition carry_store :: "carried_state \<Rightarrow> secure_wires \<Rightarrow> nat \<Rightarrow> bool \<Rightarrow> secure_wires" where
  "carry_store c s i is_eval =
     (let s = s\<lparr>sw_Lambda := (sw_Lambda s)[i := cs_Lambda c], sw_bundle := (sw_bundle s)[i := cs_bundle c]\<rparr>
      in if is_eval then s\<lparr>sw_eval_label := (sw_eval_label s)[i := cs_evlbl c]\<rparr>
         else s\<lparr>sw_label0 := (sw_label0 s)[i := cs_label0 c]\<rparr>)"

text \<open>\<^verbatim>\<open>carried_[id]\<close> default-constructs an absent entry.\<close>

definition carried_at :: "carried \<Rightarrow> wire \<Rightarrow> carried_state" where
  "carried_at m w = (case m w of None \<Rightarrow> no_carried | Some c \<Rightarrow> c)"

definition carry_range :: "bool \<Rightarrow> wire list \<Rightarrow> secure_wires \<Rightarrow> carried \<Rightarrow> carried" where
  "carry_range is_eval ids bundle m =
     fold (\<lambda>i m. m(ids ! i \<mapsto> carry_load (carried_at m (ids ! i)) bundle i is_eval)) [0..<length ids] m"

definition materialize_into :: "wire list \<Rightarrow> secure_wires \<Rightarrow> session \<Rightarrow> session result" where
  "materialize_into ids bundle s =
     (if sw_size bundle \<noteq> length ids then Inl Materialize_Width
      else Inr (s\<lparr>ss_carried := carry_range (is_evaluator (ss_proto s)) ids bundle (ss_carried s)\<rparr>))"

definition materialize :: "secure_wires \<Rightarrow> session \<Rightarrow> (wire list \<times> session) result" where
  "materialize bundle s =
     bind_result (reserve_ids (sw_size bundle) (ss_ctx s)) (\<lambda>(ids, r).
     bind_result (materialize_into ids bundle (s\<lparr>ss_ctx := r\<rparr>)) (\<lambda>s. Inr (ids, s)))"

definition sized_wires :: "nat \<Rightarrow> bool \<Rightarrow> secure_wires" where
  "sized_wires n is_eval =
     \<lparr>sw_Lambda = replicate n 0, sw_bundle = replicate n zero_share,
      sw_label0 = (if is_eval then [] else replicate n 0),
      sw_eval_label = (if is_eval then replicate n 0 else [])\<rparr>"

primrec gather_loop :: "bool \<Rightarrow> carried \<Rightarrow> wire list \<Rightarrow> nat \<Rightarrow> secure_wires \<Rightarrow> secure_wires result" where
  "gather_loop is_eval m [] i s = Inr s"
| "gather_loop is_eval m (w # ids) i s =
     (case m w of None \<Rightarrow> Inl No_Carried_State
      | Some c \<Rightarrow> gather_loop is_eval m ids (Suc i) (carry_store c s i is_eval))"

definition gather_carried :: "wire list \<Rightarrow> session \<Rightarrow> secure_wires result" where
  "gather_carried ids s =
     (let is_eval = is_evaluator (ss_proto s)
      in gather_loop is_eval (ss_carried s) ids 0 (sized_wires (length ids) is_eval))"

text \<open>\<^verbatim>\<open>append_arg_\<close> and the fold over the arguments of a run.\<close>

definition append_arg :: "wire list \<Rightarrow> session \<Rightarrow> secure_wires \<Rightarrow> secure_wires result" where
  "append_arg ids s bundle =
     (if \<exists>w \<in> set ids. ss_carried s w = None then Inl Arg_Unflushed
      else bind_result (gather_carried ids s) (\<lambda>b. Inr (append_bundle bundle b)))"

primrec append_args :: "wire list list \<Rightarrow> session \<Rightarrow> secure_wires \<Rightarrow> secure_wires result" where
  "append_args [] s bundle = Inr bundle"
| "append_args (ids # args) s bundle =
     bind_result (append_arg ids s bundle) (\<lambda>b. append_args args s b)"

section \<open>Inputs\<close>

text \<open>Results of a call of both parties.\<close>

type_synonym 'a both = "(('a \<times> session) \<times> ('a \<times> session)) result"

definition both :: "(session \<Rightarrow> ('a \<times> session) result) \<Rightarrow> (session \<Rightarrow> ('a \<times> session) result) \<Rightarrow>
    session \<Rightarrow> session \<Rightarrow> 'a both" where
  "both f g s1 s2 = bind_result (f s1) (\<lambda>r1. bind_result (g s2) (\<lambda>r2. Inr (r1, r2)))"

definition authenticate ::
  "('m, 'd) prims \<Rightarrow> nat \<Rightarrow> byte list \<Rightarrow> byte list \<Rightarrow> block list \<Rightarrow> session \<Rightarrow> session \<Rightarrow> secure_wires both" where
  "authenticate P owner bits1 bits2 labels s1 s2 =
     (if owner = PUBLIC then
        Inr ((public_wires (ss_proto s1) bits1, s1), (public_wires (ss_proto s2) bits2, s2))
      else if owner \<noteq> ALICE \<and> owner \<noteq> BOB then Inl Input_Owner
      else bind_result (process_inputs P [owner] [bits1] [bits2] labels (ss_proto s1) (ss_proto s2))
        (\<lambda>((g, p), (e, q)). Inr ((g ! 0, set_proto p s1), (e ! 0, set_proto q s2))))"

definition session_input ::
  "('m, 'd) prims \<Rightarrow> nat \<Rightarrow> byte list \<Rightarrow> byte list \<Rightarrow> block list \<Rightarrow> session \<Rightarrow> session \<Rightarrow> wire list both" where
  "session_input P owner bits1 bits2 labels s1 s2 =
     bind_result (authenticate P owner bits1 bits2 labels s1 s2) (\<lambda>((g, s1), (e, s2)).
       both (materialize g) (materialize e) s1 s2)"

record batch =
  ib_owners :: "nat list"
  ib_bits :: "byte list list"
  ib_ids :: "wire list list"
  ib_finished :: bool

definition input_batch :: batch where
  "input_batch = \<lparr>ib_owners = [], ib_bits = [], ib_ids = [], ib_finished = False\<rparr>"

definition batch_add :: "nat \<Rightarrow> byte list \<Rightarrow> batch \<Rightarrow> session \<Rightarrow> ((wire list \<times> batch) \<times> session) result" where
  "batch_add owner bits b s =
     (if ib_finished b then Inl Batch_Add_After_Finish
      else bind_result (reserve_ids (length bits) (ss_ctx s)) (\<lambda>(ids, r).
        Inr ((ids, b\<lparr>ib_owners := ib_owners b @ [owner], ib_bits := ib_bits b @ [bits],
                    ib_ids := ib_ids b @ [ids]\<rparr>), s\<lparr>ss_ctx := r\<rparr>)))"

text \<open>
  The first loop of \<^verbatim>\<open>batch_finish_\<close>: public bundles are stored at once, the others are
  left to one \<^verbatim>\<open>process_inputs\<close> call.
\<close>

primrec batch_loop :: "nat list \<Rightarrow> nat \<Rightarrow> byte list list \<Rightarrow> wire list list \<Rightarrow> session \<Rightarrow> session result" where
  "batch_loop [] a bits ids s = Inr s"
| "batch_loop (o' # os) a bits ids s =
     (if o' = PUBLIC then
        bind_result (materialize_into (ids ! a) (public_wires (ss_proto s) (bits ! a)) s) (batch_loop os (Suc a) bits ids)
      else if o' = ALICE \<or> o' = BOB then batch_loop os (Suc a) bits ids s
      else Inl Batch_Owner)"

definition sec_adds :: "nat list \<Rightarrow> nat list" where
  "sec_adds owners = filter (\<lambda>a. owners ! a = ALICE \<or> owners ! a = BOB) [0..<length owners]"

primrec materialize_all :: "(wire list \<times> secure_wires) list \<Rightarrow> session \<Rightarrow> session result" where
  "materialize_all [] s = Inr s"
| "materialize_all (x # xs) s =
     bind_result (materialize_into (fst x) (snd x) s) (materialize_all xs)"

text \<open>
  Both parties; they must have added for the same owners. \<open>batch_finish_\<close> is the call on the
  session, \<open>batch_finish\<close> the one on the batch.
\<close>

definition batch_finish_all ::
  "('m, 'd) prims \<Rightarrow> block list \<Rightarrow> nat list \<Rightarrow> byte list list \<Rightarrow> byte list list \<Rightarrow>
   wire list list \<Rightarrow> wire list list \<Rightarrow> session \<Rightarrow> session \<Rightarrow> unit both" where
  "batch_finish_all P labels owners bits1 bits2 ids1 ids2 s1 s2 =
     bind_result (batch_loop owners 0 bits1 ids1 s1) (\<lambda>s1.
     bind_result (batch_loop owners 0 bits2 ids2 s2) (\<lambda>s2.
       let sec = sec_adds owners in
       if sec = [] then Inr (((), s1), ((), s2))
       else bind_result (process_inputs P (map ((!) owners) sec) (map ((!) bits1) sec) (map ((!) bits2) sec)
           labels (ss_proto s1) (ss_proto s2)) (\<lambda>((g, p), (e, q)).
         bind_result (materialize_all (zip (map ((!) ids1) sec) g) (set_proto p s1)) (\<lambda>s1.
         bind_result (materialize_all (zip (map ((!) ids2) sec) e) (set_proto q s2)) (\<lambda>s2.
           Inr (((), s1), ((), s2)))))))"

definition batch_finish ::
  "('m, 'd) prims \<Rightarrow> block list \<Rightarrow> batch \<Rightarrow> batch \<Rightarrow> session \<Rightarrow> session \<Rightarrow> batch both" where
  "batch_finish P labels b1 b2 s1 s2 =
     (if ib_finished b1 \<or> ib_finished b2 then Inl Batch_Finish_Twice
      else if ib_owners b1 \<noteq> ib_owners b2 then Inl Desynchronised
      else bind_result (batch_finish_all P labels (ib_owners b1) (ib_bits b1) (ib_bits b2) (ib_ids b1) (ib_ids b2) s1 s2)
        (\<lambda>((u, s1), (v, s2)). Inr ((b1\<lparr>ib_finished := True\<rparr>, s1), (b2\<lparr>ib_finished := True\<rparr>, s2))))"

section \<open>Flushing the pending chunk\<close>

text \<open>
  What \<^verbatim>\<open>flush_\<close> does before the run: the plan and the gathered inputs, or nothing when
  no kept id is pending.
\<close>

definition flush_begin :: "wire list \<Rightarrow> session \<Rightarrow> (flush_plan \<times> secure_wires) option result" where
  "flush_begin keep s =
     (if \<exists>w \<in> set keep. \<not> is_pending (ss_ctx s) w \<and> ss_carried s w = None then Inl Keep_Stale
      else if \<not> (\<exists>w \<in> set keep. is_pending (ss_ctx s) w) then Inr None
      else let plan = plan_flush (chunk_gates (ss_ctx s)) keep (\<lambda>w. ss_carried s w \<noteq> None)
           in if \<not> fp_ok plan then Inl Stale_Operand
              else bind_result (gather_carried (fp_input_ids plan) s) (\<lambda>b. Inr (Some (plan, b))))"

definition drop_session_chunk :: "session \<Rightarrow> session" where
  "drop_session_chunk s = s\<lparr>ss_ctx := drop_chunk (ss_ctx s)\<rparr>"

definition flush_end :: "flush_plan \<Rightarrow> secure_wires \<Rightarrow> engine \<Rightarrow> session \<Rightarrow> session" where
  "flush_end plan result en s =
     drop_session_chunk (s\<lparr>ss_engine := en,
       ss_carried := carry_range (is_evaluator (en_proto en)) (fp_output_ids plan) result (ss_carried s)\<rparr>)"

text \<open>
  What a session uses of emp-tool and of the randomness of one run.
\<close>

record ('m, 'd) tools =
  tl_prims :: "('m, 'd) prims"
  tl_validate :: "program \<Rightarrow> bool"
  tl_exec :: "program \<Rightarrow> wire list \<Rightarrow> body"
  tl_hash0 :: 'm

definition session_run_program ::
  "('m, 'd) tools \<Rightarrow> run_coins \<Rightarrow> program \<Rightarrow> secure_wires \<Rightarrow> secure_wires \<Rightarrow> engine \<Rightarrow> engine \<Rightarrow>
   ((secure_wires \<times> engine) \<times> (secure_wires \<times> engine)) result" where
  "session_run_program T rc prog b1 b2 en1 en2 =
     run_program (tl_prims T) (tl_validate T) (tl_exec T) rc (tl_hash0 T) prog (b1, en1) (b2, en2)"

definition flush :: "('m, 'd) tools \<Rightarrow> run_coins \<Rightarrow> wire list \<Rightarrow> session \<Rightarrow> session \<Rightarrow> unit both" where
  "flush T rc keep s1 s2 =
     bind_result (flush_begin keep s1) (\<lambda>f1. bind_result (flush_begin keep s2) (\<lambda>f2.
       case (f1, f2) of
         (None, None) \<Rightarrow> Inr (((), drop_session_chunk s1), ((), drop_session_chunk s2))
       | (Some (pl1, b1), Some (pl2, b2)) \<Rightarrow>
           if fp_prog pl1 \<noteq> fp_prog pl2 then Inl Desynchronised
           else bind_result (session_run_program T rc (fp_prog pl1) b1 b2 (ss_engine s1) (ss_engine s2))
             (\<lambda>((o1, en1), (o2, en2)). Inr (((), flush_end pl1 o1 en1 s1), ((), flush_end pl2 o2 en2 s2)))
       | _ \<Rightarrow> Inl Desynchronised))"

section \<open>Opening and pruning\<close>

text \<open>A recipient gets the bits of the value, the other party \<^verbatim>\<open>nullopt\<close>.\<close>

definition reveal_result :: "nat \<Rightarrow> byte list \<Rightarrow> bool list option" where
  "reveal_result W bits = (if length bits \<noteq> W then None else Some (map nz bits))"

definition reveal ::
  "('m, 'd) tools \<Rightarrow> run_coins \<Rightarrow> wire list \<Rightarrow> nat \<Rightarrow> wire list list \<Rightarrow> session \<Rightarrow> session \<Rightarrow> bool list option both" where
  "reveal T rc v recipient keep s1 s2 =
     (if recipient \<noteq> PUBLIC \<and> recipient \<noteq> ALICE \<and> recipient \<noteq> BOB then Inl Recipient_Invalid
      else bind_result (flush T rc (v @ concat keep) s1 s2) (\<lambda>((u1, s1), (u2, s2)).
        bind_result (gather_carried v s1) (\<lambda>g. bind_result (gather_carried v s2) (\<lambda>e.
          bind_result (decode (tl_prims T) recipient (ss_proto s1) (ss_proto s2) g e) (\<lambda>(bits1, bits2).
            Inr ((reveal_result (length v) bits1, s1), (reveal_result (length v) bits2, s2)))))))"

definition prune :: "wire list \<Rightarrow> session \<Rightarrow> session" where
  "prune keep s = s\<lparr>ss_carried := ss_carried s |` set keep\<rparr>"

definition checkpoint ::
  "('m, 'd) tools \<Rightarrow> run_coins \<Rightarrow> wire list list \<Rightarrow> session \<Rightarrow> session \<Rightarrow> unit both" where
  "checkpoint T rc keep s1 s2 =
     bind_result (flush T rc (concat keep) s1 s2) (\<lambda>((u1, s1), (u2, s2)).
       Inr (((), prune (concat keep) s1), ((), prune (concat keep) s2)))"

section \<open>Running programs and bodies\<close>

definition wrap_outputs ::
  "((secure_wires \<times> engine) \<times> (secure_wires \<times> engine)) result \<Rightarrow> session \<Rightarrow> session \<Rightarrow> wire list both" where
  "wrap_outputs r s1 s2 = bind_result r (\<lambda>((o1, en1), (o2, en2)).
     both (materialize o1) (materialize o2) (s1\<lparr>ss_engine := en1\<rparr>) (s2\<lparr>ss_engine := en2\<rparr>))"

definition run_circuit ::
  "('m, 'd) tools \<Rightarrow> run_coins \<Rightarrow> program \<Rightarrow> wire list list \<Rightarrow> session \<Rightarrow> session \<Rightarrow> wire list both" where
  "run_circuit T rc prog args s1 s2 =
     bind_result (append_args args s1 empty_wires) (\<lambda>b1. bind_result (append_args args s2 empty_wires) (\<lambda>b2.
       if sw_size b1 \<noteq> p_num_inputs prog \<or> sw_size b2 \<noteq> p_num_inputs prog then Inl Arg_Width
       else wrap_outputs (session_run_program T rc prog b1 b2 (ss_engine s1) (ss_engine s2)) s1 s2))"

definition run_artifact ::
  "('m, 'd) tools \<Rightarrow> run_coins \<Rightarrow> nat \<Rightarrow> program \<Rightarrow> wire list list \<Rightarrow> session \<Rightarrow> session \<Rightarrow> wire list both" where
  "run_artifact T rc width prog args s1 s2 =
     bind_result (append_args args s1 empty_wires) (\<lambda>b1. bind_result (append_args args s2 empty_wires) (\<lambda>b2.
       if sw_size b1 \<noteq> p_num_inputs prog \<or> sw_size b2 \<noteq> p_num_inputs prog then Inl Arg_Width
       else if width \<noteq> length (p_outputs prog) then Inl Output_Width
       else wrap_outputs (session_run_program T rc prog b1 b2 (ss_engine s1) (ss_engine s2)) s1 s2))"

text \<open>
  A live body \<open>f\<close> is given its arguments as wire ids and packs its output ids;
  \<^verbatim>\<open>body_replay\<close> binds the arguments to the input ids from 0.
\<close>

definition body_replay :: "nat list \<Rightarrow> (wire list list \<Rightarrow> body) \<Rightarrow> body" where
  "body_replay widths f =
     (let total = sum_list widths; ids = [0..<total];
          base = (\<lambda>k. sum_list (take k widths))
      in f (map (\<lambda>k. range_of (base k) (base k + widths ! k) ids) [0..<length widths]))"

definition run_body ::
  "('m, 'd) tools \<Rightarrow> run_coins \<Rightarrow> (wire list list \<Rightarrow> body) \<Rightarrow> wire list list \<Rightarrow> session \<Rightarrow> session \<Rightarrow> wire list both" where
  "run_body T rc f args s1 s2 =
     bind_result (append_args args s1 empty_wires) (\<lambda>b1. bind_result (append_args args s2 empty_wires) (\<lambda>b2.
       wrap_outputs (run_source (tl_prims T) rc (tl_hash0 T) (body_replay (map length args) f)
         (b1, ss_engine s1) (b2, ss_engine s2)) s1 s2))"

text \<open>A gate operation on the session's context.\<close>

definition session_gate :: "(recorder \<Rightarrow> (wire \<times> recorder) result) \<Rightarrow> session \<Rightarrow> (wire list \<times> session) result" where
  "session_gate f s = bind_result (f (ss_ctx s)) (\<lambda>(w, r). Inr ([w], s\<lparr>ss_ctx := r\<rparr>))"

section \<open>The carried store\<close>

text \<open>The gather loop reads every wire, or fails on the first absent one.\<close>

definition carried_bundle :: "bool \<Rightarrow> carried \<Rightarrow> wire list \<Rightarrow> secure_wires" where
  "carried_bundle is_eval m ids =
     \<lparr>sw_Lambda = map (\<lambda>w. cs_Lambda (the (m w))) ids, sw_bundle = map (\<lambda>w. cs_bundle (the (m w))) ids,
      sw_label0 = (if is_eval then [] else map (\<lambda>w. cs_label0 (the (m w))) ids),
      sw_eval_label = (if is_eval then map (\<lambda>w. cs_evlbl (the (m w))) ids else [])\<rparr>"

lemma take_update_snoc: "length xs = i + Suc n \<Longrightarrow> take (Suc i) (xs[i := x]) = take i xs @ [x]"
  by (simp add: take_Suc_conv_app_nth)

lemma gather_loop_ok:
  assumes "\<forall>w \<in> set ids. m w \<noteq> None"
    and "length (sw_Lambda s) = i + length ids" "length (sw_bundle s) = i + length ids"
    and "if is_eval then length (sw_eval_label s) = i + length ids else length (sw_label0 s) = i + length ids"
  shows "gather_loop is_eval m ids i s = Inr
     \<lparr>sw_Lambda = take i (sw_Lambda s) @ sw_Lambda (carried_bundle is_eval m ids),
      sw_bundle = take i (sw_bundle s) @ sw_bundle (carried_bundle is_eval m ids),
      sw_label0 = (if is_eval then sw_label0 s else take i (sw_label0 s) @ sw_label0 (carried_bundle is_eval m ids)),
      sw_eval_label = (if is_eval then take i (sw_eval_label s) @ sw_eval_label (carried_bundle is_eval m ids)
                       else sw_eval_label s)\<rparr>"
  using assms
proof (induction ids arbitrary: i s)
  case (Cons w ids)
  then obtain c where c: "m w = Some c" by auto
  have "gather_loop is_eval m ids (Suc i) (carry_store c s i is_eval) = Inr
     \<lparr>sw_Lambda = take (Suc i) (sw_Lambda (carry_store c s i is_eval)) @ sw_Lambda (carried_bundle is_eval m ids),
      sw_bundle = take (Suc i) (sw_bundle (carry_store c s i is_eval)) @ sw_bundle (carried_bundle is_eval m ids),
      sw_label0 = (if is_eval then sw_label0 (carry_store c s i is_eval)
        else take (Suc i) (sw_label0 (carry_store c s i is_eval)) @ sw_label0 (carried_bundle is_eval m ids)),
      sw_eval_label = (if is_eval then take (Suc i) (sw_eval_label (carry_store c s i is_eval)) @
          sw_eval_label (carried_bundle is_eval m ids) else sw_eval_label (carry_store c s i is_eval))\<rparr>"
    by (rule Cons.IH) (use Cons.prems in \<open>auto simp: carry_store_def Let_def\<close>)
  then show ?case
    using Cons.prems(2-4) c
    by (cases is_eval) (simp_all add: carry_store_def Let_def carried_bundle_def take_update_snoc)
qed (cases is_eval; simp add: carried_bundle_def)

lemma gather_loop_stale:
  "\<exists>w \<in> set ids. m w = None \<Longrightarrow> gather_loop is_eval m ids i s = Inl No_Carried_State"
  by (induction ids arbitrary: i s) (auto split: option.split)

lemma gather_loop_eq:
  "gather_loop is_eval m ids 0 (sized_wires (length ids) is_eval) =
     (if \<exists>w \<in> set ids. m w = None then Inl No_Carried_State else Inr (carried_bundle is_eval m ids))"
proof (cases "\<exists>w \<in> set ids. m w = None")
  case False
  then show ?thesis
    using gather_loop_ok [of ids m "sized_wires (length ids) is_eval" 0 is_eval]
    by (cases is_eval) (auto simp: sized_wires_def carried_bundle_def)
qed (simp add: gather_loop_stale)

lemma gather_carried_eq:
  "gather_carried ids s =
     (if \<exists>w \<in> set ids. ss_carried s w = None then Inl No_Carried_State
      else Inr (carried_bundle (is_evaluator (ss_proto s)) (ss_carried s) ids))"
  by (simp add: gather_carried_def Let_def gather_loop_eq)

text \<open>Storing a bundle, one wire after the other.\<close>

lemma carry_range_Suc:
  assumes "P m" and "\<And>i m. i < length ids \<Longrightarrow> P m \<Longrightarrow> P (m(ids ! i \<mapsto> carry_load (carried_at m (ids ! i)) b i is_eval))"
  shows "P (carry_range is_eval ids b m)"
proof -
  have "P (fold (\<lambda>i m. m(ids ! i \<mapsto> carry_load (carried_at m (ids ! i)) b i is_eval)) [0..<k] m)"
    if "k \<le> length ids" for k
    using that by (induction k) (simp_all add: assms)
  then show ?thesis by (simp add: carry_range_def)
qed

lemma carry_range_other: "w \<notin> set ids \<Longrightarrow> carry_range is_eval ids b m w = m w"
  by (rule carry_range_Suc) auto

lemma carry_range_dom: "dom (carry_range is_eval ids b m) = dom m \<union> set ids"
proof -
  have "dom (fold (\<lambda>i m. m(ids ! i \<mapsto> carry_load (carried_at m (ids ! i)) b i is_eval)) [0..<k] m) =
      dom m \<union> set (take k ids)" if "k \<le> length ids" for k
    using that by (induction k) (auto simp: take_Suc_conv_app_nth)
  from this [of "length ids"] show ?thesis by (simp add: carry_range_def)
qed

lemma carry_range_nth:
  assumes "distinct ids" and "j < length ids"
  shows "carry_range is_eval ids b m (ids ! j) = Some (carry_load (carried_at m (ids ! j)) b j is_eval)"
proof -
  let ?f = "\<lambda>i m. m(ids ! i \<mapsto> carry_load (carried_at m (ids ! i)) b i is_eval)"
  have "fold ?f [0..<k] m (ids ! j) =
      (if j < k then Some (carry_load (carried_at m (ids ! j)) b j is_eval) else m (ids ! j))" if "k \<le> length ids" for k
    using that
  proof (induction k)
    case (Suc k)
    then show ?case
      using nth_eq_iff_index_eq [OF assms(1), of k j] assms(2) by (auto simp: carried_at_def)
  qed simp
  from this [of "length ids"] show ?thesis using assms(2) by (simp add: carry_range_def)
qed

text \<open>
  The contract the session's clients rely on: a stored bundle is read back as it was, and no other
  wire changes.
\<close>

locale wire_store =
  fixes load :: "wire list \<Rightarrow> 'b \<Rightarrow> 's \<Rightarrow> 's"
    and gather :: "wire list \<Rightarrow> 's \<Rightarrow> 'b result"
    and width :: "'b \<Rightarrow> nat"
    and fits :: "'b \<Rightarrow> bool"
  assumes gather_load: "fits b \<Longrightarrow> width b = length ids \<Longrightarrow> distinct ids \<Longrightarrow> gather ids (load ids b s) = Inr b"
    and gather_other: "set ids \<inter> set jds = {} \<Longrightarrow> gather jds (load ids b s) = gather jds s"
begin

lemma gather_first:
  assumes "fits b" "width b = length ids" "distinct ids" "set ids \<inter> set jds = {}"
  shows "gather ids (load jds c (load ids b s)) = Inr b"
proof -
  have "set jds \<inter> set ids = {}" using assms(4) by blast
  then show ?thesis using assms(1-3) by (simp add: gather_other gather_load)
qed

lemma gather_overwritten:
  "fits c \<Longrightarrow> width c = length ids \<Longrightarrow> distinct ids \<Longrightarrow> gather ids (load ids c (load ids b s)) = Inr c"
  by (rule gather_load)

end

interpretation carried: wire_store "carry_range is_eval"
  "\<lambda>ids m. gather_loop is_eval m ids 0 (sized_wires (length ids) is_eval)" sw_size
  "sw_layout (if is_eval then 2 else 1)" for is_eval
proof (unfold_locales, goal_cases)
  case (1 b ids m)
  let ?m = "carry_range is_eval ids b m"
  have c: "?m (ids ! j) = Some (carry_load (carried_at m (ids ! j)) b j is_eval)" if "j < length ids" for j
    using carry_range_nth [OF 1(3) that] .
  have "\<not> (\<exists>w \<in> set ids. ?m w = None)" using carry_range_dom [of is_eval ids b m] by blast
  moreover have "carried_bundle is_eval ?m ids = b"
    using 1(1,2) c
    by (cases is_eval; cases b)
       (auto simp: carried_bundle_def sw_layout_def sw_size_def carry_load_def Let_def intro!: nth_equalityI)
  ultimately show ?case by (simp add: gather_loop_eq)
next
  case (2 ids jds b m)
  have same: "carry_range is_eval ids b m w = m w" if "w \<in> set jds" for w
    using 2 that by (intro carry_range_other) blast
  have "carried_bundle is_eval (carry_range is_eval ids b m) jds = carried_bundle is_eval m jds"
    by (auto simp only: carried_bundle_def same cong: map_cong)
  then show ?case by (simp add: gather_loop_eq same)
qed

section \<open>Properties\<close>

text \<open>
  C35: materializing a bundle hands out fresh, distinct wire ids; reading them back gives the bundle
  as it was, and the wires already held are not touched.
\<close>

theorem materialized_bundle_roundtrip:
  assumes "materialize b s = Inr (ids, s')" and "sw_layout (if is_evaluator (ss_proto s) then 2 else 1) b"
  shows "ids = [next_id (ss_ctx s)..<next_id (ss_ctx s) + sw_size b] \<and> gather_carried ids s' = Inr b \<and>
    (\<forall>jds. (\<forall>w \<in> set jds. w < next_id (ss_ctx s)) \<longrightarrow> gather_carried jds s' = gather_carried jds s)"
proof -
  let ?e = "is_evaluator (ss_proto s)"
  obtain r where r: "reserve_ids (sw_size b) (ss_ctx s) = Inr (ids, r)"
    and m: "materialize_into ids b (s\<lparr>ss_ctx := r\<rparr>) = Inr s'"
    using assms(1) by (auto simp: materialize_def bind_result_Inr)
  have ids: "ids = [next_id (ss_ctx s)..<next_id (ss_ctx s) + sw_size b]" using reserve_ids_eq [OF r] by blast
  have s': "s' = s\<lparr>ss_ctx := r, ss_carried := carry_range ?e ids b (ss_carried s)\<rparr>"
    using m by (simp add: materialize_into_def split: if_splits)
  have "gather_carried ids s' = Inr b"
    using carried.gather_load [OF assms(2), of ids "ss_carried s"] by (simp add: s' gather_carried_def Let_def ids)
  moreover have "gather_carried jds s' = gather_carried jds s" if "\<forall>w \<in> set jds. w < next_id (ss_ctx s)" for jds
  proof -
    have "set ids \<inter> set jds = {}" using that by (force simp: ids)
    from carried.gather_other [OF this, of ?e b "ss_carried s"] show ?thesis
      by (simp add: s' gather_carried_def Let_def)
  qed
  ultimately show ?thesis using ids by blast
qed

theorem materialized_bundle_roundtrip_witness:
  "\<exists>s'. materialize (toy_wires 1 [1, 0]) (init_session 1 (toy_pool 1)) = Inr ([0, 1], s') \<and>
     gather_carried [0, 1] s' = Inr (toy_wires 1 [1, 0])"
proof -
  let ?s = "init_session 1 (toy_pool 1)" and ?b = "toy_wires 1 [1, 0]"
  have size: "sw_size ?b = Suc (Suc 0)" by (simp add: sw_size_def public_wires_def)
  obtain r where r: "reserve_ids (sw_size ?b) (ss_ctx ?s) = Inr ([0, 1], r)"
    unfolding size by (simp add: init_session_def alloc_id_def init_recorder_def UINT32_MAX_def)
  have "\<exists>s'. materialize_into [0, 1] ?b (?s\<lparr>ss_ctx := r\<rparr>) = Inr s'"
    unfolding materialize_into_def size by simp
  then obtain s' where m: "materialize ?b ?s = Inr ([0, 1], s')"
    unfolding materialize_def r bind_result_simps prod.case by auto
  have "sw_layout (if is_evaluator (ss_proto ?s) then 2 else 1) ?b"
    using toy_wires_rel [of "[1, 0]"]
    by (simp add: is_evaluator_def init_session_def init_protocol_def toy_pool_def party_defs wires_rel_def eval_rel_def)
  from materialized_bundle_roundtrip [OF m this] m show ?thesis by blast
qed

text \<open>Storing wires leaves the engine alone.\<close>

lemma materialize_into_engine: "materialize_into ids b s = Inr s' \<Longrightarrow> ss_engine s' = ss_engine s"
  by (auto simp: materialize_into_def split: if_splits)

lemma materialize_engine: "materialize b s = Inr (ids, s') \<Longrightarrow> ss_engine s' = ss_engine s"
  by (auto simp: materialize_def bind_result_Inr dest!: materialize_into_engine)

section \<open>The arguments of a run\<close>

lemma carried_bundle_layout:
  "sw_layout (if is_eval then 2 else 1) (carried_bundle is_eval m ids)" "sw_size (carried_bundle is_eval m ids) = length ids"
  by (simp_all add: sw_layout_def sw_size_def carried_bundle_def)

lemma carried_bundle_append:
  "append_bundle b (carried_bundle is_eval m []) = b"
  "append_bundle (append_bundle b (carried_bundle is_eval m ids)) (carried_bundle is_eval m jds) =
   append_bundle b (carried_bundle is_eval m (ids @ jds))"
  by (simp_all add: append_bundle_def carried_bundle_def)

lemma carried_bundle_check:
  "check_secure_wires (carried_bundle (is_evaluator p) m ids) (pc_party p) = Inr ()"
  by (simp add: check_secure_wires_def carried_bundle_def is_evaluator_def party_defs)

text \<open>Appending the arguments one by one gathers the wires of all of them.\<close>

lemma append_args_eq:
  "append_args args s b =
     (if \<exists>w \<in> set (concat args). ss_carried s w = None then Inl Arg_Unflushed
      else Inr (append_bundle b (carried_bundle (is_evaluator (ss_proto s)) (ss_carried s) (concat args))))"
proof (induction args arbitrary: b)
  case (Cons ids args)
  show ?case
  proof (cases "\<exists>w \<in> set ids. ss_carried s w = None")
    case False
    then have "append_arg ids s b = Inr (append_bundle b (carried_bundle (is_evaluator (ss_proto s)) (ss_carried s) ids))"
      unfolding append_arg_def gather_carried_eq if_not_P [OF False] by simp
    moreover have "(\<exists>w \<in> set (concat (ids # args)). ss_carried s w = None) = (\<exists>w \<in> set (concat args). ss_carried s w = None)"
      using False by auto
    ultimately show ?thesis by (simp only: append_args.simps bind_result_simps Cons.IH carried_bundle_append concat.simps)
  qed (auto simp: append_arg_def)
qed (simp add: carried_bundle_append)

text \<open>
  C36: the bundle a session builds from the arguments of a run is the one it would gather from all
  their wires at once, refused exactly when some wire has no state; and every bundle a session
  gathers has one entry per wire and passes the layout check of its party.
\<close>

theorem gathered_bundles_well_formed:
  "append_args args s empty_wires =
     (if \<exists>w \<in> set (concat args). ss_carried s w = None then Inl Arg_Unflushed else gather_carried (concat args) s) \<and>
   (case gather_carried ids s of
      Inl err \<Rightarrow> err = No_Carried_State \<and> (\<exists>w \<in> set ids. ss_carried s w = None)
    | Inr b \<Rightarrow> sw_size b = length ids \<and> check_secure_wires b (pc_party (ss_proto s)) = Inr ())"
proof
  have "append_bundle empty_wires b = b" for b
    by (cases b) (simp add: append_bundle_def empty_wires_def)
  then show "append_args args s empty_wires =
     (if \<exists>w \<in> set (concat args). ss_carried s w = None then Inl Arg_Unflushed else gather_carried (concat args) s)"
    by (simp add: append_args_eq gather_carried_eq)
  show "case gather_carried ids s of
      Inl err \<Rightarrow> err = No_Carried_State \<and> (\<exists>w \<in> set ids. ss_carried s w = None)
    | Inr b \<Rightarrow> sw_size b = length ids \<and> check_secure_wires b (pc_party (ss_proto s)) = Inr ()"
    by (simp add: gather_carried_eq carried_bundle_check carried_bundle_layout)
qed

end
