(* ===== verification/Clear_Session.thy ===== *)
theory Clear_Session
  imports Session
begin

text \<open>
  What a session promises: the same calls on a session that holds cleartext bits. The relation
  between the two parties' sessions and the clear one, and for every call the lemma that the pair
  of sessions does what the clear session does, errors included.
\<close>

section \<open>The clear session\<close>

record clear_session =
  cl_ctx :: recorder
  cl_vals :: "wire \<rightharpoonup> bool"

definition init_clear :: clear_session where
  "init_clear = \<lparr>cl_ctx = init_recorder, cl_vals = Map.empty\<rparr>"

definition store_bits :: "wire list \<Rightarrow> bool list \<Rightarrow> (wire \<rightharpoonup> bool) \<Rightarrow> (wire \<rightharpoonup> bool)" where
  "store_bits ids bits v = fold (\<lambda>i v. v(ids ! i \<mapsto> bits ! i)) [0..<length ids] v"

definition cl_put :: "bool list \<Rightarrow> clear_session \<Rightarrow> (wire list \<times> clear_session) result" where
  "cl_put bits c = bind_result (reserve_ids (length bits) (cl_ctx c)) (\<lambda>(ids, r).
     Inr (ids, c\<lparr>cl_ctx := r, cl_vals := store_bits ids bits (cl_vals c)\<rparr>))"

text \<open>The owner's bits; of public bits, party 1's (both parties pass the same).\<close>

definition owner_bits :: "nat \<Rightarrow> byte list \<Rightarrow> byte list \<Rightarrow> bool list" where
  "owner_bits owner bits1 bits2 = map nz (if owner = BOB then bits2 else bits1)"

definition cl_input :: "nat \<Rightarrow> byte list \<Rightarrow> byte list \<Rightarrow> clear_session \<Rightarrow> (wire list \<times> clear_session) result" where
  "cl_input owner bits1 bits2 c =
     (if owner \<noteq> PUBLIC \<and> owner \<noteq> ALICE \<and> owner \<noteq> BOB then Inl Input_Owner
      else cl_put (owner_bits owner bits1 bits2) c)"

text \<open>The value of a pending wire is what the chunk computes, of another wire what is stored.\<close>

definition cl_value :: "clear_session \<Rightarrow> wire \<Rightarrow> bool" where
  "cl_value c = chunk_eval (chunk_gates (cl_ctx c)) (\<lambda>w. the (cl_vals c w))"

definition cl_flush :: "wire list \<Rightarrow> clear_session \<Rightarrow> clear_session result" where
  "cl_flush keep c =
     (let r = cl_ctx c; gs = chunk_gates r in
      if \<exists>w \<in> set keep. \<not> is_pending r w \<and> cl_vals c w = None then Inl Keep_Stale
      else if \<not> (\<exists>w \<in> set keep. is_pending r w) then Inr (c\<lparr>cl_ctx := drop_chunk r\<rparr>)
      else if \<exists>gi \<in> needed_gates gs keep. \<exists>w \<in> set (gate_operands (gs ! gi)). \<not> is_pending r w \<and> cl_vals c w = None
        then Inl Stale_Operand
      else Inr (c\<lparr>cl_ctx := drop_chunk r,
        cl_vals := (\<lambda>w. if w \<in> set keep \<and> is_pending r w then Some (cl_value c w) else cl_vals c w)\<rparr>))"

definition cl_reveal ::
  "wire list \<Rightarrow> nat \<Rightarrow> wire list list \<Rightarrow> clear_session \<Rightarrow> ((bool list option \<times> bool list option) \<times> clear_session) result" where
  "cl_reveal v recipient keep c =
     (if recipient \<noteq> PUBLIC \<and> recipient \<noteq> ALICE \<and> recipient \<noteq> BOB then Inl Recipient_Invalid
      else bind_result (cl_flush (v @ concat keep) c) (\<lambda>c.
        let x = Some (map (\<lambda>w. the (cl_vals c w)) v); none = (if v = [] then Some [] else None)
        in Inr ((if recipient = BOB then none else x, if recipient = ALICE then none else x), c)))"

definition cl_checkpoint :: "wire list list \<Rightarrow> clear_session \<Rightarrow> clear_session result" where
  "cl_checkpoint keep c = bind_result (cl_flush (concat keep) c) (\<lambda>c.
     Inr (c\<lparr>cl_vals := cl_vals c |` set (concat keep)\<rparr>))"

definition cl_args :: "wire list list \<Rightarrow> clear_session \<Rightarrow> bool list result" where
  "cl_args args c = (if \<exists>w \<in> set (concat args). cl_vals c w = None then Inl Arg_Unflushed
     else Inr (map (\<lambda>w. the (cl_vals c w)) (concat args)))"

definition cl_program :: "(program \<Rightarrow> bool) \<Rightarrow> program \<Rightarrow> bool list \<Rightarrow> clear_session \<Rightarrow> (wire list \<times> clear_session) result" where
  "cl_program validate prog vs c =
     (case program_error validate prog (length vs) of Some err \<Rightarrow> Inl err | None \<Rightarrow> cl_put (prog_clear prog vs) c)"

definition cl_run_circuit ::
  "(program \<Rightarrow> bool) \<Rightarrow> program \<Rightarrow> wire list list \<Rightarrow> clear_session \<Rightarrow> (wire list \<times> clear_session) result" where
  "cl_run_circuit validate prog args c = bind_result (cl_args args c) (\<lambda>vs.
     if length vs \<noteq> p_num_inputs prog then Inl Arg_Width else cl_program validate prog vs c)"

definition cl_run_artifact ::
  "(program \<Rightarrow> bool) \<Rightarrow> nat \<Rightarrow> program \<Rightarrow> wire list list \<Rightarrow> clear_session \<Rightarrow> (wire list \<times> clear_session) result" where
  "cl_run_artifact validate width prog args c = bind_result (cl_args args c) (\<lambda>vs.
     if length vs \<noteq> p_num_inputs prog then Inl Arg_Width
     else if width \<noteq> length (p_outputs prog) then Inl Output_Width
     else cl_program validate prog vs c)"

definition cl_run_body :: "(wire list list \<Rightarrow> body) \<Rightarrow> wire list list \<Rightarrow> clear_session \<Rightarrow> (wire list \<times> clear_session) result" where
  "cl_run_body f args c = bind_result (cl_args args c) (\<lambda>vs.
     cl_put (clear_outputs vs (stream_of (length vs) (body_replay (map length args) f))) c)"

definition cl_gate :: "(recorder \<Rightarrow> (wire \<times> recorder) result) \<Rightarrow> clear_session \<Rightarrow> (wire list \<times> clear_session) result" where
  "cl_gate f c = bind_result (f (cl_ctx c)) (\<lambda>(w, r). Inr ([w], c\<lparr>cl_ctx := r\<rparr>))"

section \<open>The relation\<close>

definition carried_rel :: "block \<Rightarrow> block \<Rightarrow> carried_state \<Rightarrow> carried_state \<Rightarrow> bool \<Rightarrow> bool" where
  "carried_rel D1 D2 c1 c2 b \<longleftrightarrow>
     shares_ok D1 D2 (cs_bundle c1) (cs_bundle c2) \<and> cs_Lambda c1 = cs_Lambda c2 \<and>
     cs_Lambda c2 = bbyte (b \<noteq> share_bit (cs_bundle c1) (cs_bundle c2)) \<and>
     cs_evlbl c2 = cs_label0 c1 XOR sel (nz (cs_Lambda c2)) D1"

definition stores_rel :: "block \<Rightarrow> block \<Rightarrow> carried \<Rightarrow> carried \<Rightarrow> (wire \<rightharpoonup> bool) \<Rightarrow> bool" where
  "stores_rel D1 D2 m1 m2 v \<longleftrightarrow> (\<forall>w. case v w of
       None \<Rightarrow> m1 w = None \<and> m2 w = None
     | Some b \<Rightarrow> \<exists>c1 c2. m1 w = Some c1 \<and> m2 w = Some c2 \<and> carried_rel D1 D2 c1 c2 b)"

definition sess_rel :: "session \<Rightarrow> session \<Rightarrow> clear_session \<Rightarrow> bool" where
  "sess_rel s1 s2 c \<longleftrightarrow>
     engines_ok (ss_engine s1) (ss_engine s2) \<and> ss_ctx s1 = cl_ctx c \<and> ss_ctx s2 = cl_ctx c \<and>
     rec_inv (cl_ctx c) \<and>
     stores_rel (pc_Delta (ss_proto s1)) (pc_Delta (ss_proto s2)) (ss_carried s1) (ss_carried s2) (cl_vals c)"

lemma stores_relD:
  assumes "stores_rel D1 D2 m1 m2 v"
  shows "m1 w = None \<longleftrightarrow> v w = None" and "m2 w = None \<longleftrightarrow> v w = None"
    and "v w \<noteq> None \<Longrightarrow> carried_rel D1 D2 (the (m1 w)) (the (m2 w)) (the (v w))"
  using assms unfolding stores_rel_def by (auto dest!: spec [of _ w] split: option.splits)

lemma sess_relD:
  assumes "sess_rel s1 s2 c"
  shows "engines_ok (ss_engine s1) (ss_engine s2)" "protocols_ok (ss_proto s1) (ss_proto s2)"
    "ss_ctx s1 = cl_ctx c" "ss_ctx s2 = cl_ctx c" "rec_inv (cl_ctx c)"
    "stores_rel (pc_Delta (ss_proto s1)) (pc_Delta (ss_proto s2)) (ss_carried s1) (ss_carried s2) (cl_vals c)"
    "\<not> is_evaluator (ss_proto s1)" "is_evaluator (ss_proto s2)"
proof -
  have r: "engines_ok (ss_engine s1) (ss_engine s2) \<and> ss_ctx s1 = cl_ctx c \<and> ss_ctx s2 = cl_ctx c \<and>
     rec_inv (cl_ctx c) \<and>
     stores_rel (pc_Delta (ss_proto s1)) (pc_Delta (ss_proto s2)) (ss_carried s1) (ss_carried s2) (cl_vals c)"
    using assms unfolding sess_rel_def .
  then show "engines_ok (ss_engine s1) (ss_engine s2)" "ss_ctx s1 = cl_ctx c" "ss_ctx s2 = cl_ctx c"
    "rec_inv (cl_ctx c)"
    "stores_rel (pc_Delta (ss_proto s1)) (pc_Delta (ss_proto s2)) (ss_carried s1) (ss_carried s2) (cl_vals c)"
    by blast+
  show p: "protocols_ok (ss_proto s1) (ss_proto s2)" using r unfolding engines_ok_def by blast
  show "\<not> is_evaluator (ss_proto s1)" "is_evaluator (ss_proto s2)"
    using protocols_okD(1,2) [OF p] by (simp_all add: is_evaluator_def party_defs)
qed

lemma sess_carried_none:
  assumes "sess_rel s1 s2 c"
  shows "ss_carried s1 w = None \<longleftrightarrow> cl_vals c w = None" "ss_carried s2 w = None \<longleftrightarrow> cl_vals c w = None"
  using stores_relD(1,2) [OF sess_relD(6) [OF assms]] by blast+

lemma init_sess_rel:
  assumes "pools_ok f g"
  shows "sess_rel (init_session 1 f) (init_session 2 g) init_clear"
  using init_protocols_ok [OF assms]
  by (simp add: sess_rel_def init_session_def init_clear_def engines_ok_def rec_inv_init stores_rel_def)

section \<open>Storing and reading related bundles\<close>

lemma store_bits_induct:
  assumes "P m1 m2 v"
    and "\<And>i m1 m2 v. i < length ids \<Longrightarrow> P m1 m2 v \<Longrightarrow>
      P (m1(ids ! i \<mapsto> carry_load (carried_at m1 (ids ! i)) b1 i e1))
        (m2(ids ! i \<mapsto> carry_load (carried_at m2 (ids ! i)) b2 i e2)) (v(ids ! i \<mapsto> bits ! i))"
  shows "P (carry_range e1 ids b1 m1) (carry_range e2 ids b2 m2) (store_bits ids bits v)"
proof -
  have "P (fold (\<lambda>i m. m(ids ! i \<mapsto> carry_load (carried_at m (ids ! i)) b1 i e1)) [0..<k] m1)
      (fold (\<lambda>i m. m(ids ! i \<mapsto> carry_load (carried_at m (ids ! i)) b2 i e2)) [0..<k] m2)
      (fold (\<lambda>i v. v(ids ! i \<mapsto> bits ! i)) [0..<k] v)" if "k \<le> length ids" for k
    using that by (induction k) (simp_all add: assms)
  then show ?thesis by (simp add: carry_range_def store_bits_def)
qed

lemma stores_rel_upd:
  assumes "stores_rel D1 D2 m1 m2 v" and "carried_rel D1 D2 c1 c2 b"
  shows "stores_rel D1 D2 (m1(w \<mapsto> c1)) (m2(w \<mapsto> c2)) (v(w \<mapsto> b))"
  unfolding stores_rel_def
proof
  fix x
  show "case (v(w \<mapsto> b)) x of None \<Rightarrow> (m1(w \<mapsto> c1)) x = None \<and> (m2(w \<mapsto> c2)) x = None
    | Some b \<Rightarrow> \<exists>c1' c2'. (m1(w \<mapsto> c1)) x = Some c1' \<and> (m2(w \<mapsto> c2)) x = Some c2' \<and> carried_rel D1 D2 c1' c2' b"
    using assms(2) spec [OF assms(1) [unfolded stores_rel_def], of x] by (cases "x = w"; cases "v x") simp_all
qed

lemma carried_rel_load:
  assumes "wires_rel D1 D2 g e bits" and "i < length bits"
  shows "carried_rel D1 D2 (carry_load c1 g i False) (carry_load c2 e i True) (bits ! i)"
proof -
  have "shares_ok D1 D2 (sw_bundle g ! i) (sw_bundle e ! i)" "sw_Lambda g = sw_Lambda e"
    "sw_Lambda e ! i = bbyte (bits ! i \<noteq> share_bit (sw_bundle g ! i) (sw_bundle e ! i))"
    "sw_eval_label e ! i = sw_label0 g ! i XOR sel (nz (sw_Lambda e ! i)) D1"
    using assms unfolding wires_rel_def eval_rel_def by blast+
  then show ?thesis by (simp add: carried_rel_def carry_load_def Let_def)
qed

lemma stores_rel_load:
  assumes "stores_rel D1 D2 m1 m2 v" and "wires_rel D1 D2 g e bits" and "length bits = length ids"
  shows "stores_rel D1 D2 (carry_range False ids g m1) (carry_range True ids e m2) (store_bits ids bits v)"
  by (rule store_bits_induct [where P = "stores_rel D1 D2"])
    (use assms carried_rel_load [OF assms(2)] stores_rel_upd in simp_all)

lemma carried_bundle_rel:
  assumes "stores_rel D1 D2 m1 m2 v" and "\<forall>w \<in> set ids. v w \<noteq> None"
  shows "wires_rel D1 D2 (carried_bundle False m1 ids) (carried_bundle True m2 ids) (map (\<lambda>w. the (v w)) ids)"
proof -
  have c: "carried_rel D1 D2 (the (m1 w)) (the (m2 w)) (the (v w))" if "w \<in> set ids" for w
    using stores_relD(3) [OF assms(1)] assms(2) that by blast
  have "shares_ok D1 D2 (cs_bundle (the (m1 w))) (cs_bundle (the (m2 w))) \<and>
      cs_Lambda (the (m1 w)) = cs_Lambda (the (m2 w)) \<and>
      cs_Lambda (the (m2 w)) = bbyte (the (v w) \<noteq> share_bit (cs_bundle (the (m1 w))) (cs_bundle (the (m2 w)))) \<and>
      cs_evlbl (the (m2 w)) = cs_label0 (the (m1 w)) XOR sel (nz (cs_Lambda (the (m2 w)))) D1" if "w \<in> set ids" for w
    using c [OF that] by (simp only: carried_rel_def)
  then have n: "shares_ok D1 D2 (cs_bundle (the (m1 (ids ! i)))) (cs_bundle (the (m2 (ids ! i)))) \<and>
      cs_Lambda (the (m1 (ids ! i))) = cs_Lambda (the (m2 (ids ! i))) \<and>
      cs_Lambda (the (m2 (ids ! i))) = bbyte (the (v (ids ! i)) \<noteq> share_bit (cs_bundle (the (m1 (ids ! i)))) (cs_bundle (the (m2 (ids ! i))))) \<and>
      cs_evlbl (the (m2 (ids ! i))) = cs_label0 (the (m1 (ids ! i))) XOR sel (nz (cs_Lambda (the (m2 (ids ! i))))) D1"
    if "i < length ids" for i using that by (blast intro: nth_mem)
  have "map (\<lambda>w. cs_Lambda (the (m1 w))) ids = map (\<lambda>w. cs_Lambda (the (m2 w))) ids"
    using c by (simp add: carried_rel_def)
  moreover have "sw_layout 1 (carried_bundle False m1 ids)" "sw_layout 2 (carried_bundle True m2 ids)"
    by (simp_all add: sw_layout_def sw_size_def carried_bundle_def)
  ultimately show ?thesis
    unfolding wires_rel_def eval_rel_def using n by (simp add: carried_bundle_def sw_size_def)
qed

lemma gather_rel:
  assumes rel: "sess_rel s1 s2 c" and ids: "\<forall>w \<in> set ids. cl_vals c w \<noteq> None"
  shows "\<exists>g e. gather_carried ids s1 = Inr g \<and> gather_carried ids s2 = Inr e \<and>
    wires_rel (pc_Delta (ss_proto s1)) (pc_Delta (ss_proto s2)) g e (map (\<lambda>w. the (cl_vals c w)) ids)"
  using carried_bundle_rel [OF sess_relD(6) [OF rel] ids] ids sess_relD(7,8) [OF rel]
  by (simp add: gather_carried_eq sess_carried_none [OF rel])

end
