(* ===== verification/Refinement.thy ===== *)
theory Refinement
  imports Clear_Session
begin

text \<open>
  Every call of the two parties' sessions does what the clear session does: with related states,
  both return the same wires or opened bits and related states again, or fail with the same error.
  The hypotheses on a call are its contract (the parties pass the same public data, an owner's bits
  are bits) and, for a run, that the garbler's masks are right (\<open>prog_masked\<close>).
\<close>

definition refines :: "'a both \<Rightarrow> ('a \<times> clear_session) result \<Rightarrow> bool" where
  "refines r a \<longleftrightarrow> (case a of Inl err \<Rightarrow> r = Inl err
     | Inr (x, c) \<Rightarrow> \<exists>s1 s2. r = Inr ((x, s1), (x, s2)) \<and> sess_rel s1 s2 c)"

lemma refines_simps [simp]:
  "refines r (Inl err) \<longleftrightarrow> r = Inl err"
  "refines r (Inr (x, c)) \<longleftrightarrow> (\<exists>s1 s2. r = Inr ((x, s1), (x, s2)) \<and> sess_rel s1 s2 c)"
  by (simp_all add: refines_def)

section \<open>Frames\<close>

lemma sess_rel_engines:
  assumes "sess_rel s1 s2 c" and "engines_ok en1 en2"
    and "pc_Delta (en_proto en1) = pc_Delta (ss_proto s1)" "pc_Delta (en_proto en2) = pc_Delta (ss_proto s2)"
  shows "sess_rel (s1\<lparr>ss_engine := en1\<rparr>) (s2\<lparr>ss_engine := en2\<rparr>) c"
  using sess_relD [OF assms(1)] assms(2-4) unfolding sess_rel_def by simp

lemma sess_rel_set_proto:
  assumes "sess_rel s1 s2 c" and "protocols_ok p q"
    and "pc_Delta p = pc_Delta (ss_proto s1)" "pc_Delta q = pc_Delta (ss_proto s2)"
  shows "sess_rel (set_proto p s1) (set_proto q s2) c"
  unfolding set_proto_def
  by (rule sess_rel_engines) (use assms in \<open>simp_all add: engines_ok_def\<close>)

lemma sess_rel_ctx:
  assumes "sess_rel s1 s2 c" and "rec_inv r"
  shows "sess_rel (s1\<lparr>ss_ctx := r\<rparr>) (s2\<lparr>ss_ctx := r\<rparr>) (c\<lparr>cl_ctx := r\<rparr>)"
  using sess_relD [OF assms(1)] assms(2) unfolding sess_rel_def by simp

lemma sess_rel_store:
  assumes rel: "sess_rel s1 s2 c"
    and w: "wires_rel (pc_Delta (ss_proto s1)) (pc_Delta (ss_proto s2)) g e bits" and len: "length bits = length ids"
  shows "sess_rel (s1\<lparr>ss_carried := carry_range (is_evaluator (ss_proto s1)) ids g (ss_carried s1)\<rparr>)
    (s2\<lparr>ss_carried := carry_range (is_evaluator (ss_proto s2)) ids e (ss_carried s2)\<rparr>)
    (c\<lparr>cl_vals := store_bits ids bits (cl_vals c)\<rparr>)"
  using sess_relD [OF rel] stores_rel_load [OF sess_relD(6) [OF rel] w len]
  unfolding sess_rel_def by simp

section \<open>Materializing and inputs\<close>

lemma reserve_ids_length: "reserve_ids n r = Inr (ids, r') \<Longrightarrow> length ids = n"
  by (induction n arbitrary: r ids r') (auto simp: bind_result_Inr)

lemma materialize_into_rel:
  assumes rel: "sess_rel s1 s2 c"
    and w: "wires_rel (pc_Delta (ss_proto s1)) (pc_Delta (ss_proto s2)) g e bits" and len: "length bits = length ids"
  shows "\<exists>s1' s2'. materialize_into ids g s1 = Inr s1' \<and> materialize_into ids e s2 = Inr s2' \<and>
    sess_rel s1' s2' (c\<lparr>cl_vals := store_bits ids bits (cl_vals c)\<rparr>) \<and>
    ss_engine s1' = ss_engine s1 \<and> ss_engine s2' = ss_engine s2"
  using sess_rel_store [OF assms] wires_rel_layout(3,4) [OF w] len by (simp add: materialize_into_def)

lemma put_refines:
  assumes rel: "sess_rel s1 s2 c"
    and w: "wires_rel (pc_Delta (ss_proto s1)) (pc_Delta (ss_proto s2)) g e bits"
  shows "refines (both (materialize g) (materialize e) s1 s2) (cl_put bits c)"
proof (cases "reserve_ids (length bits) (cl_ctx c)")
  case (Inl err)
  then show ?thesis
    using wires_rel_layout(3,4) [OF w] sess_relD(3,4) [OF rel] by (simp add: both_def materialize_def cl_put_def)
next
  case (Inr x)
  obtain ids r where x: "x = (ids, r)" by (cases x)
  have inv: "rec_inv r" using rec_inv_reserve [OF sess_relD(5) [OF rel]] Inr x by blast
  have len: "length bits = length ids" using reserve_ids_length Inr x by metis
  obtain s1' s2' where m: "materialize_into ids g (s1\<lparr>ss_ctx := r\<rparr>) = Inr s1'"
      "materialize_into ids e (s2\<lparr>ss_ctx := r\<rparr>) = Inr s2'"
    and r': "sess_rel s1' s2' ((c\<lparr>cl_ctx := r\<rparr>)\<lparr>cl_vals := store_bits ids bits (cl_vals (c\<lparr>cl_ctx := r\<rparr>))\<rparr>)"
    using materialize_into_rel [OF sess_rel_ctx [OF rel inv], of g e bits ids] w len by auto
  show ?thesis
    using Inr x m r' wires_rel_layout(3,4) [OF w] sess_relD(3,4) [OF rel]
    by (simp add: both_def materialize_def cl_put_def)
qed

text \<open>The contract of an input call.\<close>

definition input_guard :: "nat \<Rightarrow> byte list \<Rightarrow> byte list \<Rightarrow> bool" where
  "input_guard owner bits1 bits2 \<longleftrightarrow> length bits1 = length bits2 \<and> (owner = PUBLIC \<longrightarrow> bits1 = bits2) \<and>
     (owner = ALICE \<longrightarrow> set bits1 \<subseteq> {0, 1}) \<and> (owner = BOB \<longrightarrow> set bits2 \<subseteq> {0, 1})"

lemma authenticate_rel:
  fixes P :: "('m, 'd) prims"
  assumes rel: "sess_rel s1 s2 c" and guard: "input_guard owner bits1 bits2"
    and own: "owner = PUBLIC \<or> owner = ALICE \<or> owner = BOB"
  shows "\<exists>g s1' e s2'. authenticate P owner bits1 bits2 labels s1 s2 = Inr ((g, s1'), (e, s2')) \<and>
    sess_rel s1' s2' c \<and>
    wires_rel (pc_Delta (ss_proto s1')) (pc_Delta (ss_proto s2')) g e (owner_bits owner bits1 bits2)"
proof (cases "owner = PUBLIC")
  case True
  then show ?thesis
    using guard rel public_wires_rel [OF protocols_okD(1,2) [OF sess_relD(2) [OF rel]], of bits1]
    by (auto simp: authenticate_def input_guard_def owner_bits_def party_defs)
next
  case False
  have ib: "input_bits [owner] [bits1] [bits2] 0 = (if owner = BOB then bits2 else bits1)"
    using own False by (auto simp: input_bits_def party_defs)
  have ok: "inputs_ok [owner] [bits1] [bits2]"
    using guard own False ib by (auto simp: inputs_ok_def input_guard_def party_defs)
  obtain gs p' es q' where r: "process_inputs P [owner] [bits1] [bits2] labels (ss_proto s1) (ss_proto s2) = Inr ((gs, p'), (es, q'))"
    and w: "\<forall>k < length [owner]. wires_rel (pc_Delta (ss_proto s1)) (pc_Delta (ss_proto s2)) (gs ! k) (es ! k)
       (map nz (input_bits [owner] [bits1] [bits2] k))"
    and fr: "protocols_ok p' q'" "pc_Delta p' = pc_Delta (ss_proto s1)" "pc_Delta q' = pc_Delta (ss_proto s2)"
    using process_inputs_ok [OF sess_relD(2) [OF rel] ok, of P labels] by (elim exE conjE) (rule that; assumption)
  have "wires_rel (pc_Delta (ss_proto s1)) (pc_Delta (ss_proto s2)) (gs ! 0) (es ! 0) (owner_bits owner bits1 bits2)"
    using w ib by (simp add: owner_bits_def)
  moreover have "authenticate P owner bits1 bits2 labels s1 s2 = Inr ((gs ! 0, set_proto p' s1), (es ! 0, set_proto q' s2))"
    using own False r by (simp add: authenticate_def)
  moreover have "ss_proto (set_proto p' s1) = p'" "ss_proto (set_proto q' s2) = q'" by (simp_all add: set_proto_def)
  ultimately show ?thesis
    using sess_rel_set_proto [OF rel fr] fr(2,3) by simp
qed

lemma input_refines:
  fixes P :: "('m, 'd) prims"
  assumes rel: "sess_rel s1 s2 c" and guard: "input_guard owner bits1 bits2"
  shows "refines (session_input P owner bits1 bits2 labels s1 s2) (cl_input owner bits1 bits2 c)"
proof (cases "owner = PUBLIC \<or> owner = ALICE \<or> owner = BOB")
  case True
  obtain g s1' e s2' where "authenticate P owner bits1 bits2 labels s1 s2 = Inr ((g, s1'), (e, s2'))"
    "sess_rel s1' s2' c" "wires_rel (pc_Delta (ss_proto s1')) (pc_Delta (ss_proto s2')) g e (owner_bits owner bits1 bits2)"
    using authenticate_rel [OF rel guard True, of P labels] by blast
  then have "refines (session_input P owner bits1 bits2 labels s1 s2) (cl_put (owner_bits owner bits1 bits2) c)"
    using put_refines by (simp add: session_input_def)
  moreover have "cl_input owner bits1 bits2 c = cl_put (owner_bits owner bits1 bits2) c"
    using True by (auto simp: cl_input_def)
  ultimately show ?thesis by simp
next
  case False
  then show ?thesis by (simp add: session_input_def cl_input_def authenticate_def)
qed

section \<open>Gates\<close>

lemma gate_refines:
  assumes rel: "sess_rel s1 s2 c" and step: "\<And>w r'. f (cl_ctx c) = Inr (w, r') \<Longrightarrow> rec_step (cl_ctx c) [w] r'"
  shows "refines (both (session_gate f) (session_gate f) s1 s2) (cl_gate f c)"
proof (cases "f (cl_ctx c)")
  case (Inl err)
  then show ?thesis using sess_relD(3,4) [OF rel] by (simp add: both_def session_gate_def cl_gate_def)
next
  case (Inr x)
  obtain w r where x: "x = (w, r)" by (cases x)
  have "rec_inv r" using rec_step_inv [OF sess_relD(5) [OF rel] step] Inr x by blast
  from sess_rel_ctx [OF rel this] show ?thesis
    using Inr x sess_relD(3,4) [OF rel] by (simp add: both_def session_gate_def cl_gate_def)
qed

section \<open>Flushing\<close>

text \<open>
  What is relied on of emp-tool: see \<open>emp_tool_ok\<close>, and a well-formed program is accepted.
\<close>

definition tools_ok :: "('m, 'd) tools \<Rightarrow> bool" where
  "tools_ok T \<longleftrightarrow> emp_tool_ok (tl_validate T) (tl_exec T) \<and>
     (\<forall>p. topological p \<longrightarrow> record_canonical p \<longrightarrow> p_num_wires p = p_num_inputs p + length (p_gates p) \<longrightarrow>
        tl_validate T p)"

definition done_result :: "clear_session result \<Rightarrow> (unit \<times> clear_session) result" where
  "done_result r = bind_result r (\<lambda>c. Inr ((), c))"

text \<open>The plan of a flush, and the condition that the garbler's masks are right after it.\<close>

definition cl_plan :: "wire list \<Rightarrow> clear_session \<Rightarrow> flush_plan" where
  "cl_plan keep c = plan_flush (chunk_gates (cl_ctx c)) keep (\<lambda>w. cl_vals c w \<noteq> None)"

definition flush_guard :: "wire list \<Rightarrow> clear_session \<Rightarrow> bool" where
  "flush_guard keep c \<longleftrightarrow> fp_ok (cl_plan keep c) \<longrightarrow> prog_masked (fp_prog (cl_plan keep c))"

lemma store_bits_map:
  "store_bits ids (map f ids) v = (\<lambda>w. if w \<in> set ids then Some (f w) else v w)"
proof -
  have "fold (\<lambda>i v. v(ids ! i \<mapsto> map f ids ! i)) [0..<k] v = (\<lambda>w. if w \<in> set (take k ids) then Some (f w) else v w)"
    if "k \<le> length ids" for k
    using that by (induction k) (auto simp: take_Suc_conv_app_nth)
  from this [of "length ids"] show ?thesis by (simp add: store_bits_def)
qed

lemma plan_ok_iff:
  assumes "rec_inv (cl_ctx c)"
  shows "fp_ok (cl_plan keep c) \<longleftrightarrow>
    \<not> (\<exists>gi \<in> needed_gates (chunk_gates (cl_ctx c)) keep. \<exists>w \<in> set (gate_operands (chunk_gates (cl_ctx c) ! gi)).
       \<not> is_pending (cl_ctx c) w \<and> cl_vals c w = None)"
  using plan_flush_ok_iff [OF rec_inv_wf_chunk [OF assms], of keep "\<lambda>w. cl_vals c w \<noteq> None"]
  by (auto simp: cl_plan_def needed_gates_iff rec_inv_pending [OF assms])

lemma cl_plan_facts:
  assumes inv: "rec_inv (cl_ctx c)" and ok: "fp_ok (cl_plan keep c)"
  defines "pl \<equiv> cl_plan keep c"
  shows "topological (fp_prog pl)" and "record_canonical (fp_prog pl)"
    and "p_num_inputs (fp_prog pl) = length (fp_input_ids pl)"
    and "p_num_wires (fp_prog pl) = p_num_inputs (fp_prog pl) + length (p_gates (fp_prog pl))"
    and "\<forall>w \<in> set (fp_input_ids pl). cl_vals c w \<noteq> None"
    and "set (fp_output_ids pl) = {w \<in> set keep. is_pending (cl_ctx c) w}"
    and "prog_clear (fp_prog pl) (map (\<lambda>w. the (cl_vals c w)) (fp_input_ids pl)) = map (cl_value c) (fp_output_ids pl)"
proof -
  let ?gs = "chunk_gates (cl_ctx c)" and ?mat = "\<lambda>w. cl_vals c w \<noteq> None"
  note wf = rec_inv_wf_chunk [OF inv]
  note ok' = ok [unfolded cl_plan_def]
  show "topological (fp_prog pl)" "record_canonical (fp_prog pl)"
    using plan_flush_topological [OF wf ok'] plan_flush_canonical [OF wf] by (simp_all add: pl_def cl_plan_def)
  show n: "p_num_inputs (fp_prog pl) = length (fp_input_ids pl)"
    unfolding pl_def cl_plan_def by (rule plan_flush_obtain [OF wf, of ?mat keep], assumption)
  have "length (p_gates (fp_prog pl)) = length (work_indices ?gs keep)"
    unfolding pl_def cl_plan_def by (rule plan_flush_gates [OF wf, of keep ?mat], assumption)
  moreover have "p_num_wires (fp_prog pl) = length (fp_input_ids pl) + length (work_indices ?gs keep)"
    unfolding pl_def cl_plan_def by (rule plan_flush_gates [OF wf, of keep ?mat], assumption)
  ultimately show "p_num_wires (fp_prog pl) = p_num_inputs (fp_prog pl) + length (p_gates (fp_prog pl))"
    using n by simp
  show "\<forall>w \<in> set (fp_input_ids pl). cl_vals c w \<noteq> None"
  proof
    fix w assume w: "w \<in> set (fp_input_ids pl)"
    show "cl_vals c w \<noteq> None"
      by (rule conjunct1 [OF conjunct2 [OF iffD1 [OF plan_flush_inputs(2) [OF wf, of w keep ?mat]
            w [unfolded pl_def cl_plan_def]]]])
  qed
  show "set (fp_output_ids pl) = {w \<in> set keep. is_pending (cl_ctx c) w}"
    using plan_flush_outputs [OF wf, of keep ?mat] rec_inv_pending [OF inv]
    by (simp add: pl_def cl_plan_def pending_in_order_props)
  show "prog_clear (fp_prog pl) (map (\<lambda>w. the (cl_vals c w)) (fp_input_ids pl)) = map (cl_value c) (fp_output_ids pl)"
    using plan_flush_computes [OF wf ok', of "\<lambda>w. the (cl_vals c w)"]
    by (simp add: pl_def cl_plan_def prog_clear_def clear_outputs_def prog_evs_def cl_value_def)
qed

lemma flush_begin_eq:
  assumes rel: "sess_rel s1 s2 c"
  shows "flush_begin keep s1 =
      (if \<exists>w \<in> set keep. \<not> is_pending (cl_ctx c) w \<and> cl_vals c w = None then Inl Keep_Stale
       else if \<not> (\<exists>w \<in> set keep. is_pending (cl_ctx c) w) then Inr None
       else if \<not> fp_ok (cl_plan keep c) then Inl Stale_Operand
       else bind_result (gather_carried (fp_input_ids (cl_plan keep c)) s1) (\<lambda>b. Inr (Some (cl_plan keep c, b))))"
    and "flush_begin keep s2 =
      (if \<exists>w \<in> set keep. \<not> is_pending (cl_ctx c) w \<and> cl_vals c w = None then Inl Keep_Stale
       else if \<not> (\<exists>w \<in> set keep. is_pending (cl_ctx c) w) then Inr None
       else if \<not> fp_ok (cl_plan keep c) then Inl Stale_Operand
       else bind_result (gather_carried (fp_input_ids (cl_plan keep c)) s2) (\<lambda>b. Inr (Some (cl_plan keep c, b))))"
  by (simp_all only: flush_begin_def sess_carried_none [OF rel] cl_plan_def Let_def sess_relD(3,4) [OF rel])

lemma cl_upd_commute: "c\<lparr>cl_ctx := r, cl_vals := v\<rparr> = c\<lparr>cl_vals := v, cl_ctx := r\<rparr>"
  by simp

lemma sess_rel_drop:
  assumes "sess_rel s1 s2 c"
  shows "sess_rel (drop_session_chunk s1) (drop_session_chunk s2) (c\<lparr>cl_ctx := drop_chunk (cl_ctx c)\<rparr>)"
  using sess_rel_ctx [OF assms rec_inv_drop [OF sess_relD(5) [OF assms]]] sess_relD(3,4) [OF assms]
  by (simp add: drop_session_chunk_def)

lemma sess_rel_flush_end:
  assumes rel: "sess_rel s1 s2 c" and en: "engines_ok en1 en2"
    and D: "pc_Delta (en_proto en1) = pc_Delta (ss_proto s1)" "pc_Delta (en_proto en2) = pc_Delta (ss_proto s2)"
    and w: "wires_rel (pc_Delta (ss_proto s1)) (pc_Delta (ss_proto s2)) o1 o2 (map (cl_value c) (fp_output_ids pl))"
    and out: "set (fp_output_ids pl) = {w \<in> set keep. is_pending (cl_ctx c) w}"
  shows "sess_rel (flush_end pl o1 en1 s1) (flush_end pl o2 en2 s2)
    (c\<lparr>cl_ctx := drop_chunk (cl_ctx c),
       cl_vals := (\<lambda>w. if w \<in> set keep \<and> is_pending (cl_ctx c) w then Some (cl_value c w) else cl_vals c w)\<rparr>)"
proof -
  note r1 = sess_rel_engines [OF rel en D]
  have "sess_rel (s1\<lparr>ss_engine := en1, ss_carried := carry_range (is_evaluator (en_proto en1)) (fp_output_ids pl) o1 (ss_carried s1)\<rparr>)
    (s2\<lparr>ss_engine := en2, ss_carried := carry_range (is_evaluator (en_proto en2)) (fp_output_ids pl) o2 (ss_carried s2)\<rparr>)
    (c\<lparr>cl_vals := store_bits (fp_output_ids pl) (map (cl_value c) (fp_output_ids pl)) (cl_vals c)\<rparr>)"
    using sess_rel_store [OF r1, of o1 o2 "map (cl_value c) (fp_output_ids pl)" "fp_output_ids pl"] w D by simp
  from sess_rel_drop [OF this] show ?thesis
    unfolding store_bits_map out cl_upd_commute by (simp add: flush_end_def)
qed

lemma flush_refines:
  fixes T :: "('m, 'd) tools"
  assumes tool: "tools_ok T" and rel: "sess_rel s1 s2 c" and guard: "flush_guard keep c"
  shows "refines (flush T rc keep s1 s2) (done_result (cl_flush keep c))"
proof -
  let ?stale = "\<exists>w \<in> set keep. \<not> is_pending (cl_ctx c) w \<and> cl_vals c w = None"
  let ?some = "\<exists>w \<in> set keep. is_pending (cl_ctx c) w"
  let ?pl = "cl_plan keep c"
  note inv = sess_relD(5) [OF rel]
  note fb = flush_begin_eq [OF rel, of keep]
  consider (stale) "?stale" | (none) "\<not> ?stale" "\<not> ?some" | (operand) "\<not> ?stale" "?some" "\<not> fp_ok ?pl"
    | (run) "\<not> ?stale" "?some" "fp_ok ?pl" by blast
  then show ?thesis
  proof cases
    case stale
    then show ?thesis by (simp add: flush_def fb cl_flush_def done_result_def Let_def)
  next
    case none
    have "cl_flush keep c = Inr (c\<lparr>cl_ctx := drop_chunk (cl_ctx c)\<rparr>)"
      unfolding cl_flush_def Let_def using none by (simp only: if_False if_True simp_thms)
    moreover have "flush_begin keep s1 = Inr None" "flush_begin keep s2 = Inr None"
      unfolding fb using none by (simp_all only: if_False if_True simp_thms)
    ultimately show ?thesis
      using sess_rel_drop [OF rel] by (simp add: flush_def done_result_def)
  next
    case operand
    have "cl_flush keep c = Inl Stale_Operand"
      unfolding cl_flush_def Let_def using operand plan_ok_iff [OF inv, of keep] by (simp only: if_False if_True simp_thms)
    moreover have "flush_begin keep s1 = Inl Stale_Operand"
      unfolding fb using operand by (simp only: if_False if_True simp_thms)
    ultimately show ?thesis by (simp add: flush_def done_result_def)
  next
    case run
    note F = cl_plan_facts [OF inv run(3)]
    let ?vs = "map (\<lambda>w. the (cl_vals c w)) (fp_input_ids ?pl)"
    obtain g e where ge: "gather_carried (fp_input_ids ?pl) s1 = Inr g" "gather_carried (fp_input_ids ?pl) s2 = Inr e"
      and w: "wires_rel (pc_Delta (ss_proto s1)) (pc_Delta (ss_proto s2)) g e ?vs"
      using gather_rel [OF rel F(5)] by blast
    have b: "flush_begin keep s1 = Inr (Some (?pl, g))" "flush_begin keep s2 = Inr (Some (?pl, e))"
      unfolding fb using run ge by (simp_all only: if_False if_True simp_thms bind_result_simps)
    have val: "tl_validate T (fp_prog ?pl)" and tl: "emp_tool_ok (tl_validate T) (tl_exec T)"
      using tool F(1,2,4) by (simp_all add: tools_ok_def)
    have n: "length ?vs = p_num_inputs (fp_prog ?pl)" by (simp add: F(3))
    have mk: "prog_masked (fp_prog ?pl)" using guard run(3) by (simp add: flush_guard_def)
    obtain o1 en1 o2 en2 where r: "run_program (tl_prims T) (tl_validate T) (tl_exec T) rc (tl_hash0 T) (fp_prog ?pl)
          (g, ss_engine s1) (e, ss_engine s2) = Inr ((o1, en1), (o2, en2))"
      and wo: "wires_rel (pc_Delta (ss_proto s1)) (pc_Delta (ss_proto s2)) o1 o2 (prog_clear (fp_prog ?pl) ?vs)"
      and en: "engines_ok en1 en2" "pc_Delta (en_proto en1) = pc_Delta (ss_proto s1)" "pc_Delta (en_proto en2) = pc_Delta (ss_proto s2)"
      using run_program_masked [OF tl sess_relD(1) [OF rel] w val F(2) n mk, of "tl_prims T" rc "tl_hash0 T"]
      by (elim exE conjE) (rule that; assumption)
    have "flush T rc keep s1 s2 = Inr (((), flush_end ?pl o1 en1 s1), ((), flush_end ?pl o2 en2 s2))"
      by (simp add: flush_def b session_run_program_def r)
    moreover have "cl_flush keep c = Inr (c\<lparr>cl_ctx := drop_chunk (cl_ctx c),
       cl_vals := (\<lambda>w. if w \<in> set keep \<and> is_pending (cl_ctx c) w then Some (cl_value c w) else cl_vals c w)\<rparr>)"
      unfolding cl_flush_def Let_def using run plan_ok_iff [OF inv, of keep] by (simp only: if_False if_True simp_thms)
    ultimately show ?thesis
      using sess_rel_flush_end [OF rel en wo [unfolded F(7)] F(6)] by (simp add: done_result_def)
  qed
qed

section \<open>Opening and pruning\<close>

lemma cl_flush_keeps:
  assumes "cl_flush keep c = Inr c'" and "w \<in> set keep"
  shows "cl_vals c' w \<noteq> None"
  using assms by (auto simp: cl_flush_def Let_def split: if_splits)

lemma refines_unit:
  assumes "refines r (done_result a)"
  shows "a = Inl err \<Longrightarrow> r = Inl err"
    and "a = Inr c' \<Longrightarrow> \<exists>s1 s2. r = Inr (((), s1), ((), s2)) \<and> sess_rel s1 s2 c'"
  using assms by (simp_all add: done_result_def)

text \<open>The result of opening, a pair with one component per party.\<close>

definition refines2 :: "'a both \<Rightarrow> (('a \<times> 'a) \<times> clear_session) result \<Rightarrow> bool" where
  "refines2 r a \<longleftrightarrow> (case a of Inl err \<Rightarrow> r = Inl err
     | Inr (x, c) \<Rightarrow> \<exists>s1 s2. r = Inr ((fst x, s1), (snd x, s2)) \<and> sess_rel s1 s2 c)"

lemma reveal_results:
  "reveal_result W (map bbyte bs) = (if length bs = W then Some bs else None)"
  "reveal_result W [] = (if W = 0 then Some [] else None)"
  by (simp_all add: reveal_result_def comp_def)

lemma reveal_refines:
  fixes T :: "('m, 'd) tools"
  assumes tool: "tools_ok T" and rel: "sess_rel s1 s2 c" and guard: "flush_guard (v @ concat keep) c"
  shows "refines2 (reveal T rc v recipient keep s1 s2) (cl_reveal v recipient keep c)"
proof (cases "recipient = PUBLIC \<or> recipient = ALICE \<or> recipient = BOB")
  case True
  note f = flush_refines [OF tool rel guard, of rc]
  show ?thesis
  proof (cases "cl_flush (v @ concat keep) c")
    case (Inl err)
    then show ?thesis
      using True refines_unit(1) [OF f Inl] by (auto simp: refines2_def reveal_def cl_reveal_def)
  next
    case (Inr c')
    obtain s1' s2' where f': "flush T rc (v @ concat keep) s1 s2 = Inr (((), s1'), ((), s2'))" and rel': "sess_rel s1' s2' c'"
      using refines_unit(2) [OF f Inr] by blast
    have "\<forall>w \<in> set v. cl_vals c' w \<noteq> None" using cl_flush_keeps [OF Inr] by simp
    then obtain g e where ge: "gather_carried v s1' = Inr g" "gather_carried v s2' = Inr e"
      and w: "wires_rel (pc_Delta (ss_proto s1')) (pc_Delta (ss_proto s2')) g e (map (\<lambda>w. the (cl_vals c' w)) v)"
      using gather_rel [OF rel'] by blast
    have er: "eval_rel (pc_Delta (ss_proto s1')) (pc_Delta (ss_proto s2')) g e (map (\<lambda>w. the (cl_vals c' w)) v)"
      using w by (simp add: wires_rel_def)
    note d = decode_wires_rel [OF sess_relD(2) [OF rel'] w, of "tl_prims T"]
      decode_eval_rel [OF sess_relD(2) [OF rel'] er, of "tl_prims T"]
    have "reveal T rc v recipient keep s1 s2 =
        Inr ((if recipient = BOB then if v = [] then Some [] else None else Some (map (\<lambda>w. the (cl_vals c' w)) v), s1'),
             (if recipient = ALICE then if v = [] then Some [] else None else Some (map (\<lambda>w. the (cl_vals c' w)) v), s2'))"
      using True f' ge d reveal_results(1) [of "length v" "map (\<lambda>w. the (cl_vals c' w)) v"]
      by (elim disjE) (simp_all add: reveal_def reveal_results(2) party_defs)
    then show ?thesis
      using True Inr rel' by (auto simp: refines2_def cl_reveal_def Let_def)
  qed
next
  case False
  then show ?thesis by (simp add: refines2_def reveal_def cl_reveal_def)
qed

lemma stores_rel_restrict:
  assumes "stores_rel D1 D2 m1 m2 v"
  shows "stores_rel D1 D2 (m1 |` K) (m2 |` K) (v |` K)"
  unfolding stores_rel_def
proof
  fix x
  show "case (v |` K) x of None \<Rightarrow> (m1 |` K) x = None \<and> (m2 |` K) x = None
    | Some b \<Rightarrow> \<exists>c1 c2. (m1 |` K) x = Some c1 \<and> (m2 |` K) x = Some c2 \<and> carried_rel D1 D2 c1 c2 b"
    using spec [OF assms [unfolded stores_rel_def], of x] by (cases "x \<in> K"; cases "v x") simp_all
qed

lemma checkpoint_refines:
  fixes T :: "('m, 'd) tools"
  assumes tool: "tools_ok T" and rel: "sess_rel s1 s2 c" and guard: "flush_guard (concat keep) c"
  shows "refines (checkpoint T rc keep s1 s2) (done_result (cl_checkpoint keep c))"
proof (cases "cl_flush (concat keep) c")
  case (Inl err)
  then show ?thesis
    using refines_unit(1) [OF flush_refines [OF tool rel guard, of rc] Inl]
    by (simp add: checkpoint_def cl_checkpoint_def done_result_def)
next
  case (Inr c')
  obtain s1' s2' where f: "flush T rc (concat keep) s1 s2 = Inr (((), s1'), ((), s2'))" and rel': "sess_rel s1' s2' c'"
    using refines_unit(2) [OF flush_refines [OF tool rel guard, of rc] Inr] by blast
  have "sess_rel (prune (concat keep) s1') (prune (concat keep) s2') (c'\<lparr>cl_vals := cl_vals c' |` set (concat keep)\<rparr>)"
    using sess_relD [OF rel'] stores_rel_restrict [OF sess_relD(6) [OF rel']] unfolding sess_rel_def by (simp add: prune_def)
  then show ?thesis using Inr f by (simp add: checkpoint_def cl_checkpoint_def done_result_def)
qed

section \<open>Runs\<close>

lemma nth_append_cases: "length xs = length ys \<Longrightarrow> (xs @ xs') ! i = (if i < length ys then xs ! i else xs' ! (i - length ys))"
  by (simp add: nth_append)

lemma wires_rel_append:
  assumes a: "wires_rel D1 D2 g e us" and b: "wires_rel D1 D2 g' e' vs"
  shows "wires_rel D1 D2 (append_bundle g g') (append_bundle e e') (us @ vs)"
proof -
  note A = wires_rel_layout [OF a] and B = wires_rel_layout [OF b]
  have wa: "shares_ok D1 D2 (sw_bundle g ! i) (sw_bundle e ! i)"
      "sw_Lambda e ! i = bbyte (us ! i \<noteq> share_bit (sw_bundle g ! i) (sw_bundle e ! i))"
      "sw_eval_label e ! i = sw_label0 g ! i XOR sel (nz (sw_Lambda e ! i)) D1" if "i < length us" for i
    using a that unfolding wires_rel_def eval_rel_def by blast+
  have wb: "shares_ok D1 D2 (sw_bundle g' ! i) (sw_bundle e' ! i)"
      "sw_Lambda e' ! i = bbyte (vs ! i \<noteq> share_bit (sw_bundle g' ! i) (sw_bundle e' ! i))"
      "sw_eval_label e' ! i = sw_label0 g' ! i XOR sel (nz (sw_Lambda e' ! i)) D1" if "i < length vs" for i
    using b that unfolding wires_rel_def eval_rel_def by blast+
  have len: "length (sw_bundle g) = length us" "length (sw_bundle e) = length us" "length (sw_label0 g) = length us"
    "length (sw_eval_label e) = length us" "length (sw_Lambda e) = length us"
    using A by (simp_all add: sw_layout_def sw_size_def)
  have sel: "sw_bundle (append_bundle g g') = sw_bundle g @ sw_bundle g'" "sw_bundle (append_bundle e e') = sw_bundle e @ sw_bundle e'"
    "sw_Lambda (append_bundle e e') = sw_Lambda e @ sw_Lambda e'"
    "sw_label0 (append_bundle g g') = sw_label0 g @ sw_label0 g'"
    "sw_eval_label (append_bundle e e') = sw_eval_label e @ sw_eval_label e'"
    by (simp_all add: append_bundle_def)
  have "eval_rel D1 D2 (append_bundle g g') (append_bundle e e') (us @ vs)"
    unfolding eval_rel_def sel
  proof (intro conjI allI impI)
    show "sw_layout 1 (append_bundle g g')" "sw_layout 2 (append_bundle e e')"
      "sw_size (append_bundle g g') = length (us @ vs)" "sw_size (append_bundle e e') = length (us @ vs)"
      using sw_layout_append [OF A(1) B(1)] sw_layout_append [OF A(2) B(2)] A(3,4) B(3,4) by simp_all
    fix i assume i: "i < length (us @ vs)"
    show "shares_ok D1 D2 ((sw_bundle g @ sw_bundle g') ! i) ((sw_bundle e @ sw_bundle e') ! i)"
      "(sw_Lambda e @ sw_Lambda e') ! i =
        bbyte ((us @ vs) ! i \<noteq> share_bit ((sw_bundle g @ sw_bundle g') ! i) ((sw_bundle e @ sw_bundle e') ! i))"
      "(sw_eval_label e @ sw_eval_label e') ! i = (sw_label0 g @ sw_label0 g') ! i XOR sel (nz ((sw_Lambda e @ sw_Lambda e') ! i)) D1"
      using i len wa wb [of "i - length us"] by (auto simp: nth_append_cases nth_append)
  qed
  moreover have "sw_Lambda (append_bundle g g') = sw_Lambda (append_bundle e e')"
    using a b by (simp add: wires_rel_def append_bundle_def)
  ultimately show ?thesis by (simp add: wires_rel_def)
qed

lemma append_args_rel:
  assumes rel: "sess_rel s1 s2 c"
    and acc: "wires_rel (pc_Delta (ss_proto s1)) (pc_Delta (ss_proto s2)) b1 b2 us"
  shows "if \<exists>w \<in> set (concat args). cl_vals c w = None
    then append_args args s1 b1 = Inl Arg_Unflushed \<and> append_args args s2 b2 = Inl Arg_Unflushed
    else \<exists>g e. append_args args s1 b1 = Inr g \<and> append_args args s2 b2 = Inr e \<and>
      wires_rel (pc_Delta (ss_proto s1)) (pc_Delta (ss_proto s2)) g e (us @ map (\<lambda>w. the (cl_vals c w)) (concat args))"
proof (cases "\<exists>w \<in> set (concat args). cl_vals c w = None")
  case True
  then show ?thesis by (simp add: append_args_eq sess_carried_none [OF rel])
next
  case False
  obtain g e where ge: "gather_carried (concat args) s1 = Inr g" "gather_carried (concat args) s2 = Inr e"
    and w: "wires_rel (pc_Delta (ss_proto s1)) (pc_Delta (ss_proto s2)) g e (map (\<lambda>w. the (cl_vals c w)) (concat args))"
    using gather_rel [OF rel, of "concat args"] False by auto
  have "append_args args s1 b1 = Inr (append_bundle b1 g)" "append_args args s2 b2 = Inr (append_bundle b2 e)"
    using ge False unfolding append_args_eq gather_carried_eq sess_carried_none [OF rel] by (simp_all split: if_splits)
  then show ?thesis using False wires_rel_append [OF acc w] by simp
qed

lemma empty_wires_rel: "wires_rel D1 D2 empty_wires empty_wires []"
  by (simp add: wires_rel_def eval_rel_def sw_size_def empty_wires_def)
    (simp add: sw_layout_def sw_size_def)

lemma args_refine:
  assumes rel: "sess_rel s1 s2 c"
    and some: "\<And>vs b1 b2. cl_args args c = Inr vs \<Longrightarrow> length vs = sum_list (map length args) \<Longrightarrow>
      wires_rel (pc_Delta (ss_proto s1)) (pc_Delta (ss_proto s2)) b1 b2 vs \<Longrightarrow>
      refines (F b1 b2) (G vs)"
  shows "refines (bind_result (append_args args s1 empty_wires) (\<lambda>b1. bind_result (append_args args s2 empty_wires) (F b1)))
    (bind_result (cl_args args c) G)"
proof (cases "\<exists>w \<in> set (concat args). cl_vals c w = None")
  case True
  then show ?thesis using append_args_rel [OF rel empty_wires_rel, of args] by (simp add: cl_args_def)
next
  case False
  let ?vs = "map (\<lambda>w. the (cl_vals c w)) (concat args)"
  have cl: "cl_args args c = Inr ?vs" unfolding cl_args_def by (rule if_not_P [OF False])
  obtain g e where ge: "append_args args s1 empty_wires = Inr g" "append_args args s2 empty_wires = Inr e"
    and w: "wires_rel (pc_Delta (ss_proto s1)) (pc_Delta (ss_proto s2)) g e ([] @ ?vs)"
    using append_args_rel [OF rel empty_wires_rel, of args] unfolding if_not_P [OF False] by blast
  have "refines (F g e) (G ?vs)"
    by (rule some [OF cl]) (use w in \<open>simp_all add: length_concat\<close>)
  then show ?thesis unfolding ge cl by simp
qed

lemma wrap_refines:
  assumes rel: "sess_rel s1 s2 c" and en: "engines_ok en1 en2"
    and D: "pc_Delta (en_proto en1) = pc_Delta (ss_proto s1)" "pc_Delta (en_proto en2) = pc_Delta (ss_proto s2)"
    and w: "wires_rel (pc_Delta (ss_proto s1)) (pc_Delta (ss_proto s2)) o1 o2 bits"
  shows "refines (wrap_outputs (Inr ((o1, en1), (o2, en2))) s1 s2) (cl_put bits c)"
  using put_refines [OF sess_rel_engines [OF rel en D], of o1 o2 bits] w D by (simp add: wrap_outputs_def)

lemma program_refines:
  fixes T :: "('m, 'd) tools"
  assumes tool: "tools_ok T" and rel: "sess_rel s1 s2 c"
    and w: "wires_rel (pc_Delta (ss_proto s1)) (pc_Delta (ss_proto s2)) b1 b2 vs"
    and guard: "program_error (tl_validate T) prog (length vs) = None \<longrightarrow> prog_masked prog"
  shows "refines (wrap_outputs (session_run_program T rc prog b1 b2 (ss_engine s1) (ss_engine s2)) s1 s2)
    (cl_program (tl_validate T) prog vs c)"
proof (cases "program_error (tl_validate T) prog (length vs)")
  case (Some err)
  have "session_run_program T rc prog b1 b2 (ss_engine s1) (ss_engine s2) = Inl err"
    unfolding session_run_program_def run_program_checked [OF sess_relD(1) [OF rel] w] require_record_canonical_error
    using Some by (auto simp: program_error_def split: if_splits)
  then show ?thesis using Some by (simp add: cl_program_def wrap_outputs_def)
next
  case None
  then have ok: "tl_validate T prog" "length vs = p_num_inputs prog"
      "program_error (tl_validate T) prog (p_num_inputs prog) = None"
    by (auto simp: program_error_def split: if_splits)
  then have can: "record_canonical prog"
    using require_record_canonical_ok [of "tl_validate T" prog] by (simp add: require_record_canonical_error)
  have tl: "emp_tool_ok (tl_validate T) (tl_exec T)" and mk: "prog_masked prog"
    using tool guard None by (simp_all add: tools_ok_def)
  obtain o1 en1 o2 en2 where r: "run_program (tl_prims T) (tl_validate T) (tl_exec T) rc (tl_hash0 T) prog
        (b1, ss_engine s1) (b2, ss_engine s2) = Inr ((o1, en1), (o2, en2))"
    and wo: "wires_rel (pc_Delta (ss_proto s1)) (pc_Delta (ss_proto s2)) o1 o2 (prog_clear prog vs)"
    and en: "engines_ok en1 en2" "pc_Delta (en_proto en1) = pc_Delta (ss_proto s1)" "pc_Delta (en_proto en2) = pc_Delta (ss_proto s2)"
    using run_program_masked [OF tl sess_relD(1) [OF rel] w ok(1) can ok(2) mk, of "tl_prims T" rc "tl_hash0 T"]
    by (elim exE conjE) (rule that; assumption)
  show ?thesis
    using wrap_refines [OF rel en wo] None by (simp add: session_run_program_def r cl_program_def)
qed

text \<open>When a run leaves the garbler's masks right.\<close>

definition program_guard :: "(program \<Rightarrow> bool) \<Rightarrow> program \<Rightarrow> bool" where
  "program_guard validate prog \<longleftrightarrow>
     (program_error validate prog (p_num_inputs prog) = None \<longrightarrow> prog_masked prog)"

lemma run_circuit_refines:
  fixes T :: "('m, 'd) tools"
  assumes tool: "tools_ok T" and rel: "sess_rel s1 s2 c" and guard: "program_guard (tl_validate T) prog"
  shows "refines (run_circuit T rc prog args s1 s2) (cl_run_circuit (tl_validate T) prog args c)"
  unfolding run_circuit_def cl_run_circuit_def
proof (rule args_refine [OF rel], goal_cases)
  case (1 vs b1 b2)
  show ?case
  proof (cases "length vs = p_num_inputs prog")
    case True
    then show ?thesis
      using program_refines [OF tool rel 1(3), of prog rc] guard wires_rel_layout(3,4) [OF 1(3)]
      by (simp add: program_guard_def)
  qed (use wires_rel_layout(3,4) [OF 1(3)] in simp)
qed

lemma run_artifact_refines:
  fixes T :: "('m, 'd) tools"
  assumes tool: "tools_ok T" and rel: "sess_rel s1 s2 c" and guard: "program_guard (tl_validate T) prog"
  shows "refines (run_artifact T rc width prog args s1 s2) (cl_run_artifact (tl_validate T) width prog args c)"
  unfolding run_artifact_def cl_run_artifact_def
proof (rule args_refine [OF rel], goal_cases)
  case (1 vs b1 b2)
  show ?case
  proof (cases "length vs = p_num_inputs prog \<and> width = length (p_outputs prog)")
    case True
    then show ?thesis
      using program_refines [OF tool rel 1(3), of prog rc] guard wires_rel_layout(3,4) [OF 1(3)]
      by (simp add: program_guard_def)
  qed (use wires_rel_layout(3,4) [OF 1(3)] in auto)
qed

text \<open>A body that reads wires it was given or made, and returns such wires.\<close>

definition body_guard :: "(wire list list \<Rightarrow> body) \<Rightarrow> wire list list \<Rightarrow> bool" where
  "body_guard f args \<longleftrightarrow> (let n = sum_list (map length args);
       (outs, es) = stream_of n (body_replay (map length args) f)
     in wf_stream n es \<and> (\<forall>x \<in> set outs. x < n + length es) \<and> masked_outputs n es outs)"

lemma run_body_refines:
  fixes T :: "('m, 'd) tools"
  assumes rel: "sess_rel s1 s2 c" and guard: "body_guard f args"
  shows "refines (run_body T rc f args s1 s2) (cl_run_body f args c)"
  unfolding run_body_def cl_run_body_def
proof (rule args_refine [OF rel], goal_cases)
  case (1 vs b1 b2)
  obtain outs es where src: "stream_of (length vs) (body_replay (map length args) f) = (outs, es)" by (metis surj_pair)
  have g: "wf_stream (length vs) es" "\<forall>x \<in> set outs. x < length vs + length es" "masked_outputs (length vs) es outs"
    using guard src 1(2) by (simp_all add: body_guard_def Let_def)
  obtain o1 en1 o2 en2 where r: "run_source (tl_prims T) rc (tl_hash0 T) (body_replay (map length args) f)
        (b1, ss_engine s1) (b2, ss_engine s2) = Inr ((o1, en1), (o2, en2))"
    and wo: "wires_rel (pc_Delta (ss_proto s1)) (pc_Delta (ss_proto s2)) o1 o2 (clear_outputs vs (outs, es))"
    and en: "engines_ok en1 en2" "pc_Delta (en_proto en1) = pc_Delta (ss_proto s1)" "pc_Delta (en_proto en2) = pc_Delta (ss_proto s2)"
    using run_source_masked [OF sess_relD(1) [OF rel] 1(3) src g, of "tl_prims T" rc "tl_hash0 T"]
    by (elim exE conjE) (rule that; assumption)
  show ?case using wrap_refines [OF rel en wo] by (simp add: r src)
qed

end
