(* ===== verification/Session_Calls.thy ===== *)
theory Session_Calls
  imports Refinement
begin

text \<open>
  Input batches, and sequences of calls: a world is the two parties' sessions and open batches, a
  call is one operation both parties make. Every sequence of calls gives the answers of the clear
  session.
\<close>

section \<open>Input batches\<close>

record clear_batch =
  cb_owners :: "nat list"
  cb_bits :: "bool list list"
  cb_ids :: "wire list list"
  cb_finished :: bool

definition clear_input_batch :: clear_batch where
  "clear_input_batch = \<lparr>cb_owners = [], cb_bits = [], cb_ids = [], cb_finished = False\<rparr>"

definition cl_batch_add ::
  "nat \<Rightarrow> byte list \<Rightarrow> byte list \<Rightarrow> clear_batch \<Rightarrow> clear_session \<Rightarrow> ((wire list \<times> clear_batch) \<times> clear_session) result" where
  "cl_batch_add owner bits1 bits2 b c =
     (if cb_finished b then Inl Batch_Add_After_Finish
      else bind_result (reserve_ids (length bits1) (cl_ctx c)) (\<lambda>(ids, r).
        Inr ((ids, b\<lparr>cb_owners := cb_owners b @ [owner], cb_bits := cb_bits b @ [owner_bits owner bits1 bits2],
                    cb_ids := cb_ids b @ [ids]\<rparr>), c\<lparr>cl_ctx := r\<rparr>)))"

definition pub_adds :: "nat \<Rightarrow> nat list \<Rightarrow> nat list" where
  "pub_adds a owners = filter (\<lambda>a. owners ! a = PUBLIC) [a..<length owners]"

definition store_adds :: "clear_batch \<Rightarrow> nat list \<Rightarrow> (wire \<rightharpoonup> bool) \<Rightarrow> (wire \<rightharpoonup> bool)" where
  "store_adds b adds = fold (\<lambda>a. store_bits (cb_ids b ! a) (cb_bits b ! a)) adds"

definition cl_batch_finish :: "clear_batch \<Rightarrow> clear_session \<Rightarrow> (clear_batch \<times> clear_session) result" where
  "cl_batch_finish b c =
     (if cb_finished b then Inl Batch_Finish_Twice
      else if \<exists>o' \<in> set (cb_owners b). o' \<noteq> PUBLIC \<and> o' \<noteq> ALICE \<and> o' \<noteq> BOB then Inl Batch_Owner
      else Inr (b\<lparr>cb_finished := True\<rparr>,
        c\<lparr>cl_vals := store_adds b (pub_adds 0 (cb_owners b) @ sec_adds (cb_owners b)) (cl_vals c)\<rparr>))"

definition batch_rel :: "batch \<Rightarrow> batch \<Rightarrow> clear_batch \<Rightarrow> bool" where
  "batch_rel b1 b2 b \<longleftrightarrow>
     ib_owners b1 = cb_owners b \<and> ib_owners b2 = cb_owners b \<and> ib_ids b1 = cb_ids b \<and> ib_ids b2 = cb_ids b \<and>
     ib_finished b1 = cb_finished b \<and> ib_finished b2 = cb_finished b \<and>
     length (ib_bits b1) = length (cb_owners b) \<and> length (ib_bits b2) = length (cb_owners b) \<and>
     length (cb_bits b) = length (cb_owners b) \<and> length (cb_ids b) = length (cb_owners b) \<and>
     (\<forall>a < length (cb_owners b). input_guard (cb_owners b ! a) (ib_bits b1 ! a) (ib_bits b2 ! a) \<and>
        length (cb_ids b ! a) = length (ib_bits b1 ! a) \<and>
        cb_bits b ! a = owner_bits (cb_owners b ! a) (ib_bits b1 ! a) (ib_bits b2 ! a))"

lemma input_batch_rel: "batch_rel input_batch input_batch clear_input_batch"
  by (simp add: batch_rel_def input_batch_def clear_input_batch_def)

lemma batch_add_rel:
  assumes rel: "sess_rel s1 s2 c" and b: "batch_rel b1 b2 b" and guard: "input_guard owner bits1 bits2"
  shows "case cl_batch_add owner bits1 bits2 b c of
      Inl err \<Rightarrow> batch_add owner bits1 b1 s1 = Inl err
    | Inr ((ids, b'), c') \<Rightarrow> \<exists>b1' s1' b2' s2'. batch_add owner bits1 b1 s1 = Inr ((ids, b1'), s1') \<and>
        batch_add owner bits2 b2 s2 = Inr ((ids, b2'), s2') \<and> batch_rel b1' b2' b' \<and> sess_rel s1' s2' c'"
proof -
  have fin: "ib_finished b1 = cb_finished b" "ib_finished b2 = cb_finished b" using b by (simp_all add: batch_rel_def)
  have len: "length bits2 = length bits1" using guard by (simp add: input_guard_def)
  show ?thesis
  proof (cases "cb_finished b")
    case False
    show ?thesis
    proof (cases "reserve_ids (length bits1) (cl_ctx c)")
      case (Inr x)
      obtain ids r where x: "x = (ids, r)" by (cases x)
      have inv: "rec_inv r" using rec_inv_reserve [OF sess_relD(5) [OF rel]] Inr x by blast
      have l: "length ids = length bits1" using reserve_ids_length Inr x by metis
      show ?thesis
        using False Inr x sess_rel_ctx [OF rel inv] sess_relD(3,4) [OF rel] b guard l
        by (auto simp: cl_batch_add_def batch_add_def fin len batch_rel_def nth_append less_Suc_eq)
    qed (use False sess_relD(3) [OF rel] in \<open>simp add: cl_batch_add_def batch_add_def fin\<close>)
  qed (simp add: cl_batch_add_def batch_add_def fin)
qed

lemma batch_relD:
  assumes "batch_rel b1 b2 b" and "a < length (cb_owners b)"
  shows "input_guard (cb_owners b ! a) (ib_bits b1 ! a) (ib_bits b2 ! a)"
    "length (cb_ids b ! a) = length (ib_bits b1 ! a)"
    "cb_bits b ! a = owner_bits (cb_owners b ! a) (ib_bits b1 ! a) (ib_bits b2 ! a)"
    "length (cb_bits b ! a) = length (cb_ids b ! a)"
  using assms by (simp_all add: batch_rel_def owner_bits_def input_guard_def)

text \<open>The loop over the adds stores the public bundles.\<close>

lemma pub_adds_Cons:
  "a < length owners \<Longrightarrow> pub_adds a owners = (if owners ! a = PUBLIC then a # pub_adds (Suc a) owners else pub_adds (Suc a) owners)"
  by (simp add: pub_adds_def upt_conv_Cons)

lemma batch_loop_rel:
  assumes b: "batch_rel b1 b2 b" and rel: "sess_rel s1 s2 c" and os: "os = drop a (cb_owners b)"
  shows "if \<exists>o' \<in> set os. o' \<noteq> PUBLIC \<and> o' \<noteq> ALICE \<and> o' \<noteq> BOB
    then batch_loop os a (ib_bits b1) (cb_ids b) s1 = Inl Batch_Owner
    else \<exists>s1' s2'. batch_loop os a (ib_bits b1) (cb_ids b) s1 = Inr s1' \<and>
      batch_loop os a (ib_bits b2) (cb_ids b) s2 = Inr s2' \<and>
      sess_rel s1' s2' (c\<lparr>cl_vals := store_adds b (pub_adds a (cb_owners b)) (cl_vals c)\<rparr>)"
  using rel os
proof (induction os arbitrary: a s1 s2 c)
  case Nil
  then have "pub_adds a (cb_owners b) = []" by (simp add: pub_adds_def)
  then show ?case using Nil.prems(1) by (simp add: store_adds_def)
next
  case (Cons o' os)
  have a: "a < length (cb_owners b)" "cb_owners b ! a = o'"
    using Cons.prems(2) by (metis drop_eq_Nil2 linorder_not_le list.distinct(1), metis nth_via_drop)
  have os: "os = drop (Suc a) (cb_owners b)" using Cons.prems(2) by (metis drop_Suc list.sel(3) tl_drop)
  note pc = pub_adds_Cons [OF a(1), unfolded a(2)]
  consider (pub) "o' = PUBLIC" | (sec) "o' = ALICE \<or> o' = BOB" | (bad) "o' \<noteq> PUBLIC" "o' \<noteq> ALICE" "o' \<noteq> BOB" by blast
  then show ?case
  proof cases
    case pub
    have eq: "ib_bits b1 ! a = ib_bits b2 ! a"
      using batch_relD(1) [OF b a(1)] pub a(2) by (simp add: input_guard_def)
    have w: "wires_rel (pc_Delta (ss_proto s1)) (pc_Delta (ss_proto s2)) (public_wires (ss_proto s1) (ib_bits b1 ! a))
        (public_wires (ss_proto s2) (ib_bits b2 ! a)) (cb_bits b ! a)"
      unfolding eq batch_relD(3) [OF b a(1)] owner_bits_def a(2) pub
      using public_wires_rel [OF protocols_okD(1,2) [OF sess_relD(2) [OF Cons.prems(1)]], of "ib_bits b2 ! a"]
      by (simp add: party_defs)
    obtain t1 t2 where t: "materialize_into (cb_ids b ! a) (public_wires (ss_proto s1) (ib_bits b1 ! a)) s1 = Inr t1"
        "materialize_into (cb_ids b ! a) (public_wires (ss_proto s2) (ib_bits b2 ! a)) s2 = Inr t2"
      and r: "sess_rel t1 t2 (c\<lparr>cl_vals := store_bits (cb_ids b ! a) (cb_bits b ! a) (cl_vals c)\<rparr>)"
      using materialize_into_rel [OF Cons.prems(1) w batch_relD(4) [OF b a(1)]] by blast
    have bl: "batch_loop (o' # os) a (ib_bits b1) (cb_ids b) s1 = batch_loop os (Suc a) (ib_bits b1) (cb_ids b) t1"
      "batch_loop (o' # os) a (ib_bits b2) (cb_ids b) s2 = batch_loop os (Suc a) (ib_bits b2) (cb_ids b) t2"
      using pub t by simp_all
    let ?c = "c\<lparr>cl_vals := store_bits (cb_ids b ! a) (cb_bits b ! a) (cl_vals c)\<rparr>"
    have cc: "c\<lparr>cl_vals := store_adds b (pub_adds a (cb_owners b)) (cl_vals c)\<rparr> =
        ?c\<lparr>cl_vals := store_adds b (pub_adds (Suc a) (cb_owners b)) (cl_vals ?c)\<rparr>"
      using pub by (simp add: pc store_adds_def)
    have ex: "(\<exists>x \<in> set (o' # os). x \<noteq> PUBLIC \<and> x \<noteq> ALICE \<and> x \<noteq> BOB) \<longleftrightarrow>
        (\<exists>x \<in> set os. x \<noteq> PUBLIC \<and> x \<noteq> ALICE \<and> x \<noteq> BOB)" using pub by simp
    show ?thesis unfolding bl ex cc by (rule Cons.IH [OF r os])
  next
    case sec
    then have ne: "o' \<noteq> PUBLIC" by (auto simp: party_defs)
    have bl: "batch_loop (o' # os) a bits ids s = batch_loop os (Suc a) bits ids s" for bits ids s
      using sec ne by simp
    have ex: "(\<exists>x \<in> set (o' # os). x \<noteq> PUBLIC \<and> x \<noteq> ALICE \<and> x \<noteq> BOB) \<longleftrightarrow>
        (\<exists>x \<in> set os. x \<noteq> PUBLIC \<and> x \<noteq> ALICE \<and> x \<noteq> BOB)" using sec by auto
    have pa: "pub_adds a (cb_owners b) = pub_adds (Suc a) (cb_owners b)" using ne by (simp add: pc)
    show ?thesis unfolding bl ex pa by (rule Cons.IH [OF Cons.prems(1) os])
  next
    case bad
    then show ?thesis by simp
  qed
qed

lemma materialize_all_rel:
  assumes b: "batch_rel b1 b2 b" and rel: "sess_rel s1 s2 c"
    and len: "length gs = length sec" "length es = length sec" and sec: "\<forall>a \<in> set sec. a < length (cb_owners b)"
    and w: "\<forall>k < length sec. wires_rel (pc_Delta (ss_proto s1)) (pc_Delta (ss_proto s2)) (gs ! k) (es ! k) (cb_bits b ! (sec ! k))"
  shows "\<exists>s1' s2'. materialize_all (zip (map ((!) (cb_ids b)) sec) gs) s1 = Inr s1' \<and>
    materialize_all (zip (map ((!) (cb_ids b)) sec) es) s2 = Inr s2' \<and>
    sess_rel s1' s2' (c\<lparr>cl_vals := store_adds b sec (cl_vals c)\<rparr>)"
  using rel len sec w
proof (induction sec arbitrary: gs es s1 s2 c)
  case (Cons a sec)
  obtain g gs' e es' where ge: "gs = g # gs'" "es = e # es'" using Cons.prems(2,3) by (metis length_Suc_conv list.size(4) length_Cons)
  have a: "a < length (cb_owners b)" using Cons.prems(4) by simp
  have w0: "wires_rel (pc_Delta (ss_proto s1)) (pc_Delta (ss_proto s2)) g e (cb_bits b ! a)"
    using spec [OF Cons.prems(5), of 0] ge by simp
  obtain t1 t2 where t: "materialize_into (cb_ids b ! a) g s1 = Inr t1" "materialize_into (cb_ids b ! a) e s2 = Inr t2"
    and r: "sess_rel t1 t2 (c\<lparr>cl_vals := store_bits (cb_ids b ! a) (cb_bits b ! a) (cl_vals c)\<rparr>)"
    and en: "ss_engine t1 = ss_engine s1" "ss_engine t2 = ss_engine s2"
    using materialize_into_rel [OF Cons.prems(1) w0 batch_relD(4) [OF b a]] by blast
  have w': "\<forall>k < length sec. wires_rel (pc_Delta (ss_proto t1)) (pc_Delta (ss_proto t2)) (gs' ! k) (es' ! k) (cb_bits b ! (sec ! k))"
  proof (intro allI impI)
    fix k assume "k < length sec"
    then show "wires_rel (pc_Delta (ss_proto t1)) (pc_Delta (ss_proto t2)) (gs' ! k) (es' ! k) (cb_bits b ! (sec ! k))"
      using spec [OF Cons.prems(5), of "Suc k"] ge en by simp
  qed
  have l: "length gs' = length sec" "length es' = length sec" "\<forall>a \<in> set sec. a < length (cb_owners b)"
    using Cons.prems(2-4) ge by simp_all
  have ma: "materialize_all (zip (map ((!) (cb_ids b)) (a # sec)) gs) s1 = materialize_all (zip (map ((!) (cb_ids b)) sec) gs') t1"
    "materialize_all (zip (map ((!) (cb_ids b)) (a # sec)) es) s2 = materialize_all (zip (map ((!) (cb_ids b)) sec) es') t2"
    using t by (simp_all add: ge)
  have sa: "store_adds b (a # sec) v = store_adds b sec (store_bits (cb_ids b ! a) (cb_bits b ! a) v)" for v
    by (simp add: store_adds_def)
  show ?case using Cons.IH [OF r l w'] unfolding ma sa by simp
qed (simp add: store_adds_def)

lemma sec_inputs_ok:
  assumes b: "batch_rel b1 b2 b"
  defines "sec \<equiv> sec_adds (cb_owners b)"
  shows "inputs_ok (map ((!) (cb_owners b)) sec) (map ((!) (ib_bits b1)) sec) (map ((!) (ib_bits b2)) sec)"
    and "\<And>k. k < length sec \<Longrightarrow> map nz (input_bits (map ((!) (cb_owners b)) sec) (map ((!) (ib_bits b1)) sec)
      (map ((!) (ib_bits b2)) sec) k) = cb_bits b ! (sec ! k)"
proof -
  have sec: "a < length (cb_owners b) \<and> (cb_owners b ! a = ALICE \<or> cb_owners b ! a = BOB)" if "a \<in> set sec" for a
    using that by (simp add: sec_def sec_adds_def)
  have ib: "input_bits (map ((!) (cb_owners b)) sec) (map ((!) (ib_bits b1)) sec) (map ((!) (ib_bits b2)) sec) k =
      (if cb_owners b ! (sec ! k) = BOB then ib_bits b2 ! (sec ! k) else ib_bits b1 ! (sec ! k))" if "k < length sec" for k
    using sec [OF nth_mem [OF that]] that by (auto simp: input_bits_def party_defs)
  show "map nz (input_bits (map ((!) (cb_owners b)) sec) (map ((!) (ib_bits b1)) sec)
      (map ((!) (ib_bits b2)) sec) k) = cb_bits b ! (sec ! k)" if "k < length sec" for k
    using batch_relD(3) [OF b conjunct1 [OF sec [OF nth_mem [OF that]]]] ib [OF that] by (simp add: owner_bits_def)
  have "\<forall>x \<in> set (input_bits (map ((!) (cb_owners b)) sec) (map ((!) (ib_bits b1)) sec) (map ((!) (ib_bits b2)) sec) k).
      x = 0 \<or> x = 1" if k: "k < length sec" for k
    using batch_relD(1) [OF b conjunct1 [OF sec [OF nth_mem [OF k]]]] sec [OF nth_mem [OF k]]
    unfolding ib [OF k] by (auto simp: input_guard_def party_defs)
  moreover have "length (ib_bits b1 ! a) = length (ib_bits b2 ! a)" if "a \<in> set sec" for a
    using batch_relD(1) [OF b] sec [OF that] by (simp add: input_guard_def)
  ultimately show "inputs_ok (map ((!) (cb_owners b)) sec) (map ((!) (ib_bits b1)) sec) (map ((!) (ib_bits b2)) sec)"
    using sec by (auto simp: inputs_ok_def)
qed

lemma batch_finish_rel:
  fixes P :: "('m, 'd) prims"
  assumes rel: "sess_rel s1 s2 c" and b: "batch_rel b1 b2 b"
  shows "case cl_batch_finish b c of
      Inl err \<Rightarrow> batch_finish P labels b1 b2 s1 s2 = Inl err
    | Inr (b', c') \<Rightarrow> \<exists>b1' s1' b2' s2'. batch_finish P labels b1 b2 s1 s2 = Inr ((b1', s1'), (b2', s2')) \<and>
        batch_rel b1' b2' b' \<and> sess_rel s1' s2' c'"
proof -
  have eq: "ib_owners b1 = cb_owners b" "ib_owners b2 = cb_owners b" "ib_ids b1 = cb_ids b" "ib_ids b2 = cb_ids b"
    "ib_finished b1 = cb_finished b" "ib_finished b2 = cb_finished b" using b by (simp_all add: batch_rel_def)
  let ?bad = "\<exists>o' \<in> set (cb_owners b). o' \<noteq> PUBLIC \<and> o' \<noteq> ALICE \<and> o' \<noteq> BOB"
  note L = batch_loop_rel [OF b rel, of "cb_owners b" 0]
  consider (fin) "cb_finished b" | (bad) "\<not> cb_finished b" "?bad" | (ok) "\<not> cb_finished b" "\<not> ?bad" by blast
  then show ?thesis
  proof cases
    case fin
    then show ?thesis by (simp add: cl_batch_finish_def batch_finish_def eq)
  next
    case bad
    then have "batch_loop (cb_owners b) 0 (ib_bits b1) (cb_ids b) s1 = Inl Batch_Owner" using L by simp
    then show ?thesis using bad by (simp add: cl_batch_finish_def batch_finish_def batch_finish_all_def eq)
  next
    case ok
    let ?c = "c\<lparr>cl_vals := store_adds b (pub_adds 0 (cb_owners b)) (cl_vals c)\<rparr>" and ?sec = "sec_adds (cb_owners b)"
    obtain t1 t2 where t: "batch_loop (cb_owners b) 0 (ib_bits b1) (cb_ids b) s1 = Inr t1"
        "batch_loop (cb_owners b) 0 (ib_bits b2) (cb_ids b) s2 = Inr t2" and rt: "sess_rel t1 t2 ?c"
      using L ok(2) by auto
    have br: "batch_rel (b1\<lparr>ib_finished := True\<rparr>) (b2\<lparr>ib_finished := True\<rparr>) (b\<lparr>cb_finished := True\<rparr>)"
      using b unfolding batch_rel_def by simp
    have cl: "cl_batch_finish b c = Inr (b\<lparr>cb_finished := True\<rparr>,
        ?c\<lparr>cl_vals := store_adds b ?sec (cl_vals ?c)\<rparr>)"
      unfolding cl_batch_finish_def if_not_P [OF ok(1)] if_not_P [OF ok(2)] by (simp add: store_adds_def)
    have "\<exists>u1 u2. batch_finish_all P labels (cb_owners b) (ib_bits b1) (ib_bits b2) (cb_ids b) (cb_ids b) s1 s2 =
        Inr (((), u1), ((), u2)) \<and> sess_rel u1 u2 (?c\<lparr>cl_vals := store_adds b ?sec (cl_vals ?c)\<rparr>)"
    proof (cases "?sec = []")
      case True
      then show ?thesis using rt by (simp add: batch_finish_all_def t Let_def store_adds_def)
    next
      case False
      note I = sec_inputs_ok [OF b]
      obtain gs p es q where r: "process_inputs P (map ((!) (cb_owners b)) ?sec) (map ((!) (ib_bits b1)) ?sec)
            (map ((!) (ib_bits b2)) ?sec) labels (ss_proto t1) (ss_proto t2) = Inr ((gs, p), (es, q))"
        and len: "length gs = length (map ((!) (cb_owners b)) ?sec)" "length es = length (map ((!) (cb_owners b)) ?sec)"
        and w: "\<forall>k < length (map ((!) (cb_owners b)) ?sec). wires_rel (pc_Delta (ss_proto t1)) (pc_Delta (ss_proto t2)) (gs ! k) (es ! k)
           (map nz (input_bits (map ((!) (cb_owners b)) ?sec) (map ((!) (ib_bits b1)) ?sec) (map ((!) (ib_bits b2)) ?sec) k))"
        and fr: "protocols_ok p q" "pc_Delta p = pc_Delta (ss_proto t1)" "pc_Delta q = pc_Delta (ss_proto t2)"
        using process_inputs_ok [OF sess_relD(2) [OF rt] I(1), of P labels] by (elim exE conjE) (rule that; assumption)
      note rs = sess_rel_set_proto [OF rt fr]
      have pp: "ss_proto (set_proto p t1) = p" "ss_proto (set_proto q t2) = q" by (simp_all add: set_proto_def)
      have w': "\<forall>k < length ?sec. wires_rel (pc_Delta (ss_proto (set_proto p t1))) (pc_Delta (ss_proto (set_proto q t2)))
          (gs ! k) (es ! k) (cb_bits b ! (?sec ! k))"
        unfolding pp fr(2,3) using w I(2) by simp
      have sec: "\<forall>a \<in> set ?sec. a < length (cb_owners b)" by (simp add: sec_adds_def)
      obtain u1 u2 where "materialize_all (zip (map ((!) (cb_ids b)) ?sec) gs) (set_proto p t1) = Inr u1"
          "materialize_all (zip (map ((!) (cb_ids b)) ?sec) es) (set_proto q t2) = Inr u2"
          "sess_rel u1 u2 (?c\<lparr>cl_vals := store_adds b ?sec (cl_vals ?c)\<rparr>)"
        using materialize_all_rel [OF b rs _ _ sec w'] len by auto
      then show ?thesis using False by (simp add: batch_finish_all_def t Let_def r)
    qed
    then show ?thesis
      using ok(1) br unfolding cl by (auto simp: batch_finish_def eq)
  qed
qed

end
