(* ===== verification/Typed_Values.thy ===== *)
theory Typed_Values
  imports Session
begin

text \<open>
  The values a program holds: wires bound to the context that recorded them. The templates of
  \<^verbatim>\<open>AG2PCSession\<close> check that binding when \<^verbatim>\<open>EMP_CONTEXT_CHECKS\<close> is on, before
  they use the wire ids. Contexts are told apart by their address; each party has its own.
\<close>

record val =
  v_context :: nat
  v_wires :: "wire list"

definition value_ids :: "val \<Rightarrow> wire list" where
  "value_ids v = v_wires v"

text \<open>The check of one value against the context of the session, and the error it raises.\<close>

definition context_check :: "bool \<Rightarrow> nat \<Rightarrow> ag2pc_error \<Rightarrow> val \<Rightarrow> unit result" where
  "context_check checks my err v = (if checks \<and> v_context v \<noteq> my then Inl err else Inr ())"

definition append_ids :: "bool \<Rightarrow> nat \<Rightarrow> wire list \<Rightarrow> val \<Rightarrow> wire list result" where
  "append_ids checks my dst v =
     bind_result (context_check checks my Keep_Foreign v) (\<lambda>_. Inr (dst @ value_ids v))"

primrec append_keep :: "bool \<Rightarrow> nat \<Rightarrow> wire list \<Rightarrow> val list \<Rightarrow> wire list result" where
  "append_keep checks my dst [] = Inr dst"
| "append_keep checks my dst (v # vs) =
     bind_result (append_ids checks my dst v) (\<lambda>dst. append_keep checks my dst vs)"

definition append_value :: "bool \<Rightarrow> nat \<Rightarrow> val \<Rightarrow> session \<Rightarrow> secure_wires \<Rightarrow> secure_wires result" where
  "append_value checks my v s bundle =
     bind_result (context_check checks my Arg_Foreign v) (\<lambda>_. append_arg (value_ids v) s bundle)"

primrec append_values :: "bool \<Rightarrow> nat \<Rightarrow> val list \<Rightarrow> session \<Rightarrow> secure_wires \<Rightarrow> secure_wires result" where
  "append_values checks my [] s bundle = Inr bundle"
| "append_values checks my (v # vs) s bundle =
     bind_result (append_value checks my v s bundle) (\<lambda>b. append_values checks my vs s b)"

section \<open>The calls on values\<close>

text \<open>What a party does of \<^verbatim>\<open>reveal\<close> before it flushes.\<close>

definition reveal_ids :: "bool \<Rightarrow> nat \<Rightarrow> val \<Rightarrow> nat \<Rightarrow> val list \<Rightarrow> wire list result" where
  "reveal_ids checks my v recipient keep =
     (if recipient \<noteq> PUBLIC \<and> recipient \<noteq> ALICE \<and> recipient \<noteq> BOB then Inl Recipient_Invalid
      else bind_result (context_check checks my Value_Foreign v) (\<lambda>_.
        append_keep checks my (value_ids v) keep))"

text \<open>
  Calls of both parties, each with its own values; two parties that keep or open different wires
  would flush different chunks.
\<close>

definition reveal_value ::
  "('m, 'd) tools \<Rightarrow> run_coins \<Rightarrow> bool \<Rightarrow> nat \<Rightarrow> nat \<Rightarrow> val \<Rightarrow> val \<Rightarrow> nat \<Rightarrow> val list \<Rightarrow> val list \<Rightarrow>
   session \<Rightarrow> session \<Rightarrow> bool list option both" where
  "reveal_value T rc checks c1 c2 v1 v2 recipient keep1 keep2 s1 s2 =
     bind_result (reveal_ids checks c1 v1 recipient keep1) (\<lambda>ids1.
     bind_result (reveal_ids checks c2 v2 recipient keep2) (\<lambda>ids2.
       if ids1 \<noteq> ids2 \<or> value_ids v1 \<noteq> value_ids v2 then Inl Desynchronised
       else reveal T rc (value_ids v1) recipient (map value_ids keep1) s1 s2))"

definition checkpoint_values ::
  "('m, 'd) tools \<Rightarrow> run_coins \<Rightarrow> bool \<Rightarrow> nat \<Rightarrow> nat \<Rightarrow> val list \<Rightarrow> val list \<Rightarrow> session \<Rightarrow> session \<Rightarrow> unit both" where
  "checkpoint_values T rc checks c1 c2 keep1 keep2 s1 s2 =
     bind_result (append_keep checks c1 [] keep1) (\<lambda>ids1.
     bind_result (append_keep checks c2 [] keep2) (\<lambda>ids2.
       if ids1 \<noteq> ids2 then Inl Desynchronised else checkpoint T rc (map value_ids keep1) s1 s2))"

definition from_wires :: "nat \<Rightarrow> wire list \<Rightarrow> val" where
  "from_wires my ids = \<lparr>v_context = my, v_wires = ids\<rparr>"

definition bound_to :: "nat \<Rightarrow> nat \<Rightarrow> wire list both \<Rightarrow> val both" where
  "bound_to c1 c2 r = bind_result r (\<lambda>((i1, s1), (i2, s2)).
     Inr ((from_wires c1 i1, s1), (from_wires c2 i2, s2)))"

definition input_value ::
  "('m, 'd) prims \<Rightarrow> nat \<Rightarrow> nat \<Rightarrow> nat \<Rightarrow> byte list \<Rightarrow> byte list \<Rightarrow> block list \<Rightarrow> session \<Rightarrow> session \<Rightarrow> val both" where
  "input_value P c1 c2 owner bits1 bits2 labels s1 s2 =
     bound_to c1 c2 (session_input P owner bits1 bits2 labels s1 s2)"

definition run_circuit_values ::
  "('m, 'd) tools \<Rightarrow> run_coins \<Rightarrow> bool \<Rightarrow> nat \<Rightarrow> nat \<Rightarrow> program \<Rightarrow> val list \<Rightarrow> val list \<Rightarrow> session \<Rightarrow> session \<Rightarrow> val both" where
  "run_circuit_values T rc checks c1 c2 prog args1 args2 s1 s2 =
     bind_result (append_values checks c1 args1 s1 empty_wires) (\<lambda>b1.
     bind_result (append_values checks c2 args2 s2 empty_wires) (\<lambda>b2.
       if sw_size b1 \<noteq> p_num_inputs prog \<or> sw_size b2 \<noteq> p_num_inputs prog then Inl Arg_Width
       else bound_to c1 c2
         (wrap_outputs (session_run_program T rc prog b1 b2 (ss_engine s1) (ss_engine s2)) s1 s2)))"

definition run_artifact_values ::
  "('m, 'd) tools \<Rightarrow> run_coins \<Rightarrow> bool \<Rightarrow> nat \<Rightarrow> nat \<Rightarrow> nat \<Rightarrow> program \<Rightarrow> val list \<Rightarrow> val list \<Rightarrow>
   session \<Rightarrow> session \<Rightarrow> val both" where
  "run_artifact_values T rc checks c1 c2 width prog args1 args2 s1 s2 =
     bind_result (append_values checks c1 args1 s1 empty_wires) (\<lambda>b1.
     bind_result (append_values checks c2 args2 s2 empty_wires) (\<lambda>b2.
       if sw_size b1 \<noteq> p_num_inputs prog \<or> sw_size b2 \<noteq> p_num_inputs prog then Inl Arg_Width
       else if width \<noteq> length (p_outputs prog) then Inl Output_Width
       else bound_to c1 c2
         (wrap_outputs (session_run_program T rc prog b1 b2 (ss_engine s1) (ss_engine s2)) s1 s2)))"

definition run_body_values ::
  "('m, 'd) tools \<Rightarrow> run_coins \<Rightarrow> bool \<Rightarrow> nat \<Rightarrow> nat \<Rightarrow> (wire list list \<Rightarrow> body) \<Rightarrow> val list \<Rightarrow> val list \<Rightarrow>
   session \<Rightarrow> session \<Rightarrow> val both" where
  "run_body_values T rc checks c1 c2 f args1 args2 s1 s2 =
     bind_result (append_values checks c1 args1 s1 empty_wires) (\<lambda>b1.
     bind_result (append_values checks c2 args2 s2 empty_wires) (\<lambda>b2.
       bound_to c1 c2 (wrap_outputs (run_source (tl_prims T) rc (tl_hash0 T)
           (body_replay (map (length \<circ> value_ids) args1) f) (b1, ss_engine s1) (b2, ss_engine s2)) s1 s2)))"

section \<open>Values of the session\<close>

text \<open>
  The checks pass: they are off, or the value is bound to the session's context. Then the calls are
  those on the wire ids; with the checks off that holds of any value, so a value of another session
  stands for the wires of this session that have the same ids.
\<close>

definition usable :: "bool \<Rightarrow> nat \<Rightarrow> val \<Rightarrow> bool" where
  "usable checks my v \<longleftrightarrow> checks \<longrightarrow> v_context v = my"

lemma context_check_eq [simp]: "context_check checks my err v = (if usable checks my v then Inr () else Inl err)"
  by (simp add: context_check_def usable_def)

lemma append_keep_eq:
  "append_keep checks my dst vs =
     (if \<forall>v \<in> set vs. usable checks my v then Inr (dst @ concat (map value_ids vs)) else Inl Keep_Foreign)"
  by (induction vs arbitrary: dst) (auto simp: append_ids_def)

lemma append_values_usable:
  "\<forall>v \<in> set vs. usable checks my v \<Longrightarrow> append_values checks my vs s b = append_args (map value_ids vs) s b"
proof (induction vs arbitrary: b)
  case (Cons v vs)
  then show ?case by (cases "append_arg (value_ids v) s b") (simp_all add: append_value_def)
qed simp

text \<open>The first argument that is foreign or not materialized decides.\<close>

lemma append_values_foreign:
  assumes "\<forall>v \<in> set vs. usable checks my v" and "\<forall>w \<in> set (concat (map value_ids vs)). ss_carried s w \<noteq> None"
    and "\<not> usable checks my v"
  shows "append_values checks my (vs @ v # vs') s b = Inl Arg_Foreign"
  using assms(1,2)
proof (induction vs arbitrary: b)
  case Nil
  then show ?case using assms(3) by (simp add: append_value_def)
next
  case (Cons u vs)
  have "append_arg (value_ids u) s b = bind_result (gather_carried (value_ids u) s) (\<lambda>c. Inr (append_bundle b c))"
    "gather_carried (value_ids u) s = Inr (carried_bundle (is_evaluator (ss_proto s)) (ss_carried s) (value_ids u))"
    using Cons.prems(2) by (auto simp: append_arg_def gather_carried_eq)
  then show ?case using Cons by (simp add: append_value_def)
qed

lemma calls_on_own_values:
  assumes "usable checks c1 v" "\<forall>u \<in> set keep. usable checks c1 u" "usable checks c2 v'" "\<forall>u \<in> set keep'. usable checks c2 u"
    and "value_ids v' = value_ids v" "map value_ids keep' = map value_ids keep"
  shows "reveal_value T rc checks c1 c2 v v' recipient keep keep' s1 s2 =
      reveal T rc (value_ids v) recipient (map value_ids keep) s1 s2"
    and "checkpoint_values T rc checks c1 c2 keep keep' s1 s2 = checkpoint T rc (map value_ids keep) s1 s2"
    and "run_circuit_values T rc checks c1 c2 prog keep keep' s1 s2 =
      bound_to c1 c2 (run_circuit T rc prog (map value_ids keep) s1 s2)"
    and "run_artifact_values T rc checks c1 c2 width prog keep keep' s1 s2 =
      bound_to c1 c2 (run_artifact T rc width prog (map value_ids keep) s1 s2)"
    and "run_body_values T rc checks c1 c2 f keep keep' s1 s2 =
      bound_to c1 c2 (run_body T rc f (map value_ids keep) s1 s2)"
proof -
  show "reveal_value T rc checks c1 c2 v v' recipient keep keep' s1 s2 =
      reveal T rc (value_ids v) recipient (map value_ids keep) s1 s2"
    using assms by (simp add: reveal_value_def reveal_ids_def append_keep_eq reveal_def)
  show "checkpoint_values T rc checks c1 c2 keep keep' s1 s2 = checkpoint T rc (map value_ids keep) s1 s2"
    using assms by (simp add: checkpoint_values_def append_keep_eq)
  have args: "append_values checks c1 keep s1 empty_wires = append_args (map value_ids keep) s1 empty_wires"
    "append_values checks c2 keep' s2 empty_wires = append_args (map value_ids keep) s2 empty_wires"
    using append_values_usable [OF assms(2)] append_values_usable [OF assms(4)] assms(6) by simp_all
  have err: "bound_to c1 c2 (Inl e) = Inl e" for e by (simp add: bound_to_def)
  show "run_circuit_values T rc checks c1 c2 prog keep keep' s1 s2 =
      bound_to c1 c2 (run_circuit T rc prog (map value_ids keep) s1 s2)"
    "run_artifact_values T rc checks c1 c2 width prog keep keep' s1 s2 =
      bound_to c1 c2 (run_artifact T rc width prog (map value_ids keep) s1 s2)"
    "run_body_values T rc checks c1 c2 f keep keep' s1 s2 =
      bound_to c1 c2 (run_body T rc f (map value_ids keep) s1 s2)"
    unfolding run_circuit_values_def run_circuit_def run_artifact_values_def run_artifact_def run_body_values_def
      run_body_def args
    by (cases "append_args (map value_ids keep) s1 empty_wires"; cases "append_args (map value_ids keep) s2 empty_wires";
        simp add: err)+
qed

lemma foreign_values_rejected:
  assumes "\<not> usable checks c1 x"
  shows "recipient \<in> {PUBLIC, ALICE, BOB} \<Longrightarrow>
      reveal_value T rc checks c1 c2 x v2 recipient keep1 keep2 s1 s2 = Inl Value_Foreign"
    and "recipient \<in> {PUBLIC, ALICE, BOB} \<Longrightarrow> usable checks c1 v \<Longrightarrow> x \<in> set keep1 \<Longrightarrow>
      reveal_value T rc checks c1 c2 v v2 recipient keep1 keep2 s1 s2 = Inl Keep_Foreign"
    and "x \<in> set keep1 \<Longrightarrow> checkpoint_values T rc checks c1 c2 keep1 keep2 s1 s2 = Inl Keep_Foreign"
  using assms by (auto simp: reveal_value_def reveal_ids_def checkpoint_values_def append_keep_eq)

lemma foreign_arguments_rejected:
  assumes "\<forall>v \<in> set vs. usable checks c1 v" and "\<forall>w \<in> set (concat (map value_ids vs)). ss_carried s1 w \<noteq> None"
    and "\<not> usable checks c1 x"
  shows "run_circuit_values T rc checks c1 c2 prog (vs @ x # vs') args2 s1 s2 = Inl Arg_Foreign"
    and "run_artifact_values T rc checks c1 c2 width prog (vs @ x # vs') args2 s1 s2 = Inl Arg_Foreign"
    and "run_body_values T rc checks c1 c2 f (vs @ x # vs') args2 s1 s2 = Inl Arg_Foreign"
  by (simp_all add: run_circuit_values_def run_artifact_values_def run_body_values_def append_values_foreign [OF assms])

end
