(* ===== verification/Session_Runs.thy ===== *)
theory Session_Runs
  imports Session_Calls Typed_Values
begin

text \<open>
  Sequences of calls. Two honest parties that make the same calls see exactly what the clear
  session answers, call by call, and stop at the same call with the same error.
\<close>

section \<open>Sequences of fallible steps\<close>

text \<open>The answers up to the first error, and the error or the final state.\<close>

primrec trace :: "('o \<Rightarrow> 's \<Rightarrow> ('r \<times> 's) result) \<Rightarrow> 'o list \<Rightarrow> 's \<Rightarrow> 'r list \<times> 's result" where
  "trace step [] s = ([], Inr s)"
| "trace step (c # cs) s = (case step c s of
     Inl err \<Rightarrow> ([], Inl err)
   | Inr (r, s') \<Rightarrow> (case trace step cs s' of (rs, x) \<Rightarrow> (r # rs, x)))"

primrec trace_ok :: "('o \<Rightarrow> 's \<Rightarrow> ('r \<times> 's) result) \<Rightarrow> ('o \<Rightarrow> 's \<Rightarrow> bool) \<Rightarrow> 'o list \<Rightarrow> 's \<Rightarrow> bool" where
  "trace_ok step ok [] s = True"
| "trace_ok step ok (c # cs) s = (ok c s \<and> (case step c s of
     Inl err \<Rightarrow> True | Inr (r, s') \<Rightarrow> trace_ok step ok cs s'))"

locale fallible_simulation =
  fixes R :: "'c \<Rightarrow> 'a \<Rightarrow> bool"
    and cstep :: "'o \<Rightarrow> 'c \<Rightarrow> ('r \<times> 'c) result"
    and astep :: "'o \<Rightarrow> 'a \<Rightarrow> ('r \<times> 'a) result"
    and ok :: "'o \<Rightarrow> 'a \<Rightarrow> bool"
  assumes step: "R c a \<Longrightarrow> ok op a \<Longrightarrow> case astep op a of
      Inl err \<Rightarrow> cstep op c = Inl err
    | Inr (r, a') \<Rightarrow> \<exists>c'. cstep op c = Inr (r, c') \<and> R c' a'"
begin

lemma step_error: "R c a \<Longrightarrow> ok op a \<Longrightarrow> astep op a = Inl err \<Longrightarrow> cstep op c = Inl err"
  using step [of c a op] by simp

lemma step_answer:
  assumes "R c a" "ok op a" "astep op a = Inr (r, a')"
  obtains c' where "cstep op c = Inr (r, c')" "R c' a'"
  using step [OF assms(1,2)] assms(3) by auto

lemma trace_sim:
  assumes "R c a" and "trace_ok astep ok ops a"
  shows "fst (trace cstep ops c) = fst (trace astep ops a) \<and>
    (case snd (trace astep ops a) of
       Inl err \<Rightarrow> snd (trace cstep ops c) = Inl err
     | Inr a' \<Rightarrow> \<exists>c'. snd (trace cstep ops c) = Inr c' \<and> R c' a')"
  using assms
proof (induction ops arbitrary: c a)
  case (Cons op ops)
  have ok: "ok op a" using Cons.prems(2) by simp
  show ?case
  proof (cases "astep op a")
    case (Inl err)
    then show ?thesis using step_error [OF Cons.prems(1) ok] by simp
  next
    case (Inr x)
    obtain r a' where x: "x = (r, a')" by (cases x)
    obtain c' where c': "cstep op c = Inr (r, c')" "R c' a'"
      using step_answer [OF Cons.prems(1) ok] Inr x by blast
    have "trace_ok astep ok ops a'" using Cons.prems(2) Inr x by simp
    from Cons.IH [OF c'(2) this] show ?thesis
      using Inr x c'(1) by (cases "snd (trace astep ops a')") (simp_all add: case_prod_beta)
  qed
qed simp

end

section \<open>Calls\<close>

datatype call =
    Call_Public bool
  | Call_And wire wire
  | Call_Xor wire wire
  | Call_Not wire
  | Call_Input nat "byte list" "byte list" "block list"
  | Call_Batch
  | Call_Add nat "byte list" "byte list"
  | Call_Finish "block list"
  | Call_Reveal "wire list" nat "wire list list" run_coins
  | Call_Checkpoint "wire list list" run_coins
  | Call_Run program "wire list list" run_coins
  | Call_Artifact nat program "wire list list" run_coins
  | Call_Body "wire list list \<Rightarrow> body" "wire list list" run_coins

datatype answer = Wires "wire list" | Opened "bool list option" | Done

record world =
  w_s1 :: session
  w_s2 :: session
  w_b1 :: batch
  w_b2 :: batch

definition answers :: "('a \<Rightarrow> answer) \<Rightarrow> world \<Rightarrow> 'a both \<Rightarrow> ((answer \<times> answer) \<times> world) result" where
  "answers f w r = bind_result r (\<lambda>((x1, s1), (x2, s2)). Inr ((f x1, f x2), w\<lparr>w_s1 := s1, w_s2 := s2\<rparr>))"

primrec session_call :: "('m, 'd) tools \<Rightarrow> call \<Rightarrow> world \<Rightarrow> ((answer \<times> answer) \<times> world) result" where
  "session_call T (Call_Public v) w = answers Wires w
     (both (session_gate (rec_public_bit v)) (session_gate (rec_public_bit v)) (w_s1 w) (w_s2 w))"
| "session_call T (Call_And a b) w = answers Wires w
     (both (session_gate (rec_and_gate a b)) (session_gate (rec_and_gate a b)) (w_s1 w) (w_s2 w))"
| "session_call T (Call_Xor a b) w = answers Wires w
     (both (session_gate (rec_xor_gate a b)) (session_gate (rec_xor_gate a b)) (w_s1 w) (w_s2 w))"
| "session_call T (Call_Not a) w = answers Wires w
     (both (session_gate (rec_not_gate a)) (session_gate (rec_not_gate a)) (w_s1 w) (w_s2 w))"
| "session_call T (Call_Input owner bits1 bits2 labels) w = answers Wires w
     (session_input (tl_prims T) owner bits1 bits2 labels (w_s1 w) (w_s2 w))"
| "session_call T Call_Batch w = Inr ((Done, Done), w\<lparr>w_b1 := input_batch, w_b2 := input_batch\<rparr>)"
| "session_call T (Call_Add owner bits1 bits2) w =
     bind_result (both (batch_add owner bits1 (w_b1 w)) (batch_add owner bits2 (w_b2 w)) (w_s1 w) (w_s2 w))
       (\<lambda>(((i1, b1), s1), ((i2, b2), s2)).
         Inr ((Wires i1, Wires i2), \<lparr>w_s1 = s1, w_s2 = s2, w_b1 = b1, w_b2 = b2\<rparr>))"
| "session_call T (Call_Finish labels) w =
     bind_result (batch_finish (tl_prims T) labels (w_b1 w) (w_b2 w) (w_s1 w) (w_s2 w))
       (\<lambda>((b1, s1), (b2, s2)). Inr ((Done, Done), \<lparr>w_s1 = s1, w_s2 = s2, w_b1 = b1, w_b2 = b2\<rparr>))"
| "session_call T (Call_Reveal v recipient keep rc) w = answers Opened w (reveal T rc v recipient keep (w_s1 w) (w_s2 w))"
| "session_call T (Call_Checkpoint keep rc) w = answers (\<lambda>_. Done) w (checkpoint T rc keep (w_s1 w) (w_s2 w))"
| "session_call T (Call_Run prog args rc) w = answers Wires w (run_circuit T rc prog args (w_s1 w) (w_s2 w))"
| "session_call T (Call_Artifact width prog args rc) w = answers Wires w (run_artifact T rc width prog args (w_s1 w) (w_s2 w))"
| "session_call T (Call_Body f args rc) w = answers Wires w (run_body T rc f args (w_s1 w) (w_s2 w))"

definition init_world :: "pool \<Rightarrow> pool \<Rightarrow> world" where
  "init_world f g = \<lparr>w_s1 = init_session 1 f, w_s2 = init_session 2 g, w_b1 = input_batch, w_b2 = input_batch\<rparr>"

text \<open>The clear counterpart.\<close>

record clear_world =
  cw_s :: clear_session
  cw_b :: clear_batch

definition clear_answers :: "('a \<Rightarrow> answer \<times> answer) \<Rightarrow> clear_world \<Rightarrow> ('a \<times> clear_session) result \<Rightarrow>
    ((answer \<times> answer) \<times> clear_world) result" where
  "clear_answers f w r = bind_result r (\<lambda>(x, c). Inr (f x, w\<lparr>cw_s := c\<rparr>))"

abbreviation wires2 :: "wire list \<Rightarrow> answer \<times> answer" where
  "wires2 ids \<equiv> (Wires ids, Wires ids)"

primrec clear_call :: "(program \<Rightarrow> bool) \<Rightarrow> call \<Rightarrow> clear_world \<Rightarrow> ((answer \<times> answer) \<times> clear_world) result" where
  "clear_call validate (Call_Public v) w = clear_answers wires2 w (cl_gate (rec_public_bit v) (cw_s w))"
| "clear_call validate (Call_And a b) w = clear_answers wires2 w (cl_gate (rec_and_gate a b) (cw_s w))"
| "clear_call validate (Call_Xor a b) w = clear_answers wires2 w (cl_gate (rec_xor_gate a b) (cw_s w))"
| "clear_call validate (Call_Not a) w = clear_answers wires2 w (cl_gate (rec_not_gate a) (cw_s w))"
| "clear_call validate (Call_Input owner bits1 bits2 labels) w =
     clear_answers wires2 w (cl_input owner bits1 bits2 (cw_s w))"
| "clear_call validate Call_Batch w = Inr ((Done, Done), w\<lparr>cw_b := clear_input_batch\<rparr>)"
| "clear_call validate (Call_Add owner bits1 bits2) w =
     bind_result (cl_batch_add owner bits1 bits2 (cw_b w) (cw_s w))
       (\<lambda>((ids, b), c). Inr (wires2 ids, \<lparr>cw_s = c, cw_b = b\<rparr>))"
| "clear_call validate (Call_Finish labels) w =
     bind_result (cl_batch_finish (cw_b w) (cw_s w)) (\<lambda>(b, c). Inr ((Done, Done), \<lparr>cw_s = c, cw_b = b\<rparr>))"
| "clear_call validate (Call_Reveal v recipient keep rc) w =
     clear_answers (\<lambda>(x, y). (Opened x, Opened y)) w (cl_reveal v recipient keep (cw_s w))"
| "clear_call validate (Call_Checkpoint keep rc) w =
     clear_answers (\<lambda>_. (Done, Done)) w (done_result (cl_checkpoint keep (cw_s w)))"
| "clear_call validate (Call_Run prog args rc) w =
     clear_answers wires2 w (cl_run_circuit validate prog args (cw_s w))"
| "clear_call validate (Call_Artifact width prog args rc) w =
     clear_answers wires2 w (cl_run_artifact validate width prog args (cw_s w))"
| "clear_call validate (Call_Body f args rc) w = clear_answers wires2 w (cl_run_body f args (cw_s w))"

definition init_clear_world :: clear_world where
  "init_clear_world = \<lparr>cw_s = init_clear, cw_b = clear_input_batch\<rparr>"

definition world_rel :: "world \<Rightarrow> clear_world \<Rightarrow> bool" where
  "world_rel w c \<longleftrightarrow> sess_rel (w_s1 w) (w_s2 w) (cw_s c) \<and> batch_rel (w_b1 w) (w_b2 w) (cw_b c)"

text \<open>The contract of a call.\<close>

primrec call_guard :: "(program \<Rightarrow> bool) \<Rightarrow> call \<Rightarrow> clear_world \<Rightarrow> bool" where
  "call_guard validate (Call_Public v) w = True"
| "call_guard validate (Call_And a b) w = True"
| "call_guard validate (Call_Xor a b) w = True"
| "call_guard validate (Call_Not a) w = True"
| "call_guard validate (Call_Input owner bits1 bits2 labels) w = input_guard owner bits1 bits2"
| "call_guard validate Call_Batch w = True"
| "call_guard validate (Call_Add owner bits1 bits2) w = input_guard owner bits1 bits2"
| "call_guard validate (Call_Finish labels) w = True"
| "call_guard validate (Call_Reveal v recipient keep rc) w = flush_guard (v @ concat keep) (cw_s w)"
| "call_guard validate (Call_Checkpoint keep rc) w = flush_guard (concat keep) (cw_s w)"
| "call_guard validate (Call_Run prog args rc) w = program_guard validate prog"
| "call_guard validate (Call_Artifact width prog args rc) w = program_guard validate prog"
| "call_guard validate (Call_Body f args rc) w = body_guard f args"

section \<open>Every call refines its clear counterpart\<close>

definition call_sim :: "((answer \<times> answer) \<times> world) result \<Rightarrow> ((answer \<times> answer) \<times> clear_world) result \<Rightarrow> bool" where
  "call_sim r a \<longleftrightarrow> (case a of Inl err \<Rightarrow> r = Inl err
     | Inr (x, c') \<Rightarrow> \<exists>w'. r = Inr (x, w') \<and> world_rel w' c')"

lemma call_sim_refines:
  assumes "world_rel w c" and "refines r a" and "\<And>x. g x = (f x, f x)"
  shows "call_sim (answers f w r) (clear_answers g c a)"
  using assms by (cases a) (auto simp: call_sim_def answers_def clear_answers_def world_rel_def)

lemma call_sim_refines2:
  assumes "world_rel w c" and "refines2 r a"
  shows "call_sim (answers Opened w r) (clear_answers (\<lambda>(x, y). (Opened x, Opened y)) c a)"
  using assms by (cases a) (auto simp: call_sim_def refines2_def answers_def clear_answers_def world_rel_def)

lemma session_call_sim:
  fixes T :: "('m, 'd) tools"
  assumes tool: "tools_ok T" and rel: "world_rel w c" and guard: "call_guard (tl_validate T) cl c"
  shows "call_sim (session_call T cl w) (clear_call (tl_validate T) cl c)"
proof -
  have s: "sess_rel (w_s1 w) (w_s2 w) (cw_s c)" and b: "batch_rel (w_b1 w) (w_b2 w) (cw_b c)"
    using rel by (simp_all add: world_rel_def)
  note gate = call_sim_refines [OF rel gate_refines [OF s] refl]
  note sim = call_sim_refines [OF rel _ refl]
  show ?thesis
  proof (cases cl)
    case (Call_Add owner bits1 bits2)
    have g: "input_guard owner bits1 bits2" using guard Call_Add by simp
    show ?thesis
    proof (cases "cl_batch_add owner bits1 bits2 (cw_b c) (cw_s c)")
      case (Inl err)
      then show ?thesis
        using batch_add_rel [OF s b g] by (simp add: Call_Add call_sim_def both_def)
    next
      case (Inr x)
      obtain ids b' c' where "x = ((ids, b'), c')" by (metis prod_cases3 surj_pair)
      then show ?thesis
        using batch_add_rel [OF s b g] Inr by (auto simp: Call_Add call_sim_def both_def world_rel_def)
    qed
  next
    case (Call_Finish labels)
    note f = batch_finish_rel [OF s b, of "tl_prims T" labels]
    show ?thesis
    proof (cases "cl_batch_finish (cw_b c) (cw_s c)")
      case (Inl err)
      then show ?thesis using f by (simp add: Call_Finish call_sim_def)
    next
      case (Inr x)
      then show ?thesis using f by (cases x) (auto simp: Call_Finish call_sim_def world_rel_def)
    qed
  next
    case Call_Batch
    then show ?thesis using s input_batch_rel by (simp add: call_sim_def world_rel_def)
  next
    case (Call_Public v)
    then show ?thesis using gate [OF rec_step.public_bit] by simp
  next
    case (Call_And a b)
    then show ?thesis using gate [OF rec_step.and_gate] by simp
  next
    case (Call_Xor a b)
    then show ?thesis using gate [OF rec_step.xor_gate] by simp
  next
    case (Call_Not a)
    then show ?thesis using gate [OF rec_step.not_gate] by simp
  next
    case (Call_Input owner bits1 bits2 labels)
    then show ?thesis using sim [OF input_refines [OF s]] guard by simp
  next
    case (Call_Reveal v recipient keep rc)
    then show ?thesis
      using call_sim_refines2 [OF rel reveal_refines [OF tool s]] guard by simp
  next
    case (Call_Checkpoint keep rc)
    then show ?thesis using sim [OF checkpoint_refines [OF tool s]] guard by simp
  next
    case (Call_Run prog args rc)
    then show ?thesis using sim [OF run_circuit_refines [OF tool s]] guard by simp
  next
    case (Call_Artifact width prog args rc)
    then show ?thesis using sim [OF run_artifact_refines [OF tool s]] guard by simp
  next
    case (Call_Body f args rc)
    then show ?thesis using sim [OF run_body_refines [OF s]] guard by simp
  qed
qed

interpretation calls: fallible_simulation world_rel "session_call T" "clear_call (tl_validate T)"
  "\<lambda>cl c. tools_ok T \<and> call_guard (tl_validate T) cl c" for T :: "('m, 'd) tools"
proof (unfold_locales, goal_cases)
  case (1 w c cl)
  then show ?case using session_call_sim [of T w c cl] by (simp add: call_sim_def)
qed

lemma init_world_rel: "pools_ok f g \<Longrightarrow> world_rel (init_world f g) init_clear_world"
  by (simp add: world_rel_def init_world_def init_clear_world_def init_sess_rel input_batch_rel del: One_nat_def)

section \<open>Properties\<close>

lemma trace_ok_and: "A \<Longrightarrow> trace_ok step (\<lambda>c s. A \<and> ok c s) cs s = trace_ok step ok cs s"
  by (induction cs arbitrary: s) (auto split: sum.split)


definition toy_tools :: "(block, block list) tools" where
  "toy_tools = \<lparr>tl_prims = toy_prims, tl_validate = topological, tl_exec = replay, tl_hash0 = 0\<rparr>"

lemma toy_tools_ok: "tools_ok toy_tools"
  by (simp add: tools_ok_def toy_tools_def emp_tool_ok_replay)

definition toy_calls :: "call list" where
  "toy_calls = [Call_Input ALICE [1] [0] [5], Call_Input BOB [0] [1] [6], Call_And 0 1,
     Call_Reveal [2] PUBLIC [] toy_coins]"

definition toy_chunk :: recorder where
  "toy_chunk = \<lparr>next_id = 3, chunk_gates = [mk_gate 0 1 2 Op_And], pending = {2},
     const_wire0 = - 1, const_wire1 = - 1\<rparr>"

lemma toy_plan:
  "needed_gates [mk_gate 0 1 2 Op_And] [2] = {0}"
  "fp_prog (plan_flush [mk_gate 0 1 2 Op_And] [2] (\<lambda>w. ([0 \<mapsto> True, Suc 0 \<mapsto> True] :: wire \<rightharpoonup> bool) w \<noteq> None)) = and_prog"
  unfolding and_prog_def by code_simp+

lemma toy_trace:
  "fst (trace (clear_call topological) toy_calls init_clear_world) =
     [wires2 [0], wires2 [1], wires2 [2], (Opened (Some [True]), Opened (Some [True]))]"
  "trace_ok (clear_call topological) (call_guard topological) toy_calls init_clear_world"
proof -
  let ?c = "\<lparr>cw_s = \<lparr>cl_ctx = toy_chunk, cl_vals = [0 \<mapsto> True, Suc 0 \<mapsto> True]\<rparr>, cw_b = clear_input_batch\<rparr>"
  let ?v = "[0 \<mapsto> True, Suc 0 \<mapsto> True, 2 \<mapsto> True]"
  have st: "store_bits [x] [b] v = v(x \<mapsto> b)" for x b v by (simp add: store_bits_def)
  have fl: "cl_flush [2] (cw_s ?c) = Inr \<lparr>cl_ctx = drop_chunk toy_chunk, cl_vals = ?v\<rparr>"
    by (auto simp: cl_flush_def toy_chunk_def is_pending_def toy_plan(1) [unfolded One_nat_def] gate_operands_def is_const_def is_not_def
        cl_value_def chunk_eval_def gate_val_def fun_eq_iff Let_def)
  have rv: "clear_call topological (Call_Reveal [2] PUBLIC [] toy_coins) ?c =
      Inr ((Opened (Some [True]), Opened (Some [True])),
        \<lparr>cw_s = \<lparr>cl_ctx = drop_chunk toy_chunk, cl_vals = ?v\<rparr>, cw_b = clear_input_batch\<rparr>)"
    using fl by (simp add: clear_answers_def cl_reveal_def party_defs Let_def)
  have gd: "call_guard topological (Call_Reveal [2] PUBLIC [] toy_coins) ?c"
    using and_prog_ok(3) toy_plan(2) by (simp only: flush_guard_def cl_plan_def toy_chunk_def call_guard.simps
        clear_session.simps clear_world.simps recorder.simps concat.simps append_Nil2 simp_thms)
  have c1: "clear_call topological (Call_Input ALICE [1] [0] [5]) init_clear_world = Inr (wires2 [0],
      \<lparr>cw_s = \<lparr>cl_ctx = init_recorder\<lparr>next_id := Suc 0\<rparr>, cl_vals = [0 \<mapsto> True]\<rparr>, cw_b = clear_input_batch\<rparr>)"
    by (simp add: init_clear_world_def init_clear_def clear_answers_def cl_input_def cl_put_def owner_bits_def
        alloc_id_def init_recorder_def UINT32_MAX_def party_defs st nz_def)
  have c2: "clear_call topological (Call_Input BOB [0] [1] [6])
      \<lparr>cw_s = \<lparr>cl_ctx = init_recorder\<lparr>next_id := Suc 0\<rparr>, cl_vals = [0 \<mapsto> True]\<rparr>, cw_b = clear_input_batch\<rparr> =
      Inr (wires2 [1], \<lparr>cw_s = \<lparr>cl_ctx = init_recorder\<lparr>next_id := 2\<rparr>, cl_vals = [0 \<mapsto> True, Suc 0 \<mapsto> True]\<rparr>, cw_b = clear_input_batch\<rparr>)"
    by (simp add: clear_answers_def cl_input_def cl_put_def owner_bits_def
        alloc_id_def init_recorder_def UINT32_MAX_def party_defs st nz_def)
  have c3: "clear_call topological (Call_And 0 1)
      \<lparr>cw_s = \<lparr>cl_ctx = init_recorder\<lparr>next_id := 2\<rparr>, cl_vals = [0 \<mapsto> True, Suc 0 \<mapsto> True]\<rparr>, cw_b = clear_input_batch\<rparr> =
      Inr (wires2 [2], ?c)"
    by (simp add: clear_answers_def cl_gate_def rec_and_gate_def require_allocated_def record_gate_def
        alloc_id_def init_recorder_def UINT32_MAX_def toy_chunk_def)
  show "fst (trace (clear_call topological) toy_calls init_clear_world) =
     [wires2 [0], wires2 [1], wires2 [2], (Opened (Some [True]), Opened (Some [True]))]"
    unfolding toy_calls_def trace.simps c1 c2 c3 rv sum.case prod.case fst_conv ..
  show "trace_ok (clear_call topological) (call_guard topological) toy_calls init_clear_world"
    unfolding toy_calls_def trace_ok.simps c1 c2 c3 rv sum.case prod.case
    using gd by (simp add: input_guard_def party_defs)
qed


text \<open>The value a wire has before a flush is the value it is stored with.\<close>

lemma cl_flush_value:
  assumes inv: "rec_inv (cl_ctx c)" and fl: "cl_flush keep c = Inr c'" and w: "w \<in> set keep"
  shows "cl_vals c' w = Some (cl_value c w)"
proof -
  have np: "cl_value c w = the (cl_vals c w)" if "\<not> is_pending (cl_ctx c) w"
    using that inv unfolding cl_value_def by (intro chunk_eval_other) (simp add: rec_inv_def is_pending_def)
  show ?thesis
  proof (cases "is_pending (cl_ctx c) w")
    case True
    then have ex: "\<exists>w \<in> set keep. is_pending (cl_ctx c) w" using w by blast
    show ?thesis using fl True w ex by (auto simp: cl_flush_def Let_def split: if_splits)
  next
    case False
    have "cl_vals c w \<noteq> None" using fl w False by (auto simp: cl_flush_def Let_def split: if_splits)
    moreover have "cl_vals c' w = cl_vals c w" using fl False by (auto simp: cl_flush_def Let_def split: if_splits)
    ultimately show ?thesis using np [OF False] by auto
  qed
qed


text \<open>A public constant of party 1 and 2, opened at once.\<close>

lemma toy_input_rel:
  obtains s1 s2 where "sess_rel s1 s2 (init_clear\<lparr>cl_ctx := init_recorder\<lparr>next_id := Suc 0\<rparr>, cl_vals := [0 \<mapsto> True]\<rparr>)"
    "session_input toy_prims PUBLIC [1] [1] [] (init_session 1 (toy_pool 1)) (init_session 2 (toy_pool 2)) = Inr (([0], s1), ([0], s2))"
proof -
  have "cl_input PUBLIC [1] [1] init_clear = Inr ([0], init_clear\<lparr>cl_ctx := init_recorder\<lparr>next_id := Suc 0\<rparr>, cl_vals := [0 \<mapsto> True]\<rparr>)"
    by (simp add: init_clear_def cl_input_def cl_put_def owner_bits_def alloc_id_def init_recorder_def UINT32_MAX_def
        party_defs store_bits_def nz_def)
  then show ?thesis
    using input_refines [OF init_sess_rel [OF toy_pools_ok], of PUBLIC "[1]" "[1]" toy_prims "[]"] that
    by (auto simp: input_guard_def)
qed


text \<open>An argument that is not materialized stops a run before anything is gathered or sent.\<close>

lemma append_args_stale:
  "\<exists>w \<in> set (concat args). ss_carried s w = None \<Longrightarrow> append_args args s b = Inl Arg_Unflushed"
  by (simp only: append_args_eq if_True)

text \<open>
  C27: the errors of misuse are raised before a party sends anything, whatever the state: a stale
  wire in a value to open or keep, an argument of a run that is not materialized (pending wires
  included), an invalid recipient or owner, a batch that is used after it is finished, and, where the
  contexts are checked, a value of another context that is opened, kept or passed to a run.
\<close>

theorem misuse_rejected:
  fixes T :: "('m, 'd) tools"
  assumes "\<not> is_pending (ss_ctx s1) w" and "ss_carried s1 w = None" and "ss_carried s1 u = None" and "ib_finished b"
    and "owner \<noteq> PUBLIC" "owner \<noteq> ALICE" "owner \<noteq> BOB"
  shows "(w \<in> set (v @ concat keep) \<longrightarrow> recipient \<in> {PUBLIC, ALICE, BOB} \<longrightarrow>
      reveal T rc v recipient keep s1 s2 = Inl Keep_Stale) \<and>
    (w \<in> set (concat keep) \<longrightarrow> checkpoint T rc keep s1 s2 = Inl Keep_Stale) \<and>
    (u \<in> set (concat args) \<longrightarrow> run_circuit T rc prog args s1 s2 = Inl Arg_Unflushed \<and>
      run_artifact T rc width prog args s1 s2 = Inl Arg_Unflushed \<and> run_body T rc f args s1 s2 = Inl Arg_Unflushed) \<and>
    reveal T rc v owner keep s1 s2 = Inl Recipient_Invalid \<and>
    session_input (tl_prims T) owner bits1 bits2 labels s1 s2 = Inl Input_Owner \<and>
    batch_add owner' bits b s1 = Inl Batch_Add_After_Finish \<and>
    batch_finish (tl_prims T) labels b b2 s1 s2 = Inl Batch_Finish_Twice \<and>
    (checks \<and> v_context x \<noteq> c1 \<longrightarrow>
      reveal_value T rc checks c1 c2 x x2 PUBLIC keep1 keep2 s1 s2 = Inl Value_Foreign \<and>
      (v_context y = c1 \<longrightarrow> x \<in> set keep1 \<longrightarrow>
         reveal_value T rc checks c1 c2 y x2 PUBLIC keep1 keep2 s1 s2 = Inl Keep_Foreign) \<and>
      (x \<in> set keep1 \<longrightarrow> checkpoint_values T rc checks c1 c2 keep1 keep2 s1 s2 = Inl Keep_Foreign) \<and>
      run_circuit_values T rc checks c1 c2 prog (x # args1) args2 s1 s2 = Inl Arg_Foreign \<and>
      run_artifact_values T rc checks c1 c2 width prog (x # args1) args2 s1 s2 = Inl Arg_Foreign \<and>
      run_body_values T rc checks c1 c2 f (x # args1) args2 s1 s2 = Inl Arg_Foreign)"
proof (intro conjI impI)
  have stale: "flush T rc keep' s1 s2 = Inl Keep_Stale" if "w \<in> set keep'" for keep'
  proof -
    have "\<exists>w \<in> set keep'. \<not> is_pending (ss_ctx s1) w \<and> ss_carried s1 w = None" using that assms(1,2) by blast
    then show ?thesis by (simp add: flush_def flush_begin_def)
  qed
  show "reveal T rc v recipient keep s1 s2 = Inl Keep_Stale"
    if "w \<in> set (v @ concat keep)" "recipient \<in> {PUBLIC, ALICE, BOB}"
    using stale [OF that(1)] that(2) by (auto simp: reveal_def)
  show "checkpoint T rc keep s1 s2 = Inl Keep_Stale" if "w \<in> set (concat keep)"
    using stale [OF that] by (simp add: checkpoint_def)
  have ap: "append_args args s1 empty_wires = Inl Arg_Unflushed" if "u \<in> set (concat args)"
    using that assms(3) by (intro append_args_stale) blast
  show "run_circuit T rc prog args s1 s2 = Inl Arg_Unflushed" "run_artifact T rc width prog args s1 s2 = Inl Arg_Unflushed"
    "run_body T rc f args s1 s2 = Inl Arg_Unflushed" if "u \<in> set (concat args)"
    using ap [OF that] by (simp_all add: run_circuit_def run_artifact_def run_body_def)
  assume "checks \<and> v_context x \<noteq> c1"
  then have x: "\<not> usable checks c1 x" by (simp add: usable_def)
  show "reveal_value T rc checks c1 c2 x x2 PUBLIC keep1 keep2 s1 s2 = Inl Value_Foreign"
    by (rule foreign_values_rejected(1) [OF x]) simp
  show "reveal_value T rc checks c1 c2 y x2 PUBLIC keep1 keep2 s1 s2 = Inl Keep_Foreign"
    if "v_context y = c1" "x \<in> set keep1"
    by (rule foreign_values_rejected(2) [OF x _ _ that(2)]) (simp_all add: usable_def that(1))
  show "checkpoint_values T rc checks c1 c2 keep1 keep2 s1 s2 = Inl Keep_Foreign" if "x \<in> set keep1"
    by (rule foreign_values_rejected(3) [OF x that])
  show "run_circuit_values T rc checks c1 c2 prog (x # args1) args2 s1 s2 = Inl Arg_Foreign"
    "run_artifact_values T rc checks c1 c2 width prog (x # args1) args2 s1 s2 = Inl Arg_Foreign"
    "run_body_values T rc checks c1 c2 f (x # args1) args2 s1 s2 = Inl Arg_Foreign"
    using foreign_arguments_rejected [where vs = "[]", OF _ _ x] by simp_all
qed (use assms(4-7) in \<open>simp_all add: reveal_def session_input_def authenticate_def batch_add_def batch_finish_def\<close>)

theorem misuse_rejected_witness:
  "reveal toy_tools toy_coins [0] PUBLIC [] (init_session 1 (toy_pool 1)) (init_session 2 (toy_pool 2)) = Inl Keep_Stale \<and>
   run_circuit toy_tools toy_coins and_prog [[0, 1]] (init_session 1 (toy_pool 1)) (init_session 2 (toy_pool 2)) = Inl Arg_Unflushed \<and>
   checkpoint_values toy_tools toy_coins True 7 8 [from_wires 9 [0]] [] (init_session 1 (toy_pool 1)) (init_session 2 (toy_pool 2)) =
     Inl Keep_Foreign"
proof -
  have "\<not> is_pending (ss_ctx (init_session 1 (toy_pool 1))) 0" "ss_carried (init_session 1 (toy_pool 1)) 0 = None"
    "ib_finished (input_batch\<lparr>ib_finished := True\<rparr>)" "(3 :: nat) \<noteq> PUBLIC" "(3 :: nat) \<noteq> ALICE" "(3 :: nat) \<noteq> BOB"
    by (simp_all add: is_pending_def init_session_def init_recorder_def party_defs)
  from misuse_rejected [where v = "[0]" and keep = "[]" and recipient = PUBLIC and T = toy_tools
      and rc = toy_coins and ?s2.0 = "init_session 2 (toy_pool 2)" and args = "[[0, 1]]" and prog = and_prog and checks = True
      and ?c1.0 = 7 and ?c2.0 = 8 and x = "from_wires 9 [0]" and ?keep1.0 = "[from_wires 9 [0]]" and ?keep2.0 = "[]", OF this(1,2,2,3-6)]
  show ?thesis by (simp add: from_wires_def)
qed

end
