(* ===== verification/Session_Invariant.thy ===== *)
theory Session_Invariant
  imports Session_Runs
begin

text \<open>
  The wire discipline of a session: a wire id is materialized or pending, never both, and both
  parties hold the same ids; the invariant of every call sequence.
\<close>

definition ids_inv :: "clear_world \<Rightarrow> bool" where
  "ids_inv w \<longleftrightarrow> rec_inv (cl_ctx (cw_s w)) \<and>
     (\<forall>x \<in> dom (cl_vals (cw_s w)) \<union> \<Union> (set ` set (cb_ids (cw_b w))).
        x < next_id (cl_ctx (cw_s w)) \<and> x \<notin> pending (cl_ctx (cw_s w)))"

lemma ids_inv_mono:
  assumes "ids_inv w" and "cl_ctx (cw_s w') = cl_ctx (cw_s w)"
    and "dom (cl_vals (cw_s w')) \<union> \<Union> (set ` set (cb_ids (cw_b w'))) \<subseteq>
         dom (cl_vals (cw_s w)) \<union> \<Union> (set ` set (cb_ids (cw_b w)))"
  shows "ids_inv w'"
  unfolding ids_inv_def assms(2)
  using assms(1) subsetD [OF assms(3)] unfolding ids_inv_def by blast

text \<open>What a recorder call adds.\<close>

definition rec_grows :: "recorder \<Rightarrow> recorder \<Rightarrow> bool" where
  "rec_grows r r' \<longleftrightarrow> next_id r \<le> next_id r' \<and> pending r' \<subseteq> pending r \<union> {next_id r..<next_id r'}"

lemma record_gate_grows: "record_gate a b f r = Inr (i, r') \<Longrightarrow> rec_grows r r'"
  by (auto simp: record_gate_Inr rec_grows_def)

lemma gate_ops_grow:
  "rec_public_bit v r = Inr (i, r') \<Longrightarrow> rec_grows r r'"
  "rec_and_gate a b r = Inr (i, r') \<Longrightarrow> rec_grows r r'"
  "rec_xor_gate a b r = Inr (i, r') \<Longrightarrow> rec_grows r r'"
  "rec_not_gate a r = Inr (i, r') \<Longrightarrow> rec_grows r r'"
proof -
  show "rec_public_bit v r = Inr (i, r') \<Longrightarrow> rec_grows r r'"
    by (cases v) (auto simp: rec_public_bit_def bind_result_Inr rec_grows_def set_const_wire_def record_gate_Inr
        split: if_splits)
qed (auto simp: rec_and_gate_def rec_xor_gate_def rec_not_gate_def bind_result_Inr intro: record_gate_grows)

lemma reserve_grows: "reserve_ids n r = Inr (ids, r') \<Longrightarrow>
    rec_grows r r' \<and> (\<forall>x \<in> set ids. x < next_id r' \<and> next_id r \<le> x) \<and> pending r' = pending r"
  using reserve_ids_eq [of n r ids r'] by (auto simp: rec_grows_def)

lemma pending_bound: "rec_inv r \<Longrightarrow> x \<in> pending r \<Longrightarrow> x < next_id r"
  by (auto simp: rec_inv_def)

lemma ids_inv_grow:
  assumes "ids_inv w" and "rec_inv r" and "rec_grows (cl_ctx (cw_s w)) r"
  shows "ids_inv (w\<lparr>cw_s := (cw_s w)\<lparr>cl_ctx := r\<rparr>\<rparr>)"
  unfolding ids_inv_def
proof (intro conjI ballI)
  show "rec_inv (cl_ctx (cw_s (w\<lparr>cw_s := (cw_s w)\<lparr>cl_ctx := r\<rparr>\<rparr>)))" using assms(2) by simp
  fix x assume "x \<in> dom (cl_vals (cw_s (w\<lparr>cw_s := (cw_s w)\<lparr>cl_ctx := r\<rparr>\<rparr>))) \<union>
    \<Union> (set ` set (cb_ids (cw_b (w\<lparr>cw_s := (cw_s w)\<lparr>cl_ctx := r\<rparr>\<rparr>))))"
  then have "x \<in> dom (cl_vals (cw_s w)) \<union> \<Union> (set ` set (cb_ids (cw_b w)))" by simp
  then have "x < next_id (cl_ctx (cw_s w)) \<and> x \<notin> pending (cl_ctx (cw_s w))"
    using assms(1) unfolding ids_inv_def by blast
  then show "x < next_id (cl_ctx (cw_s (w\<lparr>cw_s := (cw_s w)\<lparr>cl_ctx := r\<rparr>\<rparr>)))"
    "x \<notin> pending (cl_ctx (cw_s (w\<lparr>cw_s := (cw_s w)\<lparr>cl_ctx := r\<rparr>\<rparr>)))"
    using assms(3) unfolding rec_grows_def by auto
qed

lemma store_bits_dom: "dom (store_bits ids bits v) = dom v \<union> set ids"
proof -
  have "dom (fold (\<lambda>i v. v(ids ! i \<mapsto> bits ! i)) [0..<k] v) = dom v \<union> set (take k ids)" if "k \<le> length ids" for k
    using that by (induction k) (auto simp: take_Suc_conv_app_nth)
  from this [of "length ids"] show ?thesis by (simp add: store_bits_def)
qed

lemma store_adds_dom:
  "\<forall>a \<in> set adds. a < length (cb_ids b) \<Longrightarrow> dom (store_adds b adds v) \<subseteq> dom v \<union> \<Union> (set ` set (cb_ids b))"
proof (induction adds arbitrary: v)
  case (Cons a adds)
  have "store_adds b (a # adds) v = store_adds b adds (store_bits (cb_ids b ! a) (cb_bits b ! a) v)"
    by (simp add: store_adds_def)
  moreover have "cb_ids b ! a \<in> set (cb_ids b)" using Cons.prems by simp
  then have "set (cb_ids b ! a) \<subseteq> \<Union> (set ` set (cb_ids b))" by blast
  ultimately show ?case
    using Cons.IH [of "store_bits (cb_ids b ! a) (cb_bits b ! a) v"] Cons.prems
    by (simp add: store_bits_dom subset_iff) blast
qed (simp add: store_adds_def)

lemma cl_put_inv:
  assumes inv: "ids_inv w" and put: "cl_put bits (cw_s w) = Inr (ids, c)"
  shows "ids_inv (w\<lparr>cw_s := c\<rparr>)"
proof -
  obtain r where r: "reserve_ids (length bits) (cl_ctx (cw_s w)) = Inr (ids, r)"
    and c: "c = (cw_s w)\<lparr>cl_ctx := r, cl_vals := store_bits ids bits (cl_vals (cw_s w))\<rparr>"
    using put by (auto simp: cl_put_def bind_result_Inr)
  have ri: "rec_inv (cl_ctx (cw_s w))" using inv by (simp add: ids_inv_def)
  have "rec_inv r" by (rule rec_inv_reserve [OF ri r])
  moreover have "x < next_id r \<and> x \<notin> pending r" if "x \<in> set ids" for x
    using reserve_grows [OF r] that pending_bound [OF ri, of x] by fastforce
  moreover have "x < next_id r \<and> x \<notin> pending r"
    if "x \<in> dom (cl_vals (cw_s w)) \<union> \<Union> (set ` set (cb_ids (cw_b w)))" for x
  proof -
    have "x < next_id (cl_ctx (cw_s w)) \<and> x \<notin> pending (cl_ctx (cw_s w))" using inv that unfolding ids_inv_def by blast
    then show ?thesis using reserve_grows [OF r] unfolding rec_grows_def by auto
  qed
  ultimately show ?thesis unfolding ids_inv_def c by (auto simp: store_bits_dom simp del: UN_iff)
qed

lemma cl_flush_inv:
  assumes inv: "ids_inv w" and fl: "cl_flush keep (cw_s w) = Inr c"
  shows "ids_inv (w\<lparr>cw_s := c\<rparr>)"
proof -
  let ?r = "cl_ctx (cw_s w)"
  have c: "cl_ctx c = drop_chunk ?r" "dom (cl_vals c) \<subseteq> dom (cl_vals (cw_s w)) \<union> pending ?r"
    using fl by (auto simp: cl_flush_def Let_def is_pending_def split: if_splits)
  have ri: "rec_inv ?r" using inv by (simp add: ids_inv_def)
  have d: "next_id (drop_chunk ?r) = next_id ?r" "pending (drop_chunk ?r) = {}" by (simp_all add: drop_chunk_def)
  have "x < next_id ?r" if "x \<in> dom (cl_vals c) \<union> \<Union> (set ` set (cb_ids (cw_b w)))" for x
    using that c(2) inv pending_bound [OF ri] unfolding ids_inv_def by blast
  then show ?thesis using rec_inv_drop [OF ri] unfolding ids_inv_def by (simp add: c(1) d)
qed

lemma cl_program_put: "cl_program validate prog vs c = Inr (ids, c') \<Longrightarrow> \<exists>bits. cl_put bits c = Inr (ids, c')"
  by (auto simp: cl_program_def split: option.splits)

lemma cl_runs_put:
  "cl_run_circuit validate prog args c = Inr (ids, c') \<Longrightarrow> \<exists>bits. cl_put bits c = Inr (ids, c')"
  "cl_run_artifact validate width prog args c = Inr (ids, c') \<Longrightarrow> \<exists>bits. cl_put bits c = Inr (ids, c')"
  "cl_run_body f args c = Inr (ids, c') \<Longrightarrow> \<exists>bits. cl_put bits c = Inr (ids, c')"
  "cl_input owner bits1 bits2 c = Inr (ids, c') \<Longrightarrow> \<exists>bits. cl_put bits c = Inr (ids, c')"
  by (auto simp: cl_run_circuit_def cl_run_artifact_def cl_run_body_def cl_input_def bind_result_Inr
      dest: cl_program_put split: if_splits)

lemma clear_answers_Inr: "clear_answers f w r = Inr (x, w') \<longleftrightarrow> (\<exists>y c. r = Inr (y, c) \<and> x = f y \<and> w' = w\<lparr>cw_s := c\<rparr>)"
  by (auto simp: clear_answers_def bind_result_Inr)

text \<open>The two parts of the invariant, call by call.\<close>

abbreviation adds_paired :: "clear_world \<Rightarrow> bool" where
  "adds_paired w \<equiv> length (cb_ids (cw_b w)) = length (cb_owners (cw_b w))"

lemma gate_call_inv:
  assumes inv: "ids_inv w" "adds_paired w" and call: "clear_answers wires2 w (cl_gate f (cw_s w)) = Inr (x, w')"
    and f: "\<And>i r'. f (cl_ctx (cw_s w)) = Inr (i, r') \<Longrightarrow> rec_step (cl_ctx (cw_s w)) [i] r' \<and> rec_grows (cl_ctx (cw_s w)) r'"
  shows "ids_inv w' \<and> adds_paired w'"
proof -
  obtain i r where r: "f (cl_ctx (cw_s w)) = Inr (i, r)" and w': "w' = w\<lparr>cw_s := (cw_s w)\<lparr>cl_ctx := r\<rparr>\<rparr>"
    using call unfolding clear_answers_Inr cl_gate_def bind_result_Inr by (auto simp: case_prod_beta)
  have ri: "rec_inv (cl_ctx (cw_s w))" using inv(1) by (simp add: ids_inv_def)
  have "ids_inv (w\<lparr>cw_s := (cw_s w)\<lparr>cl_ctx := r\<rparr>\<rparr>)"
    by (rule ids_inv_grow [OF inv(1)]) (use f [OF r] rec_step_inv [OF ri] in blast)+
  then show ?thesis using inv(2) by (simp add: w')
qed

lemma put_call_inv:
  assumes "ids_inv w" "adds_paired w" and "clear_answers wires2 w r = Inr (x, w')"
    and "\<And>ids c'. r = Inr (ids, c') \<Longrightarrow> \<exists>bits. cl_put bits (cw_s w) = Inr (ids, c')"
  shows "ids_inv w' \<and> adds_paired w'"
  using assms(2-4) cl_put_inv [OF assms(1)] by (auto simp: clear_answers_Inr)

lemma add_call_inv:
  assumes inv: "ids_inv w" "adds_paired w" and call: "clear_call validate (Call_Add owner bits1 bits2) w = Inr (x, w')"
  shows "ids_inv w' \<and> adds_paired w'"
proof -
  obtain ids r where r: "reserve_ids (length bits1) (cl_ctx (cw_s w)) = Inr (ids, r)"
    and w': "cw_s w' = (cw_s w)\<lparr>cl_ctx := r\<rparr>" "cb_ids (cw_b w') = cb_ids (cw_b w) @ [ids]"
      "cb_owners (cw_b w') = cb_owners (cw_b w) @ [owner]"
    using call by (auto simp: cl_batch_add_def bind_result_Inr split: if_splits)
  have ri: "rec_inv (cl_ctx (cw_s w))" using inv by (simp add: ids_inv_def)
  have "x < next_id r \<and> x \<notin> pending r" if "x \<in> set ids" for x
    using reserve_grows [OF r] that pending_bound [OF ri, of x] by fastforce
  moreover have "x < next_id r \<and> x \<notin> pending r"
    if "x \<in> dom (cl_vals (cw_s w)) \<union> \<Union> (set ` set (cb_ids (cw_b w)))" for x
  proof -
    have "x < next_id (cl_ctx (cw_s w)) \<and> x \<notin> pending (cl_ctx (cw_s w))" using inv(1) that unfolding ids_inv_def by blast
    then show ?thesis using reserve_grows [OF r] unfolding rec_grows_def by auto
  qed
  ultimately show ?thesis using rec_inv_reserve [OF ri r] inv(2) unfolding ids_inv_def w' by auto
qed

lemma finish_call_inv:
  assumes inv: "ids_inv w" "adds_paired w" and call: "clear_call validate (Call_Finish labels) w = Inr (x, w')"
  shows "ids_inv w' \<and> adds_paired w'"
proof -
  let ?adds = "pub_adds 0 (cb_owners (cw_b w)) @ sec_adds (cb_owners (cw_b w))"
  have w': "cw_s w' = (cw_s w)\<lparr>cl_vals := store_adds (cw_b w) ?adds (cl_vals (cw_s w))\<rparr>"
      "cb_ids (cw_b w') = cb_ids (cw_b w)" "cb_owners (cw_b w') = cb_owners (cw_b w)"
    using call by (auto simp: cl_batch_finish_def split: if_splits)
  have "\<forall>a \<in> set ?adds. a < length (cb_ids (cw_b w))"
    using inv(2) by (auto simp: pub_adds_def sec_adds_def)
  note d = store_adds_dom [OF this, of "cl_vals (cw_s w)"]
  have "ids_inv w'" by (rule ids_inv_mono [OF inv(1)]) (use d in \<open>simp_all add: w'\<close>)
  then show ?thesis using inv(2) by (simp add: w')
qed

lemma checkpoint_call_inv:
  assumes inv: "ids_inv w" "adds_paired w" and call: "clear_call validate (Call_Checkpoint keep rc) w = Inr (x, w')"
  shows "ids_inv w' \<and> adds_paired w'"
proof -
  obtain c where c: "cl_flush (concat keep) (cw_s w) = Inr c"
      "w' = w\<lparr>cw_s := c\<lparr>cl_vals := cl_vals c |` set (concat keep)\<rparr>\<rparr>"
    using call by (auto simp: clear_answers_Inr cl_checkpoint_def done_result_def bind_result_Inr)
  have "ids_inv (w\<lparr>cw_s := c\<rparr>)" by (rule cl_flush_inv [OF inv(1) c(1)])
  then have "ids_inv w'" by (rule ids_inv_mono) (auto simp: c(2) dom_restrict)
  then show ?thesis using inv(2) by (simp add: c(2))
qed

lemma clear_call_inv:
  assumes inv: "ids_inv w" and call: "clear_call validate cl w = Inr (x, w')" and len: "adds_paired w"
  shows "ids_inv w' \<and> adds_paired w'"
proof (cases cl)
  case (Call_Public v)
  show ?thesis
    by (rule gate_call_inv [OF inv len]) (use call Call_Public rec_step.public_bit gate_ops_grow(1) in auto)
next
  case (Call_And a b)
  show ?thesis
    by (rule gate_call_inv [OF inv len]) (use call Call_And rec_step.and_gate gate_ops_grow(2) in auto)
next
  case (Call_Xor a b)
  show ?thesis
    by (rule gate_call_inv [OF inv len]) (use call Call_Xor rec_step.xor_gate gate_ops_grow(3) in auto)
next
  case (Call_Not a)
  show ?thesis
    by (rule gate_call_inv [OF inv len]) (use call Call_Not rec_step.not_gate gate_ops_grow(4) in auto)
next
  case Call_Batch
  then show ?thesis using inv call by (auto simp: ids_inv_def clear_input_batch_def)
next
  case (Call_Reveal v recipient keep rc)
  then obtain c where "cl_flush (v @ concat keep) (cw_s w) = Inr c" "w' = w\<lparr>cw_s := c\<rparr>"
    using call by (auto simp: clear_answers_Inr cl_reveal_def bind_result_Inr Let_def split: if_splits)
  then show ?thesis using cl_flush_inv [OF inv] len by auto
next
  case (Call_Add owner bits1 bits2)
  show ?thesis by (rule add_call_inv [OF inv len call [unfolded Call_Add]])
next
  case (Call_Finish labels)
  show ?thesis by (rule finish_call_inv [OF inv len call [unfolded Call_Finish]])
next
  case (Call_Checkpoint keep rc)
  show ?thesis by (rule checkpoint_call_inv [OF inv len call [unfolded Call_Checkpoint]])
next
  case (Call_Input owner bits1 bits2 labels)
  show ?thesis by (rule put_call_inv [OF inv len _ cl_runs_put(4)]) (use call Call_Input in simp)
next
  case (Call_Run prog args rc)
  show ?thesis by (rule put_call_inv [OF inv len _ cl_runs_put(1)]) (use call Call_Run in simp)
next
  case (Call_Artifact width prog args rc)
  show ?thesis by (rule put_call_inv [OF inv len _ cl_runs_put(2)]) (use call Call_Artifact in simp)
next
  case (Call_Body f args rc)
  show ?thesis by (rule put_call_inv [OF inv len _ cl_runs_put(3)]) (use call Call_Body in simp)
qed

lemma clear_trace_inv:
  assumes "ids_inv w" and "length (cb_ids (cw_b w)) = length (cb_owners (cw_b w))"
    and "snd (trace (clear_call validate) cs w) = Inr w'"
  shows "ids_inv w'"
  using assms
proof (induction cs arbitrary: w)
  case (Cons cl cs)
  obtain x w1 where st: "clear_call validate cl w = Inr (x, w1)" "snd (trace (clear_call validate) cs w1) = Inr w'"
    using Cons.prems(3) by (auto simp: case_prod_beta split: sum.splits)
  show ?case using Cons.IH [OF _ _ st(2)] clear_call_inv [OF Cons.prems(1) st(1) Cons.prems(2)] by blast
qed simp

text \<open>
  The state two honest parties share after any calls: equal recorders, state for the same wires, none
  of them pending, correlated engines.
\<close>

definition disciplined :: "world \<Rightarrow> bool" where
  "disciplined w \<longleftrightarrow> ss_ctx (w_s1 w) = ss_ctx (w_s2 w) \<and> rec_inv (ss_ctx (w_s1 w)) \<and>
     dom (ss_carried (w_s1 w)) = dom (ss_carried (w_s2 w)) \<and> engines_ok (ss_engine (w_s1 w)) (ss_engine (w_s2 w)) \<and>
     (\<forall>x \<in> dom (ss_carried (w_s1 w)). x < next_id (ss_ctx (w_s1 w)) \<and> \<not> is_pending (ss_ctx (w_s1 w)) x)"

lemma world_disciplined:
  assumes "world_rel w c" and "ids_inv c"
  shows "disciplined w"
proof -
  have s: "sess_rel (w_s1 w) (w_s2 w) (cw_s c)" using assms(1) by (simp add: world_rel_def)
  have d: "dom (ss_carried (w_s1 w)) = dom (cl_vals (cw_s c))" "dom (ss_carried (w_s2 w)) = dom (cl_vals (cw_s c))"
    unfolding dom_def sess_carried_none [OF s] by simp_all
  show ?thesis
    using assms(2) sess_relD(1,3-5) [OF s] unfolding disciplined_def d ids_inv_def is_pending_def by simp
qed

lemma init_trace_inv:
  assumes "snd (trace (clear_call validate) cs init_clear_world) = Inr c"
  shows "ids_inv c"
proof (rule clear_trace_inv [OF _ _ assms])
  show "ids_inv init_clear_world"
    by (simp add: ids_inv_def init_clear_world_def init_clear_def rec_inv_init clear_input_batch_def)
qed (simp add: init_clear_world_def clear_input_batch_def)



end
