(* ===== verification/Exposure.thy ===== *)
theory Exposure
  imports Session_Runs
begin

text \<open>
  What the peer gets to see, and when. The message of the input phase of
  \<^verbatim>\<open>backend/protocol.h\<close> carries a party's private bits as they are; and an opening
  runs the deferred check of the correlated shares only when its flush runs a program, so a value that
  is opened straight from the input phase is opened before the shares it rests on are checked.
\<close>

section \<open>The input message\<close>

text \<open>The bits of the wires a party owns, in order.\<close>

definition private_inputs :: "nat \<Rightarrow> nat list \<Rightarrow> byte list list \<Rightarrow> byte list" where
  "private_inputs party owners bits = concat (map snd (filter (\<lambda>(o', bs). o' = party) (zip owners bits)))"

lemma own_x_packed_zip:
  "length ow = length x \<Longrightarrow> own_x_packed party ow x = map snd (filter (\<lambda>(o', b). o' = party) (zip ow x))"
proof -
  assume "length ow = length x"
  then have "zip ow x = map (\<lambda>i. (ow ! i, x ! i)) [0..<length ow]" by (intro nth_equalityI) simp_all
  then show ?thesis by (simp add: own_x_packed_def filter_map comp_def)
qed

lemma own_x_packed_private:
  "own_x_packed party (wire_owners owners bits) (own_x_bits party owners bits) = private_inputs party owners bits"
proof -
  let ?z = "zip owners bits"
  have len: "length (wire_owners owners bits) = length (own_x_bits party owners bits)"
    unfolding wire_owners_def own_x_bits_def by (simp add: length_concat comp_def split_def if_distrib cong: if_cong)
  have rep: "filter (\<lambda>(o', b). o' = party) (zip (replicate (length bs) q) ys) =
      (if q = party then zip (replicate (length bs) q) ys else [])" if "length ys = length bs" for q bs and ys :: "byte list"
    using that by (auto simp: filter_empty_conv dest: set_zip_leftD intro!: filter_True)
  have "map snd (filter (\<lambda>(o', b). o' = party)
      (zip (concat (map (\<lambda>(o', bs). replicate (length bs) o') zs))
           (concat (map (\<lambda>(o', bs). if o' = party then bs else replicate (length bs) 0) zs)))) =
    concat (map snd (filter (\<lambda>(o', bs). o' = party) zs))" for zs :: "(nat \<times> byte list) list"
    by (induction zs) (auto simp: rep)
  then show ?thesis
    unfolding own_x_packed_zip [OF len] by (simp add: wire_owners_def own_x_bits_def private_inputs_def)
qed

text \<open>
  C9: the message a party sends in the input phase contains its private input bits in the clear:
  its second part is exactly the bits of the wires it owns, whatever the mask shares, the hash and
  the peer are.
\<close>

theorem input_bits_sent_in_clear:
  "snd (inputs_message P party (wire_owners owners bits) (own_x_bits party owners bits) sw) =
     private_inputs party owners bits"
  by (simp add: inputs_message_def own_x_packed_private)

section \<open>When the shares are checked\<close>

abbreviation cots_open :: "protocol \<Rightarrow> bool" where
  "cots_open pr \<equiv> tp_cots_minted (pc_fpre pr)"

lemma finish_run_checked [simp]: "\<not> cots_open (en_proto (finish_run n pr en))"
  by (simp add: finish_run_def protocol_cot_check_def maybe_flush_cot_check_def flush_cot_check_def)

lemma run_source_checked:
  assumes "run_source P rc m0 src (w1, en1) (w2, en2) = Inr ((o1, e1), (o2, e2))"
  shows "\<not> cots_open (en_proto e1)" and "\<not> cots_open (en_proto e2)"
  using assms by (auto simp: run_source_def bind_result_Inr Let_def case_prod_beta)

lemma session_run_checked:
  assumes "session_run_program T rc prog b1 b2 en1 en2 = Inr ((o1, e1), (o2, e2))"
  shows "\<not> cots_open (en_proto e1)" and "\<not> cots_open (en_proto e2)"
  using assms run_source_checked
  by (fastforce simp: session_run_program_def run_program_def bind_result_Inr)+

lemma flush_checks:
  assumes "flush T rc keep s1 s2 = Inr ((u, t1), (u', t2))"
  shows "if \<exists>w \<in> set keep. is_pending (ss_ctx s1) w
    then \<not> cots_open (ss_proto t1) \<and> \<not> cots_open (ss_proto t2)
    else ss_engine t1 = ss_engine s1 \<and> ss_engine t2 = ss_engine s2"
proof -
  obtain f1 f2 where f: "flush_begin keep s1 = Inr f1" "flush_begin keep s2 = Inr f2"
    using assms by (auto simp: flush_def bind_result_Inr)
  show ?thesis
  proof (cases "\<exists>w \<in> set keep. is_pending (ss_ctx s1) w")
    case True
    then obtain pl1 b1 where f1: "f1 = Some (pl1, b1)"
      using f(1) by (auto simp: flush_begin_def Let_def bind_result_Inr split: if_splits)
    then obtain pl2 b2 where f2: "f2 = Some (pl2, b2)"
      using assms f by (cases f2) (auto simp: flush_def)
    obtain o1 e1 o2 e2 where r: "session_run_program T rc (fp_prog pl1) b1 b2 (ss_engine s1) (ss_engine s2) = Inr ((o1, e1), (o2, e2))"
      and t: "t1 = flush_end pl1 o1 e1 s1" "t2 = flush_end pl2 o2 e2 s2"
      using assms by (auto simp: flush_def f f1 f2 bind_result_Inr split: if_splits)
    show ?thesis using True session_run_checked [OF r] by (simp add: t flush_end_def drop_session_chunk_def)
  next
    case False
    then have f1: "f1 = None" using f(1) by (auto simp: flush_begin_def split: if_splits)
    then have "f2 = None" using assms f by (cases f2) (auto simp: flush_def)
    then show ?thesis
      unfolding if_not_P [OF False] using assms f f1 by (auto simp: flush_def drop_session_chunk_def)
  qed
qed

text \<open>The input phase draws shares and checks none.\<close>

lemma process_inputs_pools:
  assumes "process_inputs P owners bits1 bits2 labels p q = Inr ((gs, p'), (es, q'))"
    and "sum_list (map length bits1) \<noteq> 0"
  shows "cots_open p' \<and> tp_checks (pc_fpre p') = tp_checks (pc_fpre p) \<and>
    cots_open q' \<and> tp_checks (pc_fpre q') = tp_checks (pc_fpre q)"
  using assms(1) unfolding process_inputs_def Let_def if_not_P [OF assms(2)]
  by (auto simp: bind_result_Inr case_prod_beta inputs_draw_def draw_eq)

lemma input_pools:
  assumes "session_input P owner bits1 bits2 labels s1 s2 = Inr ((v1, t1), (v2, t2))"
    and "owner = ALICE \<or> owner = BOB" and "bits1 \<noteq> []"
  shows "cots_open (ss_proto t1) \<and> tp_checks (pc_fpre (ss_proto t1)) = tp_checks (pc_fpre (ss_proto s1)) \<and>
    cots_open (ss_proto t2) \<and> tp_checks (pc_fpre (ss_proto t2)) = tp_checks (pc_fpre (ss_proto s2))"
proof -
  obtain gs p' es q' where pi: "process_inputs P [owner] [bits1] [bits2] labels (ss_proto s1) (ss_proto s2) = Inr ((gs, p'), (es, q'))"
    and b: "both (materialize (gs ! 0)) (materialize (es ! 0)) (set_proto p' s1) (set_proto q' s2) = Inr ((v1, t1), (v2, t2))"
    using assms(1,2) by (auto simp: session_input_def authenticate_def bind_result_Inr party_defs split: if_splits)
  have "ss_engine t1 = ss_engine (set_proto p' s1)" "ss_engine t2 = ss_engine (set_proto q' s2)"
    using b materialize_engine by (auto simp: both_def bind_result_Inr)
  then show ?thesis using process_inputs_pools [OF pi] assms(3) by (simp add: set_proto_def)
qed

text \<open>What was just put in is there and not pending.\<close>

lemma store_bits_nth:
  assumes "distinct ids" and "i < length ids"
  shows "store_bits ids bits v (ids ! i) = Some (bits ! i)"
proof -
  have "fold (\<lambda>i v. v(ids ! i \<mapsto> bits ! i)) [0..<k] v (ids ! j) = Some (bits ! j)"
    if "j < k" "k \<le> length ids" for j k
    using that by (induction k) (auto simp: nth_eq_iff_index_eq [OF assms(1)] less_Suc_eq)
  then show ?thesis using assms(2) by (simp add: store_bits_def)
qed

lemma cl_put_fresh:
  assumes "rec_inv (cl_ctx c)" and "cl_put bits c = Inr (v, c')"
  shows "\<forall>w \<in> set v. \<not> is_pending (cl_ctx c') w \<and> cl_vals c' w \<noteq> None"
    and "map (\<lambda>w. the (cl_vals c' w)) v = bits" and "length v = length bits"
proof -
  obtain r where r: "reserve_ids (length bits) (cl_ctx c) = Inr (v, r)"
    and c': "c' = c\<lparr>cl_ctx := r, cl_vals := store_bits v bits (cl_vals c)\<rparr>"
    using assms(2) by (auto simp: cl_put_def bind_result_Inr)
  have v: "v = [next_id (cl_ctx c)..<next_id (cl_ctx c) + length bits]" "pending r = pending (cl_ctx c)"
    using reserve_ids_eq [OF r] by simp_all
  show len: "length v = length bits" by (simp add: v)
  have st: "cl_vals c' (v ! i) = Some (bits ! i)" if "i < length v" for i
    unfolding c' using store_bits_nth [of v i] that by (simp add: v(1))
  show "map (\<lambda>w. the (cl_vals c' w)) v = bits" by (rule nth_equalityI) (simp_all add: st len)
  show "\<forall>w \<in> set v. \<not> is_pending (cl_ctx c') w \<and> cl_vals c' w \<noteq> None"
  proof
    fix w assume w: "w \<in> set v"
    then obtain i where "i < length v" "w = v ! i" by (auto simp: in_set_conv_nth)
    moreover have "w \<notin> pending (cl_ctx c)" using w assms(1) by (auto simp: v rec_inv_def)
    ultimately show "\<not> is_pending (cl_ctx c') w \<and> cl_vals c' w \<noteq> None"
      using st by (simp add: is_pending_def c' v(2))
  qed
qed

text \<open>With nothing pending the flush guard holds trivially: the planned program is empty.\<close>

lemma flush_guard_idle:
  assumes "rec_inv (cl_ctx c)" and "\<forall>w \<in> set keep. \<not> is_pending (cl_ctx c) w"
  shows "flush_guard keep c"
proof -
  have none: "wire_to_gate (chunk_gates (cl_ctx c)) w = None" if "w \<in> set keep" for w
    using assms rec_inv_pending [OF assms(1)] that by blast
  then have "\<not> reachable_gate (chunk_gates (cl_ctx c)) (set keep) gi" for gi
  proof -
    have False if "reachable_gate (chunk_gates (cl_ctx c)) (set keep) gi" for gi
      using that by induction (use none in auto)
    then show ?thesis by blast
  qed
  then have w: "work_indices (chunk_gates (cl_ctx c)) keep = []"
    by (simp add: work_indices_def Let_def needed_gates_iff)
  have "fold (emit_output (chunk_gates (cl_ctx c)) m) ks a = a" if "set ks \<subseteq> set keep" for ks m a
    using that none by (induction ks arbitrary: a) (auto simp: emit_output_def split: prod.splits)
  then show ?thesis
    by (simp add: flush_guard_def cl_plan_def plan_flush_def w prog_masked_def masked_outputs_def)
qed

text \<open>
  An opening checks the correlated shares exactly when its flush runs a program, that is when a
  wire to open or keep is pending: then no share is unchecked after it; otherwise it opens the value
  without touching protocol or pool.
\<close>

lemma reveal_checks_only_when_it_runs:
  assumes "reveal T rc v recipient keep s1 s2 = Inr ((b1, t1), (b2, t2))"
  shows "if \<exists>w \<in> set (v @ concat keep). is_pending (ss_ctx s1) w
    then \<not> tp_cots_minted (pc_fpre (ss_proto t1)) \<and> \<not> tp_cots_minted (pc_fpre (ss_proto t2))
    else ss_engine t1 = ss_engine s1 \<and> ss_engine t2 = ss_engine s2"
proof -
  have "\<exists>u u'. flush T rc (v @ concat keep) s1 s2 = Inr ((u, t1), (u', t2))"
    using assms by (auto simp: reveal_def bind_result_Inr split: if_splits)
  then show ?thesis using flush_checks by blast
qed


text \<open>Party 1 puts in one bit.\<close>

lemma toy_private_input:
  obtains s1 s2 where "session_input toy_prims ALICE [1] [0] [5] (init_session 1 (toy_pool 1)) (init_session 2 (toy_pool 2)) =
    Inr (([0], s1), ([0], s2))"
proof -
  have "cl_input ALICE [1] [0] init_clear = Inr ([0], init_clear\<lparr>cl_ctx := init_recorder\<lparr>next_id := Suc 0\<rparr>, cl_vals := [0 \<mapsto> True]\<rparr>)"
    by (simp add: init_clear_def cl_input_def cl_put_def owner_bits_def alloc_id_def init_recorder_def UINT32_MAX_def
        party_defs store_bits_def nz_def)
  then show ?thesis
    using input_refines [OF init_sess_rel [OF toy_pools_ok], of ALICE "[1]" "[0]" toy_prims "[5]"] that
    by (auto simp: input_guard_def party_defs)
qed


end
