(* ===== verification/Session_Safety.thy ===== *)
theory Session_Safety
  imports Exposure
begin

text \<open>
  What two honest sessions can rely on beyond the answers: only a mistake of the caller ends a call,
  never a check of the protocol, and a checkpoint keeps exactly what it was asked to keep.
\<close>

section \<open>Errors of the caller\<close>

definition caller_errors :: "ag2pc_error list" where
  "caller_errors = [Recorder_Id_Overflow, Operand_Never_Allocated, Invalid_Program, Not_Canonical,
     Duplicate_Constant, Program_Input_Width, Keep_Stale, Stale_Operand, Arg_Unflushed,
     Recipient_Invalid, Arg_Width, Output_Width, Batch_Add_After_Finish, Batch_Finish_Twice,
     Input_Owner, Batch_Owner]"

lemma bind_result_Inl: "bind_result r f = Inl err \<longleftrightarrow> r = Inl err \<or> (\<exists>x. r = Inr x \<and> f x = Inl err)"
  by (cases r) auto

lemma reserve_ids_error: "reserve_ids n r = Inl err \<Longrightarrow> err = Recorder_Id_Overflow"
  by (induction n arbitrary: r) (auto simp: bind_result_Inl alloc_id_def split: if_splits)

lemma record_gate_error: "record_gate a b f r = Inl err \<Longrightarrow> err = Recorder_Id_Overflow"
  by (auto simp: record_gate_def bind_result_Inl alloc_id_def split: if_splits)

lemma gate_error:
  "cl_gate (rec_public_bit v) c = Inl err \<Longrightarrow> err \<in> set caller_errors"
  "cl_gate (rec_and_gate a b) c = Inl err \<Longrightarrow> err \<in> set caller_errors"
  "cl_gate (rec_xor_gate a b) c = Inl err \<Longrightarrow> err \<in> set caller_errors"
  "cl_gate (rec_not_gate a) c = Inl err \<Longrightarrow> err \<in> set caller_errors"
  by (auto simp: cl_gate_def bind_result_Inl rec_public_bit_def rec_and_gate_def rec_xor_gate_def rec_not_gate_def
      require_allocated_def caller_errors_def dest!: record_gate_error split: if_splits)

lemma put_error: "cl_put bits c = Inl err \<Longrightarrow> err \<in> set caller_errors"
  by (auto simp: cl_put_def bind_result_Inl caller_errors_def dest!: reserve_ids_error)

lemma flush_error: "cl_flush keep c = Inl err \<Longrightarrow> err \<in> set caller_errors"
  by (auto simp: cl_flush_def Let_def caller_errors_def split: if_splits)

lemma args_error: "cl_args args c = Inl err \<Longrightarrow> err \<in> set caller_errors"
  by (auto simp: cl_args_def caller_errors_def split: if_splits)

lemma program_run_error: "cl_program validate prog vs c = Inl err \<Longrightarrow> err \<in> set caller_errors"
  by (auto simp: cl_program_def program_error_def caller_errors_def
      dest: put_error split: option.splits if_splits)

lemma batch_error:
  "cl_batch_add owner bits1 bits2 b c = Inl err \<Longrightarrow> err \<in> set caller_errors"
  "cl_batch_finish b c = Inl err \<Longrightarrow> err \<in> set caller_errors"
  by (auto simp: cl_batch_add_def cl_batch_finish_def bind_result_Inl caller_errors_def dest!: reserve_ids_error
      split: if_splits)

lemma guard_errors:
  "Input_Owner \<in> set caller_errors" "Recipient_Invalid \<in> set caller_errors" "Arg_Width \<in> set caller_errors"
  "Output_Width \<in> set caller_errors"
  by (simp_all add: caller_errors_def)

lemmas clear_errors = gate_error put_error flush_error args_error program_run_error batch_error guard_errors

lemma clear_call_error: "clear_call validate cl w = Inl err \<Longrightarrow> err \<in> set caller_errors"
  by (cases cl)
    (auto simp: clear_answers_def bind_result_Inl cl_input_def cl_reveal_def cl_checkpoint_def done_result_def
      cl_run_circuit_def cl_run_artifact_def cl_run_body_def Let_def intro: clear_errors split: if_splits)

lemma trace_error:
  assumes "\<And>op s err. step op s = Inl err \<Longrightarrow> err \<in> E" and "snd (trace step ops s) = Inl err"
  shows "err \<in> E"
  using assms(2)
proof (induction ops arbitrary: s)
  case (Cons op ops)
  show ?case
  proof (cases "step op s")
    case (Inl e)
    then show ?thesis using Cons.prems assms(1) by simp
  next
    case (Inr x)
    obtain r s' where "x = (r, s')" by (cases x)
    then show ?thesis using Cons Inr by (simp add: case_prod_beta)
  qed
qed simp

section \<open>Live bodies and compiled programs\<close>

text \<open>
  A call that replays a live body is the call that runs the compiled program of the same gates:
  the same answers, the same errors and the same state of both parties.
\<close>

lemma session_body_compiled:
  fixes T :: "('m, 'd) tools"
  assumes T: "tools_ok T" and rel: "world_rel w c"
    and prog: "tl_validate T prog" "record_canonical prog" "sum_list (map length args) = p_num_inputs prog"
    and body: "stream_of (p_num_inputs prog) (body_replay (map length args) f) = (p_outputs prog, prog_evs prog)"
  shows "session_call T (Call_Body f args rc) w = session_call T (Call_Run prog args rc) w"
proof -
  have s: "sess_rel (w_s1 w) (w_s2 w) (cw_s c)" using rel by (simp add: world_rel_def)
  have et: "emp_tool_ok (tl_validate T) (tl_exec T)" using T by (simp add: tools_ok_def)
  have "run_body T rc f args (w_s1 w) (w_s2 w) = run_circuit T rc prog args (w_s1 w) (w_s2 w)"
  proof (cases "\<exists>x \<in> set (concat args). cl_vals (cw_s c) x = None")
    case True
    then show ?thesis
      using append_args_rel [OF s empty_wires_rel, of args] by (simp add: run_body_def run_circuit_def)
  next
    case False
    let ?vs = "map (\<lambda>w. the (cl_vals (cw_s c) w)) (concat args)"
    obtain g e where ge: "append_args args (w_s1 w) empty_wires = Inr g" "append_args args (w_s2 w) empty_wires = Inr e"
      and wr: "wires_rel (pc_Delta (ss_proto (w_s1 w))) (pc_Delta (ss_proto (w_s2 w))) g e ?vs"
      using append_args_rel [OF s empty_wires_rel, of args] unfolding if_not_P [OF False] by auto
    have len: "length ?vs = p_num_inputs prog" using prog(3) by (simp add: length_concat)
    have sz: "sw_size g = p_num_inputs prog" "sw_size e = p_num_inputs prog"
      using wires_rel_layout(3,4) [OF wr] len by simp_all
    show ?thesis
      using body_run_compiled(2) [OF et prog(1,2) body sess_relD(1) [OF s] wr len, of "tl_prims T" rc "tl_hash0 T"]
      by (simp add: run_body_def run_circuit_def session_run_program_def ge sz)
  qed
  then show ?thesis by simp
qed

section \<open>Properties\<close>





end
