(* ===== verification/Session_Counters.thy ===== *)
theory Session_Counters
  imports Session_Runs
begin

text \<open>
  The observers of \<^verbatim>\<open>AG2PCSession\<close>: its party, the number of AND gates it garbled and
  the number of input phases it ran; and what every call adds to them.
\<close>

section \<open>Observers\<close>

definition session_party :: "session \<Rightarrow> nat" where
  "session_party s = pc_party (ss_proto s)"

definition num_and :: "session \<Rightarrow> nat" where
  "num_and s = en_total_ands (ss_engine s)"

definition process_input_calls :: "session \<Rightarrow> nat" where
  "process_input_calls s = pc_calls (ss_proto s)"

text \<open>The AND gates of a source, of a program, and of the program a flush runs.\<close>

definition source_ands :: "nat \<Rightarrow> body \<Rightarrow> nat" where
  "source_ands n src = num_and_evs (snd (stream_of n src))"

definition prog_ands :: "program \<Rightarrow> nat" where
  "prog_ands p = length (filter (\<lambda>g. g_op g = Op_And) (p_gates p))"

definition flush_ands :: "wire list \<Rightarrow> session \<Rightarrow> nat" where
  "flush_ands keep s = (case flush_begin keep s of Inr (Some (plan, b)) \<Rightarrow> prog_ands (fp_prog plan) | _ \<Rightarrow> 0)"

lemma num_and_evs_prog: "num_and_evs (prog_evs p) = prog_ands p"
proof -
  have "ev_is_and (gate_ev g) \<longleftrightarrow> g_op g = Op_And" for g by (cases "g_op g") (simp_all add: gate_ev_def)
  then show ?thesis by (simp add: num_and_evs_def prog_ands_def prog_evs_def filter_map comp_def)
qed

section \<open>One run\<close>

lemma sm_ai_event: "sm_ai (sm_event e p) = sm_ai p + (if ev_is_and e then 1 else 0)"
proof -
  have fr: "sm_ai (free_if_dead w p) = sm_ai p" "sm_ai (put_slot sl sh m p) = sm_ai p"
    "sm_ai (snd (alloc_slot w p)) = sm_ai p" "sm_ai (snd (next_lambda_gamma p)) = sm_ai p" for w sl sh m and p :: "'a slot_mask"
    by (simp_all add: free_if_dead_def put_slot_def alloc_slot_def next_lambda_gamma_def Let_def case_prod_beta)
  show ?thesis
    by (cases e) (simp_all add: sm_event_def sm_fresh_const_def sm_and_gate_def sm_xor_gate_def sm_not_gate_def
        Let_def case_prod_beta fr)
qed

lemma sm_ai_fold: "sm_ai (fold sm_event es p) = sm_ai p + num_and_evs es"
  by (induction es rule: rev_induct) (simp_all add: sm_ai_event)

lemma run_setup_counts:
  assumes "run_setup m0 pr w src = (outs, st, pr')"
  shows "rs_num_ands st = source_ands (sw_size w) src" and "pc_party pr' = pc_party pr" and "pc_calls pr' = pc_calls pr"
proof -
  let ?s0 = "init_run_state (pc_party pr) (pc_Delta pr) (sw_size w) m0"
  obtain outs0 lp where lp: "drive live_ops src (init_live ?s0) = (outs0, lp)" by (metis surj_pair)
  let ?s1 = "load_inputs w (lp_commit outs0 lp ?s0)"
  have n: "rs_num_inputs ?s1 = sw_size w" by (simp add: lp_commit_def init_run_state_def)
  have "snd (drive slot_mask_ops src (init_slot_mask ?s1 (pc_fpre pr))) =
      fold sm_event (snd (stream_of (sw_size w) src)) (init_slot_mask ?s1 (pc_fpre pr))"
    using n by (simp add: slot_mask.drive_stream) (simp add: init_slot_mask_def)
  then show "rs_num_ands st = source_ands (sw_size w) src" "pc_party pr' = pc_party pr" "pc_calls pr' = pc_calls pr"
    using assms lp
    by (auto simp: run_setup_def run_pass_def Let_def commit_sizes_def source_ands_def sm_ai_fold init_slot_mask_def
        split: prod.splits)
qed

lemma gp_end_state: "gp_s (gp_end p) = gp_s p"
  by (simp add: gp_end_def gp_publish_def gp_run_sender_def Let_def split: prod.splits option.splits)

lemma garbler_send_ands:
  assumes "garbler_send P src st = (st', io)"
  shows "rs_num_ands st' = rs_num_ands st"
proof -
  have "rs_num_ands (gp_s (fold (gp_event P) es p)) = rs_num_ands (gp_s p)" for es and p :: "'a garble_pass"
    by (induction es arbitrary: p) (simp_all add: gp_event_frame)
  then show ?thesis
    using assms by (auto simp: garbler_send_def run_pass_def garble.drive_stream gp_end_state gp_begin_ok)
qed

lemma garbler_check_ands:
  assumes "garbler_check P src LA st = (st', D)"
  shows "rs_num_ands st' = rs_num_ands st"
proof -
  have "rs_num_ands (gc_s (fold gc_event es p)) = rs_num_ands (gc_s p)" for es and p :: "'a gamma_pass"
    by (induction es arbitrary: p) (simp_all add: gc_event_frame)
  then show ?thesis
    using assms by (auto simp: garbler_check_def run_pass_def gamma.drive_stream Let_def init_gamma_def split: if_splits)
qed

lemma evaluator_receive_ands:
  assumes "evaluator_receive P src io st = Inr (st', LA)"
  shows "rs_num_ands st' = rs_num_ands st"
proof -
  have "rs_num_ands (ep_s (fold (ep_event P) es p)) = rs_num_ands (ep_s p)" for es and p :: "'a eval_pass"
    by (induction es arbitrary: p) (simp_all add: ep_event_frame)
  then show ?thesis
    using assms by (auto simp: evaluator_receive_def run_pass_def eval.drive_stream ep_end_def init_eval_ok Let_def
        split: if_splits)
qed

text \<open>What an engine keeps and counts: the party, the input phases, \<open>n\<close> more AND gates.\<close>

definition counts :: "nat \<Rightarrow> engine \<Rightarrow> engine \<Rightarrow> bool" where
  "counts n en en' \<longleftrightarrow> en_total_ands en' = en_total_ands en + n \<and>
     pc_party (en_proto en') = pc_party (en_proto en) \<and> pc_calls (en_proto en') = pc_calls (en_proto en)"

lemma finish_run_counts:
  "pc_party pr = pc_party (en_proto en) \<Longrightarrow> pc_calls pr = pc_calls (en_proto en) \<Longrightarrow> counts n en (finish_run n pr en)"
  by (simp add: counts_def finish_run_def protocol_cot_check_def)

lemma run_source_counts:
  assumes "run_source P rc m0 src (w1, en1) (w2, en2) = Inr ((o1, en1'), (o2, en2'))"
  shows "counts (source_ands (sw_size w1) src) en1 en1'" and "counts (source_ands (sw_size w2) src) en2 en2'"
proof -
  obtain outs1 s1 p1 where S1: "run_setup m0 (en_proto en1) w1 src = (outs1, s1, p1)" by (metis surj_pair)
  obtain outs2 s2 p2 where S2: "run_setup m0 (en_proto en2) w2 src = (outs2, s2, p2)" by (metis surj_pair)
  obtain sig1 f1 sig2 f2 where c: "compute_inplace P (rc_coin rc) (rc_nonce rc) (rs_num_ands s1)
      (rs_rep_a s1) (rs_rep_b s1) (rs_rep_a s2) (rs_rep_b s2) (pc_fpre p1) (pc_fpre p2) = Inr ((sig1, f1), (sig2, f2))"
    using assms by (auto simp: run_source_def S1 S2 bind_result_Inr)
  let ?s1 = "set_seed P (rc_seed rc) (store_sigma sig1 s1)" and ?s2 = "set_seed P (rc_seed rc) (store_sigma sig2 s2)"
  obtain t1 io where g: "garbler_send P src ?s1 = (t1, io)" by (metis surj_pair)
  obtain t2 LA where e: "evaluator_receive P src io ?s2 = Inr (t2, LA)"
    using assms by (auto simp: run_source_def S1 S2 c g bind_result_Inr Let_def)
  obtain u1 D where k: "garbler_check P src LA t1 = (u1, D)" by (metis surj_pair)
  have en: "en1' = finish_run (rs_num_ands u1) (p1\<lparr>pc_fpre := f1\<rparr>) en1" "en2' = finish_run (rs_num_ands t2) (p2\<lparr>pc_fpre := f2\<rparr>) en2"
    using assms by (auto simp: run_source_def S1 S2 c g e k bind_result_Inr Let_def)
  have upd: "rs_num_ands ?s1 = rs_num_ands s1" "rs_num_ands ?s2 = rs_num_ands s2" by (simp_all add: set_seed_def store_sigma_def)
  have "rs_num_ands u1 = source_ands (sw_size w1) src" "rs_num_ands t2 = source_ands (sw_size w2) src"
    using garbler_check_ands [OF k] garbler_send_ands [OF g] evaluator_receive_ands [OF e]
      run_setup_counts(1) [OF S1] run_setup_counts(1) [OF S2] upd by simp_all
  then show "counts (source_ands (sw_size w1) src) en1 en1'" "counts (source_ands (sw_size w2) src) en2 en2'"
    unfolding en using run_setup_counts(2,3) [OF S1] run_setup_counts(2,3) [OF S2] by (auto intro!: finish_run_counts)
qed

lemma run_program_counts:
  assumes T: "tools_ok T" and r: "session_run_program T rc prog b1 b2 en1 en2 = Inr ((o1, en1'), (o2, en2'))"
  shows "counts (prog_ands prog) en1 en1'" and "counts (prog_ands prog) en2 en2'"
proof -
  let ?src = "tl_exec T prog [0..<p_num_inputs prog]"
  have chk: "require_record_canonical (tl_validate T) prog = Inr ()" "sw_size b1 = p_num_inputs prog" "sw_size b2 = p_num_inputs prog"
    and run: "run_source (tl_prims T) rc (tl_hash0 T) ?src (b1, en1) (b2, en2) = Inr ((o1, en1'), (o2, en2'))"
    using r by (auto simp: session_run_program_def run_program_def check_program_def bind_result_Inr split: if_splits)
  have "emp_tool_ok (tl_validate T) (tl_exec T)" using T by (simp add: tools_ok_def)
  then have "stream_of (p_num_inputs prog) ?src = (p_outputs prog, prog_evs prog)"
    by (rule emp_tool_stream(1)) (use chk(1) in \<open>simp_all add: require_record_canonical_ok\<close>)
  then have "source_ands (p_num_inputs prog) ?src = prog_ands prog" by (simp add: source_ands_def num_and_evs_prog)
  then show "counts (prog_ands prog) en1 en1'" "counts (prog_ands prog) en2 en2'"
    using run_source_counts [OF run] chk(2,3) by simp_all
qed

section \<open>One call\<close>

text \<open>What a session gains: input phases and AND gates.\<close>

definition gains :: "nat \<Rightarrow> nat \<Rightarrow> session \<Rightarrow> session \<Rightarrow> bool" where
  "gains k n s s' \<longleftrightarrow> session_party s' = session_party s \<and> process_input_calls s' = process_input_calls s + k \<and>
     num_and s' = num_and s + n"

named_theorems gain_simps

lemma gains_same [gain_simps]: "ss_engine s' = ss_engine s \<Longrightarrow> gains 0 0 s s'"
  by (simp add: gains_def session_party_def process_input_calls_def num_and_def)

lemma gains_engine: "counts n (ss_engine s) en \<Longrightarrow> ss_engine s' = en \<Longrightarrow> gains 0 n s s'"
  by (simp add: gains_def counts_def session_party_def process_input_calls_def num_and_def)

lemma gains_trans: "gains k n s s' \<Longrightarrow> gains 0 0 s' s'' \<Longrightarrow> gains k n s s''"
  by (simp add: gains_def)

lemma materialize_all_engine: "materialize_all xs s = Inr s' \<Longrightarrow> ss_engine s' = ss_engine s"
  by (induction xs arbitrary: s) (auto simp: bind_result_Inr dest!: materialize_into_engine)

lemma batch_loop_engine: "batch_loop os a bits ids s = Inr s' \<Longrightarrow> ss_engine s' = ss_engine s"
  by (induction os arbitrary: a s) (auto simp: bind_result_Inr dest!: materialize_into_engine split: if_splits)

lemma both_Inr: "both f g s1 s2 = Inr (r1, r2) \<longleftrightarrow> f s1 = Inr r1 \<and> g s2 = Inr r2"
  by (cases r1; cases r2) (auto simp: both_def bind_result_Inr)

lemma both_materialize:
  assumes "both (materialize o1) (materialize o2) s1 s2 = Inr ((i1, t1), (i2, t2))"
  shows "ss_engine t1 = ss_engine s1" "ss_engine t2 = ss_engine s2"
  using assms materialize_engine by (auto simp: both_Inr)

text \<open>One input phase counts one at both parties.\<close>

lemma process_inputs_counts:
  assumes "process_inputs P owners bits1 bits2 labels p q = Inr ((g, p'), (e, q'))"
  shows "(pc_calls p' = Suc (pc_calls p) \<and> pc_party p' = pc_party p) \<and> (pc_calls q' = Suc (pc_calls q) \<and> pc_party q' = pc_party q)"
  using assms
  by (auto simp: process_inputs_def bind_result_Inr Let_def inputs_draw_def split: if_splits prod.splits)

lemma gains_proto:
  "pc_calls p = Suc (pc_calls (ss_proto s)) \<and> pc_party p = pc_party (ss_proto s) \<Longrightarrow>
   ss_engine s' = ss_engine (set_proto p s) \<Longrightarrow> gains (Suc 0) 0 s s'"
  by (simp add: gains_def session_party_def process_input_calls_def num_and_def set_proto_def)

lemma session_input_gains:
  assumes "session_input P owner bits1 bits2 labels s1 s2 = Inr ((i1, t1), (i2, t2))"
  shows "gains (if owner = PUBLIC then 0 else 1) 0 s1 t1" and "gains (if owner = PUBLIC then 0 else 1) 0 s2 t2"
proof -
  obtain g e u1 u2 where a: "authenticate P owner bits1 bits2 labels s1 s2 = Inr ((g, u1), (e, u2))"
    and m: "both (materialize g) (materialize e) u1 u2 = Inr ((i1, t1), (i2, t2))"
    using assms by (auto simp: session_input_def bind_result_Inr)
  note m' = both_materialize [OF m]
  show "gains (if owner = PUBLIC then 0 else 1) 0 s1 t1" "gains (if owner = PUBLIC then 0 else 1) 0 s2 t2"
    using a m' by (auto simp: authenticate_def bind_result_Inr gain_simps intro: gains_proto
        dest!: process_inputs_counts split: if_splits)
qed

lemma batch_finish_gains:
  assumes "batch_finish P labels b1 b2 s1 s2 = Inr ((c1, t1), (c2, t2))"
  shows "gains (if sec_adds (ib_owners b1) = [] then 0 else 1) 0 s1 t1" and "gains (if sec_adds (ib_owners b1) = [] then 0 else 1) 0 s2 t2"
proof -
  let ?sec = "sec_adds (ib_owners b1)"
  obtain u1 u2 where l: "batch_loop (ib_owners b1) 0 (ib_bits b1) (ib_ids b1) s1 = Inr u1"
      "batch_loop (ib_owners b1) 0 (ib_bits b2) (ib_ids b2) s2 = Inr u2"
    using assms by (auto simp: batch_finish_def batch_finish_all_def bind_result_Inr split: if_splits)
  note l' = batch_loop_engine [OF l(1)] batch_loop_engine [OF l(2)]
  show "gains (if ?sec = [] then 0 else 1) 0 s1 t1" "gains (if ?sec = [] then 0 else 1) 0 s2 t2"
    using assms l l' by (auto simp: batch_finish_def batch_finish_all_def bind_result_Inr Let_def gain_simps set_proto_def
        dest!: process_inputs_counts materialize_all_engine intro!: gains_proto split: if_splits)
qed

lemma flush_gains:
  assumes T: "tools_ok T" and f: "flush T rc keep s1 s2 = Inr ((u, t1), (v, t2))"
  shows "gains 0 (flush_ands keep s1) s1 t1 \<and> gains 0 (flush_ands keep s1) s2 t2"
proof -
  obtain f1 f2 where b: "flush_begin keep s1 = Inr f1" "flush_begin keep s2 = Inr f2"
    using f by (auto simp: flush_def bind_result_Inr)
  show ?thesis
  proof (cases f1)
    case None
    then show ?thesis using f b by (cases f2) (auto simp: flush_def flush_ands_def drop_session_chunk_def gain_simps)
  next
    case (Some x)
    obtain pl1 b1 where x: "x = (pl1, b1)" by (cases x)
    obtain pl2 b2 where f2: "f2 = Some (pl2, b2)" using f b by (cases f2) (auto simp: flush_def Some x)
    obtain o1 en1 o2 en2 where run: "session_run_program T rc (fp_prog pl1) b1 b2 (ss_engine s1) (ss_engine s2) = Inr ((o1, en1), (o2, en2))"
      and t: "t1 = flush_end pl1 o1 en1 s1" "t2 = flush_end pl2 o2 en2 s2"
      using f b by (auto simp: flush_def Some x f2 bind_result_Inr split: if_splits)
    note c = run_program_counts [OF T run]
    have "gains 0 (prog_ands (fp_prog pl1)) s1 t1" by (rule gains_engine [OF c(1)]) (simp add: t flush_end_def drop_session_chunk_def)
    moreover have "gains 0 (prog_ands (fp_prog pl1)) s2 t2" by (rule gains_engine [OF c(2)]) (simp add: t flush_end_def drop_session_chunk_def)
    ultimately show ?thesis using b(1) by (simp add: flush_ands_def Some x)
  qed
qed

lemma wrap_outputs_gains:
  assumes w: "wrap_outputs r s1 s2 = Inr ((i1, t1), (i2, t2))"
    and c: "\<And>o1 en1 o2 en2. r = Inr ((o1, en1), (o2, en2)) \<Longrightarrow> counts n (ss_engine s1) en1 \<and> counts n (ss_engine s2) en2"
  shows "gains 0 n s1 t1" and "gains 0 n s2 t2"
proof -
  obtain o1 en1 o2 en2 where r: "r = Inr ((o1, en1), (o2, en2))"
    and m: "both (materialize o1) (materialize o2) (s1\<lparr>ss_engine := en1\<rparr>) (s2\<lparr>ss_engine := en2\<rparr>) = Inr ((i1, t1), (i2, t2))"
    using w by (auto simp: wrap_outputs_def bind_result_Inr)
  show "gains 0 n s1 t1" "gains 0 n s2 t2"
    using c [OF r] both_materialize [OF m] by (auto intro: gains_engine)
qed

section \<open>What every call adds\<close>

primrec call_phases :: "call \<Rightarrow> batch \<Rightarrow> nat" where
  "call_phases (Call_Public v) b = 0"
| "call_phases (Call_And x y) b = 0"
| "call_phases (Call_Xor x y) b = 0"
| "call_phases (Call_Not x) b = 0"
| "call_phases (Call_Input owner bits1 bits2 labels) b = (if owner = PUBLIC then 0 else 1)"
| "call_phases Call_Batch b = 0"
| "call_phases (Call_Add owner bits1 bits2) b = 0"
| "call_phases (Call_Finish labels) b = (if sec_adds (ib_owners b) = [] then 0 else 1)"
| "call_phases (Call_Reveal v recipient keep rc) b = 0"
| "call_phases (Call_Checkpoint keep rc) b = 0"
| "call_phases (Call_Run prog args rc) b = 0"
| "call_phases (Call_Artifact width prog args rc) b = 0"
| "call_phases (Call_Body f args rc) b = 0"

primrec call_ands :: "call \<Rightarrow> session \<Rightarrow> nat" where
  "call_ands (Call_Public v) s = 0"
| "call_ands (Call_And x y) s = 0"
| "call_ands (Call_Xor x y) s = 0"
| "call_ands (Call_Not x) s = 0"
| "call_ands (Call_Input owner bits1 bits2 labels) s = 0"
| "call_ands Call_Batch s = 0"
| "call_ands (Call_Add owner bits1 bits2) s = 0"
| "call_ands (Call_Finish labels) s = 0"
| "call_ands (Call_Reveal v recipient keep rc) s = flush_ands (v @ concat keep) s"
| "call_ands (Call_Checkpoint keep rc) s = flush_ands (concat keep) s"
| "call_ands (Call_Run prog args rc) s = prog_ands prog"
| "call_ands (Call_Artifact width prog args rc) s = prog_ands prog"
| "call_ands (Call_Body f args rc) s = source_ands (length (concat args)) (body_replay (map length args) f)"

lemma answers_Inr:
  "answers f w r = Inr (a, w') \<Longrightarrow> \<exists>x1 s1 x2 s2. r = Inr ((x1, s1), (x2, s2)) \<and> w' = w\<lparr>w_s1 := s1, w_s2 := s2\<rparr>"
  by (auto simp: answers_def bind_result_Inr)

lemma session_gate_engine: "session_gate f s = Inr (ids, s') \<Longrightarrow> ss_engine s' = ss_engine s"
  by (auto simp: session_gate_def bind_result_Inr)

lemma gate_both_gains:
  assumes "both (session_gate f) (session_gate g) s1 s2 = Inr ((i1, t1), (i2, t2))"
  shows "gains 0 0 s1 t1 \<and> gains 0 0 s2 t2"
  using assms by (auto simp: both_Inr gain_simps dest!: session_gate_engine)

lemma append_args_size:
  assumes "append_args args s empty_wires = Inr b"
  shows "sw_size b = length (concat args)"
proof -
  have "append_bundle empty_wires c = c" for c by (cases c) (simp add: append_bundle_def empty_wires_def)
  then show ?thesis using assms by (auto simp: append_args_eq carried_bundle_layout split: if_splits)
qed

lemma run_gains:
  assumes T: "tools_ok T"
  shows "run_circuit T rc prog args s1 s2 = Inr ((i1, t1), (i2, t2)) \<Longrightarrow> gains 0 (prog_ands prog) s1 t1 \<and> gains 0 (prog_ands prog) s2 t2"
    and "run_artifact T rc width prog args s1 s2 = Inr ((i1, t1), (i2, t2)) \<Longrightarrow> gains 0 (prog_ands prog) s1 t1 \<and> gains 0 (prog_ands prog) s2 t2"
    and "run_body T rc f args s1 s2 = Inr ((i1, t1), (i2, t2)) \<Longrightarrow>
      gains 0 (source_ands (length (concat args)) (body_replay (map length args) f)) s1 t1 \<and>
      gains 0 (source_ands (length (concat args)) (body_replay (map length args) f)) s2 t2"
proof -
  have p: "gains 0 (prog_ands prog) s1 t1 \<and> gains 0 (prog_ands prog) s2 t2"
    if "wrap_outputs (session_run_program T rc prog b1 b2 (ss_engine s1) (ss_engine s2)) s1 s2 = Inr ((i1, t1), (i2, t2))" for b1 b2
    by (intro conjI wrap_outputs_gains [OF that]) (use run_program_counts [OF T] in blast)+
  show "run_circuit T rc prog args s1 s2 = Inr ((i1, t1), (i2, t2)) \<Longrightarrow> gains 0 (prog_ands prog) s1 t1 \<and> gains 0 (prog_ands prog) s2 t2"
    by (auto simp: run_circuit_def bind_result_Inr split: if_splits dest!: p)
  show "run_artifact T rc width prog args s1 s2 = Inr ((i1, t1), (i2, t2)) \<Longrightarrow> gains 0 (prog_ands prog) s1 t1 \<and> gains 0 (prog_ands prog) s2 t2"
    by (auto simp: run_artifact_def bind_result_Inr split: if_splits dest!: p)
  let ?src = "body_replay (map length args) f"
  assume "run_body T rc f args s1 s2 = Inr ((i1, t1), (i2, t2))"
  then obtain b1 b2 where b: "append_args args s1 empty_wires = Inr b1" "append_args args s2 empty_wires = Inr b2"
    and w: "wrap_outputs (run_source (tl_prims T) rc (tl_hash0 T) ?src (b1, ss_engine s1) (b2, ss_engine s2)) s1 s2 = Inr ((i1, t1), (i2, t2))"
    by (auto simp: run_body_def bind_result_Inr)
  show "gains 0 (source_ands (length (concat args)) ?src) s1 t1 \<and> gains 0 (source_ands (length (concat args)) ?src) s2 t2"
    by (intro conjI wrap_outputs_gains [OF w])
      (use run_source_counts append_args_size [OF b(1)] append_args_size [OF b(2)] in metis)+
qed

lemma call_gains:
  assumes T: "tools_ok T" and c: "session_call T c w = Inr (a, w')"
  shows "gains (call_phases c (w_b1 w)) (call_ands c (w_s1 w)) (w_s1 w) (w_s1 w') \<and>
    gains (call_phases c (w_b1 w)) (call_ands c (w_s1 w)) (w_s2 w) (w_s2 w')"
proof (cases c)
  case (Call_Add owner bits1 bits2)
  then show ?thesis using c by (auto simp: bind_result_Inr both_Inr batch_add_def gain_simps split: if_splits)
next
  case Call_Batch
  then show ?thesis using c by (auto simp: gain_simps)
next
  case (Call_Input owner bits1 bits2 labels)
  then show ?thesis using c by (fastforce dest!: answers_Inr dest: session_input_gains)
next
  case (Call_Finish labels)
  then show ?thesis using c by (fastforce simp: bind_result_Inr dest: batch_finish_gains)
next
  case (Call_Reveal v recipient keep rc)
  then show ?thesis using c by (auto simp: reveal_def bind_result_Inr dest!: answers_Inr flush_gains [OF T] split: if_splits)
next
  case (Call_Checkpoint keep rc)
  then obtain u1 s1 u2 s2 where f: "flush T rc (concat keep) (w_s1 w) (w_s2 w) = Inr ((u1, s1), (u2, s2))"
    and w': "w' = w\<lparr>w_s1 := prune (concat keep) s1, w_s2 := prune (concat keep) s2\<rparr>"
    using c by (auto simp: checkpoint_def bind_result_Inr dest!: answers_Inr)
  have "gains 0 0 s (prune (concat keep) s)" for s by (simp add: prune_def gain_simps)
  then show ?thesis using flush_gains [OF T f] gains_trans Call_Checkpoint by (simp add: w') blast
qed (use c in \<open>auto dest!: answers_Inr gate_both_gains run_gains [OF T]\<close>)



end
