(* ===== verification/Clients.thy ===== *)
theory Clients
  imports Exposure Session_Safety
begin

text \<open>
  Programs written against a session. Both parties run the same source; a party's code knows its
  own cleartexts and the answers of its own session, and chooses its next call from them. A client
  is the tree of its calls, one branch for each answer. Two clients run jointly on a pair of
  sessions, or on one clear session, and see the same answers.
\<close>

section \<open>One party's calls\<close>

text \<open>
  The public methods of \<^verbatim>\<open>AG2PCSession\<close> and of its context and batch, with the
  arguments one party passes: of an input only its own bits.
\<close>

datatype request =
    Req_Public bool
  | Req_And wire wire
  | Req_Xor wire wire
  | Req_Not wire
  | Req_Input nat "byte list"
  | Req_Batch
  | Req_Add nat "byte list"
  | Req_Finish
  | Req_Reveal "wire list" nat "wire list list"
  | Req_Checkpoint "wire list list"
  | Req_Run program "wire list list"
  | Req_Artifact nat program "wire list list"
  | Req_Body "wire list list \<Rightarrow> body" "wire list list"

primrec request_bits :: "request \<Rightarrow> byte list" where
  "request_bits (Req_Public v) = []"
| "request_bits (Req_And a b) = []"
| "request_bits (Req_Xor a b) = []"
| "request_bits (Req_Not a) = []"
| "request_bits (Req_Input owner bits) = bits"
| "request_bits Req_Batch = []"
| "request_bits (Req_Add owner bits) = bits"
| "request_bits Req_Finish = []"
| "request_bits (Req_Reveal v recipient keep) = []"
| "request_bits (Req_Checkpoint keep) = []"
| "request_bits (Req_Run prog args) = []"
| "request_bits (Req_Artifact width prog args) = []"
| "request_bits (Req_Body f args) = []"

text \<open>The part of a request both parties must agree on.\<close>

primrec public_part :: "request \<Rightarrow> request" where
  "public_part (Req_Public v) = Req_Public v"
| "public_part (Req_And a b) = Req_And a b"
| "public_part (Req_Xor a b) = Req_Xor a b"
| "public_part (Req_Not a) = Req_Not a"
| "public_part (Req_Input owner bits) = Req_Input owner []"
| "public_part Req_Batch = Req_Batch"
| "public_part (Req_Add owner bits) = Req_Add owner []"
| "public_part Req_Finish = Req_Finish"
| "public_part (Req_Reveal v recipient keep) = Req_Reveal v recipient keep"
| "public_part (Req_Checkpoint keep) = Req_Checkpoint keep"
| "public_part (Req_Run prog args) = Req_Run prog args"
| "public_part (Req_Artifact width prog args) = Req_Artifact width prog args"
| "public_part (Req_Body f args) = Req_Body f args"

text \<open>The randomness a call may draw, for each call of a run.\<close>

record call_coins =
  cn_labels :: "block list"
  cn_run :: run_coins

primrec call_of :: "call_coins \<Rightarrow> byte list \<Rightarrow> request \<Rightarrow> call" where
  "call_of cn bits2 (Req_Public v) = Call_Public v"
| "call_of cn bits2 (Req_And a b) = Call_And a b"
| "call_of cn bits2 (Req_Xor a b) = Call_Xor a b"
| "call_of cn bits2 (Req_Not a) = Call_Not a"
| "call_of cn bits2 (Req_Input owner bits) = Call_Input owner bits bits2 (cn_labels cn)"
| "call_of cn bits2 Req_Batch = Call_Batch"
| "call_of cn bits2 (Req_Add owner bits) = Call_Add owner bits bits2"
| "call_of cn bits2 Req_Finish = Call_Finish (cn_labels cn)"
| "call_of cn bits2 (Req_Reveal v recipient keep) = Call_Reveal v recipient keep (cn_run cn)"
| "call_of cn bits2 (Req_Checkpoint keep) = Call_Checkpoint keep (cn_run cn)"
| "call_of cn bits2 (Req_Run prog args) = Call_Run prog args (cn_run cn)"
| "call_of cn bits2 (Req_Artifact width prog args) = Call_Artifact width prog args (cn_run cn)"
| "call_of cn bits2 (Req_Body f args) = Call_Body f args (cn_run cn)"

text \<open>Two parties that do not make the same call would wait for each other.\<close>

definition join_requests :: "call_coins \<Rightarrow> request \<Rightarrow> request \<Rightarrow> call result" where
  "join_requests cn r1 r2 =
     (if public_part r1 = public_part r2 then Inr (call_of cn (request_bits r2) r1) else Inl Desynchronised)"

section \<open>Clients\<close>

datatype 'a client = Return 'a | Request request "answer \<Rightarrow> 'a client"

primrec and_then :: "'a client \<Rightarrow> ('a \<Rightarrow> 'b client) \<Rightarrow> 'b client" where
  "and_then (Return x) f = f x"
| "and_then (Request r k) f = Request r (\<lambda>a. and_then (k a) f)"

lemma and_then_Return [simp]: "and_then p Return = p"
  by (induction p) auto

lemma and_then_assoc [simp]: "and_then (and_then p f) g = and_then p (\<lambda>x. and_then (f x) g)"
  by (induction p) auto

text \<open>A loop over a list of rounds.\<close>

primrec for_each :: "('x \<Rightarrow> 's \<Rightarrow> 's client) \<Rightarrow> 'x list \<Rightarrow> 's \<Rightarrow> 's client" where
  "for_each f [] s = Return s"
| "for_each f (x # xs) s = and_then (f x s) (for_each f xs)"

text \<open>
  The joint run: what both clients return, the number of calls made, and the final state.
\<close>

primrec joint_run :: "(call \<Rightarrow> 's \<Rightarrow> ((answer \<times> answer) \<times> 's) result) \<Rightarrow> (nat \<Rightarrow> call_coins) \<Rightarrow>
    'a client \<Rightarrow> 'b client \<Rightarrow> nat \<Rightarrow> 's \<Rightarrow> (('a \<times> 'b) \<times> nat \<times> 's) result" where
  "joint_run step cn (Return x) q n s =
     (case q of Return y \<Rightarrow> Inr ((x, y), n, s) | Request r2 k2 \<Rightarrow> Inl Desynchronised)"
| "joint_run step cn (Request r1 k1) q n s =
     (case q of Return y \<Rightarrow> Inl Desynchronised
      | Request r2 k2 \<Rightarrow> bind_result (join_requests (cn n) r1 r2) (\<lambda>cl.
          bind_result (step cl s) (\<lambda>((a, b), s'). joint_run step cn (k1 a) (k2 b) (Suc n) s')))"

text \<open>The calls made keep their contract.\<close>

primrec requests_ok :: "(call \<Rightarrow> 's \<Rightarrow> ((answer \<times> answer) \<times> 's) result) \<Rightarrow> (call \<Rightarrow> 's \<Rightarrow> bool) \<Rightarrow>
    (nat \<Rightarrow> call_coins) \<Rightarrow> 'a client \<Rightarrow> 'b client \<Rightarrow> nat \<Rightarrow> 's \<Rightarrow> bool" where
  "requests_ok step ok cn (Return x) q n s = True"
| "requests_ok step ok cn (Request r1 k1) q n s =
     (case q of Return y \<Rightarrow> True
      | Request r2 k2 \<Rightarrow> (case join_requests (cn n) r1 r2 of Inl err \<Rightarrow> True
        | Inr cl \<Rightarrow> ok cl s \<and> (case step cl s of Inl err \<Rightarrow> True
            | Inr x \<Rightarrow> requests_ok step ok cn (k1 (fst (fst x))) (k2 (snd (fst x))) (Suc n) (snd x))))"

text \<open>Calls that are simulated one by one are simulated under every two clients.\<close>

locale client_simulation = fallible_simulation R cstep astep ok
  for R :: "'c \<Rightarrow> 'a \<Rightarrow> bool"
    and cstep :: "call \<Rightarrow> 'c \<Rightarrow> ((answer \<times> answer) \<times> 'c) result"
    and astep :: "call \<Rightarrow> 'a \<Rightarrow> ((answer \<times> answer) \<times> 'a) result"
    and ok :: "call \<Rightarrow> 'a \<Rightarrow> bool"
begin

lemma joint_run_sim:
  assumes "R c a" and "requests_ok astep ok cn p q n a"
  shows "case joint_run astep cn p q n a of Inl err \<Rightarrow> joint_run cstep cn p q n c = Inl err
    | Inr (x, m, a') \<Rightarrow> \<exists>c'. joint_run cstep cn p q n c = Inr (x, m, c') \<and> R c' a'"
  using assms
proof (induction p arbitrary: q n c a)
  case (Return x)
  then show ?case by (cases q) simp_all
next
  case (Request r1 k1)
  show ?case
  proof (cases q)
    case q: (Request r2 k2)
    show ?thesis
    proof (cases "join_requests (cn n) r1 r2")
      case j: (Inr cl)
      have ok: "ok cl a" using Request.prems(2) by (simp add: q j)
      note st = step [OF Request.prems(1) ok]
      show ?thesis
      proof (cases "astep cl a")
        case (Inl err)
        then show ?thesis using st by (simp add: q j)
      next
        case (Inr y)
        obtain u v a' where y: "y = ((u, v), a')" by (metis surj_pair)
        obtain c' where c': "cstep cl c = Inr ((u, v), c')" "R c' a'" using st by (auto simp: Inr y)
        have "requests_ok astep ok cn (k1 u) (k2 v) (Suc n) a'" using Request.prems(2) by (simp add: q j Inr y)
        note IH = Request.IH [OF rangeI c'(2) this]
        have "joint_run astep cn (Request r1 k1) q n a = joint_run astep cn (k1 u) (k2 v) (Suc n) a'"
          "joint_run cstep cn (Request r1 k1) q n c = joint_run cstep cn (k1 u) (k2 v) (Suc n) c'"
          by (simp_all add: q j Inr y c'(1))
        with IH show ?thesis by (simp only:)
      qed
    qed (simp add: q)
  qed simp
qed

end

interpretation clients: client_simulation world_rel "session_call T" "clear_call (tl_validate T)"
    "\<lambda>cl c. tools_ok T \<and> call_guard (tl_validate T) cl c" for T :: "('m, 'd) tools"
  by (rule client_simulation.intro) (rule calls.fallible_simulation_axioms)

text \<open>
  Two honest parties' clients see on their sessions exactly what they would see on the clear one:
  they return the same values after the same number of calls, or end with the same error.
\<close>

lemma client_run_sim:
  fixes T :: "('m, 'd) tools"
  assumes "tools_ok T" and "world_rel w c"
    and "requests_ok (clear_call (tl_validate T)) (call_guard (tl_validate T)) cn p q n c"
  shows "case joint_run (clear_call (tl_validate T)) cn p q n c of
      Inl err \<Rightarrow> joint_run (session_call T) cn p q n w = Inl err
    | Inr (x, m, c') \<Rightarrow> \<exists>w'. joint_run (session_call T) cn p q n w = Inr (x, m, w') \<and> world_rel w' c'"
  by (rule clients.joint_run_sim [OF assms(2)]) (simp add: assms(1,3))

text \<open>A run in two parts, the first of which returns.\<close>

lemma joint_run_seq:
  assumes "joint_run step cn p q n s = Inr ((x, y), m, s')"
  shows "joint_run step cn (and_then p f) (and_then q g) n s = joint_run step cn (f x) (g y) m s'"
  using assms
proof (induction p arbitrary: q n s)
  case (Return x)
  then show ?case by (cases q) simp_all
next
  case (Request r1 k1)
  then obtain r2 k2 cl a b t where q: "q = Request r2 k2" and j: "join_requests (cn n) r1 r2 = Inr cl"
    and st: "step cl s = Inr ((a, b), t)" and run: "joint_run step cn (k1 a) (k2 b) (Suc n) t = Inr ((x, y), m, s')"
    by (cases q) (auto simp: bind_result_Inr)
  show ?case using Request.IH [OF rangeI run] by (simp add: q j st)
qed

section \<open>What a joint run gives\<close>

text \<open>
  All calls keep their contract, no call fails, and the run returns with the postcondition.
\<close>

definition joint_gives :: "(call \<Rightarrow> 's \<Rightarrow> ((answer \<times> answer) \<times> 's) result) \<Rightarrow> (call \<Rightarrow> 's \<Rightarrow> bool) \<Rightarrow>
    (nat \<Rightarrow> call_coins) \<Rightarrow> 'a client \<Rightarrow> 'b client \<Rightarrow> nat \<Rightarrow> 's \<Rightarrow> ('a \<Rightarrow> 'b \<Rightarrow> 's \<Rightarrow> bool) \<Rightarrow> bool" where
  "joint_gives step ok cn p q n s Q \<longleftrightarrow> requests_ok step ok cn p q n s \<and>
     (case joint_run step cn p q n s of Inl err \<Rightarrow> False
      | Inr ((x, y), m, s') \<Rightarrow> Q x y s')"

lemma gives_Return: "Q x y s \<Longrightarrow> joint_gives step ok cn (Return x) (Return y) n s Q"
  by (simp add: joint_gives_def)

lemma gives_Request:
  assumes "public_part r1 = public_part r2" and "ok (call_of (cn n) (request_bits r2) r1) s"
    and "case step (call_of (cn n) (request_bits r2) r1) s of Inl err \<Rightarrow> False
      | Inr ((a, b), s') \<Rightarrow> joint_gives step ok cn (k1 a) (k2 b) (Suc n) s' Q"
  shows "joint_gives step ok cn (Request r1 k1) (Request r2 k2) n s Q"
proof -
  have j: "join_requests (cn n) r1 r2 = Inr (call_of (cn n) (request_bits r2) r1)"
    by (simp add: join_requests_def assms(1))
  show ?thesis
    using assms(2,3) by (cases "step (call_of (cn n) (request_bits r2) r1) s") (auto simp: joint_gives_def j)
qed

lemma gives_mono:
  assumes "joint_gives step ok cn p q n s Q" and "\<And>x y s'. Q x y s' \<Longrightarrow> Q' x y s'"
  shows "joint_gives step ok cn p q n s Q'"
  using assms(1) unfolding joint_gives_def
  by (cases "joint_run step cn p q n s") (auto intro: assms(2))

lemma gives_RequestD:
  assumes g: "joint_gives step ok cn (Request r1 k1) q n s Q"
  obtains r2 k2 cl where "q = Request r2 k2" "join_requests (cn n) r1 r2 = Inr cl" "ok cl s"
    "case step cl s of Inl err \<Rightarrow> False
     | Inr ((a, b), s') \<Rightarrow> joint_gives step ok cn (k1 a) (k2 b) (Suc n) s' Q"
proof (cases q)
  case q: (Request r2 k2)
  obtain cl where j: "join_requests (cn n) r1 r2 = Inr cl"
    using g by (cases "join_requests (cn n) r1 r2") (auto simp: joint_gives_def q join_requests_def split: if_splits)
  have "case step cl s of Inl err \<Rightarrow> False
     | Inr ((a, b), s') \<Rightarrow> joint_gives step ok cn (k1 a) (k2 b) (Suc n) s' Q"
    using g by (cases "step cl s") (auto simp: joint_gives_def q j)
  moreover have "ok cl s" using g by (simp add: joint_gives_def q j)
  ultimately show ?thesis using that q j by blast
qed (use g in \<open>simp add: joint_gives_def\<close>)

lemma gives_then:
  assumes "joint_gives step ok cn p q n s (\<lambda>x y s'. \<forall>m. joint_gives step ok cn (f x) (g y) m s' Q)"
  shows "joint_gives step ok cn (and_then p f) (and_then q g) n s Q"
  using assms
proof (induction p arbitrary: q n s)
  case (Return x)
  then obtain y where "q = Return y" by (cases q) (simp_all add: joint_gives_def)
  with Return show ?case by (simp add: joint_gives_def [of _ _ _ "Return x" "Return y"])
next
  case (Request r1 k1)
  from Request.prems obtain r2 k2 cl where q: "q = Request r2 k2" and j: "join_requests (cn n) r1 r2 = Inr cl"
    and ok: "ok cl s" and st: "case step cl s of Inl err \<Rightarrow> False
     | Inr ((a, b), s') \<Rightarrow> joint_gives step ok cn (k1 a) (k2 b) (Suc n) s'
         (\<lambda>x y s'. \<forall>m. joint_gives step ok cn (f x) (g y) m s' Q)"
    by (rule gives_RequestD)
  have cl: "public_part r1 = public_part r2" "cl = call_of (cn n) (request_bits r2) r1"
    using j by (auto simp: join_requests_def split: if_splits)
  have "case step cl s of Inl err \<Rightarrow> False
     | Inr ((a, b), s') \<Rightarrow> joint_gives step ok cn (and_then (k1 a) f) (and_then (k2 b) g) (Suc n) s' Q"
  proof (cases "step cl s")
    case (Inr x)
    obtain a b s' where x: "x = ((a, b), s')" by (metis surj_pair)
    show ?thesis using Request.IH [OF rangeI] st by (simp add: Inr x)
  qed (use st in simp)
  then show ?case
    unfolding q and_then.simps cl(2) by (intro gives_Request) (use cl ok in simp_all)
qed

lemma gives_seq:
  assumes "joint_gives step ok cn p q n s R"
    and "\<And>x y s' m. R x y s' \<Longrightarrow> joint_gives step ok cn (f x) (g y) m s' Q"
  shows "joint_gives step ok cn (and_then p f) (and_then q g) n s Q"
  by (rule gives_then, rule gives_mono [OF assms(1)]) (use assms(2) in blast)

lemma gives_for_each:
  assumes "Inv [] x y s" 
    and "\<And>pre r rest x y s m. rs = pre @ r # rest \<Longrightarrow> Inv pre x y s \<Longrightarrow>
      joint_gives step ok cn (f r x) (g r y) m s (Inv (pre @ [r]))"
  shows "joint_gives step ok cn (for_each f rs x) (for_each g rs y) n s (Inv rs)"
proof -
  have run: "joint_gives step ok cn (for_each f rest x) (for_each g rest y) n s (Inv rs)"
    if "rs = pre @ rest" "Inv pre x y s" for pre rest x y n s
    using that
  proof (induction rest arbitrary: pre x y n s)
    case Nil
    then show ?case by (simp add: gives_Return)
  next
    case (Cons r rest)
    have "joint_gives step ok cn (f r x) (g r y) n s (Inv (pre @ [r]))"
      by (rule assms(2) [OF Cons.prems])
    then have "joint_gives step ok cn (f r x) (g r y) n s
        (\<lambda>x y s'. \<forall>m. joint_gives step ok cn (for_each f rest x) (for_each g rest y) m s' (Inv rs))"
      by (rule gives_mono) (use Cons.IH [of "pre @ [r]"] Cons.prems(1) in simp)
    then show ?case by (simp add: gives_then)
  qed
  show ?thesis by (rule run [OF _ assms(1)]) simp
qed


text \<open>What clients on the clear session give, clients on two honest sessions give.\<close>

lemma sessions_after:
  fixes T :: "('m, 'd) tools"
  assumes T: "tools_ok T" "pools_ok f g"
    and gv: "joint_gives (clear_call (tl_validate T)) (call_guard (tl_validate T)) cn p q 0 init_clear_world Q"
  obtains x y m w c where "joint_run (session_call T) cn p q 0 (init_world f g) = Inr ((x, y), m, w)" "world_rel w c" "Q x y c"
proof -
  have sim: "case joint_run (clear_call (tl_validate T)) cn p q 0 init_clear_world of
      Inl err \<Rightarrow> joint_run (session_call T) cn p q 0 (init_world f g) = Inl err
    | Inr (x, m, c') \<Rightarrow> \<exists>w'. joint_run (session_call T) cn p q 0 (init_world f g) = Inr (x, m, w') \<and> world_rel w' c'"
    by (rule client_run_sim [OF T(1) init_world_rel [OF T(2)]]) (use gv in \<open>simp add: joint_gives_def\<close>)
  show ?thesis
    using sim gv by (cases "joint_run (clear_call (tl_validate T)) cn p q 0 init_clear_world")
      (auto simp: joint_gives_def intro: that)
qed

lemma sessions_give:
  fixes T :: "('m, 'd) tools"
  assumes "tools_ok T" and "pools_ok f g"
    and "joint_gives (clear_call (tl_validate T)) (call_guard (tl_validate T)) cn p q 0 init_clear_world
      (\<lambda>a b c. a = x \<and> b = y \<and> P c)"
  obtains m w c where "joint_run (session_call T) cn p q 0 (init_world f g) = Inr ((x, y), m, w)" "world_rel w c" "P c"
  by (rule sessions_after [OF assms]) (use that in blast)

lemma world_rel_dom:
  assumes "world_rel w c"
  shows "dom (ss_carried (w_s1 w)) = dom (cl_vals (cw_s c))" "dom (ss_carried (w_s2 w)) = dom (cl_vals (cw_s c))"
  using assms by (simp_all only: world_rel_def dom_def sess_carried_none [of "w_s1 w" "w_s2 w" "cw_s c"])

end
