(* ===== verification/Client_Gates.thy ===== *)
theory Client_Gates
  imports Clients Session_Invariant
begin

text \<open>
  The wires of a client on the clear session: which are live, what they hold, and what the gates
  that an operator of a value type records do to them.
\<close>

section \<open>Live wires\<close>

text \<open>
  A wire is live when it is pending or materialized; then it has a value. The chunk is live when
  every gate of it reads live wires, so that no flush of it meets a stale operand.
\<close>

definition live :: "clear_session \<Rightarrow> wire \<Rightarrow> bool" where
  "live c w \<longleftrightarrow> is_pending (cl_ctx c) w \<or> cl_vals c w \<noteq> None"

definition live_chunk :: "clear_session \<Rightarrow> bool" where
  "live_chunk c \<longleftrightarrow> (\<forall>g \<in> set (chunk_gates (cl_ctx c)). \<forall>w \<in> set (gate_operands g). live c w)"

definition tidy :: "clear_world \<Rightarrow> bool" where
  "tidy w \<longleftrightarrow> ids_inv w \<and> live_chunk (cw_s w)"

text \<open>The wires \<open>ids\<close> carry the bits \<open>bits\<close>.\<close>

definition holds :: "clear_world \<Rightarrow> wire list \<Rightarrow> bool list \<Rightarrow> bool" where
  "holds w ids bits \<longleftrightarrow> (\<forall>x \<in> set ids. live (cw_s w) x) \<and> map (cl_value (cw_s w)) ids = bits"

text \<open>They are materialized with these bits.\<close>

definition stores :: "clear_world \<Rightarrow> wire list \<Rightarrow> bool list \<Rightarrow> bool" where
  "stores w ids bits \<longleftrightarrow> map (cl_vals (cw_s w)) ids = map Some bits"

text \<open>A call keeps every live wire with its value, and the materialized ones as they are.\<close>

definition keeps :: "clear_world \<Rightarrow> clear_world \<Rightarrow> bool" where
  "keeps w w' \<longleftrightarrow>
     (\<forall>x. live (cw_s w) x \<longrightarrow> live (cw_s w') x \<and> cl_value (cw_s w') x = cl_value (cw_s w) x) \<and>
     (\<forall>x. cl_vals (cw_s w) x \<noteq> None \<longrightarrow> cl_vals (cw_s w') x = cl_vals (cw_s w) x)"

lemma keeps_refl: "keeps w w"
  by (simp add: keeps_def)

lemma keeps_trans: "keeps w w' \<Longrightarrow> keeps w' w'' \<Longrightarrow> keeps w w''"
  by (simp add: keeps_def)

lemma holds_keeps: "keeps w w' \<Longrightarrow> holds w ids bits \<Longrightarrow> holds w' ids bits"
  by (auto simp: holds_def keeps_def)

lemma map_Some_iff: "map f xs = map Some ys \<longleftrightarrow> (\<forall>x \<in> set xs. f x \<noteq> None) \<and> map (\<lambda>x. the (f x)) xs = ys"
  by (induction xs arbitrary: ys) (auto simp: Cons_eq_map_conv)

lemma stores_keeps: "keeps w w' \<Longrightarrow> stores w ids bits \<Longrightarrow> stores w' ids bits"
  by (auto simp: stores_def map_Some_iff keeps_def)

lemma holds_append: "holds w ids bits \<Longrightarrow> holds w ids' bits' \<Longrightarrow> holds w (ids @ ids') (bits @ bits')"
  by (auto simp: holds_def)

lemma holds_length: "holds w ids bits \<Longrightarrow> length ids = length bits"
  by (auto simp: holds_def)

lemma tidyD:
  assumes "tidy w"
  shows "ids_inv w" "rec_inv (cl_ctx (cw_s w))" "live_chunk (cw_s w)"
  using assms by (simp_all add: tidy_def ids_inv_def)

lemma live_bound: "tidy w \<Longrightarrow> live (cw_s w) x \<Longrightarrow> x < next_id (cl_ctx (cw_s w))"
  using pending_bound [of "cl_ctx (cw_s w)" x] by (auto simp: tidy_def ids_inv_def live_def is_pending_def)

lemma materialized_value:
  assumes "rec_inv (cl_ctx c)" and "\<not> is_pending (cl_ctx c) x"
  shows "cl_value c x = the (cl_vals c x)"
proof -
  have "x \<notin> g_out ` set (chunk_gates (cl_ctx c))" using assms by (simp add: rec_inv_def is_pending_def)
  then show ?thesis by (simp add: cl_value_def chunk_eval_other)
qed

lemma stores_holds:
  assumes "tidy w" and "stores w ids bits"
  shows "holds w ids bits"
proof -
  have st: "\<forall>x \<in> set ids. cl_vals (cw_s w) x \<noteq> None" "map (\<lambda>x. the (cl_vals (cw_s w) x)) ids = bits"
    using assms(2) by (simp_all add: stores_def map_Some_iff)
  have "cl_value (cw_s w) x = the (cl_vals (cw_s w) x)" if "x \<in> set ids" for x
  proof (rule materialized_value [OF tidyD(2) [OF assms(1)]])
    show "\<not> is_pending (cl_ctx (cw_s w)) x"
      using tidyD(1) [OF assms(1)] st(1) that by (auto simp: ids_inv_def is_pending_def)
  qed
  then show ?thesis using st by (auto simp: holds_def live_def)
qed

section \<open>Gates\<close>

text \<open>The recorder operation a request stands for, and the wires it reads.\<close>

primrec gate_of :: "request \<Rightarrow> (recorder \<Rightarrow> (wire \<times> recorder) result) option" where
  "gate_of (Req_Public v) = Some (rec_public_bit v)"
| "gate_of (Req_And a b) = Some (rec_and_gate a b)"
| "gate_of (Req_Xor a b) = Some (rec_xor_gate a b)"
| "gate_of (Req_Not a) = Some (rec_not_gate a)"
| "gate_of (Req_Input owner bits) = None"
| "gate_of Req_Batch = None"
| "gate_of (Req_Add owner bits) = None"
| "gate_of Req_Finish = None"
| "gate_of (Req_Reveal v recipient keep) = None"
| "gate_of (Req_Checkpoint keep) = None"
| "gate_of (Req_Run prog args) = None"
| "gate_of (Req_Artifact width prog args) = None"
| "gate_of (Req_Body f args) = None"

primrec gate_reads :: "request \<Rightarrow> wire set" where
  "gate_reads (Req_Public v) = {}"
| "gate_reads (Req_And a b) = {a, b}"
| "gate_reads (Req_Xor a b) = {a, b}"
| "gate_reads (Req_Not a) = {a}"
| "gate_reads (Req_Input owner bits) = {}"
| "gate_reads Req_Batch = {}"
| "gate_reads (Req_Add owner bits) = {}"
| "gate_reads Req_Finish = {}"
| "gate_reads (Req_Reveal v recipient keep) = {}"
| "gate_reads (Req_Checkpoint keep) = {}"
| "gate_reads (Req_Run prog args) = {}"
| "gate_reads (Req_Artifact width prog args) = {}"
| "gate_reads (Req_Body f args) = {}"

text \<open>
  An operator of a value type is a client that only records gates, over the wires of its operands
  and those it got back.
\<close>

primrec records_only :: "wire set \<Rightarrow> wire list client \<Rightarrow> bool" where
  "records_only A (Return ids) \<longleftrightarrow> set ids \<subseteq> A"
| "records_only A (Request r k) \<longleftrightarrow> gate_of r \<noteq> None \<and> gate_reads r \<subseteq> A \<and>
     (\<forall>w. records_only (insert w A) (k (Wires [w])))"

text \<open>Its effect on a recorder.\<close>

primrec gate_run :: "'a client \<Rightarrow> recorder \<Rightarrow> ('a \<times> recorder) result" where
  "gate_run (Return x) r = Inr (x, r)"
| "gate_run (Request q k) r = (case gate_of q of None \<Rightarrow> Inl Desynchronised
     | Some f \<Rightarrow> bind_result (f r) (\<lambda>(w, r). gate_run (k (Wires [w])) r))"

lemma gate_call:
  assumes "gate_of q = Some f"
  shows "clear_call validate (call_of cn bits q) w = clear_answers wires2 w (cl_gate f (cw_s w))"
    and "call_guard validate (call_of cn bits q) w" and "request_bits q = []"
  using assms by (cases q; simp)+

lemma gate_step:
  assumes "gate_of q = Some f" and "f r = Inr (x, r')"
  shows "rec_step r [x] r'"
  using assms by (cases q) (auto intro: rec_step.intros)

text \<open>A gate operation appends gates over the wires it reads, and returns a pending wire.\<close>

lemma gate_extends:
  assumes g: "gate_of q = Some f" and f: "f r = Inr (x, r')" and inv: "rec_inv r"
  shows "\<exists>gs. chunk_gates r' = chunk_gates r @ gs \<and> (\<forall>g \<in> set gs. set (gate_operands g) \<subseteq> gate_reads q)"
    and "pending r \<subseteq> pending r'" and "x \<in> pending r'" and "rec_grows r r'"
proof -
  have c: "nat (const_wire v r) \<in> pending r" if v: "\<not> const_wire v r < 0" for v
  proof -
    have "const_inv v (chunk_gates r) (const_wire v r)" using inv by (cases v) (simp_all add: rec_inv_def const_wire_def)
    then obtain g where "g \<in> set (chunk_gates r)" "int (g_out g) = const_wire v r"
      using v by (auto simp: const_inv_def)
    then show ?thesis using inv by (auto simp: rec_inv_def dest: sym)
  qed
  show "\<exists>gs. chunk_gates r' = chunk_gates r @ gs \<and> (\<forall>g \<in> set gs. set (gate_operands g) \<subseteq> gate_reads q)"
    "pending r \<subseteq> pending r'" "x \<in> pending r'"
    using g f c by (cases q; auto simp: rec_public_bit_def rec_and_gate_def rec_xor_gate_def rec_not_gate_def
        bind_result_Inr record_gate_Inr set_const_wire_def gate_operands_def is_const_def is_not_def split: if_splits)+
  show "rec_grows r r'" using g f by (cases q) (auto intro: gate_ops_grow)
qed


abbreviation ids_used :: "clear_world \<Rightarrow> nat" where
  "ids_used w \<equiv> next_id (cl_ctx (cw_s w))"

abbreviation with_ctx :: "clear_world \<Rightarrow> recorder \<Rightarrow> clear_world" where
  "with_ctx w r \<equiv> w\<lparr>cw_s := (cw_s w)\<lparr>cl_ctx := r\<rparr>\<rparr>"

lemma gate_keeps:
  assumes g: "gate_of q = Some f" and f: "f (cl_ctx (cw_s w)) = Inr (x, r')"
    and w: "tidy w" and reads: "\<forall>y \<in> gate_reads q. live (cw_s w) y"
  shows "tidy (with_ctx w r')" and "keeps w (with_ctx w r')" and "live (cw_s (with_ctx w r')) x"
proof -
  note ext = gate_extends [OF g f tidyD(2) [OF w]]
  note step = gate_step [OF g f]
  obtain gs where gs: "chunk_gates r' = chunk_gates (cl_ctx (cw_s w)) @ gs"
    "\<forall>g \<in> set gs. set (gate_operands g) \<subseteq> gate_reads q" using ext(1) by blast
  have mono: "live (cw_s (with_ctx w r')) y" if "live (cw_s w) y" for y
    using that ext(2) by (auto simp: live_def is_pending_def)
  show "live (cw_s (with_ctx w r')) x" using ext(3) by (simp add: live_def is_pending_def)
  have "ids_inv (with_ctx w r')"
    by (rule ids_inv_grow [OF tidyD(1) [OF w] rec_step_inv [OF tidyD(2) [OF w] step] ext(4)])
  moreover have "live_chunk (cw_s (with_ctx w r'))"
    using tidyD(3) [OF w] gs reads mono unfolding live_chunk_def by fastforce
  ultimately show "tidy (with_ctx w r')" by (simp add: tidy_def)
  show "keeps w (with_ctx w r')"
    unfolding keeps_def using mono rec_step_frame [OF step live_bound [OF w]] by (auto simp: cl_value_def)
qed

text \<open>An operator that records gates over live wires and does not run out of ids.\<close>

lemma value_op_gives:
  assumes "records_only A t" and "tidy w" and "\<forall>x \<in> A. live (cw_s w) x"
    and "gate_run t (cl_ctx (cw_s w)) = Inr (ids, r)"
  shows "joint_gives (clear_call validate) (call_guard validate) cn t t n w
    (\<lambda>v v' w'. v = ids \<and> v' = ids \<and> cl_ctx (cw_s w') = r \<and> tidy w' \<and> keeps w w' \<and>
       cl_vals (cw_s w') = cl_vals (cw_s w) \<and> (\<forall>x \<in> set ids. live (cw_s w') x))"
  using assms
proof (induction t arbitrary: A n w)
  case (Return v)
  then show ?case by (auto intro!: gives_Return simp: keeps_refl)
next
  case (Request q k)
  obtain f where g: "gate_of q = Some f" using Request.prems(1) by auto
  have reads: "\<forall>y \<in> gate_reads q. live (cw_s w) y" using Request.prems(1,3) by auto
  obtain x r' where f: "f (cl_ctx (cw_s w)) = Inr (x, r')" and run: "gate_run (k (Wires [x])) r' = Inr (ids, r)"
    using Request.prems(4) by (auto simp: g bind_result_Inr)
  note kp = gate_keeps [OF g f Request.prems(2) reads]
  have A: "records_only (insert x A) (k (Wires [x]))" using Request.prems(1) by simp
  have liv: "\<forall>z \<in> insert x A. live (cw_s (with_ctx w r')) z"
    using kp(2,3) Request.prems(3) unfolding keeps_def by blast
  have "joint_gives (clear_call validate) (call_guard validate) cn (k (Wires [x])) (k (Wires [x])) (Suc n) (with_ctx w r')
    (\<lambda>v v' w'. v = ids \<and> v' = ids \<and> cl_ctx (cw_s w') = r \<and> tidy w' \<and> keeps w w' \<and>
       cl_vals (cw_s w') = cl_vals (cw_s w) \<and> (\<forall>x \<in> set ids. live (cw_s w') x))"
    by (rule gives_mono [OF Request.IH [OF rangeI A kp(1) liv]]) (use keeps_trans [OF kp(2)] run in auto)
  then show ?case
    by (intro gives_Request) (use gate_call [OF g] in \<open>simp_all add: clear_answers_def cl_gate_def f\<close>)
qed

end
