(* ===== verification/Client_Rules.thy ===== *)
theory Client_Rules
  imports Client_Gates
begin

text \<open>
  What the calls of a client do to its wires, on the clear session: rules for inputs, stored
  programs, openings, checkpoints and input batches.
\<close>

section \<open>Inputs and results\<close>

lemma store_bits_other: "x \<notin> set ids \<Longrightarrow> store_bits ids bits v x = v x"
proof -
  assume x: "x \<notin> set ids"
  have "fold (\<lambda>i v. v(ids ! i \<mapsto> bits ! i)) [0..<k] v x = v x" if "k \<le> length ids" for k
    using that x by (induction k) auto
  then show ?thesis by (simp add: store_bits_def)
qed

text \<open>A chunk depends only on the wires it reads.\<close>

lemma chunk_eval_cong:
  assumes "\<And>y. y \<in> A \<Longrightarrow> s y = s' y" and "\<forall>g \<in> set gs. set (gate_operands g) \<subseteq> A" and "x \<in> A"
  shows "chunk_eval gs s x = chunk_eval gs s' x"
  using assms(2,3)
proof (induction gs arbitrary: x rule: rev_induct)
  case (snoc g gs)
  have "gate_val (chunk_eval gs s) g = gate_val (chunk_eval gs s') g"
    by (rule gate_val_cong) (use snoc in auto)
  then show ?case using snoc by auto
qed (simp add: chunk_eval_def assms(1))

lemma put_keeps:
  assumes w: "tidy w" and put: "cl_put bits (cw_s w) = Inr (ids, c)"
  defines "w' \<equiv> w\<lparr>cw_s := c\<rparr>"
  shows "tidy w'" and "keeps w w'" and "stores w' ids bits"
    and "chunk_gates (cl_ctx c) = chunk_gates (cl_ctx (cw_s w))"
proof -
  let ?c = "cw_s w"
  obtain r where r: "reserve_ids (length bits) (cl_ctx ?c) = Inr (ids, r)"
    and c: "c = ?c\<lparr>cl_ctx := r, cl_vals := store_bits ids bits (cl_vals ?c)\<rparr>"
    using put by (auto simp: cl_put_def bind_result_Inr)
  have ids: "ids = [next_id (cl_ctx ?c)..<next_id (cl_ctx ?c) + length bits]"
    and r': "r = (cl_ctx ?c)\<lparr>next_id := next_id (cl_ctx ?c) + length bits\<rparr>"
    using reserve_ids_eq [OF r] by simp_all
  show g: "chunk_gates (cl_ctx c) = chunk_gates (cl_ctx ?c)" by (simp add: c r')
  have new: "y \<notin> set ids" if "live ?c y" for y using live_bound [OF w that] by (simp add: ids)
  have mono: "live c y" if "live ?c y" for y
    using that store_bits_other [OF new [OF that]] by (simp add: live_def is_pending_def c r')
  have "ids_inv w'" unfolding w'_def by (rule cl_put_inv [OF tidyD(1) [OF w] put])
  moreover have "live_chunk c" using tidyD(3) [OF w] mono unfolding live_chunk_def g by blast
  ultimately show t: "tidy w'" by (simp add: tidy_def w'_def)
  have "cl_value c y = cl_value ?c y" if y: "live ?c y" for y
    unfolding cl_value_def g
  proof (rule chunk_eval_cong [where A = "Collect (live ?c)"])
    show "the (cl_vals c z) = the (cl_vals ?c z)" if "z \<in> Collect (live ?c)" for z
      using store_bits_other [OF new] that by (simp add: c)
  qed (use y tidyD(3) [OF w] in \<open>auto simp: live_chunk_def\<close>)
  moreover have "cl_vals c y = cl_vals ?c y" if "cl_vals ?c y \<noteq> None" for y
    using store_bits_other [OF new] that by (simp add: c live_def)
  ultimately show "keeps w w'" using mono by (simp add: keeps_def w'_def)
  show "stores w' ids bits"
    using cl_put_fresh(1,2) [OF tidyD(2) [OF w] put] by (simp add: stores_def map_Some_iff w'_def)
qed

section \<open>Flushes\<close>

text \<open>The kept wires depend on an AND gate of the chunk.\<close>

definition needs_and :: "recorder \<Rightarrow> wire list \<Rightarrow> bool" where
  "needs_and r keep \<longleftrightarrow> (\<exists>gi \<in> needed_gates (chunk_gates r) keep. g_op (chunk_gates r ! gi) = Op_And)"

lemma num_and_evs_pos: "e \<in> set es \<Longrightarrow> ev_is_and e \<Longrightarrow> 0 < num_and_evs es"
  by (induction es rule: rev_induct) auto

lemma needs_and_guard:
  assumes inv: "rec_inv (cl_ctx c)" and an: "needs_and (cl_ctx c) keep"
  shows "flush_guard keep c"
proof -
  let ?gs = "chunk_gates (cl_ctx c)" and ?p = "fp_prog (cl_plan keep c)"
  note wf = rec_inv_wf_chunk [OF inv]
  obtain gi where gi: "gi \<in> needed_gates ?gs keep" "g_op (?gs ! gi) = Op_And"
    using an unfolding needs_and_def by blast
  have "gi < length ?gs" using gi(1) reachable_gate_bound by (simp add: needed_gates_iff)
  then have "gi \<in> set (work_indices ?gs keep)" using gi(1) by (simp add: work_indices_def Let_def)
  then obtain k where k: "k < length (work_indices ?gs keep)" "work_indices ?gs keep ! k = gi"
    by (auto simp: in_set_conv_nth)
  have k': "k < length (p_gates ?p) \<and> g_op (p_gates ?p ! k) = Op_And"
    unfolding cl_plan_def
    by (rule plan_flush_gates [OF wf, of keep "\<lambda>w. cl_vals c w \<noteq> None"]) (use k gi(2) in simp)
  have "prog_evs ?p ! k \<in> set (prog_evs ?p)" by (rule nth_mem) (simp add: prog_evs_def k')
  moreover have "ev_is_and (prog_evs ?p ! k)" by (simp add: prog_evs_def gate_ev_def k')
  ultimately have "0 < num_and_evs (prog_evs ?p)" by (rule num_and_evs_pos)
  then show ?thesis by (simp add: flush_guard_def prog_masked_def masked_outputs_def)
qed

text \<open>A flush that keeps live wires of a live chunk succeeds.\<close>

lemma flush_live:
  assumes w: "tidy w" and keep: "\<forall>x \<in> set keep. live (cw_s w) x"
  obtains c where "cl_flush keep (cw_s w) = Inr c" and "tidy (w\<lparr>cw_s := c\<rparr>)"
    and "chunk_gates (cl_ctx c) = []" and "pending (cl_ctx c) = {}" and "next_id (cl_ctx c) = ids_used w"
    and "\<And>x. x \<in> set keep \<Longrightarrow> cl_vals c x = Some (cl_value (cw_s w) x)"
    and "\<And>x. cl_vals (cw_s w) x \<noteq> None \<Longrightarrow> cl_vals c x = cl_vals (cw_s w) x"
    and "dom (cl_vals c) \<subseteq> dom (cl_vals (cw_s w)) \<union> set keep"
proof -
  let ?c = "cw_s w"
  have stale: "\<not> (\<exists>x \<in> set keep. \<not> is_pending (cl_ctx ?c) x \<and> cl_vals ?c x = None)"
    using keep by (auto simp: live_def)
  have "x \<in> set (gate_operands (chunk_gates (cl_ctx ?c) ! gi)) \<Longrightarrow> live ?c x"
    if "gi \<in> needed_gates (chunk_gates (cl_ctx ?c)) keep" for gi x
    using that reachable_gate_bound tidyD(3) [OF w] by (auto simp: needed_gates_iff live_chunk_def)
  then have oper: "\<not> (\<exists>gi \<in> needed_gates (chunk_gates (cl_ctx ?c)) keep.
      \<exists>x \<in> set (gate_operands (chunk_gates (cl_ctx ?c) ! gi)). \<not> is_pending (cl_ctx ?c) x \<and> cl_vals ?c x = None)"
    by (auto simp: live_def)
  obtain c where fl: "cl_flush keep ?c = Inr c"
    unfolding cl_flush_def Let_def if_not_P [OF stale] if_not_P [OF oper] by (cases "\<exists>x \<in> set keep. is_pending (cl_ctx ?c) x") auto
  have ctx: "cl_ctx c = drop_chunk (cl_ctx ?c)" using fl by (auto simp: cl_flush_def Let_def split: if_splits)
  have old: "cl_vals c x = cl_vals ?c x" if "cl_vals ?c x \<noteq> None" for x
  proof -
    have "x \<notin> pending (cl_ctx ?c)" using tidyD(1) [OF w] that by (auto simp: ids_inv_def)
    then show ?thesis using fl by (auto simp: cl_flush_def Let_def is_pending_def split: if_splits)
  qed
  have "tidy (w\<lparr>cw_s := c\<rparr>)"
    using cl_flush_inv [OF tidyD(1) [OF w] fl] by (simp add: tidy_def live_chunk_def ctx drop_chunk_def)
  moreover have "dom (cl_vals c) \<subseteq> dom (cl_vals ?c) \<union> set keep"
    using fl by (auto simp: cl_flush_def Let_def split: if_splits)
  ultimately show ?thesis
    using that [OF fl _ _ _ _ _ old] cl_flush_value [OF tidyD(2) [OF w] fl] by (simp add: ctx drop_chunk_def)
qed


section \<open>Calls\<close>

text \<open>What the code makes of an answer.\<close>

fun wires_of :: "answer \<Rightarrow> wire list" where
  "wires_of (Wires ids) = ids"
| "wires_of _ = []"

fun opened_of :: "answer \<Rightarrow> bool list option" where
  "opened_of (Opened x) = x"
| "opened_of _ = None"

definition call_input :: "nat \<Rightarrow> byte list \<Rightarrow> wire list client" where
  "call_input owner bits = Request (Req_Input owner bits) (\<lambda>a. Return (wires_of a))"

definition call_reveal :: "wire list \<Rightarrow> nat \<Rightarrow> wire list list \<Rightarrow> bool list option client" where
  "call_reveal v recipient keep = Request (Req_Reveal v recipient keep) (\<lambda>a. Return (opened_of a))"

definition call_checkpoint :: "wire list list \<Rightarrow> unit client" where
  "call_checkpoint keep = Request (Req_Checkpoint keep) (\<lambda>a. Return ())"

definition call_run :: "program \<Rightarrow> wire list list \<Rightarrow> wire list client" where
  "call_run prog args = Request (Req_Run prog args) (\<lambda>a. Return (wires_of a))"

definition call_artifact :: "nat \<Rightarrow> program \<Rightarrow> wire list list \<Rightarrow> wire list client" where
  "call_artifact width prog args = Request (Req_Artifact width prog args) (\<lambda>a. Return (wires_of a))"

definition call_batch :: "unit client" where
  "call_batch = Request Req_Batch (\<lambda>a. Return ())"

definition call_add :: "nat \<Rightarrow> byte list \<Rightarrow> wire list client" where
  "call_add owner bits = Request (Req_Add owner bits) (\<lambda>a. Return (wires_of a))"

definition call_finish :: "unit client" where
  "call_finish = Request Req_Finish (\<lambda>a. Return ())"

abbreviation clear_gives :: "(program \<Rightarrow> bool) \<Rightarrow> (nat \<Rightarrow> call_coins) \<Rightarrow> 'a client \<Rightarrow> 'b client \<Rightarrow> nat \<Rightarrow>
    clear_world \<Rightarrow> ('a \<Rightarrow> 'b \<Rightarrow> clear_world \<Rightarrow> bool) \<Rightarrow> bool" where
  "clear_gives validate \<equiv> joint_gives (clear_call validate) (call_guard validate)"

lemma reserve_room: "next_id r + n \<le> UINT32_MAX \<Longrightarrow> \<exists>ids r'. reserve_ids n r = Inr (ids, r')"
proof (induction n arbitrary: r)
  case (Suc n)
  then have "alloc_id r = Inr (next_id r, r\<lparr>next_id := Suc (next_id r)\<rparr>)" by (simp add: alloc_id_def)
  moreover obtain ids r' where "reserve_ids n (r\<lparr>next_id := Suc (next_id r)\<rparr>) = Inr (ids, r')"
    using Suc.IH [of "r\<lparr>next_id := Suc (next_id r)\<rparr>"] Suc.prems by auto
  ultimately show ?case by simp
qed simp

lemma put_room:
  assumes "ids_used w + length bits \<le> UINT32_MAX"
  obtains ids c where "cl_put bits (cw_s w) = Inr (ids, c)" "next_id (cl_ctx c) = ids_used w + length bits"
proof -
  obtain ids r where r: "reserve_ids (length bits) (cl_ctx (cw_s w)) = Inr (ids, r)" using reserve_room [OF assms] by blast
  have "next_id r = ids_used w + length bits" using reserve_ids_eq [OF r] by simp
  then show ?thesis
    using that [of ids "(cw_s w)\<lparr>cl_ctx := r, cl_vals := store_bits ids bits (cl_vals (cw_s w))\<rparr>"]
    by (simp add: cl_put_def r)
qed

text \<open>A call that stores bits on fresh wires.\<close>

definition put_post :: "clear_world \<Rightarrow> bool list \<Rightarrow> wire list \<Rightarrow> wire list \<Rightarrow> clear_world \<Rightarrow> bool" where
  "put_post w bits ids ids' w' \<longleftrightarrow> ids' = ids \<and> tidy w' \<and> keeps w w' \<and> stores w' ids bits \<and>
     ids_used w' = ids_used w + length bits \<and> chunk_gates (cl_ctx (cw_s w')) = chunk_gates (cl_ctx (cw_s w))"

lemma put_gives:
  assumes w: "tidy w" and room: "ids_used w + length bits \<le> UINT32_MAX" and r: "public_part r1 = public_part r2"
    and g: "call_guard validate (call_of (cn n) (request_bits r2) r1) w"
    and s: "clear_call validate (call_of (cn n) (request_bits r2) r1) w = clear_answers wires2 w (cl_put bits (cw_s w))"
  shows "clear_gives validate cn (Request r1 (\<lambda>a. Return (wires_of a))) (Request r2 (\<lambda>a. Return (wires_of a))) n w (put_post w bits)"
proof (rule gives_Request [where ok = "call_guard validate"], goal_cases)
  case 3
  obtain ids c where put: "cl_put bits (cw_s w) = Inr (ids, c)" "next_id (cl_ctx c) = ids_used w + length bits"
    by (rule put_room [OF room])
  show ?case
    using put_keeps [OF w put(1)] put unfolding s by (simp add: clear_answers_def put_post_def gives_Return)
qed (fact r g)+

lemma input_gives:
  assumes "tidy w" and "ids_used w + length b1 \<le> UINT32_MAX"
    and "owner = PUBLIC \<or> owner = ALICE \<or> owner = BOB" and "input_guard owner b1 b2"
  shows "clear_gives validate cn (call_input owner b1) (call_input owner b2) n w
    (put_post w (owner_bits owner b1 b2))"
  unfolding call_input_def
  by (rule put_gives [OF assms(1)]) (use assms(2-4) in \<open>auto simp: cl_input_def owner_bits_def input_guard_def\<close>)

lemma stored_args:
  assumes "stores w (concat args) bits"
  shows "cl_args args (cw_s w) = Inr bits"
  using assms by (auto simp: stores_def map_Some_iff cl_args_def)

lemma artifact_gives:
  assumes "tidy w" and "ids_used w + length (p_outputs prog) \<le> UINT32_MAX" and "stores w (concat args) bits" and "program_guard validate prog"
    and "program_error validate prog (length bits) = None"
    and "length bits = p_num_inputs prog" and "width = length (p_outputs prog)"
  shows "clear_gives validate cn (call_artifact width prog args) (call_artifact width prog args) n w
    (put_post w (prog_clear prog bits))"
  unfolding call_artifact_def
  by (rule put_gives [OF assms(1)])
    (use assms(2,4-7) in \<open>simp_all add: cl_run_artifact_def cl_program_def stored_args [OF assms(3)] prog_clear_def clear_outputs_def\<close>)

lemma run_gives:
  assumes "tidy w" and "ids_used w + length (p_outputs prog) \<le> UINT32_MAX" and "stores w (concat args) bits" and "program_guard validate prog"
    and "program_error validate prog (length bits) = None" and "length bits = p_num_inputs prog"
  shows "clear_gives validate cn (call_run prog args) (call_run prog args) n w
    (put_post w (prog_clear prog bits))"
  unfolding call_run_def
  by (rule put_gives [OF assms(1)])
    (use assms(2,4-6) in \<open>simp_all add: cl_run_circuit_def cl_program_def stored_args [OF assms(3)] prog_clear_def clear_outputs_def\<close>)

text \<open>Openings and checkpoints: what was kept is materialized, the rest of the chunk is gone.\<close>

definition flushed :: "wire list \<Rightarrow> clear_world \<Rightarrow> clear_world \<Rightarrow> bool" where
  "flushed keep w w' \<longleftrightarrow> tidy w' \<and> chunk_gates (cl_ctx (cw_s w')) = [] \<and> pending (cl_ctx (cw_s w')) = {} \<and>
     ids_used w' = ids_used w \<and> (\<forall>x \<in> set keep. cl_vals (cw_s w') x = Some (cl_value (cw_s w) x)) \<and>
     dom (cl_vals (cw_s w')) \<subseteq> dom (cl_vals (cw_s w)) \<union> set keep"

lemma flushed_stores:
  assumes "flushed keep w w'" and "set ids \<subseteq> set keep" and "holds w ids bits"
  shows "stores w' ids bits"
proof -
  have "cl_vals (cw_s w') x = Some (cl_value (cw_s w) x)" if "x \<in> set ids" for x
    using assms(1,2) that by (auto simp: flushed_def)
  then show ?thesis using assms(3) by (auto simp: stores_def holds_def)
qed

lemma reveal_gives:
  assumes w: "tidy w" and v: "holds w v bits" and keep: "\<forall>x \<in> set (concat keep). live (cw_s w) x"
    and g: "flush_guard (v @ concat keep) (cw_s w)"
    and rc: "recipient = PUBLIC \<or> recipient = ALICE \<or> recipient = BOB" and ne: "v \<noteq> []"
  shows "clear_gives validate cn (call_reveal v recipient keep) (call_reveal v recipient keep) n w
    (\<lambda>x y w'. x = (if recipient = BOB then None else Some bits) \<and> y = (if recipient = ALICE then None else Some bits) \<and>
       flushed (v @ concat keep) w w' \<and> (\<forall>ids bits. stores w ids bits \<longrightarrow> stores w' ids bits))"
  unfolding call_reveal_def
proof (rule gives_Request [where ok = "call_guard validate"], goal_cases)
  case 3
  have liv: "\<forall>x \<in> set (v @ concat keep). live (cw_s w) x" using v keep by (auto simp: holds_def)
  obtain c where fl: "cl_flush (v @ concat keep) (cw_s w) = Inr c" and t: "tidy (w\<lparr>cw_s := c\<rparr>)"
    "chunk_gates (cl_ctx c) = []" "pending (cl_ctx c) = {}" "next_id (cl_ctx c) = ids_used w"
    "\<And>x. x \<in> set (v @ concat keep) \<Longrightarrow> cl_vals c x = Some (cl_value (cw_s w) x)"
    "\<And>x. cl_vals (cw_s w) x \<noteq> None \<Longrightarrow> cl_vals c x = cl_vals (cw_s w) x"
    "dom (cl_vals c) \<subseteq> dom (cl_vals (cw_s w)) \<union> set (v @ concat keep)"
    by (rule flush_live [OF w liv]) blast
  have f: "flushed (v @ concat keep) w (w\<lparr>cw_s := c\<rparr>)" using t by (simp add: flushed_def)
  have "stores (w\<lparr>cw_s := c\<rparr>) v bits" by (rule flushed_stores [OF f _ v]) simp
  then have "map (\<lambda>x. the (cl_vals c x)) v = bits" by (simp add: stores_def map_Some_iff)
  moreover have "stores w ids bits \<longrightarrow> stores (w\<lparr>cw_s := c\<rparr>) ids bits" for ids bits
    using t(6) by (auto simp: stores_def map_Some_iff)
  ultimately show ?case
    using fl f rc ne by (auto simp: clear_answers_def cl_reveal_def Let_def party_defs intro!: gives_Return)
qed (use g in simp_all)

text \<open>Opening what is materialized runs nothing and changes nothing.\<close>

definition open_post :: "clear_world \<Rightarrow> nat \<Rightarrow> bool list \<Rightarrow> bool list option \<Rightarrow> bool list option \<Rightarrow> clear_world \<Rightarrow> bool" where
  "open_post w recipient bits x y w' \<longleftrightarrow> x = (if recipient = BOB then None else Some bits) \<and>
     y = (if recipient = ALICE then None else Some bits) \<and> tidy w' \<and> ids_used w' = ids_used w \<and>
     (\<forall>ids bits. stores w ids bits \<longrightarrow> stores w' ids bits)"

lemma guard_stored:
  assumes "tidy w" and "stores w keep bits"
  shows "flush_guard keep (cw_s w)"
proof (rule flush_guard_idle [OF tidyD(2) [OF assms(1)]])
  show "\<forall>x \<in> set keep. \<not> is_pending (cl_ctx (cw_s w)) x"
    using tidyD(1) [OF assms(1)] assms(2) by (auto simp: ids_inv_def is_pending_def stores_def map_Some_iff)
qed

lemma stores_append: "stores w u bs \<Longrightarrow> stores w v cs \<Longrightarrow> stores w (u @ v) (bs @ cs)"
  by (simp add: stores_def)

lemma stores_sub: "stores w v bs \<Longrightarrow> stores w (range_of lo hi v) (range_of lo hi bs)"
  by (simp add: stores_def range_of_def take_map [symmetric] drop_map [symmetric])

lemma reveal_stored_gives:
  assumes w: "tidy w" and v: "stores w v bits" and k: "stores w (concat keep) kbits" and ne: "bits \<noteq> []"
    and rc: "recipient = PUBLIC \<or> recipient = ALICE \<or> recipient = BOB"
  shows "clear_gives validate cn (call_reveal v recipient keep) (call_reveal v recipient keep) n w (open_post w recipient bits)"
proof (rule gives_mono [OF reveal_gives [OF w stores_holds [OF w v] _ _ rc]], goal_cases)
  case 1
  show ?case using stores_holds [OF w k] by (simp add: holds_def)
next
  case 2
  show ?case by (rule guard_stored [OF w stores_append [OF v k]])
next
  case 3
  show ?case using v ne by (auto simp: stores_def)
next
  case (4 x y w')
  then show ?case by (simp add: open_post_def flushed_def)
qed

lemma checkpoint_gives:
  assumes w: "tidy w" and keep: "\<forall>x \<in> set (concat keep). live (cw_s w) x" and g: "flush_guard (concat keep) (cw_s w)"
  shows "clear_gives validate cn (call_checkpoint keep) (call_checkpoint keep) n w
    (\<lambda>x y w'. flushed (concat keep) w w' \<and> dom (cl_vals (cw_s w')) = set (concat keep))"
  unfolding call_checkpoint_def
proof (rule gives_Request [where ok = "call_guard validate"], goal_cases)
  case 3
  obtain c where fl: "cl_flush (concat keep) (cw_s w) = Inr c" and t: "tidy (w\<lparr>cw_s := c\<rparr>)"
    "chunk_gates (cl_ctx c) = []" "pending (cl_ctx c) = {}" "next_id (cl_ctx c) = ids_used w"
    "\<And>x. x \<in> set (concat keep) \<Longrightarrow> cl_vals c x = Some (cl_value (cw_s w) x)"
    by (rule flush_live [OF w keep]) blast
  let ?c = "c\<lparr>cl_vals := cl_vals c |` set (concat keep)\<rparr>"
  have "ids_inv (w\<lparr>cw_s := ?c\<rparr>)"
    by (rule ids_inv_mono [OF tidyD(1) [OF t(1)]]) (auto simp: restrict_map_def split: if_splits)
  moreover have "live_chunk ?c" by (simp add: live_chunk_def t(2))
  moreover have d: "dom (cl_vals ?c) = set (concat keep)" using t(5) by (auto simp: restrict_map_def split: if_splits)
  ultimately have "flushed (concat keep) w (w\<lparr>cw_s := ?c\<rparr>)" using t(2-5) by (simp add: flushed_def tidy_def)
  then show ?case
    using fl d by (simp add: clear_answers_def cl_checkpoint_def done_result_def gives_Return)
qed (use g in simp_all)


section \<open>Input batches\<close>

text \<open>The open batch holds the adds \<open>xs\<close> (owner, bits, ids); their ids are reserved and empty.\<close>

type_synonym batch_adds = "(nat \<times> bool list \<times> wire list) list"

abbreviation add_owner :: "nat \<times> bool list \<times> wire list \<Rightarrow> nat" where "add_owner x \<equiv> fst x"
abbreviation add_bits :: "nat \<times> bool list \<times> wire list \<Rightarrow> bool list" where "add_bits x \<equiv> fst (snd x)"
abbreviation add_ids :: "nat \<times> bool list \<times> wire list \<Rightarrow> wire list" where "add_ids x \<equiv> snd (snd x)"

definition open_batch :: "clear_world \<Rightarrow> batch_adds \<Rightarrow> bool" where
  "open_batch w xs \<longleftrightarrow>
     cw_b w = \<lparr>cb_owners = map add_owner xs, cb_bits = map add_bits xs, cb_ids = map add_ids xs, cb_finished = False\<rparr> \<and>
     distinct (concat (map add_ids xs)) \<and> (\<forall>x \<in> set xs. length (add_ids x) = length (add_bits x)) \<and>
     (\<forall>y \<in> set (concat (map add_ids xs)). y < next_id (cl_ctx (cw_s w)) \<and> \<not> live (cw_s w) y)"

lemma batch_gives:
  assumes "tidy w"
  shows "clear_gives validate cn call_batch call_batch n w
    (\<lambda>u v w'. tidy w' \<and> keeps w w' \<and> open_batch w' [] \<and> ids_used w' = ids_used w)"
  unfolding call_batch_def
  by (rule gives_Request [where ok = "call_guard validate"])
    (use assms in \<open>auto intro!: gives_Return simp: tidy_def ids_inv_def keeps_def open_batch_def clear_input_batch_def\<close>)

lemma add_gives:
  assumes w: "tidy w" and room: "ids_used w + length b1 \<le> UINT32_MAX" and b: "open_batch w xs" and g: "input_guard owner b1 b2"
  shows "clear_gives validate cn (call_add owner b1) (call_add owner b2) n w
    (\<lambda>ids ids' w'. ids' = ids \<and> tidy w' \<and> keeps w w' \<and> open_batch w' (xs @ [(owner, owner_bits owner b1 b2, ids)]) \<and>
       ids_used w' = ids_used w + length b1)"
  unfolding call_add_def
proof (rule gives_Request [where ok = "call_guard validate"], goal_cases)
  case 3
  obtain ids r where R: "reserve_ids (length b1) (cl_ctx (cw_s w)) = Inr (ids, r)" using reserve_room [OF room] by blast
  note r = reserve_ids_eq [OF R]
  define w' where "w' = \<lparr>cw_s = (cw_s w)\<lparr>cl_ctx := r\<rparr>, cw_b = (cw_b w)\<lparr>cb_owners := cb_owners (cw_b w) @ [owner],
    cb_bits := cb_bits (cw_b w) @ [owner_bits owner b1 b2], cb_ids := cb_ids (cw_b w) @ [ids]\<rparr>\<rparr>"
  have call: "clear_call validate (Call_Add owner b1 b2) w = Inr (wires2 ids, w')"
    using R b by (simp add: cl_batch_add_def open_batch_def w'_def)
  have lv: "live (cw_s w') x = live (cw_s w) x" "cl_value (cw_s w') x = cl_value (cw_s w) x" for x
    using r by (simp_all add: w'_def live_def is_pending_def cl_value_def)
  have n': "ids_used w' = ids_used w + length b1" using r by (simp add: w'_def)
  have gs: "chunk_gates (cl_ctx (cw_s w')) = chunk_gates (cl_ctx (cw_s w))" using r by (simp add: w'_def)
  have "ids_inv w'"
    using clear_call_inv [OF tidyD(1) [OF w] call] b by (simp add: open_batch_def)
  then have t: "tidy w'" using tidyD(3) [OF w] by (simp add: tidy_def live_chunk_def gs lv(1))
  have k: "keeps w w'" using lv by (simp add: keeps_def w'_def)
  have len: "length b1 = length (owner_bits owner b1 b2)" using g by (simp add: owner_bits_def input_guard_def)
  have "open_batch w' (xs @ [(owner, owner_bits owner b1 b2, ids)])"
    unfolding open_batch_def
  proof (intro conjI)
    have old: "y < next_id (cl_ctx (cw_s w))" "\<not> live (cw_s w) y" if "y \<in> set (concat (map add_ids xs))" for y
      using b that unfolding open_batch_def by blast+
    show "distinct (concat (map add_ids (xs @ [(owner, owner_bits owner b1 b2, ids)])))"
      using b r old(1) by (fastforce simp: open_batch_def)
    have "y < next_id (cl_ctx (cw_s w')) \<and> \<not> live (cw_s w') y" if "y \<in> set (concat (map add_ids xs))" for y
      using old [OF that] r unfolding lv(1) by (simp add: w'_def)
    moreover have "y < next_id (cl_ctx (cw_s w')) \<and> \<not> live (cw_s w') y" if "y \<in> set ids" for y
      using that r live_bound [OF w, of y] unfolding lv(1) by (auto simp: w'_def)
    ultimately show "\<forall>y \<in> set (concat (map add_ids (xs @ [(owner, owner_bits owner b1 b2, ids)]))).
        y < next_id (cl_ctx (cw_s w')) \<and> \<not> live (cw_s w') y"
      unfolding map_append concat_append set_append by auto
    show "\<forall>x \<in> set (xs @ [(owner, owner_bits owner b1 b2, ids)]). length (add_ids x) = length (add_bits x)"
      using b r len by (simp add: open_batch_def)
  qed (use b in \<open>simp add: open_batch_def w'_def\<close>)
  then show ?case using call t k n' by (simp add: gives_Return)
qed (use g in simp_all)


lemma distinct_concat_nth:
  "distinct (concat xss) \<Longrightarrow> a < length xss \<Longrightarrow> b < length xss \<Longrightarrow> a \<noteq> b \<Longrightarrow> set (xss ! a) \<inter> set (xss ! b) = {}"
proof (induction xss arbitrary: a b)
  case (Cons ys xss)
  have "set ys \<inter> set (xss ! k) = {}" if "k < length xss" for k
    using Cons.prems(1) nth_mem [OF that] by auto
  then show ?case using Cons by (cases a; cases b) auto
qed simp

text \<open>Storing the adds of a batch gives each its bits and touches nothing else.\<close>

lemma store_adds_other:
  "(\<And>a. a \<in> set adds \<Longrightarrow> x \<notin> set (cb_ids b ! a)) \<Longrightarrow> store_adds b adds v x = v x"
  by (induction adds arbitrary: v) (simp_all add: store_adds_def store_bits_other)

lemma store_adds_nth:
  assumes "distinct (concat (cb_ids b))" and "\<forall>a \<in> set adds. a < length (cb_ids b)"
    and "a \<in> set adds" and "j < length (cb_ids b ! a)"
  shows "store_adds b adds v (cb_ids b ! a ! j) = Some (cb_bits b ! a ! j)"
  using assms(2,3)
proof (induction adds rule: rev_induct)
  case (snoc a' adds)
  have st: "store_adds b (adds @ [a']) v = store_bits (cb_ids b ! a') (cb_bits b ! a') (store_adds b adds v)"
    by (simp add: store_adds_def)
  show ?case
  proof (cases "a' = a")
    case True
    have "cb_ids b ! a \<in> set (cb_ids b)" using snoc.prems(1) True by simp
    then have "distinct (cb_ids b ! a)" using assms(1) by (auto simp: distinct_concat_iff)
    from store_bits_nth [OF this assms(4)] show ?thesis by (simp add: st [unfolded True] True)
  next
    case False
    have "cb_ids b ! a ! j \<notin> set (cb_ids b ! a')"
      using distinct_concat_nth [OF assms(1), of a a'] snoc.prems False nth_mem [OF assms(4)] by auto
    then show ?thesis using snoc False by (simp add: st store_bits_other)
  qed
qed simp

lemma finish_stores:
  assumes b: "open_batch w xs"
    and adds: "\<forall>a \<in> set adds. a < length xs" and all: "{..<length xs} \<subseteq> set adds"
  defines "v \<equiv> store_adds (cw_b w) adds (cl_vals (cw_s w))"
  shows "x \<in> set xs \<Longrightarrow> map v (add_ids x) = map Some (add_bits x)"
    and "live (cw_s w) y \<Longrightarrow> v y = cl_vals (cw_s w) y"
proof -
  have ids: "cb_ids (cw_b w) = map add_ids xs" "cb_bits (cw_b w) = map add_bits xs" "distinct (concat (map add_ids xs))"
    using b by (simp_all add: open_batch_def)
  show "map v (add_ids x) = map Some (add_bits x)" if x: "x \<in> set xs"
  proof -
    obtain a where a: "a < length xs" "xs ! a = x" using x by (auto simp: in_set_conv_nth)
    have "length (add_ids x) = length (add_bits x)" using b x by (simp add: open_batch_def)
    moreover have "v (add_ids x ! j) = Some (add_bits x ! j)" if "j < length (add_ids x)" for j
      using store_adds_nth [of "cw_b w" adds a j "cl_vals (cw_s w)"] a ids adds all that
      by (auto simp: v_def)
    ultimately show ?thesis by (simp add: list_eq_iff_nth_eq)
  qed
  show "v y = cl_vals (cw_s w) y" if y: "live (cw_s w) y"
    unfolding v_def
  proof (rule store_adds_other)
    fix a assume "a \<in> set adds"
    then have a: "a < length xs" using adds by blast
    show "y \<notin> set (cb_ids (cw_b w) ! a)"
    proof
      assume "y \<in> set (cb_ids (cw_b w) ! a)"
      then have "y \<in> set (concat (map add_ids xs))" using a by (auto simp: ids)
      then show False using b y unfolding open_batch_def by blast
    qed
  qed
qed

lemma finish_gives:
  assumes w: "tidy w" and b: "open_batch w xs" and o: "\<forall>x \<in> set xs. add_owner x = PUBLIC \<or> add_owner x = ALICE \<or> add_owner x = BOB"
  shows "clear_gives validate cn call_finish call_finish n w
    (\<lambda>u u' w'. tidy w' \<and> keeps w w' \<and> (\<forall>x \<in> set xs. stores w' (add_ids x) (add_bits x)) \<and>
       ids_used w' = ids_used w)"
  unfolding call_finish_def
proof (rule gives_Request [where ok = "call_guard validate"], goal_cases)
  case 3
  have bw: "cw_b w = \<lparr>cb_owners = map add_owner xs, cb_bits = map add_bits xs, cb_ids = map add_ids xs, cb_finished = False\<rparr>"
    using b by (simp add: open_batch_def)
  let ?adds = "pub_adds 0 (map add_owner xs) @ sec_adds (map add_owner xs)"
  let ?v = "store_adds (cw_b w) ?adds (cl_vals (cw_s w))"
  define w' where "w' = \<lparr>cw_s = (cw_s w)\<lparr>cl_vals := ?v\<rparr>, cw_b = (cw_b w)\<lparr>cb_finished := True\<rparr>\<rparr>"
  have adds: "\<forall>a \<in> set ?adds. a < length xs" "{..<length xs} \<subseteq> set ?adds"
    using o by (auto simp: pub_adds_def sec_adds_def)
  note st = finish_stores [OF b adds]
  have "cl_batch_finish (cw_b w) (cw_s w) = Inr ((cw_b w)\<lparr>cb_finished := True\<rparr>, (cw_s w)\<lparr>cl_vals := ?v\<rparr>)"
    using o by (auto simp: cl_batch_finish_def bw)
  then have call: "clear_call validate (Call_Finish (cn_labels (cn n))) w = Inr ((Done, Done), w')" by (simp add: w'_def)
  have gs: "chunk_gates (cl_ctx (cw_s w')) = chunk_gates (cl_ctx (cw_s w))" by (simp add: w'_def)
  have mono: "live (cw_s w') y" if "live (cw_s w) y" for y
    using that st(2) [OF that] by (simp add: live_def is_pending_def w'_def)
  have "ids_inv w'" using clear_call_inv [OF tidyD(1) [OF w] call] by (simp add: bw)
  moreover have "live_chunk (cw_s w')" using tidyD(3) [OF w] mono unfolding live_chunk_def gs by blast
  ultimately have t: "tidy w'" by (simp add: tidy_def)
  have "cl_value (cw_s w') y = cl_value (cw_s w) y" if y: "live (cw_s w) y" for y
    unfolding cl_value_def gs
  proof (rule chunk_eval_cong [where A = "Collect (live (cw_s w))"])
    show "the (cl_vals (cw_s w') z) = the (cl_vals (cw_s w) z)" if "z \<in> Collect (live (cw_s w))" for z
      using st(2) that by (simp add: w'_def)
  qed (use y tidyD(3) [OF w] in \<open>auto simp: live_chunk_def\<close>)
  then have "keeps w w'" using mono st(2) by (simp add: keeps_def live_def w'_def)
  moreover have "\<forall>x \<in> set xs. stores w' (add_ids x) (add_bits x)" using st(1) by (simp add: stores_def w'_def)
  moreover have "ids_used w' = ids_used w" by (simp add: w'_def)
  ultimately show ?case using call t by (simp add: gives_Return)
qed simp_all

end
