(* ===== verification/Value_Layer.thy ===== *)
theory Value_Layer
  imports Client_Rules
begin

text \<open>
  The fixed-width integers of emp-tool (\<^verbatim>\<open>UInt_T\<close>), a parameter of the programs
  written against a session: their width, their clear codec and their operators. An operator records
  gates on the context; what is relied on is what it records over and what it means.
\<close>

record uint_layer =
  ul_width :: nat
  ul_cost :: nat
  ul_encode :: "nat \<Rightarrow> bool list"
  ul_decode :: "bool list \<Rightarrow> nat"
  ul_constant :: "nat \<Rightarrow> wire list client"
  ul_add :: "wire list \<Rightarrow> wire list \<Rightarrow> wire list client"
  ul_sub :: "wire list \<Rightarrow> wire list \<Rightarrow> wire list client"
  ul_mul :: "wire list \<Rightarrow> wire list \<Rightarrow> wire list client"
  ul_leq :: "wire list \<Rightarrow> wire list \<Rightarrow> wire list client"
  ul_gt :: "wire list \<Rightarrow> wire list \<Rightarrow> wire list client"

text \<open>
  Documented behaviour of an operator: it only records gates, over its operands and the wires it got
  back, at most \<open>ul_cost\<close> of them; on operands that encode two numbers the wires it returns carry
  the result, in any chunk and for any values of the other wires; and the result depends on an AND
  gate.
\<close>

definition op_spec :: "uint_layer \<Rightarrow> (nat \<Rightarrow> nat \<Rightarrow> bool list) \<Rightarrow> (wire list \<Rightarrow> wire list \<Rightarrow> wire list client) \<Rightarrow> bool" where
  "op_spec L f op \<longleftrightarrow> (\<forall>a b. length a = ul_width L \<longrightarrow> length b = ul_width L \<longrightarrow>
     records_only (set a \<union> set b) (op a b) \<and>
     (\<forall>r. rec_inv r \<longrightarrow> (\<forall>w \<in> set a \<union> set b. w < next_id r) \<longrightarrow> next_id r + ul_cost L \<le> UINT32_MAX \<longrightarrow>
        (\<exists>ids r'. gate_run (op a b) r = Inr (ids, r') \<and> next_id r' \<le> next_id r + ul_cost L \<and> needs_and r' ids \<and>
           (\<forall>s x y. x < 2 ^ ul_width L \<longrightarrow> y < 2 ^ ul_width L \<longrightarrow>
              map (chunk_eval (chunk_gates r) s) a = ul_encode L x \<longrightarrow>
              map (chunk_eval (chunk_gates r) s) b = ul_encode L y \<longrightarrow>
              map (chunk_eval (chunk_gates r') s) ids = f x y))))"

definition constant_spec :: "uint_layer \<Rightarrow> bool" where
  "constant_spec L \<longleftrightarrow> (\<forall>x. records_only {} (ul_constant L x) \<and>
     (\<forall>r. rec_inv r \<longrightarrow> next_id r + ul_cost L \<le> UINT32_MAX \<longrightarrow>
        (\<exists>ids r'. gate_run (ul_constant L x) r = Inr (ids, r') \<and> next_id r' \<le> next_id r + ul_cost L \<and>
           (x < 2 ^ ul_width L \<longrightarrow> (\<forall>s. map (chunk_eval (chunk_gates r') s) ids = ul_encode L x)))))"

definition wrap :: "uint_layer \<Rightarrow> nat \<Rightarrow> nat" where
  "wrap L x = x mod 2 ^ ul_width L"

definition uint_layer_ok :: "uint_layer \<Rightarrow> bool" where
  "uint_layer_ok L \<longleftrightarrow> 0 < ul_width L \<and>
     (\<forall>x < 2 ^ ul_width L. length (ul_encode L x) = ul_width L \<and> ul_decode L (ul_encode L x) = x) \<and>
     constant_spec L \<and>
     op_spec L (\<lambda>x y. ul_encode L (wrap L (x + y))) (ul_add L) \<and>
     op_spec L (\<lambda>x y. ul_encode L (wrap L (x + (2 ^ ul_width L - y)))) (ul_sub L) \<and>
     op_spec L (\<lambda>x y. ul_encode L (wrap L (x * y))) (ul_mul L) \<and>
     op_spec L (\<lambda>x y. [x \<le> y]) (ul_leq L) \<and>
     op_spec L (\<lambda>x y. [x > y]) (ul_gt L)"

lemma uint_layer_okD:
  assumes "uint_layer_ok L"
  shows "0 < ul_width L" and "x < 2 ^ ul_width L \<Longrightarrow> length (ul_encode L x) = ul_width L"
    and "x < 2 ^ ul_width L \<Longrightarrow> ul_decode L (ul_encode L x) = x" and "constant_spec L"
    and "op_spec L (\<lambda>x y. ul_encode L (wrap L (x + y))) (ul_add L)"
    and "op_spec L (\<lambda>x y. ul_encode L (wrap L (x + (2 ^ ul_width L - y)))) (ul_sub L)"
    and "op_spec L (\<lambda>x y. ul_encode L (wrap L (x * y))) (ul_mul L)"
    and "op_spec L (\<lambda>x y. [x \<le> y]) (ul_leq L)" and "op_spec L (\<lambda>x y. [x > y]) (ul_gt L)"
  using assms unfolding uint_layer_ok_def by blast+

lemma wrap_less [simp]: "wrap L x < 2 ^ ul_width L"
  by (simp add: wrap_def)

lemma wrap_id [simp]: "x < 2 ^ ul_width L \<Longrightarrow> wrap L x = x"
  by (simp add: wrap_def)

section \<open>Rules for clients\<close>

definition uint_reveal :: "uint_layer \<Rightarrow> wire list \<Rightarrow> nat \<Rightarrow> wire list list \<Rightarrow> nat option client" where
  "uint_reveal L v recipient keep =
     and_then (call_reveal v recipient keep) (\<lambda>x. Return (map_option (ul_decode L) x))"

text \<open>The wires carry the number.\<close>

abbreviation carries :: "uint_layer \<Rightarrow> clear_world \<Rightarrow> wire list \<Rightarrow> nat \<Rightarrow> bool" where
  "carries L w v x \<equiv> holds w v (ul_encode L x) \<and> x < 2 ^ ul_width L"

abbreviation banks :: "uint_layer \<Rightarrow> clear_world \<Rightarrow> wire list \<Rightarrow> nat \<Rightarrow> bool" where
  "banks L w v x \<equiv> stores w v (ul_encode L x) \<and> x < 2 ^ ul_width L"

text \<open>The owner passes its value, the other party an encoding of 0.\<close>

definition uint_array :: "uint_layer \<Rightarrow> nat \<Rightarrow> nat \<Rightarrow> nat \<Rightarrow> byte list" where
  "uint_array L party owner x = map bbyte (ul_encode L (if party = owner then x else 0))"

definition uint_input :: "uint_layer \<Rightarrow> nat \<Rightarrow> nat \<Rightarrow> nat \<Rightarrow> wire list client" where
  "uint_input L party owner x = call_input owner (uint_array L party owner x)"

lemma uint_array_guard:
  assumes "uint_layer_ok L" and o: "owner = ALICE \<or> owner = BOB" and x: "x < 2 ^ ul_width L"
  shows "input_guard owner (uint_array L ALICE owner x) (uint_array L BOB owner x)"
    and "owner_bits owner (uint_array L ALICE owner x) (uint_array L BOB owner x) = ul_encode L x"
    and "length (uint_array L party owner x) = ul_width L"
proof -
  have "length (ul_encode L 0) = ul_width L" "length (ul_encode L x) = ul_width L"
    using uint_layer_okD(2) [OF assms(1)] x by simp_all
  then show "input_guard owner (uint_array L ALICE owner x) (uint_array L BOB owner x)"
    "length (uint_array L party owner x) = ul_width L"
    using o by (auto simp: input_guard_def uint_array_def party_defs bbyte_def)
  show "owner_bits owner (uint_array L ALICE owner x) (uint_array L BOB owner x) = ul_encode L x"
    using o by (auto simp: owner_bits_def uint_array_def party_defs comp_def)
qed

lemma uint_input_gives:
  assumes L: "uint_layer_ok L" and w: "tidy w" and room: "ids_used w + ul_width L \<le> UINT32_MAX"
    and o: "owner = ALICE \<or> owner = BOB" and x: "x < 2 ^ ul_width L"
  shows "clear_gives validate cn (uint_input L ALICE owner x) (uint_input L BOB owner x) n w (put_post w (ul_encode L x))"
  using input_gives [OF w _ _ uint_array_guard(1) [OF L o x], of validate cn n] room o
  unfolding uint_input_def uint_array_guard(2,3) [OF L o x] by simp

text \<open>What an operator leaves: its result carries the bits and depends on an AND gate.\<close>

definition op_post :: "uint_layer \<Rightarrow> clear_world \<Rightarrow> bool list \<Rightarrow> wire list \<Rightarrow> wire list \<Rightarrow> clear_world \<Rightarrow> bool" where
  "op_post L w bits v v' w' \<longleftrightarrow> v' = v \<and> tidy w' \<and> keeps w w' \<and> holds w' v bits \<and> needs_and (cl_ctx (cw_s w')) v \<and>
     ids_used w' \<le> ids_used w + ul_cost L \<and> cl_vals (cw_s w') = cl_vals (cw_s w)"

lemma op_gives:
  assumes op: "op_spec L f opr" and L: "uint_layer_ok L" and w: "tidy w" and room: "ids_used w + ul_cost L \<le> UINT32_MAX"
    and a: "carries L w a x" and b: "carries L w b y"
  shows "clear_gives validate cn (opr a b) (opr a b) n w (op_post L w (f x y))"
proof -
  have len: "length a = ul_width L" "length b = ul_width L"
    using a b holds_length uint_layer_okD(2) [OF L] by metis+
  have lv: "\<forall>z \<in> set a \<union> set b. live (cw_s w) z" using a b by (auto simp: holds_def)
  note O = op [unfolded op_spec_def, rule_format, OF len]
  let ?s = "\<lambda>z. the (cl_vals (cw_s w) z)"
  obtain ids r' where run: "gate_run (opr a b) (cl_ctx (cw_s w)) = Inr (ids, r')" "next_id r' \<le> ids_used w + ul_cost L"
    "needs_and r' ids" and val: "\<forall>s x y. x < 2 ^ ul_width L \<longrightarrow> y < 2 ^ ul_width L \<longrightarrow>
      map (chunk_eval (chunk_gates (cl_ctx (cw_s w))) s) a = ul_encode L x \<longrightarrow>
      map (chunk_eval (chunk_gates (cl_ctx (cw_s w))) s) b = ul_encode L y \<longrightarrow> map (chunk_eval (chunk_gates r') s) ids = f x y"
    using conjunct2 [OF O, rule_format, OF tidyD(2) [OF w] _ room] lv live_bound [OF w] by blast
  have v: "map (chunk_eval (chunk_gates r') ?s) ids = f x y"
    using val [rule_format, of x y ?s] a b by (simp add: holds_def cl_value_def)
  show ?thesis
  proof (rule gives_mono [OF value_op_gives [OF conjunct1 [OF O] w lv run(1)]], goal_cases)
    case (1 v v' w')
    have "map (cl_value (cw_s w')) ids = f x y" using 1 v by (simp add: cl_value_def)
    then show ?case using 1 run(2,3) by (simp add: op_post_def holds_def)
  qed
qed

lemma constant_gives:
  assumes L: "uint_layer_ok L" and w: "tidy w" and room: "ids_used w + ul_cost L \<le> UINT32_MAX" and x: "x < 2 ^ ul_width L"
  shows "clear_gives validate cn (ul_constant L x) (ul_constant L x) n w
    (\<lambda>v v' w'. v' = v \<and> tidy w' \<and> keeps w w' \<and> holds w' v (ul_encode L x) \<and>
       ids_used w' \<le> ids_used w + ul_cost L \<and> cl_vals (cw_s w') = cl_vals (cw_s w))"
proof -
  note C = uint_layer_okD(4) [OF L, unfolded constant_spec_def, rule_format]
  obtain ids r' where run: "gate_run (ul_constant L x) (cl_ctx (cw_s w)) = Inr (ids, r')" "next_id r' \<le> ids_used w + ul_cost L"
    and v: "\<forall>s. map (chunk_eval (chunk_gates r') s) ids = ul_encode L x"
    using conjunct2 [OF C, rule_format, OF tidyD(2) [OF w] room] x by blast
  show ?thesis
  proof (rule gives_mono [OF value_op_gives [OF conjunct1 [OF C, of x] w _ run(1)]], goal_cases)
    case (2 v v' w')
    then have "map (cl_value (cw_s w')) ids = ul_encode L x" using v by (simp add: cl_value_def)
    then show ?case using 2 run(2) by (simp add: holds_def)
  qed simp
qed

lemma reachable_gate_mono: "reachable_gate gs A gi \<Longrightarrow> A \<subseteq> B \<Longrightarrow> reachable_gate gs B gi"
  by (induction rule: reachable_gate.induct) (auto intro: reachable_gate.intros)

lemma guard_and:
  assumes "tidy w" and "needs_and (cl_ctx (cw_s w)) v" and "set v \<subseteq> set keep"
  shows "flush_guard keep (cw_s w)"
proof (rule needs_and_guard [OF tidyD(2) [OF assms(1)]])
  obtain gi where gi: "gi \<in> needed_gates (chunk_gates (cl_ctx (cw_s w))) v" "g_op (chunk_gates (cl_ctx (cw_s w)) ! gi) = Op_And"
    using assms(2) unfolding needs_and_def by blast
  have "gi \<in> needed_gates (chunk_gates (cl_ctx (cw_s w))) keep"
    using gi(1) reachable_gate_mono [OF _ assms(3)] by (simp add: needed_gates_iff)
  then show "needs_and (cl_ctx (cw_s w)) keep" using gi(2) unfolding needs_and_def by blast
qed

lemma uint_reveal_gives:
  assumes L: "uint_layer_ok L" and w: "tidy w" and v: "carries L w v x"
    and keep: "\<forall>x \<in> set (concat keep). live (cw_s w) x" and g: "flush_guard (v @ concat keep) (cw_s w)"
    and rc: "recipient = PUBLIC \<or> recipient = ALICE \<or> recipient = BOB"
  shows "clear_gives validate cn (uint_reveal L v recipient keep) (uint_reveal L v recipient keep) n w
    (\<lambda>a b w'. a = (if recipient = BOB then None else Some x) \<and> b = (if recipient = ALICE then None else Some x) \<and>
       flushed (v @ concat keep) w w' \<and> (\<forall>ids bits. stores w ids bits \<longrightarrow> stores w' ids bits))"
  unfolding uint_reveal_def
proof (rule gives_seq [OF reveal_gives [OF w conjunct1 [OF v] keep g rc]], goal_cases)
  case 1
  show ?case using v holds_length uint_layer_okD(1,2) [OF L] by (metis length_0_conv less_numeral_extra(3))
next
  case (2 a b w' m)
  then show ?case using uint_layer_okD(3) [OF L] v by (auto intro!: gives_Return)
qed

text \<open>An addition whose result is opened at once.\<close>

lemma op_reveal_gives:
  assumes L: "uint_layer_ok L" and w: "op_post L w0 (ul_encode L x) v v' w" and x: "x < 2 ^ ul_width L"
  shows "clear_gives validate cn (uint_reveal L v PUBLIC []) (uint_reveal L v PUBLIC []) n w
    (\<lambda>a b w'. a = Some x \<and> b = Some x \<and> tidy w' \<and> ids_used w' = ids_used w \<and> stores w' v (ul_encode L x) \<and>
       (\<forall>ids bits. stores w ids bits \<longrightarrow> stores w' ids bits))"
proof -
  have o: "tidy w" "carries L w v x" "needs_and (cl_ctx (cw_s w)) v" using w x by (simp_all add: op_post_def)
  have g: "flush_guard (v @ concat []) (cw_s w)" by (rule guard_and [OF o(1,3)]) simp
  show ?thesis
  proof (rule gives_mono [OF uint_reveal_gives [OF L o(1,2) _ g]], goal_cases)
    case (3 a b w')
    then have "stores w' v (ul_encode L x)" using flushed_stores [of "v @ concat []" w w' v] o(2) by simp
    then show ?case using 3 by (simp add: flushed_def party_defs)
  qed simp_all
qed

lemma put_postD:
  assumes "put_post w bits v v' w'"
  shows "v' = v" "tidy w'" "stores w' v bits" "ids_used w' = ids_used w + length bits"
    and "stores w u cs \<Longrightarrow> stores w' u cs"
  using assms stores_keeps unfolding put_post_def by blast+

lemma op_postD:
  assumes "op_post L w bits v v' w'"
  shows "v' = v" "tidy w'" "holds w' v bits" "ids_used w' \<le> ids_used w + ul_cost L"
    and "stores w u cs \<Longrightarrow> stores w' u cs" and "holds w u cs \<Longrightarrow> holds w' u cs"
  using assms stores_keeps holds_keeps unfolding op_post_def by blast+

text \<open>One input of each party.\<close>

lemma uint_pair_gives:
  assumes L: "uint_layer_ok L" and w: "tidy w" and room: "ids_used w + 2 * ul_width L \<le> UINT32_MAX"
    and lt: "x < 2 ^ ul_width L" "y < 2 ^ ul_width L"
    and k: "\<And>a b w' m. tidy w' \<Longrightarrow> banks L w' a x \<Longrightarrow> banks L w' b y \<Longrightarrow> ids_used w' = ids_used w + 2 * ul_width L \<Longrightarrow>
      (\<And>ids bits. stores w ids bits \<Longrightarrow> stores w' ids bits) \<Longrightarrow> clear_gives validate cn (k1 a b) (k2 a b) m w' Q"
  shows "clear_gives validate cn
    (and_then (uint_input L ALICE ALICE x) (\<lambda>a. and_then (uint_input L ALICE BOB y) (k1 a)))
    (and_then (uint_input L BOB ALICE x) (\<lambda>a. and_then (uint_input L BOB BOB y) (k2 a))) n w Q"
proof (rule gives_seq [OF uint_input_gives [OF L w _ disjI1 [OF refl] lt(1)]], goal_cases)
  case 1
  show ?case using room by simp
next
  case (2 a a' w1 m)
  note w1 = put_postD [OF 2]
  have n: "length (ul_encode L x) = ul_width L" "length (ul_encode L y) = ul_width L" using uint_layer_okD(2) [OF L] lt by blast+
  have r: "ids_used w1 + ul_width L \<le> UINT32_MAX" using room w1(4) n by simp
  show ?case unfolding w1(1)
  proof (rule gives_seq [OF uint_input_gives [OF L w1(2) r disjI2 [OF refl] lt(2)]], goal_cases)
    case (1 b b' w2 m)
    note w2 = put_postD [OF 1]
    show ?case unfolding w2(1)
      by (rule k) (use w1 w2 lt n in simp_all)
  qed
qed

lemma banks_carries: "tidy w \<Longrightarrow> banks L w v x \<Longrightarrow> carries L w v x"
  using stores_holds by blast

lemma uint_reveal_stored:
  assumes L: "uint_layer_ok L" and w: "tidy w" and st: "banks L w v x"
  shows "clear_gives validate cn (uint_reveal L v PUBLIC []) (uint_reveal L v PUBLIC []) n w (\<lambda>a b w'. a = Some x \<and> b = Some x \<and>
    tidy w' \<and> ids_used w' = ids_used w \<and> (\<forall>ids bits. stores w ids bits \<longrightarrow> stores w' ids bits))"
proof -
  have v: "carries L w v x" using stores_holds [OF w] st by blast
  have g: "flush_guard (v @ concat []) (cw_s w)" using guard_stored [OF w conjunct1 [OF st]] by simp
  show ?thesis
    by (rule gives_mono [OF uint_reveal_gives [OF L w v _ g]]) (auto simp: flushed_def party_defs)
qed

text \<open>Opening a sum.\<close>

lemma sum_reveal_gives:
  assumes L: "uint_layer_ok L" and w: "tidy w" and room: "ids_used w + ul_cost L \<le> UINT32_MAX"
    and a: "carries L w a x" and b: "carries L w b y"
    and k: "\<And>w' m. tidy w' \<Longrightarrow> ids_used w' \<le> ids_used w + ul_cost L \<Longrightarrow>
      (\<And>ids bits. stores w ids bits \<Longrightarrow> stores w' ids bits) \<Longrightarrow>
      clear_gives validate cn (k1 (Some (wrap L (x + y)))) (k2 (Some (wrap L (x + y)))) m w' Q"
  shows "clear_gives validate cn (and_then (ul_add L a b) (\<lambda>v. and_then (uint_reveal L v PUBLIC []) k1))
    (and_then (ul_add L a b) (\<lambda>v. and_then (uint_reveal L v PUBLIC []) k2)) n w Q"
proof (rule gives_seq [OF op_gives [OF uint_layer_okD(5) [OF L] L w room a b]], goal_cases)
  case (1 v v' w1 m)
  note w1 = op_postD [OF 1]
  show ?case unfolding w1(1)
    by (rule gives_seq [OF op_reveal_gives [OF L 1]]) (use k w1(4,5) in simp_all)
qed

text \<open>The world at the start of a session.\<close>

lemma init_tidy: "tidy init_clear_world"
  by (simp add: tidy_def ids_inv_def live_chunk_def init_clear_world_def init_clear_def rec_inv_init clear_input_batch_def)
    (simp add: init_recorder_def)


lemma init_used: "ids_used init_clear_world = 0"
  by (simp add: init_clear_world_def init_clear_def init_recorder_def)

section \<open>Integers of width 1\<close>

text \<open>An instance of the documented behaviour, for the witnesses: one wire, and an AND gate in every operator.\<close>

definition with_not :: "wire \<Rightarrow> (wire \<Rightarrow> wire list client) \<Rightarrow> wire list client" where
  "with_not a k = Request (Req_Not a) (\<lambda>r. k (hd (wires_of r)))"

definition with_and :: "wire \<Rightarrow> wire \<Rightarrow> (wire \<Rightarrow> wire list client) \<Rightarrow> wire list client" where
  "with_and a b k = Request (Req_And a b) (\<lambda>r. k (hd (wires_of r)))"

definition with_xor :: "wire \<Rightarrow> wire \<Rightarrow> (wire \<Rightarrow> wire list client) \<Rightarrow> wire list client" where
  "with_xor a b k = Request (Req_Xor a b) (\<lambda>r. k (hd (wires_of r)))"

definition bit_and :: "wire list \<Rightarrow> wire list \<Rightarrow> wire list client" where
  "bit_and a b = with_and (hd a) (hd b) (\<lambda>w. Return [w])"

definition bit_gt :: "wire list \<Rightarrow> wire list \<Rightarrow> wire list client" where
  "bit_gt a b = with_not (hd b) (\<lambda>nb. with_and (hd a) nb (\<lambda>w. Return [w]))"

definition bit_leq :: "wire list \<Rightarrow> wire list \<Rightarrow> wire list client" where
  "bit_leq a b = with_not (hd b) (\<lambda>nb. with_and (hd a) nb (\<lambda>w. with_not w (\<lambda>nw. with_and nw nw (\<lambda>r. Return [r]))))"

definition bit_xor :: "wire list \<Rightarrow> wire list \<Rightarrow> wire list client" where
  "bit_xor a b = with_xor (hd a) (hd b) (\<lambda>t. with_and t t (\<lambda>w. Return [w]))"

definition bit_layer :: uint_layer where
  "bit_layer = \<lparr>ul_width = 1, ul_cost = 4, ul_encode = (\<lambda>x. [odd x]), ul_decode = (\<lambda>b. of_bool (hd b)),
     ul_constant = (\<lambda>x. Request (Req_Public (odd x)) (\<lambda>r. Return (wires_of r))),
     ul_add = bit_xor, ul_sub = bit_xor, ul_mul = bit_and, ul_leq = bit_leq, ul_gt = bit_gt\<rparr>"

lemma gate_run_with:
  "gate_run (with_not a k) r = bind_result (rec_not_gate a r) (\<lambda>(w, r). gate_run (k w) r)"
  "gate_run (with_and a b k) r = bind_result (rec_and_gate a b r) (\<lambda>(w, r). gate_run (k w) r)"
  "gate_run (with_xor a b k) r = bind_result (rec_xor_gate a b r) (\<lambda>(w, r). gate_run (k w) r)"
  by (simp_all add: with_not_def with_and_def with_xor_def)

lemma records_only_with:
  "records_only A (with_not a k) \<longleftrightarrow> a \<in> A \<and> (\<forall>w. records_only (insert w A) (k w))"
  "records_only A (with_and a b k) \<longleftrightarrow> a \<in> A \<and> b \<in> A \<and> (\<forall>w. records_only (insert w A) (k w))"
  "records_only A (with_xor a b k) \<longleftrightarrow> a \<in> A \<and> b \<in> A \<and> (\<forall>w. records_only (insert w A) (k w))"
  by (simp_all add: with_not_def with_and_def with_xor_def)

text \<open>One gate on allocated wires: the recorder after it.\<close>

definition gate_after :: "recorder \<Rightarrow> wire \<Rightarrow> recorder \<Rightarrow> bool" where
  "gate_after r w r' \<longleftrightarrow> rec_inv r' \<and> w < next_id r' \<and> next_id r' = Suc (next_id r) \<and>
     (\<forall>x s. x < next_id r \<longrightarrow> chunk_eval (chunk_gates r') s x = chunk_eval (chunk_gates r) s x)"

lemma not_op_values:
  assumes inv: "rec_inv r" and a: "a < next_id r" and room: "next_id r < UINT32_MAX"
  obtains w r' where "rec_not_gate a r = Inr (w, r')" "gate_after r w r'"
      "\<And>s. chunk_eval (chunk_gates r') s w = (\<not> chunk_eval (chunk_gates r) s a)"
proof -
  obtain w r' where g: "record_gate a 0 Op_Not r = Inr (w, r')" using room by (auto simp: record_gate_def alloc_id_def)
  then have n: "rec_not_gate a r = Inr (w, r')" using a by (simp add: rec_not_gate_def require_allocated_def)
  have "gate_after r w r'"
    using rec_step_inv [OF inv rec_step.not_gate [OF n]] record_gate_eval(3) [OF g] g by (auto simp: gate_after_def record_gate_Inr)
  then show ?thesis using that [OF n] record_gate_eval(2) [OF g] by (simp add: gate_val_def)
qed

lemma xor_op_values:
  assumes inv: "rec_inv r" and ab: "a < next_id r" "b < next_id r" and room: "next_id r < UINT32_MAX"
  obtains w r' where "rec_xor_gate a b r = Inr (w, r')" "gate_after r w r'"
      "\<And>s. chunk_eval (chunk_gates r') s w = (chunk_eval (chunk_gates r) s a \<noteq> chunk_eval (chunk_gates r) s b)"
proof -
  obtain w r' where g: "record_gate a b Op_Xor r = Inr (w, r')" using room by (auto simp: record_gate_def alloc_id_def)
  then have n: "rec_xor_gate a b r = Inr (w, r')" using ab by (simp add: rec_xor_gate_def require_allocated_def)
  have "gate_after r w r'"
    using rec_step_inv [OF inv rec_step.xor_gate [OF n]] record_gate_eval(3) [OF g] g by (auto simp: gate_after_def record_gate_Inr)
  then show ?thesis using that [OF n] record_gate_eval(2) [OF g] by (simp add: gate_val_def)
qed

lemma and_op_values:
  assumes inv: "rec_inv r" and ab: "a < next_id r" "b < next_id r" and room: "next_id r < UINT32_MAX"
  obtains w r' where "rec_and_gate a b r = Inr (w, r')" "gate_after r w r'" "needs_and r' [w]"
      "\<And>s. chunk_eval (chunk_gates r') s w = (chunk_eval (chunk_gates r) s a \<and> chunk_eval (chunk_gates r) s b)"
proof -
  obtain w r' where g: "record_gate a b Op_And r = Inr (w, r')" using room by (auto simp: record_gate_def alloc_id_def)
  then have n: "rec_and_gate a b r = Inr (w, r')" using ab by (simp add: rec_and_gate_def require_allocated_def)
  have inv': "rec_inv r'" by (rule rec_step_inv [OF inv rec_step.and_gate [OF n]])
  let ?gs = "chunk_gates r'" and ?n = "length (chunk_gates r)"
  have gs: "?n < length ?gs" "g_out (?gs ! ?n) = w" "g_op (?gs ! ?n) = Op_And"
    using g by (simp_all add: record_gate_Inr)
  have "wire_to_gate ?gs w = Some ?n" using wire_to_gate_nth [OF wf_chunk_distinct [OF rec_inv_wf_chunk [OF inv']] gs(1)] gs(2) by simp
  then have "?n \<in> needed_gates ?gs [w]" by (simp add: needed_gates_iff reachable_gate.root)
  then have "needs_and r' [w]" using gs(3) unfolding needs_and_def by blast
  moreover have "gate_after r w r'"
    using inv' record_gate_eval(3) [OF g] g by (auto simp: gate_after_def record_gate_Inr)
  ultimately show ?thesis using that [OF n] record_gate_eval(2) [OF g] by (simp add: gate_val_def)
qed

lemma bit_layer_sel [simp]:
  "ul_width bit_layer = 1" "ul_cost bit_layer = 4" "ul_encode bit_layer x = [odd x]" "ul_decode bit_layer b = of_bool (hd b)"
  "ul_constant bit_layer x = Request (Req_Public (odd x)) (\<lambda>r. Return (wires_of r))"
  "ul_add bit_layer = bit_xor" "ul_sub bit_layer = bit_xor" "ul_mul bit_layer = bit_and"
  "ul_leq bit_layer = bit_leq" "ul_gt bit_layer = bit_gt"
  by (simp_all add: bit_layer_def)

text \<open>An operator on single wires, given by a function of two bits.\<close>

lemma bit_op_spec:
  assumes only: "\<And>x y. records_only {x, y} (opr [x] [y])"
    and run: "\<And>r x y. rec_inv r \<Longrightarrow> x < next_id r \<Longrightarrow> y < next_id r \<Longrightarrow> next_id r + 4 \<le> UINT32_MAX \<Longrightarrow>
      \<exists>z r'. gate_run (opr [x] [y]) r = Inr ([z], r') \<and> next_id r' \<le> next_id r + 4 \<and> needs_and r' [z] \<and>
        (\<forall>s. chunk_eval (chunk_gates r') s z = f (chunk_eval (chunk_gates r) s x) (chunk_eval (chunk_gates r) s y))"
    and f: "\<And>x y. x < 2 \<Longrightarrow> y < 2 \<Longrightarrow> g x y = [f (odd x) (odd y)]"
  shows "op_spec bit_layer g opr"
  unfolding op_spec_def
proof (intro allI impI conjI, goal_cases)
  case (1 a b)
  then obtain x y where "a = [x]" "b = [y]" by (auto simp: length_Suc_conv)
  then show ?case using only [of x y] by (simp add: insert_commute)
next
  case (2 a b r)
  then obtain x y where ab: "a = [x]" "b = [y]" by (auto simp: length_Suc_conv)
  then obtain z r' where "gate_run (opr [x] [y]) r = Inr ([z], r')" "next_id r' \<le> next_id r + 4" "needs_and r' [z]"
    "\<forall>s. chunk_eval (chunk_gates r') s z = f (chunk_eval (chunk_gates r) s x) (chunk_eval (chunk_gates r) s y)"
    using run [of r x y] 2 by auto
  then show ?case using ab f by (intro exI [of _ "[z]"] exI [of _ r']) auto
qed


lemma bit_and_run:
  assumes "rec_inv r" "x < next_id r" "y < next_id r" "next_id r + 4 \<le> UINT32_MAX"
  shows "\<exists>z r'. gate_run (bit_and [x] [y]) r = Inr ([z], r') \<and> next_id r' \<le> next_id r + 4 \<and> needs_and r' [z] \<and>
    (\<forall>s. chunk_eval (chunk_gates r') s z = (chunk_eval (chunk_gates r) s x \<and> chunk_eval (chunk_gates r) s y))"
proof -
  obtain z r1 where "rec_and_gate x y r = Inr (z, r1)" "gate_after r z r1" "needs_and r1 [z]"
    "\<And>s. chunk_eval (chunk_gates r1) s z = (chunk_eval (chunk_gates r) s x \<and> chunk_eval (chunk_gates r) s y)"
    using and_op_values [OF assms(1-3)] assms(4) by auto
  then show ?thesis by (intro exI [of _ z] exI [of _ r1]) (simp add: bit_and_def gate_run_with gate_after_def)
qed

lemma bit_gt_run:
  assumes "rec_inv r" "x < next_id r" "y < next_id r" "next_id r + 4 \<le> UINT32_MAX"
  shows "\<exists>z r'. gate_run (bit_gt [x] [y]) r = Inr ([z], r') \<and> next_id r' \<le> next_id r + 4 \<and> needs_and r' [z] \<and>
    (\<forall>s. chunk_eval (chunk_gates r') s z = (chunk_eval (chunk_gates r) s x \<and> \<not> chunk_eval (chunk_gates r) s y))"
proof -
  obtain n r1 where 1: "rec_not_gate y r = Inr (n, r1)" "gate_after r n r1"
    "\<And>s. chunk_eval (chunk_gates r1) s n = (\<not> chunk_eval (chunk_gates r) s y)"
    using not_op_values [OF assms(1,3)] assms(4) by auto
  have b: "rec_inv r1" "x < next_id r1" "n < next_id r1" "next_id r1 < UINT32_MAX"
    using 1(2) assms(2,4) by (auto simp: gate_after_def)
  obtain z r2 where 2: "rec_and_gate x n r1 = Inr (z, r2)" "gate_after r1 z r2" "needs_and r2 [z]"
    "\<And>s. chunk_eval (chunk_gates r2) s z = (chunk_eval (chunk_gates r1) s x \<and> chunk_eval (chunk_gates r1) s n)"
    using and_op_values [OF b] by blast
  show ?thesis
    using 1 2 assms(2) by (intro exI [of _ z] exI [of _ r2]) (simp add: bit_gt_def gate_run_with gate_after_def)
qed

lemma bit_leq_run:
  assumes "rec_inv r" "x < next_id r" "y < next_id r" "next_id r + 4 \<le> UINT32_MAX"
  shows "\<exists>z r'. gate_run (bit_leq [x] [y]) r = Inr ([z], r') \<and> next_id r' \<le> next_id r + 4 \<and> needs_and r' [z] \<and>
    (\<forall>s. chunk_eval (chunk_gates r') s z = (chunk_eval (chunk_gates r) s x \<longrightarrow> chunk_eval (chunk_gates r) s y))"
proof -
  obtain n r1 where 1: "rec_not_gate y r = Inr (n, r1)" "gate_after r n r1"
    "\<And>s. chunk_eval (chunk_gates r1) s n = (\<not> chunk_eval (chunk_gates r) s y)"
    using not_op_values [OF assms(1,3)] assms(4) by auto
  have b: "rec_inv r1" "x < next_id r1" "n < next_id r1" "next_id r1 < UINT32_MAX"
    using 1(2) assms(2,4) by (auto simp: gate_after_def)
  obtain g r2 where 2: "rec_and_gate x n r1 = Inr (g, r2)" "gate_after r1 g r2"
    "\<And>s. chunk_eval (chunk_gates r2) s g = (chunk_eval (chunk_gates r1) s x \<and> chunk_eval (chunk_gates r1) s n)"
    using and_op_values [OF b] by blast
  have b2: "rec_inv r2" "g < next_id r2" "next_id r2 < UINT32_MAX"
    using 1(2) 2(2) assms(4) by (auto simp: gate_after_def)
  obtain l r3 where 3: "rec_not_gate g r2 = Inr (l, r3)" "gate_after r2 l r3"
    "\<And>s. chunk_eval (chunk_gates r3) s l = (\<not> chunk_eval (chunk_gates r2) s g)"
    using not_op_values [OF b2] by blast
  have b3: "rec_inv r3" "l < next_id r3" "l < next_id r3" "next_id r3 < UINT32_MAX"
    using 1(2) 2(2) 3(2) assms(4) by (auto simp: gate_after_def)
  obtain z r4 where 4: "rec_and_gate l l r3 = Inr (z, r4)" "gate_after r3 z r4" "needs_and r4 [z]"
    "\<And>s. chunk_eval (chunk_gates r4) s z = (chunk_eval (chunk_gates r3) s l \<and> chunk_eval (chunk_gates r3) s l)"
    using and_op_values [OF b3] by blast
  show ?thesis
    using 1 2 3 4 assms(2) by (intro exI [of _ z] exI [of _ r4]) (simp add: bit_leq_def gate_run_with gate_after_def)
qed

lemma bit_xor_run:
  assumes "rec_inv r" "x < next_id r" "y < next_id r" "next_id r + 4 \<le> UINT32_MAX"
  shows "\<exists>z r'. gate_run (bit_xor [x] [y]) r = Inr ([z], r') \<and> next_id r' \<le> next_id r + 4 \<and> needs_and r' [z] \<and>
    (\<forall>s. chunk_eval (chunk_gates r') s z = (chunk_eval (chunk_gates r) s x \<noteq> chunk_eval (chunk_gates r) s y))"
proof -
  obtain t r1 where 1: "rec_xor_gate x y r = Inr (t, r1)" "gate_after r t r1"
    "\<And>s. chunk_eval (chunk_gates r1) s t = (chunk_eval (chunk_gates r) s x \<noteq> chunk_eval (chunk_gates r) s y)"
    using xor_op_values [OF assms(1-3)] assms(4) by auto
  have b: "rec_inv r1" "t < next_id r1" "t < next_id r1" "next_id r1 < UINT32_MAX"
    using 1(2) assms(4) by (auto simp: gate_after_def)
  obtain z r2 where 2: "rec_and_gate t t r1 = Inr (z, r2)" "gate_after r1 z r2" "needs_and r2 [z]"
    "\<And>s. chunk_eval (chunk_gates r2) s z = (chunk_eval (chunk_gates r1) s t \<and> chunk_eval (chunk_gates r1) s t)"
    using and_op_values [OF b] by blast
  show ?thesis
    using 1 2 by (intro exI [of _ z] exI [of _ r2]) (simp add: bit_xor_def gate_run_with gate_after_def)
qed

lemma bit_layer_ok: "uint_layer_ok bit_layer"
  unfolding uint_layer_ok_def
proof (intro conjI, goal_cases)
  case 3
  show ?case unfolding constant_spec_def
  proof (intro allI conjI impI, goal_cases)
    case (2 x r)
    then have "\<exists>w r'. rec_public_bit (odd x) r = Inr (w, r') \<and> next_id r' \<le> Suc (next_id r)"
      by (auto simp: rec_public_bit_def record_gate_def alloc_id_def set_const_wire_def)
    then show ?case using 2(1) public_bit_eval by (fastforce simp: bind_result_Inr)
  qed simp
next
  case 4
  show ?case unfolding bit_layer_sel by (rule bit_op_spec [where f = "(\<noteq>)", OF _ bit_xor_run])
      (auto simp: bit_xor_def records_only_with wrap_def less_2_cases_iff)
next
  case 5
  show ?case unfolding bit_layer_sel by (rule bit_op_spec [where f = "(\<noteq>)", OF _ bit_xor_run])
      (auto simp: bit_xor_def records_only_with wrap_def less_2_cases_iff)
next
  case 6
  show ?case unfolding bit_layer_sel by (rule bit_op_spec [where f = "(\<and>)", OF _ bit_and_run])
      (auto simp: bit_and_def records_only_with wrap_def less_2_cases_iff)
next
  case 7
  show ?case unfolding bit_layer_sel by (rule bit_op_spec [where f = "(\<longrightarrow>)", OF _ bit_leq_run])
      (auto simp: bit_leq_def records_only_with less_2_cases_iff)
next
  case 8
  show ?case unfolding bit_layer_sel by (rule bit_op_spec [where f = "\<lambda>x y. x \<and> \<not> y", OF _ bit_gt_run])
      (auto simp: bit_gt_def records_only_with less_2_cases_iff)
qed (auto simp: less_2_cases_iff)

end
