(* ===== verification/Client_Traces.thy ===== *)
theory Client_Traces
  imports Clients Session_Invariant
begin

text \<open>
  Clients and sequences of calls. A joint run of two clients makes a sequence of calls, and its end is
  the end of that sequence; conversely a fixed sequence is the run of two clients that ignore the
  answers. What holds after every sequence of calls therefore holds after every run of two clients.
\<close>

section \<open>The calls of a joint run\<close>

primrec joint_calls :: "(call \<Rightarrow> 's \<Rightarrow> ((answer \<times> answer) \<times> 's) result) \<Rightarrow> (nat \<Rightarrow> call_coins) \<Rightarrow>
    'a client \<Rightarrow> 'b client \<Rightarrow> nat \<Rightarrow> 's \<Rightarrow> call list" where
  "joint_calls step cn (Return x) q n s = []"
| "joint_calls step cn (Request r1 k1) q n s =
     (case q of Return y \<Rightarrow> []
      | Request r2 k2 \<Rightarrow> (case join_requests (cn n) r1 r2 of Inl err \<Rightarrow> []
        | Inr cl \<Rightarrow> cl # (case step cl s of Inl err \<Rightarrow> []
            | Inr x \<Rightarrow> joint_calls step cn (k1 (fst (fst x))) (k2 (snd (fst x))) (Suc n) (snd x))))"

lemma joint_run_trace:
  "case joint_run step cn p q n s of
     Inl err \<Rightarrow> snd (trace step (joint_calls step cn p q n s) s) = Inl err \<or> err = Desynchronised
   | Inr (x, m, s') \<Rightarrow> snd (trace step (joint_calls step cn p q n s) s) = Inr s' \<and>
       m = n + length (joint_calls step cn p q n s)"
proof (induction p arbitrary: q n s)
  case (Return x)
  show ?case by (cases q) simp_all
next
  case (Request r1 k1)
  show ?case
  proof (cases q)
    case q: (Request r2 k2)
    show ?thesis
    proof (cases "public_part r1 = public_part r2")
      case True
      define cl where "cl = call_of (cn n) (request_bits r2) r1"
      have j: "join_requests (cn n) r1 r2 = Inr cl" using True by (simp add: join_requests_def cl_def)
      show ?thesis
      proof (cases "step cl s")
        case (Inr x)
        obtain a b s' where x: "x = ((a, b), s')" by (metis surj_pair)
        let ?r = "joint_run step cn (k1 a) (k2 b) (Suc n) s'"
        show ?thesis
          using Request.IH [OF rangeI, of a "k2 b" "Suc n" s']
          by (cases ?r) (auto simp: q j Inr x case_prod_beta)
      qed (simp add: q j)
    qed (simp add: q join_requests_def)
  qed simp
qed

lemma requests_trace: "requests_ok step ok cn p q n s = trace_ok step ok (joint_calls step cn p q n s) s"
proof (induction p arbitrary: q n s)
  case (Request r1 k1)
  show ?case
  proof (cases q)
    case q: (Request r2 k2)
    show ?thesis
    proof (cases "join_requests (cn n) r1 r2")
      case j: (Inr cl)
      show ?thesis
        using Request.IH [OF rangeI] by (cases "step cl s") (auto simp: q j)
    qed (simp add: q)
  qed simp
qed simp

section \<open>Sequences of calls as clients\<close>

text \<open>What each party passes in a call of a sequence.\<close>

primrec request_of :: "bool \<Rightarrow> call \<Rightarrow> request" where
  "request_of p1 (Call_Public v) = Req_Public v"
| "request_of p1 (Call_And a b) = Req_And a b"
| "request_of p1 (Call_Xor a b) = Req_Xor a b"
| "request_of p1 (Call_Not a) = Req_Not a"
| "request_of p1 (Call_Input owner bits1 bits2 labels) = Req_Input owner (if p1 then bits1 else bits2)"
| "request_of p1 Call_Batch = Req_Batch"
| "request_of p1 (Call_Add owner bits1 bits2) = Req_Add owner (if p1 then bits1 else bits2)"
| "request_of p1 (Call_Finish labels) = Req_Finish"
| "request_of p1 (Call_Reveal v recipient keep rc) = Req_Reveal v recipient keep"
| "request_of p1 (Call_Checkpoint keep rc) = Req_Checkpoint keep"
| "request_of p1 (Call_Run prog args rc) = Req_Run prog args"
| "request_of p1 (Call_Artifact width prog args rc) = Req_Artifact width prog args"
| "request_of p1 (Call_Body f args rc) = Req_Body f args"

primrec coins_of :: "run_coins \<Rightarrow> call \<Rightarrow> call_coins" where
  "coins_of d (Call_Public v) = \<lparr>cn_labels = [], cn_run = d\<rparr>"
| "coins_of d (Call_And a b) = \<lparr>cn_labels = [], cn_run = d\<rparr>"
| "coins_of d (Call_Xor a b) = \<lparr>cn_labels = [], cn_run = d\<rparr>"
| "coins_of d (Call_Not a) = \<lparr>cn_labels = [], cn_run = d\<rparr>"
| "coins_of d (Call_Input owner bits1 bits2 labels) = \<lparr>cn_labels = labels, cn_run = d\<rparr>"
| "coins_of d Call_Batch = \<lparr>cn_labels = [], cn_run = d\<rparr>"
| "coins_of d (Call_Add owner bits1 bits2) = \<lparr>cn_labels = [], cn_run = d\<rparr>"
| "coins_of d (Call_Finish labels) = \<lparr>cn_labels = labels, cn_run = d\<rparr>"
| "coins_of d (Call_Reveal v recipient keep rc) = \<lparr>cn_labels = [], cn_run = rc\<rparr>"
| "coins_of d (Call_Checkpoint keep rc) = \<lparr>cn_labels = [], cn_run = rc\<rparr>"
| "coins_of d (Call_Run prog args rc) = \<lparr>cn_labels = [], cn_run = rc\<rparr>"
| "coins_of d (Call_Artifact width prog args rc) = \<lparr>cn_labels = [], cn_run = rc\<rparr>"
| "coins_of d (Call_Body f args rc) = \<lparr>cn_labels = [], cn_run = rc\<rparr>"

primrec script :: "bool \<Rightarrow> call list \<Rightarrow> answer list client" where
  "script p1 [] = Return []"
| "script p1 (c # cs) = Request (request_of p1 c) (\<lambda>a. and_then (script p1 cs) (\<lambda>as. Return (a # as)))"

lemma join_request_of: "join_requests (coins_of d c) (request_of True c) (request_of False c) = Inr c"
  by (cases c) (simp_all add: join_requests_def)

lemma joint_run_map:
  "joint_run step cn (and_then p (\<lambda>x. Return (f x))) (and_then q (\<lambda>y. Return (g y))) n s =
     bind_result (joint_run step cn p q n s) (\<lambda>((x, y), m, s'). Inr ((f x, g y), m, s'))"
proof (induction p arbitrary: q n s)
  case (Return x)
  show ?case by (cases q) simp_all
next
  case (Request r1 k1)
  show ?case
  proof (cases q)
    case q: (Request r2 k2)
    show ?thesis
    proof (cases "join_requests (cn n) r1 r2")
      case j: (Inr cl)
      show ?thesis using Request.IH [OF rangeI] by (cases "step cl s") (auto simp: q j)
    qed (simp add: q)
  qed simp
qed

lemma script_run:
  assumes "\<forall>i < length cs. cn (n + i) = coins_of d (cs ! i)"
  shows "joint_run step cn (script True cs) (script False cs) n s =
    bind_result (snd (trace step cs s)) (\<lambda>s'.
      Inr ((map fst (fst (trace step cs s)), map snd (fst (trace step cs s))), n + length cs, s'))"
  using assms
proof (induction cs arbitrary: n s)
  case (Cons c cs)
  have cn: "cn n = coins_of d c" "\<forall>i < length cs. cn (Suc n + i) = coins_of d (cs ! i)"
    using Cons.prems by (force, auto simp: nth_Cons' dest: spec [of _ "Suc _"])
  show ?case
  proof (cases "step c s")
    case (Inl err)
    then show ?thesis by (simp add: cn(1) join_request_of)
  next
    case (Inr x)
    obtain a b s' where x: "x = ((a, b), s')" by (metis surj_pair)
    show ?thesis
      by (cases "snd (trace step cs s')")
        (simp_all add: cn(1) join_request_of Inr x joint_run_map Cons.IH [OF cn(2)] case_prod_beta)
  qed
qed simp

section \<open>Every run of two clients\<close>

text \<open>
  Whatever two honest parties' clients do, within the contract of the calls: a run that ends with an
  error ends with a mistake of the clients, and one that returns leaves both sessions in order.
\<close>

lemma clients_safe:
  fixes T :: "('m, 'd) tools"
  assumes T: "tools_ok T" and pools: "pools_ok f g"
    and ok: "requests_ok (clear_call (tl_validate T)) (call_guard (tl_validate T)) cn p q 0 init_clear_world"
  shows "case joint_run (session_call T) cn p q 0 (init_world f g) of
      Inl err \<Rightarrow> err \<in> set caller_errors \<or> err = Desynchronised
    | Inr (x, m, w) \<Rightarrow> disciplined w"
proof -
  let ?run = "joint_run (clear_call (tl_validate T)) cn p q 0 init_clear_world"
  note tr = joint_run_trace [of "clear_call (tl_validate T)" cn p q 0 init_clear_world]
  note sim = client_run_sim [OF T init_world_rel [OF pools] ok]
  show ?thesis
  proof (cases ?run)
    case (Inl err)
    then have "err \<in> set caller_errors \<or> err = Desynchronised"
      using tr trace_error [where step = "clear_call (tl_validate T)" and E = "set caller_errors"] clear_call_error by auto
    then show ?thesis using sim by (simp add: Inl)
  next
    case (Inr y)
    obtain x m c where y: "y = (x, m, c)" by (metis surj_pair)
    have "ids_inv c" using tr by (auto simp: Inr y intro: init_trace_inv)
    then show ?thesis using sim by (auto simp: Inr y intro: world_disciplined)
  qed
qed

end
