(* ===== verification/Examples.thy ===== *)
theory Examples
  imports Value_Layer Client_Traces
begin

text \<open>
  The programs of \<^verbatim>\<open>src/example\<close> and of \<^verbatim>\<open>src/test\<close> as clients, and that
  they end with exit code 0 at both parties: every value they open is the one they expect. The
  constants of a source file are arguments.
\<close>

section \<open>Shared helpers\<close>

definition is_alice :: "nat \<Rightarrow> bool" where
  "is_alice party \<longleftrightarrow> party = ALICE"

definition bits_from_u64 :: "nat \<Rightarrow> 64 word \<Rightarrow> bool list" where
  "bits_from_u64 N v = map (\<lambda>i. drop_bit i v AND 1 \<noteq> 0) [0..<N]"

definition u64_from_bits :: "bool list \<Rightarrow> 64 word" where
  "u64_from_bits bits =
     fold (\<lambda>i v. if bits ! i then v OR push_bit i 1 else v) [0..<length bits] 0"

text \<open>\<^verbatim>\<open>ClearCtx\<close> evaluates a program on plain bits.\<close>

definition clear_eval :: "program \<Rightarrow> byte list \<Rightarrow> byte list" where
  "clear_eval program input = map bbyte (prog_clear program (map nz input))"

lemma bits_from_u64_nth: "i < N \<Longrightarrow> bits_from_u64 N v ! i = bit v i"
proof -
  assume "i < N"
  have "(drop_bit i v AND 1 \<noteq> 0) = odd (drop_bit i v)" by (simp add: and_one_eq odd_iff_mod_2_eq_one)
  then show ?thesis using \<open>i < N\<close> by (simp add: bits_from_u64_def bit_iff_odd_drop_bit)
qed

lemma u64_from_bits_bit:
  assumes "length bits \<le> 64"
  shows "bit (u64_from_bits bits) j \<longleftrightarrow> j < length bits \<and> bits ! j"
proof -
  have "bit (fold (\<lambda>i v. if bits ! i then v OR push_bit i 1 else v) [0..<k] (0 :: 64 word)) j \<longleftrightarrow> j < k \<and> bits ! j"
    if "k \<le> length bits" for k
    using that
  proof (induction k)
    case (Suc k)
    have "bit (push_bit k (1 :: 64 word)) j \<longleftrightarrow> j = k"
      using Suc.prems assms by (auto simp: bit_exp_iff possible_bit_def)
    then show ?case using Suc by (auto simp: bit_or_iff less_Suc_eq)
  qed simp
  then show ?thesis by (simp add: u64_from_bits_def)
qed

lemma u64_roundtrip:
  assumes "N \<le> 64" and "\<forall>i. N \<le> i \<longrightarrow> \<not> bit v i"
  shows "u64_from_bits (bits_from_u64 N v) = v"
proof (rule bit_word_eqI)
  fix i assume "i < LENGTH(64)"
  have "length (bits_from_u64 N v) = N" by (simp add: bits_from_u64_def)
  then show "bit (u64_from_bits (bits_from_u64 N v)) i = bit v i"
    using u64_from_bits_bit [of "bits_from_u64 N v" i] assms bits_from_u64_nth [of i N v]
    by (cases "i < N") simp_all
qed

text \<open>What \<^verbatim>\<open>main\<close> returns: only party 1 checks what was opened.\<close>

definition exit_code :: "nat \<Rightarrow> bool \<Rightarrow> nat" where
  "exit_code party ok = (if is_alice party then (if ok then 0 else 1) else 0)"

definition value_or :: "'a \<Rightarrow> 'a option \<Rightarrow> 'a" where
  "value_or d x = (case x of None \<Rightarrow> d | Some y \<Rightarrow> y)"

lemma value_or_simps [simp]: "value_or d None = d" "value_or d (Some y) = y"
  by (simp_all add: value_or_def)

section \<open>Checkpointed accumulation\<close>

text \<open>
  \<^verbatim>\<open>5_chunking.cpp\<close>: each round adds the square of an input of party 2 to the state, and
  a checkpoint keeps only the state.
\<close>

definition chunking_round :: "uint_layer \<Rightarrow> nat \<Rightarrow> nat \<Rightarrow> wire list \<Rightarrow> wire list client" where
  "chunking_round L party rnd state =
     and_then (uint_input L party BOB rnd) (\<lambda>x.
     and_then (ul_mul L x x) (\<lambda>xx.
     and_then (ul_add L state xx) (\<lambda>state.
     and_then (call_checkpoint [state]) (\<lambda>_. Return state))))"

definition chunking_expected :: "uint_layer \<Rightarrow> nat \<Rightarrow> nat list \<Rightarrow> nat" where
  "chunking_expected L seed rounds = fold (\<lambda>rnd e. wrap L (e + wrap L (rnd * rnd))) rounds seed"

definition chunking :: "uint_layer \<Rightarrow> nat \<Rightarrow> nat list \<Rightarrow> nat \<Rightarrow> (nat \<times> nat) client" where
  "chunking L seed rounds party =
     and_then (uint_input L party ALICE seed) (\<lambda>state.
     and_then (for_each (chunking_round L party) rounds state) (\<lambda>state.
     and_then (uint_reveal L state PUBLIC []) (\<lambda>x.
       let opened = value_or 0 x
       in Return (opened, exit_code party (opened = chunking_expected L seed rounds)))))"

text \<open>The wire ids one round uses up.\<close>

definition round_cost :: "uint_layer \<Rightarrow> nat" where
  "round_cost L = ul_width L + 2 * ul_cost L"

lemma chunking_round_gives:
  assumes L: "uint_layer_ok L" and w: "tidy w" and room: "ids_used w + round_cost L \<le> UINT32_MAX"
    and st: "banks L w st e" and r: "r < 2 ^ ul_width L"
  shows "clear_gives validate cn (chunking_round L ALICE r st) (chunking_round L BOB r st) n w
    (\<lambda>v v' w'. v' = v \<and> tidy w' \<and> banks L w' v (wrap L (e + wrap L (r * r))) \<and> dom (cl_vals (cw_s w')) = set v \<and>
       ids_used w' \<le> ids_used w + round_cost L)"
  unfolding chunking_round_def
proof (rule gives_seq [OF uint_input_gives [OF L w _ _ r]], goal_cases)
  case (3 x x' w1 m)
  then have w1: "tidy w1" "keeps w w1" "stores w1 x (ul_encode L r)" "x' = x" "ids_used w1 = ids_used w + ul_width L"
    using uint_layer_okD(2) [OF L r] by (simp_all add: put_post_def)
  have x: "carries L w1 x r" using stores_holds [OF w1(1,3)] r by blast
  have st1: "carries L w1 st e" using stores_holds [OF w1(1) stores_keeps [OF w1(2)]] st by blast
  show ?case unfolding w1(4)
  proof (rule gives_seq [OF op_gives [OF uint_layer_okD(7) [OF L] L w1(1) _ x x]], goal_cases)
    case (2 xx xx' w2 m)
    then have w2: "tidy w2" "keeps w1 w2" "carries L w2 xx (wrap L (r * r))" "xx' = xx" "ids_used w2 \<le> ids_used w1 + ul_cost L"
      by (simp_all add: op_post_def)
    have st2: "carries L w2 st e" using holds_keeps [OF w2(2)] st1 by blast
    show ?case unfolding w2(4)
    proof (rule gives_seq [OF op_gives [OF uint_layer_okD(5) [OF L] L w2(1) _ st2 w2(3)]], goal_cases)
      case (2 v v' w3 m)
      then have w3: "tidy w3" "holds w3 v (ul_encode L (wrap L (e + wrap L (r * r))))"
        "needs_and (cl_ctx (cw_s w3)) v" "v' = v" "ids_used w3 \<le> ids_used w2 + ul_cost L" by (simp_all add: op_post_def)
      have kp: "\<forall>z \<in> set (concat [v]). live (cw_s w3) z" using w3(2) by (simp add: holds_def)
      have g: "flush_guard (concat [v]) (cw_s w3)" by (rule guard_and [OF w3(1,3)]) simp
      show ?case unfolding w3(4)
      proof (rule gives_seq [OF checkpoint_gives [OF w3(1) kp g]], goal_cases)
        case (1 u u' w4 m)
        then have "stores w4 v (ul_encode L (wrap L (e + wrap L (r * r))))"
          using flushed_stores [of "concat [v]" w3 w4 v] w3(2) by simp
        moreover have "ids_used w4 \<le> ids_used w + round_cost L"
          using 1 w1(5) w2(5) w3(5) by (simp add: flushed_def round_cost_def)
        ultimately show ?case using 1 by (auto intro!: gives_Return simp: flushed_def)
      qed
    qed (use room w1(5) w2(5) in \<open>simp add: round_cost_def\<close>)
  qed (use room w1(5) in \<open>simp add: round_cost_def\<close>)
qed (use room in \<open>simp_all add: round_cost_def\<close>)

text \<open>After the rounds \<open>pre\<close>: both parties hold the state, and after a checkpoint nothing else.\<close>

definition chunking_inv :: "uint_layer \<Rightarrow> nat \<Rightarrow> nat list \<Rightarrow> wire list \<Rightarrow> wire list \<Rightarrow> clear_world \<Rightarrow> bool" where
  "chunking_inv L seed pre v v' w \<longleftrightarrow> v' = v \<and> tidy w \<and> banks L w v (chunking_expected L seed pre) \<and>
     (pre \<noteq> [] \<longrightarrow> dom (cl_vals (cw_s w)) = set v) \<and> ids_used w \<le> ul_width L + length pre * round_cost L"

lemma chunking_inv_step:
  assumes L: "uint_layer_ok L" and I: "chunking_inv L seed pre v v' w" and r: "r < 2 ^ ul_width L"
    and room: "ul_width L + Suc (length pre) * round_cost L \<le> UINT32_MAX"
  shows "clear_gives validate cn (chunking_round L ALICE r v) (chunking_round L BOB r v') n w (chunking_inv L seed (pre @ [r]))"
proof -
  have w: "tidy w" "banks L w v (chunking_expected L seed pre)" "v' = v" "ids_used w \<le> ul_width L + length pre * round_cost L"
    using I by (simp_all add: chunking_inv_def)
  have "ids_used w + round_cost L \<le> UINT32_MAX" using w(4) room by simp
  from chunking_round_gives [OF L w(1) this w(2) r] show ?thesis
    unfolding w(3) by (rule gives_mono) (use w(4) in \<open>simp add: chunking_inv_def chunking_expected_def\<close>)
qed

text \<open>The opening after the rounds.\<close>

lemma chunking_end:
  assumes L: "uint_layer_ok L" and I: "chunking_inv L seed rounds v v' w" and ne: "rounds \<noteq> []"
  defines "out \<equiv> chunking_expected L seed rounds"
  shows "clear_gives validate cn
    (and_then (uint_reveal L v PUBLIC []) (\<lambda>x. let opened = value_or 0 x in Return (opened, exit_code ALICE (opened = out))))
    (and_then (uint_reveal L v' PUBLIC []) (\<lambda>x. let opened = value_or 0 x in Return (opened, exit_code BOB (opened = out)))) n w
    (\<lambda>a b w. a = (out, 0) \<and> b = (out, 0) \<and> (\<exists>ids. length ids = ul_width L \<and> dom (cl_vals (cw_s w)) = set ids))"
proof -
  have w: "tidy w" "banks L w v out" "v' = v" "dom (cl_vals (cw_s w)) = set v" using I ne by (simp_all add: chunking_inv_def out_def)
  have v: "carries L w v out" by (rule banks_carries [OF w(1,2)])
  have g: "flush_guard (v @ concat []) (cw_s w)" using guard_stored [OF w(1) conjunct1 [OF w(2)]] by simp
  have len: "length v = ul_width L" using v holds_length uint_layer_okD(2) [OF L] by metis
  show ?thesis unfolding w(3)
  proof (rule gives_seq [OF uint_reveal_gives [OF L w(1) v _ g]], goal_cases)
    case (3 a b w' m)
    have "dom (cl_vals (cw_s w')) = set v" using 3 w(4) by (auto simp: flushed_def)
    then show ?case using 3 len by (auto intro!: gives_Return simp: party_defs exit_code_def is_alice_def Let_def)
  qed simp_all
qed

lemma chunking_gives:
  assumes L: "uint_layer_ok L" and seed: "seed < 2 ^ ul_width L" and rounds: "\<forall>r \<in> set rounds. r < 2 ^ ul_width L" "rounds \<noteq> []"
    and room: "ul_width L + length rounds * round_cost L \<le> UINT32_MAX"
  defines "out \<equiv> chunking_expected L seed rounds"
  shows "clear_gives validate cn (chunking L seed rounds ALICE) (chunking L seed rounds BOB) 0 init_clear_world
    (\<lambda>a b w. a = (out, 0) \<and> b = (out, 0) \<and> (\<exists>ids. length ids = ul_width L \<and> dom (cl_vals (cw_s w)) = set ids))"
  unfolding chunking_def
proof (rule gives_seq [OF uint_input_gives [OF L init_tidy _ disjI1 [OF refl] seed]], goal_cases)
  case (2 x x' w1 m)
  have I: "chunking_inv L seed [] x x' w1"
    using put_postD [OF 2] seed uint_layer_okD(2) [OF L seed] by (simp add: chunking_inv_def chunking_expected_def init_used)
  show ?case
  proof (rule gives_seq [OF gives_for_each [where Inv = "chunking_inv L seed", OF I]], goal_cases)
    case (1 pre r rest v v' w m)
    have "Suc (length pre) * round_cost L \<le> length rounds * round_cost L"
      using mult_le_mono1 [of "Suc (length pre)" "length rounds" "round_cost L"] 1(1) by simp
    then have "ul_width L + Suc (length pre) * round_cost L \<le> UINT32_MAX" using room by linarith
    moreover have "r < 2 ^ ul_width L" using 1(1) rounds(1) by simp
    ultimately show ?case using chunking_inv_step [OF L 1(2)] by blast
  next
    case (2 v v' w m)
    show ?case unfolding out_def by (rule chunking_end [OF L 2 rounds(2)])
  qed
qed (use room in \<open>simp add: init_used\<close>)




section \<open>Bit strings\<close>

text \<open>
  \<^verbatim>\<open>4_bit_strings.cpp\<close>: concatenating and slicing values of \<^verbatim>\<open>BitVec_T\<close>
  rearranges their wires; no gate is recorded.
\<close>

text \<open>Each party passes an array of its own bits, or one of zeros.\<close>

definition own_array :: "nat \<Rightarrow> nat \<Rightarrow> bool list \<Rightarrow> byte list" where
  "own_array party owner bits = map bbyte (if party = owner then bits else replicate (length bits) False)"

definition bit_strings :: "64 word \<Rightarrow> 64 word \<Rightarrow> nat \<Rightarrow> nat client" where
  "bit_strings alice_tag bob_nonce party =
     and_then (call_input ALICE (own_array party ALICE (bits_from_u64 16 alice_tag))) (\<lambda>tag.
     and_then (call_input BOB (own_array party BOB (bits_from_u64 16 bob_nonce))) (\<lambda>nonce.
     let packet = tag @ nonce;
         recovered_tag = range_of 0 16 packet;
         recovered_nonce = range_of 16 32 packet
     in and_then (call_reveal recovered_tag PUBLIC [recovered_nonce]) (\<lambda>x.
        let tag_out = u64_from_bits (value_or (replicate 16 False) x)
        in and_then (call_reveal recovered_nonce PUBLIC []) (\<lambda>y.
           let nonce_out = u64_from_bits (value_or (replicate 16 False) y)
           in Return (exit_code party (tag_out = alice_tag \<and> nonce_out = bob_nonce))))))"

lemma length_bits_from_u64 [simp]: "length (bits_from_u64 N v) = N"
  by (simp add: bits_from_u64_def)

lemma own_array_guard:
  assumes "owner = ALICE \<or> owner = BOB"
  shows "input_guard owner (own_array ALICE owner bits) (own_array BOB owner bits)"
    and "owner_bits owner (own_array ALICE owner bits) (own_array BOB owner bits) = bits"
proof -
  show "input_guard owner (own_array ALICE owner bits) (own_array BOB owner bits)"
    using assms by (auto simp: input_guard_def own_array_def party_defs bbyte_def)
  have "map nz (map bbyte bits) = bits" by (simp add: comp_def)
  then show "owner_bits owner (own_array ALICE owner bits) (own_array BOB owner bits) = bits"
    using assms by (auto simp: owner_bits_def own_array_def party_defs)
qed

lemma own_input_gives:
  assumes "owner = ALICE \<or> owner = BOB" and "tidy w" and "ids_used w + length bits \<le> UINT32_MAX"
  shows "clear_gives validate cn (call_input owner (own_array ALICE owner bits)) (call_input owner (own_array BOB owner bits)) n w
    (put_post w bits)"
proof -
  have "length (own_array ALICE owner bits) = length bits" by (simp add: own_array_def)
  then show ?thesis
    using input_gives [OF assms(2) _ _ own_array_guard(1) [OF assms(1)], of bits validate cn n] assms
    unfolding own_array_guard(2) [OF assms(1)] by simp
qed

lemma bit_strings_exit:
  fixes T :: "('m, 'd) tools"
  assumes "tools_ok T" and "pools_ok f g" and "\<forall>i\<ge>16. \<not> bit tag i" and "\<forall>i\<ge>16. \<not> bit nonce i"
  shows "\<exists>n w. joint_run (session_call T) cn (bit_strings tag nonce ALICE) (bit_strings tag nonce BOB) 0 (init_world f g) =
    Inr ((0, 0), n, w)"
proof -
  let ?t = "bits_from_u64 16 tag" and ?o = "bits_from_u64 16 nonce"
  have "clear_gives (tl_validate T) cn (bit_strings tag nonce ALICE) (bit_strings tag nonce BOB) 0 init_clear_world
      (\<lambda>a b w. a = 0 \<and> b = 0 \<and> True)"
    unfolding bit_strings_def
  proof (rule gives_seq [OF own_input_gives [OF disjI1 [OF refl] init_tidy]], goal_cases)
    case 1
    show ?case by (simp add: init_used UINT32_MAX_def)
  next
    case (2 v v' w1 m)
    then have w1: "tidy w1" "stores w1 v ?t" "v' = v" "ids_used w1 = 16" by (simp_all add: put_post_def init_used)
    have room: "ids_used w1 + 16 \<le> UINT32_MAX" by (simp add: w1(4) UINT32_MAX_def)
    show ?case unfolding w1(3)
    proof (rule gives_seq [OF own_input_gives [OF disjI2 [OF refl] w1(1)]], goal_cases)
      case 1
      show ?case using room by simp
    next
      case (2 u u' w2 m)
      then have w2: "tidy w2" "stores w2 u ?o" "stores w2 v ?t" "u' = u" 
        using stores_keeps [OF _ w1(2)] by (simp_all add: put_post_def)
      have len: "length v = 16" "length u = 16"
        using holds_length [OF stores_holds [OF w2(1,3)]] holds_length [OF stores_holds [OF w2(1,2)]] by simp_all
      then have sl: "range_of 0 16 (v @ u) = v" "range_of 16 32 (v @ u) = u" by (simp_all add: range_of_def)
      have k: "stores w2 (concat [u]) ?o" "stores w3 (concat []) []" for w3 using w2(2) by (simp_all add: stores_def)
      have ne: "?t \<noteq> []" "?o \<noteq> []" by (simp_all add: bits_from_u64_def)
      show ?case unfolding w2(4) Let_def sl
      proof (rule gives_seq [OF reveal_stored_gives [OF w2(1,3) k(1) ne(1) disjI1 [OF refl]]], goal_cases)
        case (1 x y w3 m)
        then have w3: "tidy w3" "stores w3 u ?o" "x = Some ?t" "y = Some ?t"
          using w2(2) by (simp_all add: open_post_def party_defs)
        show ?case
          by (rule gives_seq [OF reveal_stored_gives [OF w3(1,2) k(2) ne(2) disjI1 [OF refl]]])
            (auto intro!: gives_Return simp: open_post_def party_defs exit_code_def w3(3,4) u64_roundtrip assms(3,4))
      qed
    qed
  qed
  then obtain n w c where "joint_run (session_call T) cn (bit_strings tag nonce ALICE) (bit_strings tag nonce BOB) 0 (init_world f g) =
      Inr ((0, 0), n, w)" by (rule sessions_give [OF assms(1,2)])
  then show ?thesis by blast
qed


section \<open>Stored programs\<close>

text \<open>
  \<^verbatim>\<open>6_raw_program.cpp\<close>: the halves of the message in one input batch, a stored program
  on them, opened to party 1 only and compared there with the program on plain bits. The program and
  the two arrays are arguments.
\<close>

definition raw_program :: "program \<Rightarrow> bool list \<Rightarrow> bool list \<Rightarrow> nat \<Rightarrow> (bool list option \<times> nat) client" where
  "raw_program sha alice_half bob_half party =
     and_then call_batch (\<lambda>_.
     and_then (call_add ALICE (own_array party ALICE alice_half)) (\<lambda>low.
     and_then (call_add BOB (own_array party BOB bob_half)) (\<lambda>high.
     and_then call_finish (\<lambda>_.
     let message = low @ high
     in and_then (call_artifact (length (p_outputs sha)) sha [message]) (\<lambda>digest.
        and_then (call_reveal digest ALICE []) (\<lambda>opened.
        let clear_input = map bbyte alice_half @ map bbyte bob_half;
            oracle = clear_eval sha clear_input
        in Return (opened, exit_code party (opened = Some (map nz oracle)))))))))"

text \<open>A program a session accepts and whose outputs get right masks; the width is its own.\<close>

definition runnable :: "('m, 'd) tools \<Rightarrow> program \<Rightarrow> bool" where
  "runnable T prog \<longleftrightarrow> program_error (tl_validate T) prog (p_num_inputs prog) = None \<and> prog_masked prog"

lemma clear_eval_bits: "map nz (clear_eval p (map bbyte bits)) = prog_clear p bits"
  by (simp add: clear_eval_def comp_def)

lemma runnable_artifact:
  assumes r: "runnable T prog" and w: "tidy w" and room: "ids_used w + length (p_outputs prog) \<le> UINT32_MAX"
    and st: "stores w (concat args) bits" and len: "length bits = p_num_inputs prog"
  shows "clear_gives (tl_validate T) cn (call_artifact (length (p_outputs prog)) prog args) (call_artifact (length (p_outputs prog)) prog args) n w
      (put_post w (prog_clear prog bits))"
    and "clear_gives (tl_validate T) cn (call_run prog args) (call_run prog args) n w (put_post w (prog_clear prog bits))"
  using artifact_gives [OF w room st] run_gives [OF w room st] r len
  by (simp_all add: runnable_def program_guard_def)

text \<open>Two inputs of the parties in one batch.\<close>

lemma batch_pair_gives:
  assumes w: "tidy w" and room: "ids_used w + (length a1 + length b1) \<le> UINT32_MAX"
    and a: "input_guard ALICE a1 a2" and b: "input_guard BOB b1 b2"
    and k: "\<And>low high w' m. tidy w' \<Longrightarrow> stores w' low (owner_bits ALICE a1 a2) \<Longrightarrow> stores w' high (owner_bits BOB b1 b2) \<Longrightarrow>
      ids_used w' = ids_used w + (length a1 + length b1) \<Longrightarrow>
      clear_gives validate cn (k1 low high) (k2 low high) m w' Q"
  shows "clear_gives validate cn
    (and_then call_batch (\<lambda>_. and_then (call_add ALICE a1) (\<lambda>low.
       and_then (call_add BOB b1) (\<lambda>high. and_then call_finish (\<lambda>_. k1 low high)))))
    (and_then call_batch (\<lambda>_. and_then (call_add ALICE a2) (\<lambda>low.
       and_then (call_add BOB b2) (\<lambda>high. and_then call_finish (\<lambda>_. k2 low high))))) n w Q"
proof (rule gives_seq [OF batch_gives [OF w]], goal_cases)
  case (1 u u' w1 m)
  then have w1: "tidy w1" "open_batch w1 []" "ids_used w1 = ids_used w" by blast+
  show ?case
  proof (rule gives_seq [OF add_gives [OF w1(1) _ w1(2) a]], goal_cases)
    case 1
    show ?case using room w1(3) by simp
  next
    case (2 low low' w2 m)
    then have w2: "tidy w2" "open_batch w2 [(ALICE, owner_bits ALICE a1 a2, low)]" "low' = low"
      "ids_used w2 = ids_used w + length a1" using w1(3) by simp_all
    show ?case unfolding w2(3)
    proof (rule gives_seq [OF add_gives [OF w2(1) _ w2(2) b]], goal_cases)
      case 1
      show ?case using room w2(4) by simp
    next
      case (2 high high' w3 m)
      then have w3: "tidy w3" "open_batch w3 [(ALICE, owner_bits ALICE a1 a2, low), (BOB, owner_bits BOB b1 b2, high)]"
        "high' = high" "ids_used w3 = ids_used w + (length a1 + length b1)" using w2(4) by simp_all
      show ?case unfolding w3(3)
        by (rule gives_seq [OF finish_gives [OF w3(1,2)]]) (use k w3(4) in simp_all)
    qed
  qed
qed

lemma length_own_array [simp]: "length (own_array party owner bits) = length bits"
  by (simp add: own_array_def)

lemmas own_guards = own_array_guard(1) [OF disjI1 [OF refl]] own_array_guard(1) [OF disjI2 [OF refl]]
lemmas own_bits = own_array_guard(2) [OF disjI1 [OF refl]] own_array_guard(2) [OF disjI2 [OF refl]]

text \<open>
  For any stored program a session accepts, and any halves of the message, the example ends with
  exit code 0: party 1 opens exactly what the program computes on the plain bits, party 2 gets no
  value.
\<close>

lemma raw_program_matches_oracle:
  fixes T :: "('m, 'd) tools"
  assumes "tools_ok T" and "pools_ok f g" and "runnable T sha" and "length a + length b = p_num_inputs sha"
    and "p_outputs sha \<noteq> []" and "p_num_inputs sha + length (p_outputs sha) \<le> UINT32_MAX"
  shows "\<exists>n w. joint_run (session_call T) cn (raw_program sha a b ALICE) (raw_program sha a b BOB) 0 (init_world f g) =
    Inr (((Some (prog_clear sha (a @ b)), 0), (None, 0)), n, w)"
proof -
  have "clear_gives (tl_validate T) cn (raw_program sha a b ALICE) (raw_program sha a b BOB) 0 init_clear_world
      (\<lambda>x y w. x = (Some (prog_clear sha (a @ b)), 0) \<and> y = (None, 0) \<and> True)"
    unfolding raw_program_def
  proof (rule batch_pair_gives [OF init_tidy _ own_guards], goal_cases)
    case (2 low high w1 m)
    have st: "stores w1 (concat [low @ high]) (a @ b)" using stores_append [OF 2(2,3)] by (simp add: own_bits)
    have room: "ids_used w1 + length (p_outputs sha) \<le> UINT32_MAX" using 2(4) assms(4,6) by (simp add: init_used)
    have len: "length (a @ b) = p_num_inputs sha" using assms(4) by simp
    show ?case unfolding Let_def
    proof (rule gives_seq [OF runnable_artifact(1) [OF assms(3) 2(1) room st len]], goal_cases)
      case (1 d d' w2 m)
      then have w2: "tidy w2" "stores w2 d (prog_clear sha (a @ b))" "d' = d" by (simp_all add: put_post_def)
      have k: "stores w2 (concat []) []" by (simp add: stores_def)
      have ne: "prog_clear sha (a @ b) \<noteq> []" using assms(5) by (simp add: prog_clear_def clear_outputs_def)
      show ?case unfolding w2(3)
        by (rule gives_seq [OF reveal_stored_gives [OF w2(1,2) k ne disjI2 [OF disjI1 [OF refl]]]])
          (auto intro!: gives_Return simp: open_post_def party_defs exit_code_def is_alice_def clear_eval_bits [of sha "a @ b", simplified])
    qed
  qed (use assms(4,6) in \<open>simp add: init_used\<close>)
  then obtain n w c where "joint_run (session_call T) cn (raw_program sha a b ALICE) (raw_program sha a b BOB) 0 (init_world f g) =
      Inr (((Some (prog_clear sha (a @ b)), 0), (None, 0)), n, w)" by (rule sessions_give [OF assms(1,2)])
  then show ?thesis by blast
qed

section \<open>Opening and continuing\<close>

text \<open>
  \<^verbatim>\<open>2_reveal_and_continue.cpp\<close>: the program branches on an opened comparison, takes more
  inputs and goes on with values from before the opening.
\<close>

definition reveal_and_continue :: "uint_layer \<Rightarrow> nat \<Rightarrow> nat \<Rightarrow> nat \<Rightarrow> nat \<Rightarrow> nat \<Rightarrow> nat client" where
  "reveal_and_continue L alice_budget bob_price alice_tax bob_shipping party =
     and_then (uint_input L party ALICE alice_budget) (\<lambda>budget.
     and_then (uint_input L party BOB bob_price) (\<lambda>price.
     and_then (ul_leq L price budget) (\<lambda>le.
     and_then (call_reveal le PUBLIC []) (\<lambda>x.
     let affordable = value_or [False] x ! 0
     in if \<not> affordable then Return (if is_alice party then 1 else 0)
        else and_then (uint_input L party ALICE alice_tax) (\<lambda>tax.
          and_then (uint_input L party BOB bob_shipping) (\<lambda>shipping.
          and_then (ul_add L price tax) (\<lambda>t.
          and_then (ul_add L t shipping) (\<lambda>final_total.
          and_then (uint_reveal L final_total PUBLIC []) (\<lambda>y.
          let expected = wrap L (bob_price + alice_tax + bob_shipping)
          in Return (exit_code party (value_or 0 y = expected)))))))))))"

text \<open>A price and two surcharges.\<close>

lemma total_gives:
  assumes L: "uint_layer_ok L" and w: "tidy w" and room: "ids_used w + 2 * ul_width L + 2 * ul_cost L \<le> UINT32_MAX"
    and p: "banks L w price p" and t: "t < 2 ^ ul_width L" and s: "s < 2 ^ ul_width L"
    and k: "\<And>w' m. clear_gives validate cn (k1 (Some (wrap L (p + t + s)))) (k2 (Some (wrap L (p + t + s)))) m w' Q"
  shows "clear_gives validate cn
    (and_then (uint_input L ALICE ALICE t) (\<lambda>tax. and_then (uint_input L ALICE BOB s) (\<lambda>sh. and_then (ul_add L price tax) (\<lambda>u.
       and_then (ul_add L u sh) (\<lambda>v. and_then (uint_reveal L v PUBLIC []) k1)))))
    (and_then (uint_input L BOB ALICE t) (\<lambda>tax. and_then (uint_input L BOB BOB s) (\<lambda>sh. and_then (ul_add L price tax) (\<lambda>u.
       and_then (ul_add L u sh) (\<lambda>v. and_then (uint_reveal L v PUBLIC []) k2))))) n w Q"
proof (rule uint_pair_gives [OF L w _ t s], goal_cases)
  case (2 tax sh w2 m)
  have c: "carries L w2 price p" "carries L w2 tax t" "carries L w2 sh s"
    using banks_carries [OF 2(1)] 2(2,3) 2(5) p by blast+
  have r2: "ids_used w2 + ul_cost L \<le> UINT32_MAX" using room 2(4) by simp
  show ?case
  proof (rule gives_seq [OF op_gives [OF uint_layer_okD(5) [OF L] L 2(1) r2 c(1,2)]], goal_cases)
    case (1 u u' w3 m)
    note w3 = op_postD [OF 1]
    have r3: "ids_used w3 + ul_cost L \<le> UINT32_MAX" using room 2(4) w3(4) by simp
    have c3: "carries L w3 u (wrap L (p + t))" "carries L w3 sh s" using w3(3) w3(6) c(3) by simp_all
    have e: "wrap L (wrap L (p + t) + s) = wrap L (p + t + s)" by (simp add: wrap_def mod_add_left_eq)
    show ?case unfolding w3(1)
      by (rule sum_reveal_gives [OF L w3(2) r3 c3]) (use k in \<open>simp add: e\<close>)
  qed
qed (use room in simp)

text \<open>The joint run on the clear session.\<close>

lemma reveal_and_continue_gives:
  assumes L: "uint_layer_ok L" and le: "\<forall>x \<in> {budget, price, tax, shipping}. x < 2 ^ ul_width L"
    and room: "4 * ul_width L + 3 * ul_cost L \<le> UINT32_MAX"
  shows "clear_gives validate cn (reveal_and_continue L budget price tax shipping ALICE)
    (reveal_and_continue L budget price tax shipping BOB) 0 init_clear_world
    (\<lambda>x y w. x = (if price \<le> budget then 0 else 1) \<and> y = 0 \<and> True)"
proof -
  have lt: "budget < 2 ^ ul_width L" "price < 2 ^ ul_width L" "tax < 2 ^ ul_width L" "shipping < 2 ^ ul_width L"
    using le by blast+
  show ?thesis
    unfolding reveal_and_continue_def
  proof (rule uint_pair_gives [OF L init_tidy _ lt(1,2)], goal_cases)
    case (2 b p w2 m)
    have r2: "ids_used w2 + ul_cost L \<le> UINT32_MAX" using room 2(4) by (simp add: init_used)
    show ?case
    proof (rule gives_seq [OF op_gives [OF uint_layer_okD(8) [OF L] L 2(1) r2 banks_carries [OF 2(1,3)] banks_carries [OF 2(1,2)]]],
        goal_cases)
      case (1 le le' w3 m)
      note w3 = op_postD [OF 1]
      have g: "flush_guard (le @ concat []) (cw_s w3)"
        by (rule guard_and [of _ le]) (use 1 in \<open>simp_all add: op_post_def\<close>)
      have ne: "le \<noteq> []" using w3(3) by (auto simp: holds_def)
      show ?case unfolding w3(1)
      proof (rule gives_seq [OF reveal_gives [OF w3(2,3) _ g disjI1 [OF refl] ne]], goal_cases)
        case (2 x y w4 m)
        then have xy: "x = Some [price \<le> budget]" "y = Some [price \<le> budget]" and w4: "tidy w4" "ids_used w4 = ids_used w3"
          "stores w4 p (ul_encode L price)" using w3(5) \<open>banks L w2 p price\<close> by (simp_all add: party_defs flushed_def)
        have r4: "ids_used w4 + 2 * ul_width L + 2 * ul_cost L \<le> UINT32_MAX"
          using room \<open>ids_used w2 = _\<close> w3(4) w4(2) by (simp add: init_used)
        show ?case
        proof (cases "price \<le> budget")
          case True
          show ?thesis unfolding xy Let_def using True
            by (simp add: total_gives [OF L w4(1) r4 conjI [OF w4(3) lt(2)] lt(3,4)] gives_Return exit_code_def)
        qed (auto intro!: gives_Return simp: xy is_alice_def party_defs)
      qed simp
    qed
  qed (use room in \<open>simp add: init_used\<close>)
qed

text \<open>
  The program takes the branch the private values decide: when the price exceeds the budget party
  1 exits with code 1 and nothing more is opened, otherwise both go on with the price from before the
  opening and the total they open is the expected one.
\<close>

lemma reveal_and_continue_branches:
  fixes T :: "('m, 'd) tools"
  assumes "tools_ok T" and "pools_ok f g" and "uint_layer_ok L"
    and "\<forall>x \<in> {budget, price, tax, shipping}. x < 2 ^ ul_width L"
    and "4 * ul_width L + 3 * ul_cost L \<le> UINT32_MAX"
  shows "\<exists>n w. joint_run (session_call T) cn (reveal_and_continue L budget price tax shipping ALICE)
      (reveal_and_continue L budget price tax shipping BOB) 0 (init_world f g) =
    Inr ((if price \<le> budget then 0 else 1, 0), n, w)"
proof -
  obtain n w c where "joint_run (session_call T) cn (reveal_and_continue L budget price tax shipping ALICE)
      (reveal_and_continue L budget price tax shipping BOB) 0 (init_world f g) = Inr ((if price \<le> budget then 0 else 1, 0), n, w)"
    by (rule sessions_give [OF assms(1,2) reveal_and_continue_gives [OF assms(3-5)]])
  then show ?thesis by blast
qed

section \<open>Two numbers, and a reusable circuit\<close>

text \<open>\<^verbatim>\<open>1_basics.cpp\<close>: the sum and a comparison of it; the comparison is kept across the first opening.\<close>

definition basics :: "uint_layer \<Rightarrow> nat \<Rightarrow> nat \<Rightarrow> nat \<Rightarrow> nat \<Rightarrow> (nat \<times> bool \<times> nat) client" where
  "basics L alice_value bob_value bound party =
     and_then (uint_input L party ALICE alice_value) (\<lambda>a.
     and_then (uint_input L party BOB bob_value) (\<lambda>b.
     and_then (ul_add L a b) (\<lambda>s.
     and_then (ul_constant L bound) (\<lambda>c.
     and_then (ul_gt L s c) (\<lambda>bigger.
     and_then (uint_reveal L s PUBLIC [bigger]) (\<lambda>x.
     and_then (call_reveal bigger PUBLIC []) (\<lambda>y.
     let opened_sum = value_or 0 x; opened_cmp = value_or [False] y ! 0
     in Return (opened_sum, opened_cmp,
          exit_code party (opened_sum = wrap L (alice_value + bob_value) \<and> opened_cmp)))))))))"

text \<open>\<^verbatim>\<open>3_reusable_circuit.cpp\<close>: one compiled circuit run twice.\<close>

definition clear_score :: "uint_layer \<Rightarrow> nat \<Rightarrow> nat \<Rightarrow> nat" where
  "clear_score L x y = (let mixed = wrap L ((x + y) * (3 + 5)) in mixed XOR drop_bit 7 mixed)"

definition reusable_circuit :: "uint_layer \<Rightarrow> program \<Rightarrow> nat \<Rightarrow> nat \<Rightarrow> nat \<Rightarrow> nat \<Rightarrow> nat \<Rightarrow> nat client" where
  "reusable_circuit L score_circuit ax1 by1 ax2 by2 party =
     and_then (uint_input L party ALICE ax1) (\<lambda>a1.
     and_then (uint_input L party BOB by1) (\<lambda>b1.
     and_then (uint_input L party ALICE ax2) (\<lambda>a2.
     and_then (uint_input L party BOB by2) (\<lambda>b2.
     and_then (call_run score_circuit [a1, b1]) (\<lambda>z1.
     and_then (uint_reveal L z1 PUBLIC []) (\<lambda>x1.
     and_then (call_run score_circuit [a2, b2]) (\<lambda>z2.
     and_then (uint_reveal L z2 PUBLIC []) (\<lambda>x2.
     let out1 = value_or 0 x1; out2 = value_or 0 x2
     in Return (exit_code party (out1 = clear_score L ax1 by1 \<and> out2 = clear_score L ax2 by2))))))))))"


lemma basics_opens:
  fixes T :: "('m, 'd) tools"
  assumes "tools_ok T" and "pools_ok f g" and "uint_layer_ok L"
    and lt: "a < 2 ^ ul_width L" "b < 2 ^ ul_width L" "bound < 2 ^ ul_width L"
    and room: "2 * ul_width L + 3 * ul_cost L \<le> UINT32_MAX"
  defines "s \<equiv> wrap L (a + b)"
  shows "\<exists>n w. joint_run (session_call T) cn (basics L a b bound ALICE) (basics L a b bound BOB) 0 (init_world f g) =
    Inr (((s, s > bound, if s > bound then 0 else 1), (s, s > bound, 0)), n, w)"
proof -
  note L = assms(3)
  have "clear_gives (tl_validate T) cn (basics L a b bound ALICE) (basics L a b bound BOB) 0 init_clear_world
      (\<lambda>x y w. x = (s, s > bound, if s > bound then 0 else 1) \<and> y = (s, s > bound, 0) \<and> True)"
    unfolding basics_def
  proof (rule uint_pair_gives [OF L init_tidy _ lt(1,2)], goal_cases)
    case (2 u v w2 m)
    have r2: "ids_used w2 + ul_cost L \<le> UINT32_MAX" using room 2(4) by (simp add: init_used)
    show ?case
    proof (rule gives_seq [OF op_gives [OF uint_layer_okD(5) [OF L] L 2(1) r2 banks_carries [OF 2(1,2)] banks_carries [OF 2(1,3)]]],
        goal_cases)
      case (1 x x' w3 m)
      note w3 = op_postD [OF 1]
      have r3: "ids_used w3 + ul_cost L \<le> UINT32_MAX" using room 2(4) w3(4) by (simp add: init_used)
      show ?case unfolding w3(1)
      proof (rule gives_seq [OF constant_gives [OF L w3(2) r3 lt(3)]], goal_cases)
        case (1 k k' w4 m)
        then have w4: "tidy w4" "k' = k" "carries L w4 k bound" "carries L w4 x s" "ids_used w4 \<le> ids_used w3 + ul_cost L"
          using holds_keeps [OF _ w3(3)] lt(3) by (simp_all add: s_def)
        have r4: "ids_used w4 + ul_cost L \<le> UINT32_MAX" using room 2(4) w3(4) w4(5) by (simp add: init_used)
        show ?case unfolding w4(2)
        proof (rule gives_seq [OF op_gives [OF uint_layer_okD(9) [OF L] L w4(1) r4 w4(4,3)]], goal_cases)
          case (1 y y' w5 m)
          note w5 = op_postD [OF 1]
          have x5: "carries L w5 x s" using w5(6) w4(4) by blast
          have k5: "\<forall>z \<in> set (concat [y]). live (cw_s w5) z" using w5(3) by (simp add: holds_def)
          have g: "flush_guard (x @ concat [y]) (cw_s w5)"
            by (rule guard_and [of _ y]) (use 1 in \<open>simp_all add: op_post_def\<close>)
          show ?case unfolding w5(1)
          proof (rule gives_seq [OF uint_reveal_gives [OF L w5(2) x5 k5 g disjI1 [OF refl]]], goal_cases)
            case (1 p q w6 m)
            then have pq: "p = Some s" "q = Some s" and w6: "tidy w6" "stores w6 y [s > bound]"
              using flushed_stores [of "x @ concat [y]" w5 w6 y] w5(3) by (simp_all add: flushed_def party_defs)
            have ne: "[s > bound] \<noteq> []" "stores w6 (concat []) []" by (simp_all add: stores_def)
            show ?case
              by (rule gives_seq [OF reveal_stored_gives [OF w6(1,2) ne(2,1) disjI1 [OF refl]]])
                (auto intro!: gives_Return simp: pq open_post_def party_defs exit_code_def is_alice_def s_def)
          qed
        qed
      qed
    qed
  qed (use room in \<open>simp add: init_used\<close>)
  then obtain n w c where "joint_run (session_call T) cn (basics L a b bound ALICE) (basics L a b bound BOB) 0 (init_world f g) =
    Inr (((s, s > bound, if s > bound then 0 else 1), (s, s > bound, 0)), n, w)" by (rule sessions_give [OF assms(1,2)])
  then show ?thesis by blast
qed

text \<open>A compiled circuit of two arguments that computes \<open>h\<close>.\<close>

definition computes :: "uint_layer \<Rightarrow> (nat \<Rightarrow> nat \<Rightarrow> nat) \<Rightarrow> program \<Rightarrow> bool" where
  "computes L h prog \<longleftrightarrow> p_num_inputs prog = 2 * ul_width L \<and> length (p_outputs prog) = ul_width L \<and>
     (\<forall>x < 2 ^ ul_width L. \<forall>y < 2 ^ ul_width L. h x y < 2 ^ ul_width L \<and>
        prog_clear prog (ul_encode L x @ ul_encode L y) = ul_encode L (h x y))"

text \<open>Running it on two materialized values and opening the result.\<close>

lemma run_reveal_gives:
  assumes L: "uint_layer_ok L" and r: "runnable T prog" and h: "computes L h prog"
    and run: "run = call_run prog \<or> run = call_artifact (ul_width L) prog" and w: "tidy w"
    and room: "ids_used w + ul_width L \<le> UINT32_MAX" and a: "banks L w u x" and b: "banks L w v y"
    and k: "\<And>w' m. tidy w' \<Longrightarrow> ids_used w' = ids_used w + ul_width L \<Longrightarrow> (\<And>ids bits. stores w ids bits \<Longrightarrow> stores w' ids bits) \<Longrightarrow>
      clear_gives (tl_validate T) cn (k1 (Some (h x y))) (k2 (Some (h x y))) m w' Q"
  shows "clear_gives (tl_validate T) cn (and_then (run [u, v]) (\<lambda>z. and_then (uint_reveal L z PUBLIC []) k1))
    (and_then (run [u, v]) (\<lambda>z. and_then (uint_reveal L z PUBLIC []) k2)) n w Q"
proof -
  have st: "stores w (concat [u, v]) (ul_encode L x @ ul_encode L y)" using stores_append a b by simp
  have hx: "h x y < 2 ^ ul_width L" "prog_clear prog (ul_encode L x @ ul_encode L y) = ul_encode L (h x y)"
    "p_num_inputs prog = 2 * ul_width L" "length (p_outputs prog) = ul_width L"
    using h a b by (auto simp: computes_def)
  have len: "length (ul_encode L x @ ul_encode L y) = p_num_inputs prog"
    using uint_layer_okD(2) [OF L] a b hx(3) by simp
  have room': "ids_used w + length (p_outputs prog) \<le> UINT32_MAX" using room hx(4) by simp
  have "clear_gives (tl_validate T) cn (run [u, v]) (run [u, v]) n w (put_post w (ul_encode L (h x y)))"
    using run runnable_artifact [OF r w room' st len] unfolding hx(2,4) by blast
  then show ?thesis
  proof (rule gives_seq, goal_cases)
    case (1 z z' w1 m)
    note w1 = put_postD [OF 1]
    have n: "ids_used w1 = ids_used w + ul_width L" using w1(4) uint_layer_okD(2) [OF L hx(1)] by simp
    show ?case unfolding w1(1)
      by (rule gives_seq [OF uint_reveal_stored [OF L w1(2) conjI [OF w1(3) hx(1)]]]) (use k n w1(5) in simp)
  qed
qed


lemma reusable_circuit_exit:
  fixes T :: "('m, 'd) tools"
  assumes "tools_ok T" and "pools_ok f g" and "uint_layer_ok L"
    and prog: "runnable T score" "computes L (clear_score L) score"
    and lt: "x1 < 2 ^ ul_width L" "y1 < 2 ^ ul_width L" "x2 < 2 ^ ul_width L" "y2 < 2 ^ ul_width L"
    and room: "6 * ul_width L \<le> UINT32_MAX"
  shows "\<exists>n w. joint_run (session_call T) cn (reusable_circuit L score x1 y1 x2 y2 ALICE)
      (reusable_circuit L score x1 y1 x2 y2 BOB) 0 (init_world f g) = Inr ((0, 0), n, w)"
proof -
  note L = assms(3)
  have "clear_gives (tl_validate T) cn (reusable_circuit L score x1 y1 x2 y2 ALICE)
      (reusable_circuit L score x1 y1 x2 y2 BOB) 0 init_clear_world (\<lambda>a b w. a = 0 \<and> b = 0 \<and> True)"
    unfolding reusable_circuit_def
  proof (rule uint_pair_gives [OF L init_tidy _ lt(1,2)], goal_cases)
    case (2 a1 b1 w1 m)
    then have w1: "tidy w1" "banks L w1 a1 x1" "banks L w1 b1 y1" "ids_used w1 = 2 * ul_width L" by (simp_all add: init_used)
    have r1: "ids_used w1 + 2 * ul_width L \<le> UINT32_MAX" using room w1(4) by simp
    show ?case
    proof (rule uint_pair_gives [OF L w1(1) r1 lt(3,4)], goal_cases)
      case (1 a2 b2 w2 m)
      then have w2: "tidy w2" "banks L w2 a2 x2" "banks L w2 b2 y2" "banks L w2 a1 x1" "banks L w2 b1 y1"
        "ids_used w2 = 4 * ul_width L" using w1 by simp_all
      have r2: "ids_used w2 + ul_width L \<le> UINT32_MAX" using room w2(6) by simp
      show ?case
      proof (rule run_reveal_gives [OF L prog disjI1 [OF refl] w2(1) r2 w2(4,5)], goal_cases)
        case (1 w3 m)
        then have r3: "ids_used w3 + ul_width L \<le> UINT32_MAX" using room w2(6) by simp
        have b3: "banks L w3 a2 x2" "banks L w3 b2 y2" using 1(3) w2(2,3) by blast+
        show ?case
          by (rule run_reveal_gives [OF L prog disjI1 [OF refl] 1(1) r3 b3]) (simp add: gives_Return exit_code_def)
      qed
    qed
  qed (use room in \<open>simp add: init_used\<close>)
  then obtain n w c where "joint_run (session_call T) cn (reusable_circuit L score x1 y1 x2 y2 ALICE)
      (reusable_circuit L score x1 y1 x2 y2 BOB) 0 (init_world f g) = Inr ((0, 0), n, w)" by (rule sessions_give [OF assms(1,2)])
  then show ?thesis by blast
qed

section \<open>Programs that choose their calls\<close>



end
