(* ===== verification/Test_Programs.thy ===== *)
theory Test_Programs
  imports Examples
begin

text \<open>
  Tests of \<^verbatim>\<open>src/test\<close> as clients: \<^verbatim>\<open>test_flush_plan.cpp\<close>,
  \<^verbatim>\<open>test_direct_chunks.cpp\<close>, \<^verbatim>\<open>test_program_replay.cpp\<close> and
  \<^verbatim>\<open>test_aes_sha_builtin.cpp\<close>. Each scenario returns the truth value the test
  checks, and returns true.
\<close>

section \<open>The flush planner\<close>

text \<open>The four cases of \<^verbatim>\<open>test_flush_plan.cpp\<close>.\<close>

definition plan_basic_compaction :: bool where
  "plan_basic_compaction =
     (let chunk = [mk_gate 0 1 2 Op_And];
          p = plan_flush chunk [2] (\<lambda>i. i = 0 \<or> i = 1)
      in fp_ok p \<and> p_num_inputs (fp_prog p) = 2 \<and> length (p_gates (fp_prog p)) = 1 \<and>
         g_out (p_gates (fp_prog p) ! 0) = 2 \<and>
         length (fp_input_ids p) = 2 \<and> length (fp_output_ids p) = 1 \<and>
         fp_output_ids p ! 0 = 2 \<and> length (p_outputs (fp_prog p)) = 1)"

definition plan_dead_code :: bool where
  "plan_dead_code =
     (let chunk = [mk_gate 0 1 3 Op_And, mk_gate 0 2 4 Op_And];
          p = plan_flush chunk [3] (\<lambda>i. i \<le> 2)
      in fp_ok p \<and> length (p_gates (fp_prog p)) = 1 \<and> length (fp_output_ids p) = 1 \<and>
         fp_output_ids p ! 0 = 3 \<and> length (fp_input_ids p) = 2)"

definition plan_stale_operand :: bool where
  "plan_stale_operand =
     (let chunk = [mk_gate 0 9 2 Op_And];
          p = plan_flush chunk [2] (\<lambda>i. i = 0)
      in \<not> fp_ok p)"

definition plan_const_only :: bool where
  "plan_const_only =
     (let chunk = [mk_gate 0 0 5 Op_Const1];
          p = plan_flush chunk [5] (\<lambda>_. False)
      in fp_ok p \<and> p_num_inputs (fp_prog p) = 0 \<and> length (p_gates (fp_prog p)) = 1 \<and>
         length (p_outputs (fp_prog p)) = 1 \<and> length (fp_output_ids p) = 1)"

definition test_flush_plan :: nat where
  "test_flush_plan = (if plan_basic_compaction \<and> plan_dead_code \<and> plan_stale_operand \<and> plan_const_only then 0 else 1)"

lemma test_flush_plan_good: "test_flush_plan = 0"
  by code_simp

section \<open>Direct chunks\<close>

text \<open>\<^verbatim>\<open>batch_inputs\<close>, less the counter of input phases it reads at the end.\<close>

definition batch_inputs :: "uint_layer \<Rightarrow> nat \<Rightarrow> nat \<Rightarrow> nat \<Rightarrow> bool client" where
  "batch_inputs L X Y party =
     and_then call_batch (\<lambda>_.
     and_then (call_add ALICE (uint_array L party ALICE X)) (\<lambda>a.
     and_then (call_add BOB (uint_array L party BOB Y)) (\<lambda>b.
     and_then call_finish (\<lambda>_.
     and_then (ul_add L a b) (\<lambda>s.
     and_then (uint_reveal L s PUBLIC []) (\<lambda>out.
     Return (if party \<noteq> ALICE then True else out = Some (wrap L (X + Y)))))))))"

definition checkpoint_chain :: "uint_layer \<Rightarrow> nat \<Rightarrow> nat list \<Rightarrow> nat \<Rightarrow> bool client" where
  "checkpoint_chain L ini blk party =
     and_then (uint_input L party ALICE ini) (\<lambda>acc.
     and_then (for_each (\<lambda>k acc. and_then (uint_input L party BOB k) (\<lambda>x. and_then (ul_add L acc x) (\<lambda>acc.
       and_then (call_checkpoint [acc]) (\<lambda>_. Return acc)))) blk acc) (\<lambda>acc.
     let ref = fold (\<lambda>k ref. wrap L (ref + k)) blk ini
     in and_then (uint_reveal L acc PUBLIC []) (\<lambda>out.
     Return (if party \<noteq> ALICE then True else out = Some ref))))"

definition reveal_keep_list :: "uint_layer \<Rightarrow> nat \<Rightarrow> nat \<Rightarrow> nat \<Rightarrow> bool client" where
  "reveal_keep_list L X Y party =
     and_then (uint_input L party ALICE X) (\<lambda>a.
     and_then (uint_input L party BOB Y) (\<lambda>b.
     and_then (ul_add L a b) (\<lambda>p.
     and_then (ul_sub L a b) (\<lambda>q.
     and_then (uint_reveal L p PUBLIC [q]) (\<lambda>rp.
     and_then (uint_reveal L q PUBLIC []) (\<lambda>rq.
     Return (if party \<noteq> ALICE then True
       else rp = Some (wrap L (X + Y)) \<and> rq = Some (wrap L (X + (2 ^ ul_width L - Y))))))))))"

text \<open>A checkpoint without arguments drops all pending work and all state.\<close>

definition checkpoint_cleanup :: "uint_layer \<Rightarrow> nat \<Rightarrow> nat \<Rightarrow> nat \<Rightarrow> nat \<Rightarrow> nat \<Rightarrow> bool client" where
  "checkpoint_cleanup L x y z u party =
     and_then (uint_input L party ALICE x) (\<lambda>a.
     and_then (uint_input L party BOB y) (\<lambda>b.
     and_then (ul_add L a b) (\<lambda>_.
     and_then (call_checkpoint []) (\<lambda>_.
     and_then (uint_input L party ALICE z) (\<lambda>c.
     and_then (uint_input L party BOB u) (\<lambda>d.
     and_then (ul_add L c d) (\<lambda>s.
     and_then (uint_reveal L s PUBLIC []) (\<lambda>out.
     Return (if party \<noteq> ALICE then True else out = Some (wrap L (z + u)))))))))))"

text \<open>Both parties return true.\<close>

abbreviation passes :: "(program \<Rightarrow> bool) \<Rightarrow> (nat \<Rightarrow> call_coins) \<Rightarrow> (nat \<Rightarrow> bool client) \<Rightarrow> nat \<Rightarrow> clear_world \<Rightarrow> bool" where
  "passes validate cn test n w \<equiv> clear_gives validate cn (test ALICE) (test BOB) n w (\<lambda>a b w'. a = True \<and> b = True \<and> True)"

lemma batch_inputs_pass:
  assumes L: "uint_layer_ok L" and lt: "X < 2 ^ ul_width L" "Y < 2 ^ ul_width L"
    and room: "2 * ul_width L + ul_cost L \<le> UINT32_MAX"
  shows "passes validate cn (batch_inputs L X Y) 0 init_clear_world"
  unfolding batch_inputs_def
proof (rule batch_pair_gives [OF init_tidy _ uint_array_guard(1) [OF L disjI1 [OF refl] lt(1)]
      uint_array_guard(1) [OF L disjI2 [OF refl] lt(2)]], goal_cases)
  case (2 a b w m)
  have len: "length (uint_array L ALICE ALICE X) = ul_width L" "length (uint_array L ALICE BOB Y) = ul_width L"
    using uint_array_guard(3) [OF L _ lt(1)] uint_array_guard(3) [OF L _ lt(2)] by blast+
  have "banks L w a X" "banks L w b Y"
    using 2(2,3) lt uint_array_guard(2) [OF L _ lt(1)] uint_array_guard(2) [OF L _ lt(2)] by simp_all
  then have c: "carries L w a X" "carries L w b Y" using banks_carries [OF 2(1)] by blast+
  have r: "ids_used w + ul_cost L \<le> UINT32_MAX" using room 2(4) by (simp add: init_used len)
  show ?case by (rule sum_reveal_gives [OF L 2(1) r c]) (simp add: gives_Return)
qed (use room uint_array_guard(3) [OF L _ lt(1)] uint_array_guard(3) [OF L _ lt(2)] in \<open>simp add: init_used\<close>)

lemma checkpoint_cleanup_pass:
  assumes L: "uint_layer_ok L" and lt: "x < 2 ^ ul_width L" "y < 2 ^ ul_width L" "z < 2 ^ ul_width L" "u < 2 ^ ul_width L"
    and room: "4 * ul_width L + 2 * ul_cost L \<le> UINT32_MAX"
  shows "passes validate cn (checkpoint_cleanup L x y z u) 0 init_clear_world"
  unfolding checkpoint_cleanup_def
proof (rule uint_pair_gives [OF L init_tidy _ lt(1,2)], goal_cases)
  case (2 a b w1 m)
  have r1: "ids_used w1 + ul_cost L \<le> UINT32_MAX" using room 2(4) by (simp add: init_used)
  show ?case
  proof (rule gives_seq [OF op_gives [OF uint_layer_okD(5) [OF L] L 2(1) r1 banks_carries [OF 2(1,2)] banks_carries [OF 2(1,3)]]],
      goal_cases)
    case (1 s s' w2 m)
    note w2 = op_postD [OF 1]
    have g: "flush_guard (concat []) (cw_s w2)"
      by (rule flush_guard_idle [OF tidyD(2) [OF w2(2)]]) simp
    show ?case
    proof (rule gives_seq [OF checkpoint_gives [OF w2(2) _ g]], goal_cases)
      case (2 i i' w3 m)
      then have w3: "tidy w3" "ids_used w3 \<le> 2 * ul_width L + ul_cost L"
        using w2(4) \<open>ids_used w1 = _\<close> by (simp_all add: flushed_def init_used)
      have r3: "ids_used w3 + 2 * ul_width L \<le> UINT32_MAX" using room w3(2) by simp
      show ?case
      proof (rule uint_pair_gives [OF L w3(1) r3 lt(3,4)], goal_cases)
        case (1 c d w4 m)
        have r4: "ids_used w4 + ul_cost L \<le> UINT32_MAX" using room 1(4) w3(2) by simp
        show ?case
          by (rule sum_reveal_gives [OF L 1(1) r4 banks_carries [OF 1(1,2)] banks_carries [OF 1(1,3)]]) (simp add: gives_Return)
      qed
    qed simp
  qed
qed (use room in \<open>simp add: init_used\<close>)

lemma reveal_keep_list_pass:
  assumes L: "uint_layer_ok L" and lt: "X < 2 ^ ul_width L" "Y < 2 ^ ul_width L"
    and room: "2 * ul_width L + 2 * ul_cost L \<le> UINT32_MAX"
  shows "passes validate cn (reveal_keep_list L X Y) 0 init_clear_world"
  unfolding reveal_keep_list_def
proof (rule uint_pair_gives [OF L init_tidy _ lt], goal_cases)
  case (2 a b w1 m)
  note c1 = banks_carries [OF 2(1,2)] banks_carries [OF 2(1,3)]
  have r1: "ids_used w1 + ul_cost L \<le> UINT32_MAX" using room 2(4) by (simp add: init_used)
  show ?case
  proof (rule gives_seq [OF op_gives [OF uint_layer_okD(5) [OF L] L 2(1) r1 c1]], goal_cases)
    case (1 p p' w2 m)
    note w2 = op_postD [OF 1]
    have r2: "ids_used w2 + ul_cost L \<le> UINT32_MAX" using room 2(4) w2(4) by (simp add: init_used)
    have c2: "carries L w2 a X" "carries L w2 b Y" using c1 w2(6) by blast+
    show ?case unfolding w2(1)
    proof (rule gives_seq [OF op_gives [OF uint_layer_okD(6) [OF L] L w2(2) r2 c2]], goal_cases)
      case (1 q q' w3 m)
      note w3 = op_postD [OF 1]
      have p3: "carries L w3 p (wrap L (X + Y))" using w2(3) w3(6) by simp
      have q3: "\<forall>z \<in> set (concat [q]). live (cw_s w3) z" using w3(3) by (simp add: holds_def)
      have g: "flush_guard (p @ concat [q]) (cw_s w3)"
        by (rule guard_and [of _ q]) (use 1 in \<open>simp_all add: op_post_def\<close>)
      show ?case unfolding w3(1)
      proof (rule gives_seq [OF uint_reveal_gives [OF L w3(2) p3 q3 g disjI1 [OF refl]]], goal_cases)
        case (1 rp rp' w4 m)
        then have rp: "rp = Some (wrap L (X + Y))" and w4: "tidy w4"
          "banks L w4 q (wrap L (X + (2 ^ ul_width L - Y)))"
          using flushed_stores [of "p @ concat [q]" w3 w4 q] w3(3) by (simp_all add: flushed_def party_defs)
        show ?case
          by (rule gives_seq [OF uint_reveal_stored [OF L w4]]) (simp add: gives_Return rp party_defs)
      qed
    qed
  qed
qed (use room in \<open>simp add: init_used\<close>)

lemma checkpoint_chain_pass:
  assumes L: "uint_layer_ok L" and ini: "ini < 2 ^ ul_width L" and blk: "\<forall>k \<in> set blk. k < 2 ^ ul_width L"
    and room: "ul_width L + length blk * (ul_width L + ul_cost L) \<le> UINT32_MAX"
  shows "passes validate cn (checkpoint_chain L ini blk) 0 init_clear_world"
proof -
  let ?ref = "\<lambda>pre. fold (\<lambda>k ref. wrap L (ref + k)) pre ini" and ?c = "ul_width L + ul_cost L"
  define Inv where "Inv = (\<lambda>pre v v' w. v' = v \<and> tidy w \<and> banks L w v (?ref pre) \<and> ids_used w \<le> ul_width L + length pre * ?c)"
  show ?thesis unfolding checkpoint_chain_def
  proof (rule gives_seq [OF uint_input_gives [OF L init_tidy _ disjI1 [OF refl] ini]], goal_cases)
    case (2 acc acc' w1 m)
    have I: "Inv [] acc acc' w1"
      using put_postD [OF 2] ini uint_layer_okD(2) [OF L ini] by (simp add: Inv_def init_used)
    show ?case
    proof (rule gives_seq [OF gives_for_each [where Inv = Inv, OF I]], goal_cases)
      case (1 pre k rest v v' w m)
      then have w: "tidy w" "banks L w v (?ref pre)" "v' = v" "ids_used w \<le> ul_width L + length pre * ?c"
        and k: "k < 2 ^ ul_width L" using blk by (simp_all add: Inv_def)
      have "length pre * ?c + ?c \<le> length blk * ?c" using mult_le_mono1 [of "Suc (length pre)" "length blk" ?c] 1(1) by simp
      then have r: "ids_used w + ?c \<le> UINT32_MAX" using w(4) room by linarith
      have r': "ids_used w + ul_width L \<le> UINT32_MAX" using r by simp
      show ?case unfolding w(3)
      proof (rule gives_seq [OF uint_input_gives [OF L w(1) r' disjI2 [OF refl] k]], goal_cases)
        case (1 x x' w1 m)
        note w1 = put_postD [OF 1]
        have r1: "ids_used w1 + ul_cost L \<le> UINT32_MAX" using r w1(4) uint_layer_okD(2) [OF L k] by simp
        have c1: "carries L w1 v (?ref pre)" "carries L w1 x k" using banks_carries [OF w1(2)] w1(3,5) w(2) k by blast+
        show ?case unfolding w1(1)
        proof (rule gives_seq [OF op_gives [OF uint_layer_okD(5) [OF L] L w1(2) r1 c1]], goal_cases)
          case (1 s s' w2 m)
          note w2 = op_postD [OF 1]
          have kp: "\<forall>z \<in> set (concat [s]). live (cw_s w2) z" using w2(3) by (simp add: holds_def)
          have g: "flush_guard (concat [s]) (cw_s w2)" by (rule guard_and [of _ s]) (use 1 in \<open>simp_all add: op_post_def\<close>)
          show ?case unfolding w2(1)
          proof (rule gives_seq [OF checkpoint_gives [OF w2(2) kp g]], goal_cases)
            case (1 i i' w3 m)
            then have "banks L w3 s (?ref (pre @ [k]))" using flushed_stores [of "concat [s]" w2 w3 s] w2(3) by simp
            moreover have "ids_used w3 \<le> ul_width L + length (pre @ [k]) * ?c"
              using 1 w2(4) w1(4) w(4) uint_layer_okD(2) [OF L k] by (simp add: flushed_def)
            ultimately show ?case using 1 by (auto intro!: gives_Return simp: Inv_def flushed_def)
          qed
        qed
      qed
    next
      case (2 v v' w2 m)
      then have w2: "tidy w2" "banks L w2 v (?ref blk)" "v' = v" by (simp_all add: Inv_def)
      show ?case unfolding w2(3) Let_def
        by (rule gives_seq [OF uint_reveal_stored [OF L w2(1,2)]]) (simp add: gives_Return)
    qed
  qed (use room in \<open>simp add: init_used\<close>)
qed

text \<open>Each scenario in a session of its own, whatever the numbers.\<close>

lemma direct_chunks_pass:
  fixes T :: "('m, 'd) tools"
  assumes T: "tools_ok T" "pools_ok f g" and L: "uint_layer_ok L"
    and lt: "\<forall>x \<in> {X, Y, z, u, ini} \<union> set blk. x < 2 ^ ul_width L"
    and room: "4 * ul_width L + 2 * ul_cost L \<le> UINT32_MAX" "ul_width L + length blk * (ul_width L + ul_cost L) \<le> UINT32_MAX"
    and test: "test \<in> {batch_inputs L X Y, checkpoint_chain L ini blk, reveal_keep_list L X Y, checkpoint_cleanup L X Y z u}"
  shows "\<exists>n w. joint_run (session_call T) cn (test ALICE) (test BOB) 0 (init_world f g) = Inr ((True, True), n, w)"
proof -
  have "passes (tl_validate T) cn test 0 init_clear_world"
    using test lt room batch_inputs_pass [OF L] checkpoint_chain_pass [OF L] reveal_keep_list_pass [OF L] checkpoint_cleanup_pass [OF L]
    by auto
  then obtain n w c where "joint_run (session_call T) cn (test ALICE) (test BOB) 0 (init_world f g) = Inr ((True, True), n, w)"
    by (rule sessions_give [OF T])
  then show ?thesis by blast
qed

section \<open>Replay of compiled programs\<close>

text \<open>
  \<^verbatim>\<open>test_program_replay.cpp\<close>: three of its four scenarios, in one session. The
  compiled circuits are arguments.
\<close>

definition replay_run :: "uint_layer \<Rightarrow> program \<Rightarrow> nat \<Rightarrow> nat \<Rightarrow> nat \<Rightarrow> bool \<Rightarrow> bool client" where
  "replay_run L c xa yb party ok =
     and_then (uint_input L party ALICE xa) (\<lambda>a.
     and_then (uint_input L party BOB yb) (\<lambda>b.
     and_then (call_run c [a, b]) (\<lambda>z.
     and_then (uint_reveal L z PUBLIC []) (\<lambda>x.
     let got = value_or 0 x
     in Return (if party = ALICE then ok \<and> got = wrap L (xa + yb) else ok)))))"

definition replay_artifact :: "uint_layer \<Rightarrow> program \<Rightarrow> nat \<Rightarrow> nat \<Rightarrow> nat \<Rightarrow> bool \<Rightarrow> bool client" where
  "replay_artifact L prog xa yb party ok =
     and_then (uint_input L party ALICE xa) (\<lambda>a.
     and_then (uint_input L party BOB yb) (\<lambda>b.
     and_then (call_artifact (ul_width L) prog [a, b]) (\<lambda>z.
     and_then (uint_reveal L z PUBLIC []) (\<lambda>x.
     let got = value_or 0 x
     in Return (if party = ALICE then ok \<and> got = wrap L (xa + yb) else ok)))))"

text \<open>A wire of the chunk is no argument of a run until a checkpoint materializes it.\<close>

definition replay_checkpoint :: "uint_layer \<Rightarrow> program \<Rightarrow> nat \<Rightarrow> nat \<Rightarrow> nat \<Rightarrow> bool \<Rightarrow> bool client" where
  "replay_checkpoint L c xa yb party ok =
     and_then (uint_input L party ALICE xa) (\<lambda>a.
     and_then (uint_input L party BOB yb) (\<lambda>b.
     and_then (ul_add L a b) (\<lambda>z.
     and_then (call_checkpoint [z, b]) (\<lambda>_.
     and_then (call_run c [z, b]) (\<lambda>r.
     and_then (uint_reveal L r PUBLIC []) (\<lambda>x.
     let got = value_or 0 x
     in Return (if party = ALICE then ok \<and> got = wrap L (wrap L (xa + yb) + yb) else ok)))))))"

definition test_program_replay :: "uint_layer \<Rightarrow> program \<Rightarrow> program \<Rightarrow> (nat \<times> nat) list \<Rightarrow> nat \<Rightarrow> nat client" where
  "test_program_replay L c prog v party =
     and_then (replay_run L c (fst (v ! 0)) (snd (v ! 0)) party True) (\<lambda>ok.
     and_then (replay_artifact L prog (fst (v ! 1)) (snd (v ! 1)) party ok) (\<lambda>ok.
     and_then (replay_checkpoint L c (fst (v ! 2)) (snd (v ! 2)) party ok) (\<lambda>ok.
     Return (if party = ALICE \<and> \<not> ok then 1 else 0))))"

text \<open>Every scenario leaves the session usable and passes.\<close>

definition replay_post :: "uint_layer \<Rightarrow> clear_world \<Rightarrow> bool \<Rightarrow> bool \<Rightarrow> clear_world \<Rightarrow> bool" where
  "replay_post L w a b w' \<longleftrightarrow> a = True \<and> b = True \<and> tidy w' \<and> ids_used w' \<le> ids_used w + (3 * ul_width L + ul_cost L)"

lemma replay_run_gives:
  assumes L: "uint_layer_ok L" and p: "runnable T c" "computes L (\<lambda>x y. wrap L (x + y)) c" and w: "tidy w"
    and room: "ids_used w + 3 * ul_width L \<le> UINT32_MAX" and lt: "x < 2 ^ ul_width L" "y < 2 ^ ul_width L"
  shows "clear_gives (tl_validate T) cn (replay_run L c x y ALICE True) (replay_run L c x y BOB True) n w (replay_post L w)"
    and "clear_gives (tl_validate T) cn (replay_artifact L c x y ALICE True) (replay_artifact L c x y BOB True) n w (replay_post L w)"
  unfolding replay_run_def replay_artifact_def
proof (rule uint_pair_gives [OF L w _ lt], goal_cases)
  case (2 a b w1 m)
  have r: "ids_used w1 + ul_width L \<le> UINT32_MAX" using room 2(4) by simp
  show ?case
    by (rule run_reveal_gives [OF L p disjI1 [OF refl] 2(1) r 2(2,3)])
      (auto intro!: gives_Return simp: replay_post_def party_defs 2(4))
next
  show "clear_gives (tl_validate T) cn
      (and_then (uint_input L ALICE ALICE x) (\<lambda>a. and_then (uint_input L ALICE BOB y) (\<lambda>b.
         and_then (call_artifact (ul_width L) c [a, b]) (\<lambda>z. and_then (uint_reveal L z PUBLIC []) (\<lambda>u.
         let got = value_or 0 u in Return (if ALICE = ALICE then True \<and> got = wrap L (x + y) else True))))))
      (and_then (uint_input L BOB ALICE x) (\<lambda>a. and_then (uint_input L BOB BOB y) (\<lambda>b.
         and_then (call_artifact (ul_width L) c [a, b]) (\<lambda>z. and_then (uint_reveal L z PUBLIC []) (\<lambda>u.
         let got = value_or 0 u in Return (if BOB = ALICE then True \<and> got = wrap L (x + y) else True)))))) n w (replay_post L w)"
  proof (rule uint_pair_gives [OF L w _ lt], goal_cases)
    case (2 a b w1 m)
    have r: "ids_used w1 + ul_width L \<le> UINT32_MAX" using room 2(4) by simp
    show ?case
      by (rule run_reveal_gives [OF L p disjI2 [OF refl] 2(1) r 2(2,3)])
        (auto intro!: gives_Return simp: replay_post_def party_defs 2(4))
  qed (use room in simp)
qed (use room in simp)

lemma replay_checkpoint_gives:
  assumes L: "uint_layer_ok L" and p: "runnable T c" "computes L (\<lambda>x y. wrap L (x + y)) c" and w: "tidy w"
    and room: "ids_used w + (3 * ul_width L + ul_cost L) \<le> UINT32_MAX" and lt: "x < 2 ^ ul_width L" "y < 2 ^ ul_width L"
  shows "clear_gives (tl_validate T) cn (replay_checkpoint L c x y ALICE True) (replay_checkpoint L c x y BOB True) n w (replay_post L w)"
  unfolding replay_checkpoint_def
proof (rule uint_pair_gives [OF L w _ lt], goal_cases)
  case (2 a b w1 m)
  note c1 = banks_carries [OF 2(1,2)] banks_carries [OF 2(1,3)]
  have r1: "ids_used w1 + ul_cost L \<le> UINT32_MAX" using room 2(4) by simp
  show ?case
  proof (rule gives_seq [OF op_gives [OF uint_layer_okD(5) [OF L] L 2(1) r1 c1]], goal_cases)
    case (1 z z' w2 m)
    note w2 = op_postD [OF 1]
    have h: "holds w2 z (ul_encode L (wrap L (x + y)))" "holds w2 b (ul_encode L y)" using w2(3) w2(6) c1(2) by blast+
    have kp: "\<forall>v \<in> set (concat [z, b]). live (cw_s w2) v" using h by (auto simp: holds_def)
    have g: "flush_guard (concat [z, b]) (cw_s w2)" by (rule guard_and [of _ z]) (use 1 in \<open>simp_all add: op_post_def\<close>)
    show ?case unfolding w2(1)
    proof (rule gives_seq [OF checkpoint_gives [OF w2(2) kp g]], goal_cases)
      case (1 i i' w3 m)
      then have w3: "tidy w3" "banks L w3 z (wrap L (x + y))" "banks L w3 b y" "ids_used w3 = ids_used w2"
        using flushed_stores [of "concat [z, b]" w2 w3] h lt by (auto simp: flushed_def)
      have r3: "ids_used w3 + ul_width L \<le> UINT32_MAX" using room 2(4) w2(4) w3(4) by simp
      show ?case
        by (rule run_reveal_gives [OF L p disjI1 [OF refl] w3(1) r3 w3(2,3)])
          (use 2(4) w2(4) w3(4) in \<open>auto intro!: gives_Return simp: replay_post_def party_defs\<close>)
    qed
  qed
qed (use room in simp)

lemma test_program_replay_pass:
  fixes T :: "('m, 'd) tools"
  assumes T: "tools_ok T" "pools_ok f g" and L: "uint_layer_ok L"
    and c: "runnable T c" "computes L (\<lambda>x y. wrap L (x + y)) c" and p: "runnable T prog" "computes L (\<lambda>x y. wrap L (x + y)) prog"
    and lt: "\<forall>i < 3. fst (v ! i) < 2 ^ ul_width L \<and> snd (v ! i) < 2 ^ ul_width L"
    and room: "9 * ul_width L + 3 * ul_cost L \<le> UINT32_MAX"
  shows "\<exists>n w. joint_run (session_call T) cn (test_program_replay L c prog v ALICE) (test_program_replay L c prog v BOB) 0 (init_world f g) =
    Inr ((0, 0), n, w)"
proof -
  have lt': "fst (v ! i) < 2 ^ ul_width L" "snd (v ! i) < 2 ^ ul_width L" if "i < 3" for i using lt that by blast+
  have "clear_gives (tl_validate T) cn (test_program_replay L c prog v ALICE) (test_program_replay L c prog v BOB) 0 init_clear_world
      (\<lambda>a b w. a = 0 \<and> b = 0 \<and> True)"
    unfolding test_program_replay_def
  proof (rule gives_seq [OF replay_run_gives(1) [OF L c init_tidy]], goal_cases)
    case (4 a b w1 m)
    then have w1: "a = True" "b = True" "tidy w1" "ids_used w1 \<le> 3 * ul_width L + ul_cost L" by (simp_all add: replay_post_def init_used)
    have r1: "ids_used w1 + 3 * ul_width L \<le> UINT32_MAX" using room w1(4) by simp
    show ?case unfolding w1(1,2)
    proof (rule gives_seq [OF replay_run_gives(2) [OF L p w1(3) r1]], goal_cases)
      case (3 a b w2 m)
      then have w2: "a = True" "b = True" "tidy w2" "ids_used w2 \<le> 6 * ul_width L + 2 * ul_cost L" using w1(4) by (simp_all add: replay_post_def)
      have r2: "ids_used w2 + (3 * ul_width L + ul_cost L) \<le> UINT32_MAX" using room w2(4) by simp
      show ?case unfolding w2(1,2)
        by (rule gives_seq [OF replay_checkpoint_gives [OF L c w2(3) r2]])
          (use lt' in \<open>auto intro!: gives_Return simp: replay_post_def\<close>)
    qed (use lt' in simp_all)
  qed (use lt' room in \<open>simp_all add: init_used\<close>)
  then obtain n w d where "joint_run (session_call T) cn (test_program_replay L c prog v ALICE) (test_program_replay L c prog v BOB) 0 (init_world f g) =
    Inr ((0, 0), n, w)" by (rule sessions_give [OF T])
  then show ?thesis by blast
qed

section \<open>Stored programs\<close>

text \<open>
  \<^verbatim>\<open>test_aes_sha_builtin.cpp\<close>: party 2 owns every input; the stored programs and
  their inputs are arguments.
\<close>

definition check_builtin :: "program \<Rightarrow> bool list \<Rightarrow> nat \<Rightarrow> bool client" where
  "check_builtin prog in_bits party =
     and_then (call_input BOB (own_array party BOB in_bits)) (\<lambda>input.
     and_then (call_artifact (length (p_outputs prog)) prog [input]) (\<lambda>res.
     and_then (call_reveal res ALICE []) (\<lambda>out.
     Return (if party \<noteq> ALICE then True else out = Some (map nz (clear_eval prog (map bbyte in_bits)))))))"

definition test_builtins :: "(program \<times> bool list) list \<Rightarrow> nat \<Rightarrow> nat client" where
  "test_builtins progs party =
     and_then (for_each (\<lambda>(prog, in_bits) ok. and_then (check_builtin prog in_bits party) (\<lambda>b. Return (ok \<and> b))) progs True)
       (\<lambda>ok. Return (if party = ALICE \<and> \<not> ok then 1 else 0))"

definition builtin_cost :: "program \<Rightarrow> nat" where
  "builtin_cost prog = p_num_inputs prog + length (p_outputs prog)"

lemma check_builtin_gives:
  assumes "runnable T prog" and "tidy w" and "length bits = p_num_inputs prog" and "p_outputs prog \<noteq> []"
    and room: "ids_used w + builtin_cost prog \<le> UINT32_MAX"
  shows "clear_gives (tl_validate T) cn (check_builtin prog bits ALICE) (check_builtin prog bits BOB) n w
    (\<lambda>x y w'. x = True \<and> y = True \<and> tidy w' \<and> ids_used w' = ids_used w + builtin_cost prog)"
  unfolding check_builtin_def
proof (rule gives_seq [OF own_input_gives [OF disjI2 [OF refl] assms(2)]], goal_cases)
  case 1
  show ?case using room assms(3) by (simp add: builtin_cost_def)
next
  case (2 i i' w1 m)
  note w1 = put_postD [OF 2]
  have st: "stores w1 (concat [i]) bits" using w1(3) by simp
  have r1: "ids_used w1 + length (p_outputs prog) \<le> UINT32_MAX" using room w1(4) assms(3) by (simp add: builtin_cost_def)
  show ?case unfolding w1(1)
  proof (rule gives_seq [OF runnable_artifact(1) [OF assms(1) w1(2) r1 st assms(3)]], goal_cases)
    case (1 d d' w2 m)
    note w2 = put_postD [OF 1]
    have k: "stores w2 (concat []) []" by (simp add: stores_def)
    have len: "length (prog_clear prog bits) = length (p_outputs prog)" by (simp add: prog_clear_def clear_outputs_def)
    then have ne: "prog_clear prog bits \<noteq> []" using assms(4) by auto
    show ?case unfolding w2(1)
      by (rule gives_seq [OF reveal_stored_gives [OF w2(2,3) k ne disjI2 [OF disjI1 [OF refl]]]])
        (auto intro!: gives_Return simp: open_post_def party_defs clear_eval_bits w2(4) w1(4) len assms(3) builtin_cost_def)
  qed
qed

lemma test_builtins_pass:
  fixes T :: "('m, 'd) tools"
  assumes T: "tools_ok T" "pools_ok f g"
    and progs: "\<forall>(prog, bits) \<in> set progs. runnable T prog \<and> length bits = p_num_inputs prog \<and> p_outputs prog \<noteq> []"
    and room: "sum_list (map (builtin_cost \<circ> fst) progs) \<le> UINT32_MAX"
  shows "\<exists>n w. joint_run (session_call T) cn (test_builtins progs ALICE) (test_builtins progs BOB) 0 (init_world f g) = Inr ((0, 0), n, w)"
proof -
  define Inv where "Inv = (\<lambda>(pre :: (program \<times> bool list) list) a b w. a = True \<and> b = True \<and> tidy w \<and> ids_used w = sum_list (map (builtin_cost \<circ> fst) pre))"
  have I: "Inv [] True True init_clear_world" by (simp add: Inv_def init_tidy init_used)
  have "clear_gives (tl_validate T) cn (test_builtins progs ALICE) (test_builtins progs BOB) 0 init_clear_world (\<lambda>a b w. a = 0 \<and> b = 0 \<and> True)"
    unfolding test_builtins_def
  proof (rule gives_seq [OF gives_for_each [where Inv = Inv, OF I]], goal_cases)
    case (1 pre x rest a b w m)
    obtain prog bits where x: "x = (prog, bits)" by (cases x)
    have p: "runnable T prog" "length bits = p_num_inputs prog" "p_outputs prog \<noteq> []" using progs 1(1) by (auto simp: x)
    have w: "a = True" "b = True" "tidy w" "ids_used w = sum_list (map (builtin_cost \<circ> fst) pre)" using 1 by (simp_all add: Inv_def)
    have r: "ids_used w + builtin_cost prog \<le> UINT32_MAX" using room 1(1) w(4) by (simp add: x)
    show ?case unfolding x w(1,2) prod.case
      by (rule gives_seq [OF check_builtin_gives [OF p(1) w(3) p(2,3) r]]) (auto intro!: gives_Return simp: Inv_def w(4))
  next
    case (2 a b w m)
    then show ?case by (auto intro!: gives_Return simp: Inv_def)
  qed
  then obtain n w c where "joint_run (session_call T) cn (test_builtins progs ALICE) (test_builtins progs BOB) 0 (init_world f g) = Inr ((0, 0), n, w)"
    by (rule sessions_give [OF T])
  then show ?thesis by blast
qed

end
