(* ===== verification/Test_Context_Api.thy ===== *)
theory Test_Context_Api
  imports Examples
begin

text \<open>
  \<^verbatim>\<open>test_context_api.cpp\<close>: arithmetic, a public constant, a comparison opened to one party and
  signed integers. A signed integer of emp-tool is its residue, read as two's complement.
\<close>

definition uint_public :: "uint_layer \<Rightarrow> nat \<Rightarrow> wire list client" where
  "uint_public L x = call_input PUBLIC (map bbyte (ul_encode L x))"

definition residue :: "uint_layer \<Rightarrow> int \<Rightarrow> nat" where
  "residue L i = nat (i mod 2 ^ ul_width L)"

definition signed_value :: "uint_layer \<Rightarrow> nat \<Rightarrow> int" where
  "signed_value L x = (if x < 2 ^ (ul_width L - 1) then int x else int x - 2 ^ ul_width L)"

definition context_api :: "uint_layer \<Rightarrow> (wire list \<Rightarrow> wire list \<Rightarrow> wire list client) \<Rightarrow> uint_layer \<Rightarrow>
    nat \<Rightarrow> nat \<Rightarrow> nat \<Rightarrow> int \<Rightarrow> int \<Rightarrow> nat \<Rightarrow> (bool \<times> nat) client" where
  "context_api L lt IL X Y K sx sy party =
     and_then (uint_input L party ALICE X) (\<lambda>a.
     and_then (uint_input L party BOB Y) (\<lambda>b.
     and_then (ul_add L a b) (\<lambda>s.
     and_then (uint_reveal L s PUBLIC []) (\<lambda>r1.
     and_then (uint_public L 3) (\<lambda>three.
     and_then (uint_public L K) (\<lambda>kpub.
     and_then (ul_add L a b) (\<lambda>s2.
     and_then (ul_mul L s2 three) (\<lambda>m.
     and_then (ul_add L m kpub) (\<lambda>e.
     and_then (uint_reveal L e PUBLIC []) (\<lambda>r2.
     and_then (lt a b) (\<lambda>c.
     and_then (call_reveal c ALICE []) (\<lambda>r3.
     and_then (uint_input IL party ALICE (residue IL sx)) (\<lambda>ia.
     and_then (uint_input IL party BOB (residue IL sy)) (\<lambda>ib.
     and_then (ul_add IL ia ib) (\<lambda>t.
     and_then (uint_reveal IL t PUBLIC []) (\<lambda>r4.
     let got_sum = value_or 0 r1; got_expr = value_or 0 r2; got_signed = signed_value IL (value_or 0 r4);
         ok = (if party = BOB then r3 = None else True);
         ok = (if party = ALICE then ok \<and> got_sum = wrap L (X + Y) \<and> got_expr = wrap L (wrap L (wrap L (X + Y) * 3) + K) \<and>
                 r3 = Some [X < Y] \<and> got_signed = sx + sy
               else ok)
     in Return (ok, if party = ALICE \<and> \<not> ok then 1 else 0)))))))))))))))))"

section \<open>Rules\<close>

lemma uint_public_gives:
  assumes L: "uint_layer_ok L" and w: "tidy w" and room: "ids_used w + ul_width L \<le> UINT32_MAX" and x: "x < 2 ^ ul_width L"
  shows "clear_gives validate cn (uint_public L x) (uint_public L x) n w (put_post w (ul_encode L x))"
proof -
  let ?b = "map bbyte (ul_encode L x)"
  have "owner_bits PUBLIC ?b ?b = ul_encode L x" by (simp add: owner_bits_def comp_def)
  moreover have "input_guard PUBLIC ?b ?b" by (simp add: input_guard_def party_defs)
  ultimately show ?thesis
    using input_gives [OF w, of ?b PUBLIC ?b validate cn n] room uint_layer_okD(2) [OF L x] by (simp add: uint_public_def)
qed

text \<open>Two's complement: a sum in range is read back from the residues.\<close>

lemma signed_sum:
  assumes w: "0 < ul_width L" and r: "- (2 ^ (ul_width L - 1)) \<le> sx + sy" "sx + sy < 2 ^ (ul_width L - 1)"
  shows "signed_value L (wrap L (residue L sx + residue L sy)) = sx + sy"
proof -
  let ?M = "2 ^ ul_width L :: int"
  have M: "?M = 2 * 2 ^ (ul_width L - 1)" using w by (cases "ul_width L") simp_all
  have "int (wrap L (residue L sx + residue L sy)) = (sx mod ?M + sy mod ?M) mod ?M"
    by (simp add: wrap_def residue_def zmod_int)
  then have i: "int (wrap L (residue L sx + residue L sy)) = (sx + sy) mod ?M" by (simp add: mod_add_eq)
  have m: "(sx + sy) mod ?M = (if 0 \<le> sx + sy then sx + sy else sx + sy + ?M)"
  proof (cases "0 \<le> sx + sy")
    case True
    then show ?thesis using r(2) M by (simp add: mod_pos_pos_trivial)
  next
    case False
    have "(sx + sy) mod ?M = (sx + sy + ?M) mod ?M" by simp
    also have "\<dots> = sx + sy + ?M" using False r(1) M by (intro mod_pos_pos_trivial) auto
    finally show ?thesis using False by simp
  qed
  have "wrap L (residue L sx + residue L sy) < 2 ^ (ul_width L - 1) \<longleftrightarrow>
      int (wrap L (residue L sx + residue L sy)) < 2 ^ (ul_width L - 1)"
    by (metis of_nat_less_iff of_nat_numeral of_nat_power)
  then show ?thesis using r M unfolding signed_value_def i m by auto
qed

lemma residue_less: "residue L i < 2 ^ ul_width L"
  by (simp add: residue_def nat_less_iff)

text \<open>A comparison opened to the first party only.\<close>

lemma compare_reveal_gives:
  assumes lt: "op_spec L (\<lambda>x y. [x < y]) lt" and L: "uint_layer_ok L" and w: "tidy w"
    and room: "ids_used w + ul_cost L \<le> UINT32_MAX" and a: "carries L w a x" and b: "carries L w b y"
    and k: "\<And>w' m. tidy w' \<Longrightarrow> ids_used w' \<le> ids_used w + ul_cost L \<Longrightarrow>
      clear_gives validate cn (k1 (Some [x < y])) (k2 None) m w' Q"
  shows "clear_gives validate cn (and_then (lt a b) (\<lambda>v. and_then (call_reveal v ALICE []) k1))
    (and_then (lt a b) (\<lambda>v. and_then (call_reveal v ALICE []) k2)) n w Q"
proof (rule gives_seq [OF op_gives [OF lt L w room a b]], goal_cases)
  case (1 v v' w1 m)
  note w1 = op_postD [OF 1]
  have g: "flush_guard (v @ concat []) (cw_s w1)" by (rule guard_and [of _ v]) (use 1 in \<open>simp_all add: op_post_def\<close>)
  have ne: "v \<noteq> []" using holds_length [OF w1(3)] by auto
  show ?case unfolding w1(1)
  proof (rule gives_seq [OF reveal_gives [OF w1(2,3) _ g disjI2 [OF disjI1 [OF refl]] ne]], goal_cases)
    case (2 p q w2 m)
    then have pq: "p = Some [x < y]" "q = None" and w2: "tidy w2" "ids_used w2 \<le> ids_used w + ul_cost L"
      using w1(4) by (simp_all add: flushed_def party_defs)
    show ?case unfolding pq by (rule k [OF w2])
  qed simp
qed

section \<open>The test\<close>

text \<open>The second expression: \<open>(a + b) * 3 + K\<close>, on the materialized inputs and two public constants.\<close>

lemma expression_gives:
  assumes L: "uint_layer_ok L" and w: "tidy w" and lt: "(3 :: nat) < 2 ^ ul_width L" "K < 2 ^ ul_width L"
    and room: "ids_used w + 2 * ul_width L + 3 * ul_cost L \<le> UINT32_MAX"
    and a: "banks L w a X" and b: "banks L w b Y"
    and k: "\<And>w' m. tidy w' \<Longrightarrow> banks L w' a X \<Longrightarrow> banks L w' b Y \<Longrightarrow>
      ids_used w' \<le> ids_used w + 2 * ul_width L + 3 * ul_cost L \<Longrightarrow>
      clear_gives validate cn (k1 (Some (wrap L (wrap L (wrap L (X + Y) * 3) + K))))
        (k2 (Some (wrap L (wrap L (wrap L (X + Y) * 3) + K)))) m w' Q"
  defines "expr \<equiv> \<lambda>k. and_then (uint_public L 3) (\<lambda>three. and_then (uint_public L K) (\<lambda>kpub. and_then (ul_add L a b)
    (\<lambda>s. and_then (ul_mul L s three) (\<lambda>m. and_then (ul_add L m kpub) (\<lambda>e. and_then (uint_reveal L e PUBLIC []) k)))))"
  shows "clear_gives validate cn (expr k1) (expr k2) n w Q"
  unfolding expr_def
proof (rule gives_seq [OF uint_public_gives [OF L w _ lt(1)]], goal_cases)
  case (2 t t' w1 m)
  note w1 = put_postD [OF 2]
  have n: "length (ul_encode L 3) = ul_width L" "length (ul_encode L K) = ul_width L" using uint_layer_okD(2) [OF L] lt by blast+
  have r1: "ids_used w1 + ul_width L \<le> UINT32_MAX" using room w1(4) n by simp
  show ?case unfolding w1(1)
  proof (rule gives_seq [OF uint_public_gives [OF L w1(2) r1 lt(2)]], goal_cases)
    case (1 c c' w2 m)
    note w2 = put_postD [OF 1]
    have st: "banks L w2 a X" "banks L w2 b Y" "banks L w2 t 3" "banks L w2 c K" using a b w1(3,5) w2(3,5) lt by blast+
    have u2: "ids_used w2 = ids_used w + 2 * ul_width L" using w1(4) w2(4) n by simp
    then have r2: "ids_used w2 + ul_cost L \<le> UINT32_MAX" using room by simp
    note c2 = banks_carries [OF w2(2)]
    show ?case unfolding w2(1)
    proof (rule gives_seq [OF op_gives [OF uint_layer_okD(5) [OF L] L w2(2) r2 c2 [OF st(1)] c2 [OF st(2)]]], goal_cases)
      case (1 s s' w3 m)
      note w3 = op_postD [OF 1]
      have r3: "ids_used w3 + ul_cost L \<le> UINT32_MAX" using room u2 w3(4) by simp
      have c3: "carries L w3 s (wrap L (X + Y))" "carries L w3 t 3" "carries L w3 c K" using w3(3,6) c2 st(3,4) by simp_all
      show ?case unfolding w3(1)
      proof (rule gives_seq [OF op_gives [OF uint_layer_okD(7) [OF L] L w3(2) r3 c3(1,2)]], goal_cases)
        case (1 p p' w4 m)
        note w4 = op_postD [OF 1]
        have r4: "ids_used w4 + ul_cost L \<le> UINT32_MAX" using room u2 w3(4) w4(4) by simp
        have c4: "carries L w4 p (wrap L (wrap L (X + Y) * 3))" "carries L w4 c K" using w4(3,6) c3(3) by simp_all
        show ?case unfolding w4(1)
        proof (rule sum_reveal_gives [OF L w4(2) r4 c4], goal_cases)
          case (1 w5 m)
          show ?case
            by (rule k [OF 1(1)]) (use st 1(2,3) w3(4,5) w4(4,5) u2 in auto)
        qed
      qed
    qed
  qed
qed (use room in simp)

lemma context_api_pass:
  fixes T :: "('m, 'd) tools"
  assumes T: "tools_ok T" "pools_ok f g" and L: "uint_layer_ok L" and IL: "uint_layer_ok IL"
    and lt_op: "op_spec L (\<lambda>x y. [x < y]) lt"
    and lt: "X < 2 ^ ul_width L" "Y < 2 ^ ul_width L" "(3 :: nat) < 2 ^ ul_width L" "K < 2 ^ ul_width L"
    and s: "- (2 ^ (ul_width IL - 1)) \<le> sx + sy" "sx + sy < 2 ^ (ul_width IL - 1)"
    and room: "4 * ul_width L + 5 * ul_cost L + 2 * ul_width IL + ul_cost IL \<le> UINT32_MAX"
  shows "\<exists>n w. joint_run (session_call T) cn (context_api L lt IL X Y K sx sy ALICE) (context_api L lt IL X Y K sx sy BOB) 0
    (init_world f g) = Inr (((True, 0), (True, 0)), n, w)"
proof -
  have "clear_gives (tl_validate T) cn (context_api L lt IL X Y K sx sy ALICE) (context_api L lt IL X Y K sx sy BOB) 0
      init_clear_world (\<lambda>x y w. x = (True, 0) \<and> y = (True, 0) \<and> True)"
    unfolding context_api_def
  proof (rule uint_pair_gives [OF L init_tidy _ lt(1,2)], goal_cases)
    case (2 a b w1 m)
    have r1: "ids_used w1 + ul_cost L \<le> UINT32_MAX" using room 2(4) by (simp add: init_used)
    show ?case
    proof (rule sum_reveal_gives [OF L 2(1) r1 banks_carries [OF 2(1,2)] banks_carries [OF 2(1,3)]], goal_cases)
      case (1 w2 m)
      have st: "banks L w2 a X" "banks L w2 b Y" using 1(3) 2(2,3) by blast+
      have r2: "ids_used w2 + 2 * ul_width L + 3 * ul_cost L \<le> UINT32_MAX" using room 1(2) 2(4) by (simp add: init_used)
      show ?case
      proof (rule expression_gives [OF L 1(1) lt(3,4) r2 st], goal_cases)
        case (1 w3 m)
        have r3: "ids_used w3 + ul_cost L \<le> UINT32_MAX"
          using room 1(4) \<open>ids_used w2 \<le> _\<close> 2(4) by (simp add: init_used)
        show ?case
        proof (rule compare_reveal_gives [OF lt_op L 1(1) r3 banks_carries [OF 1(1,2)] banks_carries [OF 1(1,3)]], goal_cases)
          case (1 w4 m)
          have r4: "ids_used w4 + 2 * ul_width IL \<le> UINT32_MAX"
            using room 1(2) \<open>ids_used w3 \<le> _\<close> \<open>ids_used w2 \<le> _\<close> 2(4) by (simp add: init_used)
          show ?case
          proof (rule uint_pair_gives [OF IL 1(1) r4 residue_less residue_less], goal_cases)
            case (1 ia ib w5 m)
            have r5: "ids_used w5 + ul_cost IL \<le> UINT32_MAX"
              using room 1(4) \<open>ids_used w4 \<le> _\<close> \<open>ids_used w3 \<le> _\<close> \<open>ids_used w2 \<le> _\<close> 2(4) by (simp add: init_used)
            show ?case
              by (rule sum_reveal_gives [OF IL 1(1) r5 banks_carries [OF 1(1,2)] banks_carries [OF 1(1,3)]])
                (simp add: gives_Return party_defs signed_sum [OF uint_layer_okD(1) [OF IL] s])
          qed
        qed
      qed
    qed
  qed (use room in \<open>simp add: init_used\<close>)
  then obtain n w c where "joint_run (session_call T) cn (context_api L lt IL X Y K sx sy ALICE)
      (context_api L lt IL X Y K sx sy BOB) 0 (init_world f g) = Inr (((True, 0), (True, 0)), n, w)" by (rule sessions_give [OF T])
  then show ?thesis by blast
qed

end
