(* ===== verification/Test_Body_Replay.thy ===== *)
theory Test_Body_Replay
  imports Examples
begin

text \<open>
  \<^verbatim>\<open>test_body_replay_equiv.cpp\<close>: the same circuit run as a live body and as a compiled program,
  each in a session of its own with the same coins. The test compares the openings and digests of the
  transcripts; here the two runs are the same to the last state of both parties.
\<close>

definition call_body :: "(wire list list \<Rightarrow> body) \<Rightarrow> wire list list \<Rightarrow> wire list client" where
  "call_body f args = Request (Req_Body f args) (\<lambda>a. Return (wires_of a))"

text \<open>One run: the digest is not part of a client's answers.\<close>

definition replay_result :: "uint_layer \<Rightarrow> (wire list list \<Rightarrow> wire list client) \<Rightarrow> nat \<Rightarrow> nat \<Rightarrow> nat \<Rightarrow> (nat \<times> bool) client" where
  "replay_result L run av bv party =
     and_then (uint_input L party ALICE av) (\<lambda>a.
     and_then (uint_input L party BOB bv) (\<lambda>b.
     and_then (run [a, b]) (\<lambda>z.
     and_then (uint_reveal L z ALICE []) (\<lambda>r.
     Return (value_or 0 r, r \<noteq> None)))))"

definition run_body_client :: "uint_layer \<Rightarrow> (wire list list \<Rightarrow> body) \<Rightarrow> nat \<Rightarrow> nat \<Rightarrow> nat \<Rightarrow> (nat \<times> bool) client" where
  "run_body_client L f = replay_result L (call_body f)"

definition run_comp_client :: "uint_layer \<Rightarrow> program \<Rightarrow> nat \<Rightarrow> nat \<Rightarrow> nat \<Rightarrow> (nat \<times> bool) client" where
  "run_comp_client L c = replay_result L (call_run c)"

section \<open>Both runs are the same\<close>

lemma body_replay_equiv:
  fixes T :: "('m, 'd) tools"
  assumes T: "tools_ok T" "pools_ok h1 h2" and L: "uint_layer_ok L"
    and lt: "av < 2 ^ ul_width L" "bv < 2 ^ ul_width L" and room: "2 * ul_width L \<le> UINT32_MAX"
    and c: "tl_validate T c" "record_canonical c" "p_num_inputs c = 2 * ul_width L"
    and f: "stream_of (p_num_inputs c) (body_replay [ul_width L, ul_width L] f) = (p_outputs c, prog_evs c)"
  shows "joint_run (session_call T) cn (run_body_client L f av bv ALICE) (run_body_client L f av bv BOB) 0 (init_world h1 h2) =
    joint_run (session_call T) cn (run_comp_client L c av bv ALICE) (run_comp_client L c av bv BOB) 0 (init_world h1 h2)"
proof -
  define ins where "ins = (\<lambda>party. and_then (uint_input L party ALICE av) (\<lambda>a. and_then (uint_input L party BOB bv) (\<lambda>b. Return (a, b))))"
  define rest where "rest = (\<lambda>(run :: wire list list \<Rightarrow> wire list client) (a, b). and_then (run [a, b]) (\<lambda>z. and_then (uint_reveal L z ALICE []) (\<lambda>r.
     Return (value_or 0 r, r \<noteq> None))))"
  have split: "replay_result L run av bv party = and_then (ins party) (rest run)" for run party
    by (simp add: replay_result_def ins_def rest_def)
  have "clear_gives (tl_validate T) cn (ins ALICE) (ins BOB) 0 init_clear_world
      (\<lambda>x y w. y = x \<and> banks L w (fst x) av \<and> banks L w (snd x) bv)"
    unfolding ins_def
    by (rule uint_pair_gives [OF L init_tidy _ lt]) (use room in \<open>simp_all add: init_used gives_Return\<close>)
  then obtain x y m w v where r: "joint_run (session_call T) cn (ins ALICE) (ins BOB) 0 (init_world h1 h2) = Inr ((x, y), m, w)"
    and rel: "world_rel w v" and q: "y = x" "banks L v (fst x) av" "banks L v (snd x) bv"
    by (rule sessions_after [OF T]) blast
  obtain a b where x: "x = (a, b)" by (cases x)
  have "length a = ul_width L" "length b = ul_width L"
    using q(2,3) uint_layer_okD(2) [OF L] lt by (auto simp: x stores_def dest: map_eq_imp_length_eq)
  then have same: "session_call T (Call_Body f [a, b] rc) w = session_call T (Call_Run c [a, b] rc) w" for rc
    using f c(3) by (intro session_body_compiled [OF T(1) rel c(1,2)]) simp_all
  have tail: "joint_run (session_call T) cn (rest (call_body f) x) (rest (call_body f) y) m w =
      joint_run (session_call T) cn (rest (call_run c) x) (rest (call_run c) y) m w"
    by (simp add: rest_def q(1) x call_body_def call_run_def join_requests_def same del: session_call.simps)
  show ?thesis
    unfolding run_body_client_def run_comp_client_def split joint_run_seq [OF r] tail ..
qed

end
