(* ===== verification/Profiling.thy ===== *)
theory Profiling
  imports Complex_Main Prelude
begin

text \<open>
  The opt-in measurements of \<^verbatim>\<open>backend/profiling.h\<close>, compiled in with
  \<^verbatim>\<open>AG2PC_PROFILE\<close>. A reading is what the clock, the byte counters of the two channels and
  \<^verbatim>\<open>getrusage\<close> give at a point of the program: an argument of the macros. A printed line is
  the tuple of its values. Nothing of a run depends on them.
\<close>

section \<open>Readings\<close>

text \<open>The byte counters of a channel, and their total over both channels of a party.\<close>

record channel =
  ch_send_counter :: "64 word"
  ch_recv_counter :: "64 word"

definition io_count :: "channel \<Rightarrow> channel \<Rightarrow> 64 word" where
  "io_count send_io recv_io =
     ch_send_counter send_io + ch_recv_counter send_io + ch_send_counter recv_io + ch_recv_counter recv_io"

text \<open>\<^verbatim>\<open>ru_maxrss\<close> is in bytes on macOS and in KiB elsewhere.\<close>

definition peak_rss_kib :: "bool \<Rightarrow> int \<Rightarrow> int" where
  "peak_rss_kib apple ru_maxrss = (if apple then ru_maxrss div 1024 else ru_maxrss)"

record reading =
  rd_now :: "64 word"
  rd_count :: "64 word"
  rd_rss :: int

text \<open>A time in nanoseconds as milliseconds; quotients are exact here.\<close>

definition ms :: "64 word \<Rightarrow> rat" where
  "ms ns = of_int (uint ns) / 10 ^ 6"

section \<open>Phases\<close>

text \<open>The two variables the macros keep at their call site, and a printed line.\<close>

record phase_mark =
  pm_t :: "64 word"
  pm_c :: "64 word"

record phase_row =
  pr_name :: string
  pr_ns :: "64 word"
  pr_bytes :: "64 word"
  pr_rss :: int

definition phase_begin :: "reading \<Rightarrow> phase_mark" where
  "phase_begin r = \<lparr>pm_t = rd_now r, pm_c = rd_count r\<rparr>"

definition phase :: "nat \<Rightarrow> string \<Rightarrow> reading \<Rightarrow> phase_mark \<Rightarrow> phase_row list \<times> phase_mark" where
  "phase party name r m =
     ((if party = 1 then [\<lparr>pr_name = name, pr_ns = rd_now r - pm_t m, pr_bytes = rd_count r - pm_c m, pr_rss = rd_rss r\<rparr>]
       else []), m\<lparr>pm_t := rd_now r, pm_c := rd_count r\<rparr>)"

text \<open>The timer inside the leaky-AND phases.\<close>

record tp_row =
  tr_name :: string
  tr_ns :: "64 word"

definition tp_begin :: "64 word \<Rightarrow> 64 word" where
  "tp_begin now = now"

definition tp_mark :: "nat \<Rightarrow> string \<Rightarrow> 64 word \<Rightarrow> 64 word \<Rightarrow> tp_row list \<times> 64 word" where
  "tp_mark party name now t = ((if party = 1 then [\<lparr>tr_name = name, tr_ns = now - t\<rparr>] else []), now)"

text \<open>One row of the byte census: the total in MiB and the bytes per AND gate.\<close>

definition mem_row :: "string \<Rightarrow> rat \<Rightarrow> rat \<Rightarrow> string \<times> rat \<times> rat" where
  "mem_row label bytes d = (label, bytes / (1024 * 1024), if 0 < d then bytes / d else 0)"

text \<open>The phases of a function, one after the other.\<close>

fun phases :: "nat \<Rightarrow> (string \<times> reading) list \<Rightarrow> phase_mark \<Rightarrow> phase_row list \<times> phase_mark" where
  "phases party [] m = ([], m)"
| "phases party ((name, r) # ps) m =
     (let (rows, m) = phase party name r m; (rows', m) = phases party ps m in (rows @ rows', m))"

text \<open>
  The lines of a function account for all of it: their times and bytes sum to the difference of the
  last and the first reading, one line per phase in order, and only the first party prints.
\<close>

lemma phases_mark: "snd (phases party ps m) = (if ps = [] then m else phase_begin (snd (last ps)))"
  by (induction ps arbitrary: m) (auto simp: phase_def phase_begin_def case_prod_beta)

lemma phases_rows:
  assumes "fst (phases 1 ps m) = rows"
  shows "map pr_name rows = map fst ps"
    and "sum_list (map pr_ns rows) = pm_t (snd (phases 1 ps m)) - pm_t m"
    and "sum_list (map pr_bytes rows) = pm_c (snd (phases 1 ps m)) - pm_c m"
  using assms by (induction ps arbitrary: m rows) (auto simp: phase_def case_prod_beta)

lemma phases_silent: "party \<noteq> 1 \<Longrightarrow> fst (phases party ps m) = []"
  by (induction ps arbitrary: m) (auto simp: phase_def case_prod_beta)

section \<open>Accumulators\<close>

text \<open>The globals of the leaky-AND phases.\<close>

record counters =
  ct_phi_bytes :: "64 word"
  ct_cot_bytes :: "64 word"
  ct_cot_ns :: "64 word"
  ct_hg_ns :: "64 word"
  ct_sopen_ns :: "64 word"
  ct_feq_ns :: "64 word"
  ct_bkt_ns :: "64 word"

definition no_counters :: counters where
  "no_counters = \<lparr>ct_phi_bytes = 0, ct_cot_bytes = 0, ct_cot_ns = 0, ct_hg_ns = 0, ct_sopen_ns = 0,
     ct_feq_ns = 0, ct_bkt_ns = 0\<rparr>"

text \<open>\<^verbatim>\<open>compute_inplace\<close> resets the five times at its start; \<^verbatim>\<open>gen_cot_shares\<close> adds to two.\<close>

definition reset_times :: "counters \<Rightarrow> counters" where
  "reset_times c = c\<lparr>ct_cot_ns := 0, ct_hg_ns := 0, ct_sopen_ns := 0, ct_feq_ns := 0, ct_bkt_ns := 0\<rparr>"

definition cot_extend :: "64 word \<Rightarrow> 64 word \<Rightarrow> 64 word \<Rightarrow> 64 word \<Rightarrow> counters \<Rightarrow> counters" where
  "cot_extend t0 t1 c0 c1 c = c\<lparr>ct_cot_ns := ct_cot_ns c + (t1 - t0), ct_cot_bytes := ct_cot_bytes c + (c1 - c0)\<rparr>"

definition half_gate_join :: "64 word \<Rightarrow> 64 word \<Rightarrow> counters \<Rightarrow> counters" where
  "half_gate_join t0 t1 c = c\<lparr>ct_hg_ns := ct_hg_ns c + (t1 - t0)\<rparr>"

definition s_open :: "64 word \<Rightarrow> 64 word \<Rightarrow> counters \<Rightarrow> counters" where
  "s_open t0 t1 c = c\<lparr>ct_sopen_ns := ct_sopen_ns c + (t1 - t0)\<rparr>"

definition f_eq :: "64 word \<Rightarrow> 64 word \<Rightarrow> counters \<Rightarrow> counters" where
  "f_eq t0 t1 c = c\<lparr>ct_feq_ns := ct_feq_ns c + (t1 - t0)\<rparr>"

definition bucket_time :: "64 word \<Rightarrow> 64 word \<Rightarrow> counters \<Rightarrow> counters" where
  "bucket_time t0 t1 c = c\<lparr>ct_bkt_ns := ct_bkt_ns c + (t1 - t0)\<rparr>"

text \<open>The lines \<^verbatim>\<open>compute_inplace\<close> prints at its end; the first has a byte count.\<close>

definition breakdown :: "nat \<Rightarrow> counters \<Rightarrow> (string \<times> rat \<times> 64 word option) list" where
  "breakdown party c =
     (if party = 1 then
        [(''COT extend'', ms (ct_cot_ns c), Some (ct_cot_bytes c)), (''half-gate join'', ms (ct_hg_ns c), None),
         (''s-open + combine'', ms (ct_sopen_ns c), None), (''F_eq'', ms (ct_feq_ns c), None),
         (''bucket layers'', ms (ct_bkt_ns c), None)]
      else [])"

text \<open>
  The events of a program that touch the accumulators. A time covers the last
  \<^verbatim>\<open>compute_inplace\<close> only, the COT bytes every draw since the start of the process.
\<close>

datatype count_event =
    Reset_Times
  | Cot_Extend "64 word" "64 word" "64 word" "64 word"
  | Half_Gate_Join "64 word" "64 word"
  | S_Open "64 word" "64 word"
  | F_Eq "64 word" "64 word"
  | Bucket_Layer "64 word" "64 word"

primrec count_step :: "count_event \<Rightarrow> counters \<Rightarrow> counters" where
  "count_step Reset_Times = reset_times"
| "count_step (Cot_Extend t0 t1 c0 c1) = cot_extend t0 t1 c0 c1"
| "count_step (Half_Gate_Join t0 t1) = half_gate_join t0 t1"
| "count_step (S_Open t0 t1) = s_open t0 t1"
| "count_step (F_Eq t0 t1) = f_eq t0 t1"
| "count_step (Bucket_Layer t0 t1) = bucket_time t0 t1"

primrec cot_ns :: "count_event \<Rightarrow> 64 word" where
  "cot_ns Reset_Times = 0"
| "cot_ns (Cot_Extend t0 t1 c0 c1) = t1 - t0"
| "cot_ns (Half_Gate_Join t0 t1) = 0"
| "cot_ns (S_Open t0 t1) = 0"
| "cot_ns (F_Eq t0 t1) = 0"
| "cot_ns (Bucket_Layer t0 t1) = 0"

primrec cot_bytes :: "count_event \<Rightarrow> 64 word" where
  "cot_bytes Reset_Times = 0"
| "cot_bytes (Cot_Extend t0 t1 c0 c1) = c1 - c0"
| "cot_bytes (Half_Gate_Join t0 t1) = 0"
| "cot_bytes (S_Open t0 t1) = 0"
| "cot_bytes (F_Eq t0 t1) = 0"
| "cot_bytes (Bucket_Layer t0 t1) = 0"

lemmas count_step_defs = reset_times_def cot_extend_def half_gate_join_def s_open_def f_eq_def bucket_time_def

lemma count_step_cot:
  "ct_cot_bytes (count_step e c) = ct_cot_bytes c + cot_bytes e"
  "ct_phi_bytes (count_step e c) = ct_phi_bytes c"
  "Reset_Times \<noteq> e \<Longrightarrow> ct_cot_ns (count_step e c) = ct_cot_ns c + cot_ns e"
  by (cases e; simp add: count_step_defs)+

lemma cot_bytes_total: "ct_cot_bytes (fold count_step es c) = ct_cot_bytes c + sum_list (map cot_bytes es)"
  by (induction es arbitrary: c) (simp_all add: count_step_cot add.assoc)

lemma cot_ns_total:
  "Reset_Times \<notin> set es \<Longrightarrow> ct_cot_ns (fold count_step es c) = ct_cot_ns c + sum_list (map cot_ns es)"
  by (induction es arbitrary: c) (simp_all add: count_step_cot add.assoc)

lemma cot_line_mixes_spans:
  assumes "Reset_Times \<notin> set es"
  shows "hd (breakdown 1 (fold count_step (before @ Reset_Times # es) no_counters)) =
    (''COT extend'', ms (sum_list (map cot_ns es)), Some (sum_list (map cot_bytes (before @ es))))"
  by (simp add: breakdown_def cot_bytes_total cot_ns_total [OF assms] no_counters_def)
    (simp add: reset_times_def cot_bytes_total)

lemma phi_bytes_never_counted: "ct_phi_bytes (fold count_step es no_counters) = 0"
proof -
  have "ct_phi_bytes (fold count_step es c) = ct_phi_bytes c" for c
    by (induction es arbitrary: c) (simp_all add: count_step_cot)
  then show ?thesis by (simp add: no_counters_def)
qed

end
